(* ===== verification/Rust_Base.thy ===== *)
theory Rust_Base
  imports Main "HOL-Library.Word"
begin

text \<open>
  Shared vocabulary of the development: the machine integers of the sources, the three-valued
  result of Rust's \<open>Ord::cmp\<close>, and the generic facts on words, options and lists that the
  component theories use. Nothing here models a function of the repository; it models the part
  of the language and of its standard library that the sources use.
\<close>

section \<open>Machine integers\<close>

text \<open>
  \<open>u8\<close> counters are kept at their width. An addition that overflows panics in a debug build and
  wraps in a release build; the components prove that theirs never do, so that the two builds
  agree.
\<close>

type_synonym u8 = "8 word"
type_synonym u32 = "32 word"
type_synonym u64 = "64 word"
type_synonym i64 = "64 word"

lemma u8_inc_unat: "x < (y :: u8) \<Longrightarrow> unat (x + 1) = Suc (unat x)"
proof -
  assume "x < y"
  then have "unat x < unat y" by (simp add: word_less_nat_alt)
  moreover have "unat y < 2 ^ 8" using unsigned_less [of y, where 'a = nat] by simp
  ultimately show ?thesis by (simp add: unat_word_ariths)
qed

lemmas u8_nat = word_le_nat_alt word_less_nat_alt

lemma u8_inc_le: "x < (y :: u8) \<Longrightarrow> x + 1 \<le> y"
  by (simp add: word_less_nat_alt word_le_nat_alt u8_inc_unat)

lemma u8_less_inc: "x < (y :: u8) \<Longrightarrow> x < x + 1"
  by (simp add: word_less_nat_alt u8_inc_unat)

lemma u8_inc_mono: "a \<le> b \<Longrightarrow> b < (c :: u8) \<Longrightarrow> a + 1 \<le> b + 1"
  using u8_inc_unat [of a c] u8_inc_unat [of b c] by (simp add: u8_nat)

section \<open>Results\<close>

text \<open>
  \<open>Result<T, E>\<close> is the sum with the error on the left. \<open>and_then\<close> is what the \<open>?\<close> operator does
  with the rest of a function, and \<open>collect_results\<close> is \<open>collect::<Result<Vec<_>, _>>\<close>, which stops at
  the first error.
\<close>

type_synonym ('e, 'a) result = "'e + 'a"

fun and_then :: "('e, 'a) result \<Rightarrow> ('a \<Rightarrow> ('e, 'b) result) \<Rightarrow> ('e, 'b) result" where
  "and_then (Inl e) f = Inl e"
| "and_then (Inr x) f = f x"

fun collect_results :: "('e, 'a) result list \<Rightarrow> ('e, 'a list) result" where
  "collect_results [] = Inr []"
| "collect_results (r # rs) = and_then r (\<lambda>x. and_then (collect_results rs) (\<lambda>xs. Inr (x # xs)))"

definition map_err :: "('e \<Rightarrow> 'f) \<Rightarrow> ('e, 'a) result \<Rightarrow> ('f, 'a) result" where
  "map_err f r = (case r of Inl e \<Rightarrow> Inl (f e) | Inr x \<Rightarrow> Inr x)"

definition is_ok :: "('e, 'a) result \<Rightarrow> bool" where
  "is_ok r \<longleftrightarrow> (\<exists>x. r = Inr x)"

text \<open>
  How a computation ends that may also panic or not end at all: \<open>ok_then\<close> goes on with its value, and
  \<open>ended\<close> is a computation that only gives a result.
\<close>

datatype 'a ending = Ok 'a | Err string | Panics | Loops

fun ok_then :: "'a ending \<Rightarrow> ('a \<Rightarrow> 'b ending) \<Rightarrow> 'b ending" where
  "ok_then (Ok x) f = f x"
| "ok_then (Err e) f = Err e"
| "ok_then Panics f = Panics"
| "ok_then Loops f = Loops"

fun ended :: "(string, 'a) result \<Rightarrow> 'a ending" where
  "ended (Inl e) = Err e"
| "ended (Inr x) = Ok x"

lemma ok_then_Ok: "ok_then r f = Ok y \<longleftrightarrow> (\<exists>x. r = Ok x \<and> f x = Ok y)"
  by (cases r) simp_all

lemma ok_then_Loops: "ok_then r f = Loops \<longleftrightarrow> r = Loops \<or> (\<exists>x. r = Ok x \<and> f x = Loops)"
  by (cases r) simp_all

lemma ok_then_Panics: "ok_then r f = Panics \<longleftrightarrow> r = Panics \<or> (\<exists>x. r = Ok x \<and> f x = Panics)"
  by (cases r) simp_all

lemma ended_simps [simp]: "ended r \<noteq> Loops" "ended r \<noteq> Panics" "ended r = Ok x \<longleftrightarrow> r = Inr x"
  by (cases r; simp)+

lemma and_then_Inr: "and_then r f = Inr y \<longleftrightarrow> (\<exists>x. r = Inr x \<and> f x = Inr y)"
  by (cases r) simp_all

lemma and_then_Inl: "and_then r f = Inl e \<longleftrightarrow> r = Inl e \<or> (\<exists>x. r = Inr x \<and> f x = Inl e)"
  by (cases r) simp_all

lemma map_err_Inr: "map_err f r = Inr x \<longleftrightarrow> r = Inr x"
  by (cases r) (simp_all add: map_err_def)

lemma map_err_Inl: "map_err f r = Inl e \<longleftrightarrow> (\<exists>d. r = Inl d \<and> e = f d)"
  by (cases r) (auto simp: map_err_def)

lemma collect_results_Inl: "collect_results rs = Inl e \<Longrightarrow> Inl e \<in> set rs"
  by (induction rs) (auto simp: and_then_Inl)

lemma collect_results_Inr: "collect_results rs = Inr xs \<longleftrightarrow> rs = map Inr xs"
  by (induction rs arbitrary: xs) (auto simp: and_then_Inr)

lemma collect_results_length: "collect_results rs = Inr xs \<Longrightarrow> length xs = length rs"
  by (simp add: collect_results_Inr)

end
