(* ===== verification/Stateright.thy ===== *)
theory Stateright
  imports Rust_Base
begin

text \<open>
  The protocol models of \<open>crates/fjfj-models\<close> implement the \<open>Model\<close> trait of the \<open>stateright\<close>
  crate: a list of initial states, the actions enabled in a state, and the state an action leads
  to (\<open>None\<close> when the action is refused). This theory gives that interface its meaning: the
  reachable states, the runs, and what it is for a list of properties to hold of them. The
  checker explores one finite instance of a protocol; the theorems of the protocol theories hold
  for every value of the protocol's parameters.
\<close>

section \<open>Reachable states and runs\<close>

inductive reach :: "'s list \<Rightarrow> ('s \<Rightarrow> 'a list) \<Rightarrow> ('s \<Rightarrow> 'a \<Rightarrow> 's option) \<Rightarrow> 's \<Rightarrow> bool"
  for init acts nxt
where
  reach_init: "s \<in> set init \<Longrightarrow> reach init acts nxt s"
| reach_step: "reach init acts nxt s \<Longrightarrow> a \<in> set (acts s) \<Longrightarrow> nxt s a = Some t \<Longrightarrow> reach init acts nxt t"

text \<open>A run takes the given actions one after another; it is \<open>None\<close> as soon as one of them is not
  enabled or is refused.\<close>

fun run :: "('s \<Rightarrow> 'a list) \<Rightarrow> ('s \<Rightarrow> 'a \<Rightarrow> 's option) \<Rightarrow> 's \<Rightarrow> 'a list \<Rightarrow> 's option" where
  "run acts nxt s [] = Some s"
| "run acts nxt s (a # as) =
     (if a \<in> set (acts s)
      then (case nxt s a of None \<Rightarrow> None | Some t \<Rightarrow> run acts nxt t as)
      else None)"

datatype expectation = Always | Sometimes

type_synonym 's property = "expectation \<times> string \<times> ('s \<Rightarrow> bool)"

text \<open>
  What \<open>Checker::assert_properties\<close> asserts of a model: an \<open>Always\<close> property holds in every
  reachable state and a \<open>Sometimes\<close> property in one of them.
\<close>

fun property_holds :: "('s \<Rightarrow> bool) \<Rightarrow> 's property \<Rightarrow> bool" where
  "property_holds R (Always, name, P) = (\<forall>s. R s \<longrightarrow> P s)"
| "property_holds R (Sometimes, name, P) = (\<exists>s. R s \<and> P s)"

definition assert_properties :: "('s \<Rightarrow> bool) \<Rightarrow> 's property list \<Rightarrow> bool" where
  "assert_properties R props = list_all (property_holds R) props"

lemma assert_properties_simps [simp]:
  "assert_properties R []"
  "assert_properties R (p # ps) \<longleftrightarrow> property_holds R p \<and> assert_properties R ps"
  by (simp_all add: assert_properties_def)

lemma run_reach:
  "reach init acts nxt s \<Longrightarrow> run acts nxt s as = Some t \<Longrightarrow> reach init acts nxt t"
  by (induction as arbitrary: s)
    (auto split: if_splits option.splits intro: reach.reach_step)

lemma run_append:
  "run acts nxt s (as @ bs) = (case run acts nxt s as of None \<Rightarrow> None | Some t \<Rightarrow> run acts nxt t bs)"
  by (induction as arbitrary: s) (auto split: option.splits)

lemma reach_runI: "s \<in> set init \<Longrightarrow> run acts nxt s as = Some t \<Longrightarrow> reach init acts nxt t"
  by (rule run_reach [OF reach.reach_init])

lemma reach_hd_runI:
  "init \<noteq> [] \<Longrightarrow> run acts nxt (hd init) as = Some t \<Longrightarrow> reach init acts nxt t"
  by (rule reach_runI [OF hd_in_set])

text \<open>A property that some state of a run from the first initial state has.\<close>

lemma sometimesI:
  "init \<noteq> [] \<Longrightarrow> (case run acts nxt (hd init) as of None \<Rightarrow> False | Some t \<Rightarrow> P t)
    \<Longrightarrow> \<exists>t. reach init acts nxt t \<and> P t"
  by (auto split: option.splits intro: reach_runI [OF hd_in_set])

section \<open>Invariants\<close>

text \<open>The contract of an inductive invariant, and what it gives.\<close>

locale model_invariant =
  fixes init :: "'s list"
    and acts :: "'s \<Rightarrow> 'a list"
    and nxt :: "'s \<Rightarrow> 'a \<Rightarrow> 's option"
    and inv :: "'s \<Rightarrow> bool"
  assumes inv_init: "s \<in> set init \<Longrightarrow> inv s"
    and inv_step: "inv s \<Longrightarrow> a \<in> set (acts s) \<Longrightarrow> nxt s a = Some t \<Longrightarrow> inv t"
begin

lemma reach_inv: "reach init acts nxt s \<Longrightarrow> inv s"
  by (induction rule: reach.induct) (auto intro: inv_init inv_step)

lemma run_inv: "inv s \<Longrightarrow> run acts nxt s as = Some t \<Longrightarrow> inv t"
  by (induction as arbitrary: s) (auto split: if_splits option.splits intro: inv_step)

end

text \<open>
  An invariant together with a rank that every step from it lowers: every run is finite, and
  every state can be run until nothing is enabled.
\<close>

locale ranked_model = model_invariant +
  fixes rank :: "'s \<Rightarrow> nat"
  assumes rank_step: "inv s \<Longrightarrow> a \<in> set (acts s) \<Longrightarrow> nxt s a = Some t \<Longrightarrow> rank t < rank s"
    and progress: "inv s \<Longrightarrow> acts s \<noteq> [] \<Longrightarrow> \<exists>a \<in> set (acts s). nxt s a \<noteq> None"
begin

lemma run_rank: "inv s \<Longrightarrow> run acts nxt s as = Some t \<Longrightarrow> length as + rank t \<le> rank s"
proof (induction as arbitrary: s)
  case Nil
  then show ?case by simp
next
  case (Cons a as)
  then obtain u where a: "a \<in> set (acts s)" "nxt s a = Some u" and r: "run acts nxt u as = Some t"
    by (auto split: if_splits option.splits)
  have "length as + rank t \<le> rank u"
    by (rule Cons.IH [OF inv_step [OF Cons.prems(1) a] r])
  with rank_step [OF Cons.prems(1) a] show ?case by simp
qed

lemma run_to_quiescence: "inv s \<Longrightarrow> \<exists>as t. run acts nxt s as = Some t \<and> inv t \<and> acts t = []"
proof (induction "rank s" arbitrary: s rule: less_induct)
  case less
  show ?case
  proof (cases "acts s = []")
    case True
    with less.prems have "run acts nxt s [] = Some s \<and> inv s \<and> acts s = []" by simp
    then show ?thesis by blast
  next
    case False
    then obtain a u where a: "a \<in> set (acts s)" "nxt s a = Some u"
      using progress [OF less.prems] by auto
    obtain as t where "run acts nxt u as = Some t" "inv t" "acts t = []"
      using less.hyps [OF rank_step [OF less.prems a] inv_step [OF less.prems a]] by blast
    with a have "run acts nxt s (a # as) = Some t \<and> inv t \<and> acts t = []" by simp
    then show ?thesis by blast
  qed
qed

end

end
