(* ===== verification/Publish_Protocol.thy ===== *)
theory Publish_Protocol
  imports Stateright
begin

text \<open>
  Kill-safe output publishing (\<open>crates/fjfj-models/src/publish.rs\<close>): an action writes a scratch
  file, syncs it, renames it into place and only then records the action-cache entry; a kill may
  land between any two steps.
\<close>

section \<open>The model\<close>

datatype out_file = Absent | Partial | Complete (durable: bool)

datatype step = Writing | Written | Synced | Renamed | Cached | Recovering

record state =
  step :: step
  scratch :: out_file
  published :: out_file
  cache_entry :: bool

datatype action = WriteScratch | Fsync | Rename | WriteCache | Kill | Recover

record publish =
  fsync_before_rename :: bool

fun lose_non_durable :: "out_file \<Rightarrow> out_file" where
  "lose_non_durable (Complete False) = Partial"
| "lose_non_durable other = other"

definition init_states :: "publish \<Rightarrow> state list" where
  "init_states p = [\<lparr>step = Writing, scratch = Absent, published = Absent, cache_entry = False\<rparr>]"

definition actions :: "publish \<Rightarrow> state \<Rightarrow> action list" where
  "actions p s =
     (case step s of
        Writing \<Rightarrow> [WriteScratch]
      | Written \<Rightarrow> (if fsync_before_rename p then [Fsync] else [Rename])
      | Synced \<Rightarrow> [Rename]
      | Renamed \<Rightarrow> [WriteCache]
      | Cached \<Rightarrow> []
      | Recovering \<Rightarrow> [Recover])
     @ (if step s \<noteq> Recovering then [Kill] else [])"

fun next_state :: "publish \<Rightarrow> state \<Rightarrow> action \<Rightarrow> state option" where
  "next_state p s WriteScratch = Some (s\<lparr>scratch := Complete False, step := Written\<rparr>)"
| "next_state p s Fsync = Some (s\<lparr>scratch := Complete True, step := Synced\<rparr>)"
| "next_state p s Rename =
     Some (s\<lparr>published := scratch s, scratch := Absent, step := Renamed\<rparr>)"
| "next_state p s WriteCache = Some (s\<lparr>cache_entry := True, step := Cached\<rparr>)"
| "next_state p s Kill =
     Some (s\<lparr>scratch := lose_non_durable (scratch s),
             published := lose_non_durable (published s), step := Recovering\<rparr>)"
| "next_state p s Recover =
     (let n = s\<lparr>scratch := Absent\<rparr>
      in Some (case published n of
                 Complete True \<Rightarrow> (if cache_entry n then n\<lparr>step := Cached\<rparr> else n\<lparr>step := Renamed\<rparr>)
               | _ \<Rightarrow> n\<lparr>published := Absent, step := Writing\<rparr>))"

definition properties :: "publish \<Rightarrow> state property list" where
  "properties p =
     [(Always, ''never partial output'', \<lambda>s. published s \<noteq> Partial),
      (Always, ''cache implies output'', \<lambda>s. \<not> cache_entry s \<or> published s = Complete True),
      (Sometimes, ''publishes'', \<lambda>s. step s = Cached)]"

abbreviation reachable :: "publish \<Rightarrow> state \<Rightarrow> bool" where
  "reachable p \<equiv> reach (init_states p) (actions p) (next_state p)"

section \<open>The invariant\<close>

text \<open>
  What each step of the protocol knows of the two files. A published output is complete and
  durable from the rename on; before it there is none.
\<close>

definition inv :: "state \<Rightarrow> bool" where
  "inv s \<longleftrightarrow>
     (published s = Complete True \<or> published s = Absent \<and> \<not> cache_entry s)
     \<and> (case step s of
          Writing \<Rightarrow> True
        | Written \<Rightarrow> scratch s = Complete False
        | Synced \<Rightarrow> scratch s = Complete True
        | Renamed \<Rightarrow> published s = Complete True
        | Cached \<Rightarrow> published s = Complete True \<and> cache_entry s
        | Recovering \<Rightarrow> True)"

lemma inv_init_states: "s \<in> set (init_states p) \<Longrightarrow> inv s"
  by (simp add: init_states_def inv_def)

lemma inv_next_state:
  assumes "fsync_before_rename p" "inv s" "a \<in> set (actions p s)" "next_state p s a = Some t"
  shows "inv t"
proof (cases a)
  case Rename
  with assms have "step s = Synced" by (auto simp: actions_def split: step.splits)
  with Rename assms(2,4) show ?thesis by (auto simp: inv_def)
next
  case WriteCache
  with assms have "step s = Renamed" by (auto simp: actions_def split: step.splits)
  with WriteCache assms(2,4) show ?thesis by (auto simp: inv_def)
qed (use assms(2,4) in \<open>auto simp: inv_def Let_def split: if_splits\<close>)

interpretation kill_safe: model_invariant "init_states p" "actions p" "next_state p"
    "\<lambda>s. fsync_before_rename p \<longrightarrow> inv s" for p
  by unfold_locales (auto intro: inv_init_states inv_next_state)

section \<open>Properties\<close>

lemma reachable_inv: "fsync_before_rename p \<Longrightarrow> reachable p s \<Longrightarrow> inv s"
  using kill_safe.reach_inv by blast

lemmas publish_run_defs = init_states_def actions_def

lemma reaches_cached: "\<exists>s. reachable p s \<and> step s = Cached"
  by (rule sometimesI [where as = "[WriteScratch] @ (if fsync_before_rename p then [Fsync] else [])
        @ [Rename, WriteCache]"])
    (simp_all add: publish_run_defs)

lemma reaches_partial: "\<not> fsync_before_rename p \<Longrightarrow> \<exists>s. reachable p s \<and> published s = Partial"
  by (rule sometimesI [where as = "[WriteScratch, Rename, Kill]"]) (simp_all add: publish_run_defs)

text \<open>
  C7. The properties the protocol asserts (no partial output is ever visible, an action-cache
  entry is only there when the output is complete and durable, and the protocol can finish) hold
  of the protocol exactly when it syncs the scratch file before it renames it.
\<close>

theorem publish_safe_iff_fsync:
  "assert_properties (reachable p) (properties p) \<longleftrightarrow> fsync_before_rename p"
proof
  assume "fsync_before_rename p"
  then show "assert_properties (reachable p) (properties p)"
    using reaches_cached [of p] by (auto simp: properties_def inv_def dest: reachable_inv)
next
  assume "assert_properties (reachable p) (properties p)"
  then show "fsync_before_rename p"
    using reaches_partial [of p] by (auto simp: properties_def)
qed

text \<open>
  Recovery is never stuck: from every reachable state, also one a kill left behind, at most
  five further steps without a kill bring the protocol to the end, where the output is complete
  and durable and its cache entry is recorded.
\<close>

theorem publish_recovers:
  assumes "fsync_before_rename p" and "reachable p s"
  shows "\<exists>as t. run (actions p) (next_state p) s as = Some t \<and> Kill \<notin> set as \<and> length as \<le> 5
    \<and> step t = Cached \<and> cache_entry t \<and> published t = Complete True"
proof -
  have inv: "inv s" using assms by (rule reachable_inv)
  define as where "as = (case step s of
      Writing \<Rightarrow> [WriteScratch, Fsync, Rename, WriteCache]
    | Written \<Rightarrow> [Fsync, Rename, WriteCache]
    | Synced \<Rightarrow> [Rename, WriteCache]
    | Renamed \<Rightarrow> [WriteCache]
    | Cached \<Rightarrow> []
    | Recovering \<Rightarrow> Recover #
        (if published s = Complete True then (if cache_entry s then [] else [WriteCache])
         else [WriteScratch, Fsync, Rename, WriteCache]))"
  show ?thesis
    by (rule exI [of _ as])
      (use assms(1) inv in \<open>auto simp: as_def actions_def inv_def split: step.splits\<close>)
qed

theorem publish_recovers_witness:
  "\<exists>as t. run (actions \<lparr>fsync_before_rename = True\<rparr>) (next_state \<lparr>fsync_before_rename = True\<rparr>)
      \<lparr>step = Recovering, scratch = Partial, published = Absent, cache_entry = False\<rparr> as = Some t
    \<and> Kill \<notin> set as \<and> length as \<le> 5
    \<and> step t = Cached \<and> cache_entry t \<and> published t = Complete True"
proof (rule publish_recovers)
  show "reachable \<lparr>fsync_before_rename = True\<rparr>
      \<lparr>step = Recovering, scratch = Partial, published = Absent, cache_entry = False\<rparr>"
    by (rule reach_hd_runI [where as = "[WriteScratch, Kill]"]) (simp_all add: publish_run_defs)
qed simp

end
