(* ===== verification/Persistence_Protocol.thy ===== *)
theory Persistence_Protocol
  imports Stateright
begin

text \<open>
  Engine persistence (\<open>crates/fjfj-models/src/compaction.rs\<close>): an immutable snapshot and an
  append-only log, compacted on idle, with a crash possible anywhere. Versions and counters are
  the source's \<open>u8\<close>, kept as \<open>8 word\<close>.
\<close>

section \<open>The model\<close>

type_synonym version = u8

datatype compaction =
    Idle
  | TempWritten version bool
  | Renamed version
  | Truncated version

record state =
  mem :: version
  acked :: version
  log_start :: version
  log_written :: version
  log_durable :: version
  snapshot :: version
  compaction :: compaction
  writes :: u8
  crashes :: u8
  compactions :: u8

datatype action =
  Write | FsyncLog | WriteTemp | FsyncTemp | Rename | Truncate | FinishCompaction | Crash

record persistence =
  truncate_after_rename :: bool
  max_writes :: u8
  max_crashes :: u8
  max_compactions :: u8

definition recoverable :: "state \<Rightarrow> version" where
  "recoverable s =
     (let durable_log_end = log_durable s
      in if log_start s \<le> snapshot s \<and> durable_log_end > snapshot s
         then durable_log_end else snapshot s)"

definition init_states :: "persistence \<Rightarrow> state list" where
  "init_states p =
     [\<lparr>mem = 0, acked = 0, log_start = 0, log_written = 0, log_durable = 0, snapshot = 0,
       compaction = Idle, writes = 0, crashes = 0, compactions = 0\<rparr>]"

definition actions :: "persistence \<Rightarrow> state \<Rightarrow> action list" where
  "actions p s =
     (if writes s < max_writes p then [Write] else [])
     @ (if log_written s > log_durable s then [FsyncLog] else [])
     @ (case compaction s of
          Idle \<Rightarrow> (if compactions s < max_compactions p \<and> mem s > snapshot s then [WriteTemp] else [])
        | TempWritten v False \<Rightarrow> [FsyncTemp]
        | TempWritten v True \<Rightarrow> Rename # (if \<not> truncate_after_rename p then [Truncate] else [])
        | Renamed v \<Rightarrow> [Truncate]
        | Truncated v \<Rightarrow> [FinishCompaction])
     @ (if crashes s < max_crashes p then [Crash] else [])"

fun next_state :: "persistence \<Rightarrow> state \<Rightarrow> action \<Rightarrow> state option" where
  "next_state p s Write =
     Some (s\<lparr>mem := mem s + 1, log_written := mem s + 1, writes := writes s + 1\<rparr>)"
| "next_state p s FsyncLog = Some (s\<lparr>log_durable := log_written s, acked := log_written s\<rparr>)"
| "next_state p s WriteTemp =
     Some (s\<lparr>compaction := TempWritten (mem s) False, compactions := compactions s + 1\<rparr>)"
| "next_state p s FsyncTemp =
     (case compaction s of
        TempWritten v _ \<Rightarrow> Some (s\<lparr>compaction := TempWritten v True\<rparr>)
      | _ \<Rightarrow> None)"
| "next_state p s Rename =
     (case compaction s of
        TempWritten v True \<Rightarrow> Some (s\<lparr>snapshot := v, compaction := Renamed v\<rparr>)
      | _ \<Rightarrow> None)"
| "next_state p s Truncate =
     (case compaction s of
        Renamed v \<Rightarrow> Some (s\<lparr>log_start := v, compaction := Truncated v\<rparr>)
      | TempWritten v _ \<Rightarrow> Some (s\<lparr>log_start := v, compaction := Truncated v\<rparr>)
      | _ \<Rightarrow> None)"
| "next_state p s FinishCompaction = Some (s\<lparr>compaction := Idle\<rparr>)"
| "next_state p s Crash =
     Some (s\<lparr>crashes := crashes s + 1, log_written := log_durable s, compaction := Idle,
             mem := recoverable s\<rparr>)"

definition properties :: "persistence \<Rightarrow> state property list" where
  "properties p =
     [(Always, ''acknowledged writes are recoverable'', \<lambda>s. recoverable s \<ge> acked s),
      (Always, ''log is contiguous with snapshot'', \<lambda>s. log_start s \<le> snapshot s),
      (Always, ''memory never behind acknowledged'', \<lambda>s. mem s \<ge> acked s),
      (Sometimes, ''compaction completes after acknowledged writes'',
         \<lambda>s. compaction s = Idle \<and> snapshot s > 0 \<and> acked s \<ge> snapshot s \<and> compactions s > 0),
      (Sometimes, ''recovery replays log past snapshot'',
         \<lambda>s. crashes s > 0 \<and> mem s > snapshot s \<and> mem s = acked s)]"

abbreviation reachable :: "persistence \<Rightarrow> state \<Rightarrow> bool" where
  "reachable p \<equiv> reach (init_states p) (actions p) (next_state p)"

section \<open>Invariants\<close>

text \<open>
  The first invariant needs no assumption on the protocol: counters stay within their limits and
  the number of writes bounds every version, so that no \<open>u8\<close> overflows.
\<close>

fun temp_within :: "version \<Rightarrow> version \<Rightarrow> compaction \<Rightarrow> bool" where
  "temp_within lo hi (TempWritten v d) = (lo \<le> v \<and> v \<le> hi)"
| "temp_within lo hi (Renamed v) = (v = lo)"
| "temp_within lo hi _ = True"

definition bounded :: "persistence \<Rightarrow> state \<Rightarrow> bool" where
  "bounded p s \<longleftrightarrow>
     log_durable s \<le> writes s \<and> log_written s \<le> writes s \<and> snapshot s \<le> mem s \<and> mem s \<le> writes s
     \<and> temp_within (snapshot s) (mem s) (compaction s)
     \<and> writes s \<le> max_writes p \<and> crashes s \<le> max_crashes p \<and> compactions s \<le> max_compactions p"

text \<open>
  The second is what truncating the log only after the rename keeps: the log starts at or before
  the snapshot, and what is acknowledged is the durable part of a log that memory covers.
\<close>

definition contiguous :: "state \<Rightarrow> bool" where
  "contiguous s \<longleftrightarrow> log_start s \<le> snapshot s \<and> acked s = log_durable s
     \<and> log_durable s \<le> log_written s \<and> log_written s \<le> mem s"

lemmas persistence_run_defs = init_states_def actions_def recoverable_def Let_def

lemma enabled_counters:
  "Write \<in> set (actions p s) \<longleftrightarrow> writes s < max_writes p"
  "WriteTemp \<in> set (actions p s) \<longleftrightarrow>
     compaction s = Idle \<and> compactions s < max_compactions p \<and> snapshot s < mem s"
  "Crash \<in> set (actions p s) \<longleftrightarrow> crashes s < max_crashes p"
  by (auto simp: actions_def split: compaction.splits bool.splits)

lemma temp_within_mono: "temp_within lo hi c \<Longrightarrow> hi \<le> hi' \<Longrightarrow> temp_within lo hi' c"
  by (cases c) auto

lemma write_no_overflow:
  assumes "bounded p s" "writes s < max_writes p"
  shows "mem s < mem s + 1" "mem s + 1 \<le> writes s + 1" "writes s < writes s + 1"
    "writes s + 1 \<le> max_writes p"
  using assms
  by (auto simp: bounded_def intro: u8_inc_le u8_inc_mono u8_less_inc [of _ "max_writes p"])

lemma bounded_next_state:
  assumes "bounded p s" "a \<in> set (actions p s)" "next_state p s a = Some t"
  shows "bounded p t"
proof (cases a)
  case Write
  then have w: "writes s < max_writes p" using assms(2) by (simp add: enabled_counters)
  have "temp_within (snapshot s) (mem s + 1) (compaction s)"
    using assms(1) write_no_overflow(1) [OF assms(1) w]
    by (auto simp: bounded_def intro: temp_within_mono)
  then show ?thesis using assms(1,3) Write write_no_overflow [OF assms(1) w]
    by (auto simp: bounded_def u8_nat)
next
  case Crash
  then show ?thesis using assms
    by (auto simp: enabled_counters bounded_def recoverable_def Let_def u8_inc_le)
next
  case WriteTemp
  then show ?thesis using assms by (auto simp: enabled_counters bounded_def u8_inc_le)
qed (use assms in \<open>auto simp: bounded_def split: compaction.splits bool.splits\<close>)

lemma contiguous_next_state:
  assumes "truncate_after_rename p" "bounded p s" "contiguous s"
    and "a \<in> set (actions p s)" "next_state p s a = Some t"
  shows "contiguous t"
proof (cases a)
  case Write
  then have "writes s < max_writes p" using assms(4) by (simp add: enabled_counters)
  from write_no_overflow(1) [OF assms(2) this] show ?thesis
    using assms Write by (auto simp: contiguous_def u8_nat)
next
  case Crash
  then show ?thesis using assms by (auto simp: contiguous_def recoverable_def Let_def)
next
  case Rename
  then show ?thesis using assms
    by (auto simp: contiguous_def bounded_def u8_nat split: compaction.splits bool.splits)
next
  case Truncate
  then show ?thesis using assms
    by (auto simp: contiguous_def bounded_def actions_def split: compaction.splits bool.splits if_splits)
qed (use assms in \<open>auto simp: contiguous_def split: compaction.splits bool.splits\<close>)

lemma init_bounded: "s \<in> set (init_states p) \<Longrightarrow> bounded p s"
  by (simp add: init_states_def bounded_def)

lemma init_contiguous: "s \<in> set (init_states p) \<Longrightarrow> contiguous s"
  by (simp add: init_states_def contiguous_def)

interpretation bounds: model_invariant "init_states p" "actions p" "next_state p" "bounded p" for p
  by unfold_locales (auto intro: init_bounded bounded_next_state)

interpretation crash_safe: model_invariant "init_states p" "actions p" "next_state p"
    "\<lambda>s. bounded p s \<and> (truncate_after_rename p \<longrightarrow> contiguous s)" for p
  by unfold_locales
    (auto intro: init_bounded init_contiguous bounded_next_state contiguous_next_state)

section \<open>Properties\<close>

lemma reachable_contiguous:
  "truncate_after_rename p \<Longrightarrow> reachable p s \<Longrightarrow> bounded p s \<and> contiguous s"
  using crash_safe.reach_inv by blast

lemma contiguous_recoverable:
  "contiguous s \<Longrightarrow> recoverable s = max (log_durable s) (snapshot s)"
  by (auto simp: contiguous_def recoverable_def Let_def max_def)

lemma reaches_compacted:
  "0 < max_writes p \<Longrightarrow> 0 < max_compactions p \<Longrightarrow>
   \<exists>s. reachable p s \<and> compaction s = Idle \<and> snapshot s > 0 \<and> acked s \<ge> snapshot s \<and> compactions s > 0"
  by (rule sometimesI [where as =
        "[Write, FsyncLog, WriteTemp, FsyncTemp, Rename, Truncate, FinishCompaction]"])
    (simp_all add: persistence_run_defs)

lemma reaches_replayed:
  "0 < max_writes p \<Longrightarrow> 0 < max_crashes p \<Longrightarrow>
   \<exists>s. reachable p s \<and> crashes s > 0 \<and> mem s > snapshot s \<and> mem s = acked s"
  by (rule sometimesI [where as = "[Write, FsyncLog, Crash]"]) (simp_all add: persistence_run_defs)

lemma reaches_lost_write:
  "\<not> truncate_after_rename p \<Longrightarrow> 0 < max_writes p \<Longrightarrow> 0 < max_compactions p \<Longrightarrow>
   \<exists>s. reachable p s \<and> recoverable s < acked s"
  by (rule sometimesI [where as = "[Write, FsyncLog, WriteTemp, FsyncTemp, Truncate]"])
    (simp_all add: persistence_run_defs)

text \<open>
  C8. For every limit on writes, crashes and compactions that allows at least one of each, the
  properties the persistence protocol asserts (acknowledged writes are recoverable in every
  state, the log is contiguous with the snapshot, memory is never behind what was acknowledged,
  compaction completes, recovery replays the log) hold exactly when the log is truncated only
  after the new snapshot has been renamed into place.
\<close>

theorem persistence_safe_iff_truncate_after_rename:
  assumes "0 < max_writes p" "0 < max_crashes p" "0 < max_compactions p"
  shows "assert_properties (reachable p) (properties p) \<longleftrightarrow> truncate_after_rename p"
proof
  assume "truncate_after_rename p"
  then have "recoverable s \<ge> acked s \<and> log_start s \<le> snapshot s \<and> mem s \<ge> acked s"
    if "reachable p s" for s
    using reachable_contiguous [OF _ that] contiguous_recoverable [of s]
    by (auto simp: contiguous_def)
  then show "assert_properties (reachable p) (properties p)"
    using assms reaches_compacted [of p] reaches_replayed [of p] by (simp add: properties_def)
next
  assume "assert_properties (reachable p) (properties p)"
  then show "truncate_after_rename p"
    using assms reaches_lost_write [of p] by (fastforce simp: properties_def)
qed

theorem persistence_safe_iff_truncate_after_rename_witness:
  "\<not> assert_properties
       (reachable \<lparr>truncate_after_rename = False, max_writes = 3, max_crashes = 1, max_compactions = 2\<rparr>)
       (properties \<lparr>truncate_after_rename = False, max_writes = 3, max_crashes = 1, max_compactions = 2\<rparr>)"
  by (subst persistence_safe_iff_truncate_after_rename) simp_all

lemma acked_mono_step:
  "contiguous s \<Longrightarrow> a \<in> set (actions p s) \<Longrightarrow> next_state p s a = Some t \<Longrightarrow> acked s \<le> acked t"
  by (cases a) (auto simp: contiguous_def split: compaction.splits bool.splits)

lemma acked_mono_run:
  "truncate_after_rename p \<Longrightarrow> bounded p s \<Longrightarrow> contiguous s \<Longrightarrow> run (actions p) (next_state p) s as = Some t
    \<Longrightarrow> acked s \<le> acked t \<and> contiguous t"
proof (induction as arbitrary: s)
  case Nil
  then show ?case by simp
next
  case (Cons a as)
  then obtain u where u: "a \<in> set (actions p s)" "next_state p s a = Some u"
      "run (actions p) (next_state p) u as = Some t"
    by (auto split: if_splits option.splits)
  have "acked u \<le> acked t \<and> contiguous t"
    using Cons.IH [OF Cons.prems(1)] Cons.prems bounded_next_state contiguous_next_state u by blast
  then show ?case using acked_mono_step [OF Cons.prems(3) u(1,2)] by auto
qed

text \<open>
  No acknowledged write is ever lost: whatever the protocol does after a write was
  acknowledged, and whenever it crashes, memory after the recovery is at least at the version
  that was acknowledged.
\<close>

theorem acknowledged_write_survives:
  assumes "truncate_after_rename p" and "reachable p s"
    and "run (actions p) (next_state p) s (as @ [Crash]) = Some t"
  shows "acked s \<le> mem t"
proof -
  obtain u where u: "run (actions p) (next_state p) s as = Some u"
      "next_state p u Crash = Some t"
    using assms(3) by (auto simp: run_append split: option.splits if_splits)
  have "acked s \<le> acked u \<and> contiguous u"
    using acked_mono_run [OF assms(1) _ _ u(1)] reachable_contiguous [OF assms(1,2)] by blast
  then have "acked s \<le> recoverable u" "mem t = recoverable u"
    using u(2) contiguous_recoverable [of u] by (auto simp: contiguous_def le_max_iff_disj)
  then show ?thesis by simp
qed

theorem acknowledged_write_survives_witness:
  "let p = \<lparr>truncate_after_rename = True, max_writes = 3, max_crashes = 1, max_compactions = 2\<rparr>;
       s = the (run (actions p) (next_state p) (hd (init_states p)) [Write, Write, FsyncLog]);
       t = the (run (actions p) (next_state p) s ([WriteTemp, Write, FsyncTemp, Rename] @ [Crash]))
   in acked s = 2 \<and> acked s \<le> mem t"
proof -
  let ?p = "\<lparr>truncate_after_rename = True, max_writes = 3, max_crashes = 1, max_compactions = 2\<rparr>"
  let ?s = "the (run (actions ?p) (next_state ?p) (hd (init_states ?p)) [Write, Write, FsyncLog])"
  have s: "run (actions ?p) (next_state ?p) (hd (init_states ?p)) [Write, Write, FsyncLog] = Some ?s"
    and acked: "acked ?s = 2"
    by (simp_all add: persistence_run_defs)
  have r: "reachable ?p ?s" by (rule reach_hd_runI [OF _ s]) (simp add: init_states_def)
  obtain t where t: "run (actions ?p) (next_state ?p) ?s ([WriteTemp, Write, FsyncTemp, Rename] @ [Crash])
      = Some t"
    by (simp add: persistence_run_defs)
  have "acked ?s \<le> mem t"
    by (rule acknowledged_write_survives [OF _ r t]) simp
  then show ?thesis using acked t by (simp only: Let_def option.sel)
qed

text \<open>
  No counter of the protocol overflows its \<open>u8\<close>: in every reachable state each counter is
  within its limit and every version within the number of writes, and a write adds exactly one.
\<close>

theorem persistence_no_overflow:
  assumes "reachable p s"
  shows "mem s \<le> writes s \<and> log_written s \<le> writes s \<and> writes s \<le> max_writes p
    \<and> crashes s \<le> max_crashes p \<and> compactions s \<le> max_compactions p
    \<and> (\<forall>a t. a \<in> set (actions p s) \<longrightarrow> next_state p s a = Some t \<longrightarrow>
         unat (writes t) = unat (writes s) + (if a = Write then 1 else 0)
         \<and> unat (crashes t) = unat (crashes s) + (if a = Crash then 1 else 0)
         \<and> unat (compactions t) = unat (compactions s) + (if a = WriteTemp then 1 else 0)
         \<and> (a = Write \<longrightarrow> unat (mem t) = unat (mem s) + 1))"
proof -
  have b: "bounded p s" using assms by (rule bounds.reach_inv)
  then have "Write \<in> set (actions p s) \<Longrightarrow> mem s < max_writes p"
    by (auto simp: enabled_counters bounded_def)
  then have "unat (writes t) = unat (writes s) + (if a = Write then 1 else 0)
         \<and> unat (crashes t) = unat (crashes s) + (if a = Crash then 1 else 0)
         \<and> unat (compactions t) = unat (compactions s) + (if a = WriteTemp then 1 else 0)
         \<and> (a = Write \<longrightarrow> unat (mem t) = unat (mem s) + 1)"
    if "a \<in> set (actions p s)" "next_state p s a = Some t" for a t
    using that
    by (cases a) (auto simp: enabled_counters u8_inc_unat split: compaction.splits bool.splits)
  then show ?thesis using b unfolding bounded_def by blast
qed

theorem persistence_no_overflow_witness:
  "let p = \<lparr>truncate_after_rename = True, max_writes = 255, max_crashes = 1, max_compactions = 2\<rparr>;
       s = hd (init_states p)
   in mem s \<le> writes s
      \<and> unat (mem (the (next_state p s Write))) = unat (mem s) + 1"
proof -
  let ?p = "\<lparr>truncate_after_rename = True, max_writes = 255, max_crashes = 1, max_compactions = 2\<rparr>"
  let ?s = "hd (init_states ?p)"
  have "reachable ?p ?s" by (rule reach_hd_runI [where as = "[]"]) (simp_all add: init_states_def)
  moreover have "Write \<in> set (actions ?p ?s)" by (simp add: persistence_run_defs)
  ultimately have "mem ?s \<le> writes ?s"
      "unat (mem (the (next_state ?p ?s Write))) = unat (mem ?s) + 1"
    using persistence_no_overflow [of ?p ?s] by auto
  then show ?thesis by (simp only: Let_def)
qed

end
