(* ===== verification/Dynamic_Protocol.thy ===== *)
theory Dynamic_Protocol
  imports Stateright
begin

text \<open>
  Dynamic execution (\<open>crates/fjfj-models/src/dynamic.rs\<close>): a local and a remote branch race for
  each action, the winner is published once and the loser is cancelled. The source's arrays of two
  are lists of length two.
\<close>

section \<open>The model\<close>

definition LOCAL :: nat where "LOCAL = 0"

definition REMOTE :: nat where "REMOTE = 1"

datatype branch = Idle | Running | Done bool | Cancelled

record state =
  branches :: "branch list"
  scratch :: "bool list"
  cancel_pending :: "bool list"
  claim :: "nat option"
  checked :: "bool list"
  publishes :: u8
  failed :: bool

datatype action =
    Start nat
  | Finish nat bool
  | Claim nat
  | Check nat
  | Publish nat
  | IssueCancel nat
  | CancelLands nat
  | Cleanup nat
  | FailAction

record dynamic =
  atomic_claim :: bool

definition is_published :: "state \<Rightarrow> bool" where
  "is_published s \<longleftrightarrow> publishes s > 0"

definition settled :: "state \<Rightarrow> bool" where
  "settled s \<longleftrightarrow> is_published s \<or> failed s"

definition init_states :: "dynamic \<Rightarrow> state list" where
  "init_states m =
     [\<lparr>branches = [Idle, Idle], scratch = [False, False], cancel_pending = [False, False],
       claim = None, checked = [False, False], publishes = 0, failed = False\<rparr>]"

text \<open>The actions the body of the loop over the two branches pushes for the branch \<open>b\<close>.\<close>

definition branch_actions :: "dynamic \<Rightarrow> state \<Rightarrow> nat \<Rightarrow> action list" where
  "branch_actions m s b =
     (let other = 1 - b;
          i_won = (if atomic_claim m then claim s = Some b else checked s ! b);
          can_publish = (if atomic_claim m then claim s = Some b \<and> \<not> is_published s else checked s ! b)
      in (case branches s ! b of
            Idle \<Rightarrow> (if \<not> settled s then [Start b] else [])
          | Running \<Rightarrow>
              [Finish b True, Finish b False] @ (if cancel_pending s ! b then [CancelLands b] else [])
          | Done True \<Rightarrow>
              (if atomic_claim m then
                 (if claim s = None then [Claim b]
                  else if claim s = Some b \<and> \<not> is_published s then [Publish b] else [])
               else if \<not> checked s ! b \<and> \<not> is_published s then [Check b]
               else if checked s ! b \<and> scratch s ! b then [Publish b] else [])
          | Done False \<Rightarrow> []
          | Cancelled \<Rightarrow> [])
         @ (if i_won \<and> branches s ! other = Running \<and> \<not> cancel_pending s ! other
            then [IssueCancel other] else [])
         @ (if scratch s ! b \<and> branches s ! b \<in> {Done True, Done False, Cancelled}
              \<and> \<not> can_publish \<and> settled s
            then [Cleanup b] else []))"

definition actions :: "dynamic \<Rightarrow> state \<Rightarrow> action list" where
  "actions m s =
     concat (map (branch_actions m s) [LOCAL, REMOTE])
     @ (if \<not> settled s \<and> list_all (\<lambda>b. b \<in> {Done False, Cancelled}) (branches s)
          \<and> Done False \<in> set (branches s)
        then [FailAction] else [])"

fun next_state :: "dynamic \<Rightarrow> state \<Rightarrow> action \<Rightarrow> state option" where
  "next_state m s (Start b) = Some (s\<lparr>branches := (branches s)[b := Running]\<rparr>)"
| "next_state m s (Finish b ok) =
     Some (s\<lparr>branches := (branches s)[b := Done ok], scratch := (scratch s)[b := ok],
             cancel_pending := (cancel_pending s)[b := False]\<rparr>)"
| "next_state m s (Claim b) = Some (s\<lparr>claim := Some b\<rparr>)"
| "next_state m s (Check b) = Some (s\<lparr>checked := (checked s)[b := True]\<rparr>)"
| "next_state m s (Publish b) =
     Some (s\<lparr>publishes := publishes s + 1, scratch := (scratch s)[b := False]\<rparr>)"
| "next_state m s (IssueCancel b) =
     Some (s\<lparr>cancel_pending := (cancel_pending s)[b := True]\<rparr>)"
| "next_state m s (CancelLands b) =
     Some (s\<lparr>branches := (branches s)[b := Cancelled], scratch := (scratch s)[b := False],
             cancel_pending := (cancel_pending s)[b := False]\<rparr>)"
| "next_state m s (Cleanup b) = Some (s\<lparr>scratch := (scratch s)[b := False]\<rparr>)"
| "next_state m s FailAction = Some (s\<lparr>failed := True\<rparr>)"

definition properties :: "dynamic \<Rightarrow> state property list" where
  "properties m =
     [(Always, ''publish exactly once'', \<lambda>s. publishes s \<le> 1),
      (Always, ''cancelled branch never publishes'',
         \<lambda>s. list_all (\<lambda>b. branches s ! b \<noteq> Cancelled \<or> \<not> scratch s ! b) [0, 1]),
      (Always, ''failure does not win'',
         \<lambda>s. \<not> failed s \<or> list_all (\<lambda>b. b \<noteq> Done True) (branches s)),
      (Always, ''quiescence is settlement'',
         \<lambda>s. actions m s \<noteq> [] \<or>
           (settled s \<and> Running \<notin> set (branches s) \<and> list_all (\<lambda>b. \<not> scratch s ! b) [0, 1])),
      (Sometimes, ''local wins'', \<lambda>s. is_published s \<and> claim s = Some LOCAL),
      (Sometimes, ''remote wins'', \<lambda>s. is_published s \<and> claim s = Some REMOTE),
      (Sometimes, ''loser finishes before cancel lands'',
         \<lambda>s. claim s \<noteq> None \<and> list_all (\<lambda>b. b = Done True) (branches s)),
      (Sometimes, ''both fail'', \<lambda>s. failed s)]"

abbreviation reachable :: "dynamic \<Rightarrow> state \<Rightarrow> bool" where
  "reachable m \<equiv> reach (init_states m) (actions m) (next_state m)"

section \<open>The invariant\<close>

text \<open>
  What a branch, the winner slot and the failure flag know of each other when winning is an atomic
  claim: \<open>won\<close> is that this branch holds the claim, \<open>lost\<close> that the other one does.
\<close>

fun branch_ok :: "branch \<Rightarrow> bool \<Rightarrow> bool \<Rightarrow> bool \<Rightarrow> bool \<Rightarrow> bool \<Rightarrow> bool" where
  "branch_ok Idle scr pending won lost fail \<longleftrightarrow> \<not> scr \<and> \<not> pending \<and> \<not> won \<and> \<not> fail"
| "branch_ok Running scr pending won lost fail \<longleftrightarrow> \<not> scr \<and> (\<not> pending \<or> lost) \<and> \<not> won \<and> \<not> fail"
| "branch_ok (Done ok) scr pending won lost fail \<longleftrightarrow>
     \<not> pending \<and> (if ok then \<not> fail else \<not> scr \<and> \<not> won)"
| "branch_ok Cancelled scr pending won lost fail \<longleftrightarrow> \<not> scr \<and> \<not> pending \<and> \<not> won \<and> lost"

definition branch_inv :: "state \<Rightarrow> nat \<Rightarrow> bool" where
  "branch_inv s b \<longleftrightarrow>
     branch_ok (branches s ! b) (scratch s ! b) (cancel_pending s ! b)
       (claim s = Some b) (claim s = Some (1 - b)) (failed s)"

definition dynamic_inv :: "state \<Rightarrow> bool" where
  "dynamic_inv s \<longleftrightarrow>
     length (branches s) = 2 \<and> length (scratch s) = 2 \<and> length (cancel_pending s) = 2
     \<and> branch_inv s 0 \<and> branch_inv s 1
     \<and> claim s \<in> {None, Some 0, Some 1}
     \<and> (publishes s = 0 \<or> publishes s = 1 \<and> claim s \<noteq> None)"

text \<open>What has to hold for an action to be enabled when winning is an atomic claim.\<close>

fun guard :: "state \<Rightarrow> action \<Rightarrow> bool" where
  "guard s (Start b) = ((b = 0 \<or> b = 1) \<and> branches s ! b = Idle \<and> \<not> settled s)"
| "guard s (Finish b ok) = ((b = 0 \<or> b = 1) \<and> branches s ! b = Running)"
| "guard s (Claim b) = ((b = 0 \<or> b = 1) \<and> branches s ! b = Done True \<and> claim s = None)"
| "guard s (Check b) = False"
| "guard s (Publish b) =
     ((b = 0 \<or> b = 1) \<and> branches s ! b = Done True \<and> claim s = Some b \<and> \<not> is_published s)"
| "guard s (IssueCancel b) =
     ((b = 0 \<or> b = 1) \<and> claim s = Some (1 - b) \<and> branches s ! b = Running \<and> \<not> cancel_pending s ! b)"
| "guard s (CancelLands b) = ((b = 0 \<or> b = 1) \<and> branches s ! b = Running \<and> cancel_pending s ! b)"
| "guard s (Cleanup b) = ((b = 0 \<or> b = 1) \<and> scratch s ! b \<and> settled s)"
| "guard s FailAction =
     (\<not> settled s \<and> branches s ! 0 \<in> {Done False, Cancelled}
      \<and> branches s ! 1 \<in> {Done False, Cancelled})"

lemma branch_actions_guard:
  assumes "atomic_claim m" "b = 0 \<or> b = 1" "a \<in> set (branch_actions m s b)"
  shows "guard s a"
  using assms(2)
proof (elim disjE)
  assume "b = 0"
  with assms(1,3) show ?thesis
    by (auto simp: branch_actions_def Let_def split: branch.splits bool.splits if_splits)
next
  assume "b = 1"
  with assms(1,3) show ?thesis
    by (auto simp: branch_actions_def Let_def split: branch.splits bool.splits if_splits)
qed

lemma enabled_guard:
  assumes "atomic_claim m" "length (branches s) = 2" "a \<in> set (actions m s)"
  shows "guard s a"
  using assms branch_actions_guard [of m 0 a s] branch_actions_guard [of m 1 a s]
  by (auto simp: actions_def LOCAL_def REMOTE_def list_all_length split: if_splits)

lemma is_published_iff: "is_published s \<longleftrightarrow> publishes s \<noteq> 0"
  by (simp add: is_published_def word_gt_0)

lemma publish_next_state:
  assumes "guard s (Publish b)" "next_state m s (Publish b) = Some t"
  shows "t = s\<lparr>publishes := 1, scratch := (scratch s)[b := False]\<rparr>"
    and "b = 0 \<or> b = 1" "branches s ! b = Done True" "claim s = Some b" "publishes s = 0"
  using assms by (auto simp: is_published_iff)

lemma branch_ok_won: "branch_ok br scr pending True lost fail \<Longrightarrow> br = Done True \<and> \<not> fail"
  by (cases br) (auto split: if_splits)

lemma branch_ok_scratch: "branch_ok br True pending won lost fail \<Longrightarrow> br = Done True"
  by (cases br) (auto split: if_splits)

lemma branch_ok_lost: "branch_ok br scr pending won lost fail \<Longrightarrow> branch_ok br scr pending won True fail"
  by (cases br) (auto split: if_splits)

lemmas dynamic_inv_defs = dynamic_inv_def branch_inv_def settled_def is_published_iff

lemma dynamic_inv_scratch:
  "dynamic_inv s \<Longrightarrow> guard s (Cleanup b) \<Longrightarrow> branches s ! b = Done True"
  by (auto simp: dynamic_inv_def branch_inv_def dest: branch_ok_scratch)

lemma dynamic_inv_step:
  assumes "dynamic_inv s" "guard s a" "next_state m s a = Some t"
  shows "dynamic_inv t"
proof (cases a)
  case (Publish b)
  with assms(2,3) have g: "guard s (Publish b)" "next_state m s (Publish b) = Some t" by auto
  show ?thesis using assms(1) publish_next_state [OF g] by (auto simp: dynamic_inv_defs)
next
  case (Claim b)
  with assms show ?thesis by (auto simp: dynamic_inv_defs intro: branch_ok_lost)
next
  case (Start b)
  with assms show ?thesis by (auto simp: dynamic_inv_defs)
next
  case (Finish b ok)
  with assms show ?thesis by (auto simp: dynamic_inv_defs)
next
  case (IssueCancel b)
  with assms show ?thesis by (auto simp: dynamic_inv_defs)
next
  case (CancelLands b)
  with assms show ?thesis by (auto simp: dynamic_inv_defs)
next
  case (Cleanup b)
  with assms dynamic_inv_scratch [of s b] show ?thesis by (auto simp: dynamic_inv_defs)
next
  case FailAction
  with assms show ?thesis by (auto simp: dynamic_inv_defs)
qed (use assms in auto)

lemma dynamic_inv_init: "s \<in> set (init_states m) \<Longrightarrow> dynamic_inv s"
  by (simp add: init_states_def dynamic_inv_defs is_published_def)

section \<open>Termination\<close>

text \<open>Every step of a race lowers this rank, so a race is over after at most 26 steps.\<close>

fun branch_rank :: "branch \<Rightarrow> bool \<Rightarrow> bool \<Rightarrow> nat" where
  "branch_rank Idle pending scr = 10"
| "branch_rank Running pending scr = (if pending then 5 else 6)"
| "branch_rank b pending scr = (if scr then 1 else 0)"

definition rank_of :: "state \<Rightarrow> nat \<Rightarrow> nat" where
  "rank_of s b = branch_rank (branches s ! b) (cancel_pending s ! b) (scratch s ! b)"

definition verdict_rank :: "state \<Rightarrow> nat" where
  "verdict_rank s =
     (if claim s = None then 3 else 0) + (if is_published s then 0 else 2) + (if failed s then 0 else 1)"

definition rank :: "state \<Rightarrow> nat" where
  "rank s = rank_of s 0 + rank_of s 1 + verdict_rank s"

lemma rank_lower_branch:
  "b = 0 \<or> b = 1 \<Longrightarrow> rank_of t b < rank_of s b \<Longrightarrow> rank_of t (1 - b) = rank_of s (1 - b)
    \<Longrightarrow> verdict_rank t = verdict_rank s \<Longrightarrow> rank t < rank s"
  by (elim disjE) (simp_all add: rank_def)

lemma rank_lower_verdict:
  "(\<And>b. rank_of t b \<le> rank_of s b) \<Longrightarrow> verdict_rank t < verdict_rank s \<Longrightarrow> rank t < rank s"
  unfolding rank_def by (meson add_le_less_mono add_mono)

lemma branch_rank_unscratched: "branch_rank br p False \<le> branch_rank br p scr"
  by (cases br) simp_all

lemma rank_of_unscratched: "rank_of (s\<lparr>scratch := (scratch s)[b := False]\<rparr>) c \<le> rank_of s c"
  by (cases "b = c"; cases "b < length (scratch s)")
    (simp_all add: rank_of_def branch_rank_unscratched list_update_beyond)

lemma rank_step_branch:
  assumes len: "length (branches s) = 2" "length (scratch s) = 2" "length (cancel_pending s) = 2"
    and b: "b = 0 \<or> b = 1"
    and t: "t = s\<lparr>branches := (branches s)[b := br], scratch := (scratch s)[b := scr],
      cancel_pending := (cancel_pending s)[b := p]\<rparr>"
    and less: "branch_rank br p scr < rank_of s b"
  shows "rank t < rank s"
proof (rule rank_lower_branch [OF b])
  show "rank_of t b < rank_of s b" using b less len by (auto simp: t rank_of_def)
  show "rank_of t (1 - b) = rank_of s (1 - b)" using b by (auto simp: t rank_of_def)
  show "verdict_rank t = verdict_rank s" by (simp add: t verdict_rank_def is_published_def)
qed

lemma rank_step:
  assumes "dynamic_inv s" "guard s a" "next_state m s a = Some t"
  shows "rank t < rank s"
proof -
  have len: "length (branches s) = 2" "length (scratch s) = 2" "length (cancel_pending s) = 2"
    using assms(1) by (simp_all add: dynamic_inv_def)
  note branch_step = rank_step_branch [OF len]
  show ?thesis
  proof (cases a)
    case (Publish b)
    with assms(2,3) have g: "guard s (Publish b)" "next_state m s (Publish b) = Some t" by auto
    have "rank_of t c = rank_of (s\<lparr>scratch := (scratch s)[b := False]\<rparr>) c" for c
      by (simp add: publish_next_state(1) [OF g] rank_of_def)
    then show ?thesis
      by (intro rank_lower_verdict)
        (simp_all add: rank_of_unscratched verdict_rank_def is_published_iff publish_next_state [OF g])
  next
    case (Start b)
    then show ?thesis using assms
      by (intro branch_step [where b = b and br = Running and scr = "scratch s ! b" and p = "cancel_pending s ! b"])
        (auto simp: rank_of_def)
  next
    case (Finish b ok)
    then show ?thesis using assms by (intro branch_step [where b = b]) (auto simp: rank_of_def)
  next
    case (CancelLands b)
    then show ?thesis using assms by (intro branch_step [where b = b]) (auto simp: rank_of_def)
  next
    case (IssueCancel b)
    then have b: "b = 0 \<or> b = 1" "branches s ! b = Running" "\<not> cancel_pending s ! b"
      using assms(2) by auto
    from b(2) have "(branches s)[b := Running] = branches s" by (metis list_update_id)
    then show ?thesis using IssueCancel assms(3) b
      by (intro branch_step [where b = b and br = Running and scr = "scratch s ! b" and p = True])
        (simp_all add: rank_of_def)
  next
    case (Cleanup b)
    then have b: "b = 0 \<or> b = 1" "branches s ! b = Done True" "scratch s ! b"
      using assms(2) dynamic_inv_scratch [OF assms(1)] by auto
    from b(2) have "(branches s)[b := Done True] = branches s" by (metis list_update_id)
    then show ?thesis using Cleanup assms(3) b
      by (intro branch_step [where b = b and br = "Done True" and scr = False
            and p = "cancel_pending s ! b"])
        (auto simp: rank_of_def)
  qed (use assms in \<open>auto intro!: rank_lower_verdict simp: rank_of_def verdict_rank_def is_published_def settled_def\<close>)
qed

lemma next_state_total: "next_state m s a \<noteq> None"
  by (cases a) simp_all

abbreviation atomic :: dynamic where
  "atomic \<equiv> \<lparr>atomic_claim = True\<rparr>"

lemma atomic_claim_iff: "atomic_claim m \<longleftrightarrow> m = atomic"
  by (cases m) simp

lemma atomic_guard: "dynamic_inv s \<Longrightarrow> a \<in> set (actions atomic s) \<Longrightarrow> guard s a"
  by (rule enabled_guard [of atomic]) (simp_all add: dynamic_inv_def)

interpretation race: ranked_model "init_states atomic" "actions atomic" "next_state atomic"
    dynamic_inv rank
  by unfold_locales
    (blast intro: dynamic_inv_init atomic_guard dynamic_inv_step rank_step,
     blast intro: dynamic_inv_init atomic_guard dynamic_inv_step rank_step,
     blast intro: dynamic_inv_init atomic_guard dynamic_inv_step rank_step,
     metis next_state_total list.set_intros(1) neq_Nil_conv)

section \<open>Properties\<close>

text \<open>When nothing is enabled, no branch is in a state that would enable something.\<close>

lemma quiescent_branch:
  assumes "branch_actions atomic s b = []"
  shows "branches s ! b \<noteq> Running"
    and "branches s ! b = Idle \<Longrightarrow> settled s"
    and "branches s ! b = Done True \<Longrightarrow> claim s \<noteq> None"
    and "branches s ! b = Done True \<Longrightarrow> claim s = Some b \<Longrightarrow> is_published s"
    and "branches s ! b = Done True \<Longrightarrow> scratch s ! b \<Longrightarrow> settled s
      \<Longrightarrow> claim s = Some b \<and> \<not> is_published s"
  using assms
  by (auto simp: branch_actions_def Let_def split: if_splits)

lemma all_failed_enabled:
  "\<not> settled s \<Longrightarrow> branches s = [Done False, Done False] \<Longrightarrow> actions atomic s \<noteq> []"
  by (simp add: actions_def)

lemma quiescent_settled:
  assumes inv: "dynamic_inv s" and none: "actions atomic s = []"
  shows "settled s \<and> Running \<notin> set (branches s) \<and> \<not> scratch s ! 0 \<and> \<not> scratch s ! 1"
proof -
  have "branch_actions atomic s 0 = []" "branch_actions atomic s 1 = []"
    using none by (simp_all add: actions_def LOCAL_def REMOTE_def)
  note q = this [THEN quiescent_branch(1)] this [THEN quiescent_branch(2)]
    this [THEN quiescent_branch(3)] this [THEN quiescent_branch(4)] this [THEN quiescent_branch(5)]
  obtain x y where xy: "branches s = [x, y]"
    using inv by (auto simp: dynamic_inv_def length_Suc_conv numeral_2_eq_2)
  have i: "branch_inv s 0" "branch_inv s 1" and c: "claim s \<in> {None, Some 0, Some 1}"
    using inv by (auto simp: dynamic_inv_def)
  have settled: "settled s"
  proof (rule ccontr)
    assume n: "\<not> settled s"
    have "claim s = None"
      using c q(7,8) i n by (auto simp: branch_inv_def settled_def dest!: branch_ok_won)
    then have "branches s ! 0 = Done False"
      using i(1) q(1,3,5) n by (cases "branches s ! 0") (auto simp: branch_inv_def)
    moreover have "branches s ! 1 = Done False" using \<open>claim s = None\<close>
      using i(2) q(2,4,6) n by (cases "branches s ! 1") (auto simp: branch_inv_def)
    ultimately have "branches s ! 0 = Done False" "branches s ! 1 = Done False" by simp_all
    then have "branches s = [Done False, Done False]" by (simp add: xy)
    with n none show False using all_failed_enabled by blast
  qed
  have "\<not> scratch s ! 0" "\<not> scratch s ! 1"
    using q(7-10) i settled by (auto simp: branch_inv_def dest!: branch_ok_scratch)
  moreover have "Running \<notin> set (branches s)" using q(1,2) by (simp add: xy)
  ultimately show ?thesis using settled by simp
qed

lemmas dynamic_run_defs =
  init_states_def actions_def branch_actions_def LOCAL_def REMOTE_def settled_def is_published_def

lemma reaches_double_publish:
  "\<not> atomic_claim m \<Longrightarrow> \<exists>s. reachable m s \<and> publishes s = 2"
  by (rule sometimesI [where as = "[Start 0, Start 1, Finish 0 True, Finish 1 True,
        Check 0, Check 1, Publish 0, Publish 1]"])
    (simp_all add: dynamic_run_defs)

lemma reaches_local_wins: "\<exists>s. reachable atomic s \<and> is_published s \<and> claim s = Some LOCAL"
  by (rule sometimesI [where as = "[Start 0, Finish 0 True, Claim 0, Publish 0]"])
    (simp_all add: dynamic_run_defs)

lemma reaches_remote_wins: "\<exists>s. reachable atomic s \<and> is_published s \<and> claim s = Some REMOTE"
  by (rule sometimesI [where as = "[Start 1, Finish 1 True, Claim 1, Publish 1]"])
    (simp_all add: dynamic_run_defs)

lemma reaches_late_loser:
  "\<exists>s. reachable atomic s \<and> claim s \<noteq> None \<and> list_all (\<lambda>b. b = Done True) (branches s)"
  by (rule sometimesI [where as = "[Start 0, Start 1, Finish 0 True, Claim 0, Finish 1 True]"])
    (simp_all add: dynamic_run_defs)

lemma reaches_both_fail: "\<exists>s. reachable atomic s \<and> failed s"
  by (rule sometimesI [where as = "[Start 0, Start 1, Finish 0 False, Finish 1 False, FailAction]"])
    (simp_all add: dynamic_run_defs)

lemma reachable_dynamic_inv: "atomic_claim m \<Longrightarrow> reachable m s \<Longrightarrow> dynamic_inv s"
  using race.reach_inv by (simp add: atomic_claim_iff)

lemma dynamic_inv_branches:
  assumes "dynamic_inv s"
  shows "branches s ! 0 = Cancelled \<Longrightarrow> \<not> scratch s ! 0"
    and "branches s ! 1 = Cancelled \<Longrightarrow> \<not> scratch s ! 1"
    and "failed s \<Longrightarrow> list_all (\<lambda>b. b \<noteq> Done True) (branches s)"
    and "publishes s \<le> 1"
  using assms by (auto simp: dynamic_inv_def branch_inv_def list_all_length less_2_cases_iff)

text \<open>
  C14. The properties dynamic execution asserts hold exactly when winning is an atomic claim: an
  action is published at most once, a cancelled branch never holds outputs to publish, an action
  that failed has no successful branch, a race with nothing left to do is settled and leaves no
  branch running and no scratch directory behind, and each branch can win.
\<close>

theorem dynamic_safe_iff_atomic_claim:
  "assert_properties (reachable m) (properties m) \<longleftrightarrow> atomic_claim m"
proof
  assume m: "atomic_claim m"
  then have inv: "dynamic_inv s" if "reachable m s" for s
    using that by (rule reachable_dynamic_inv)
  show "assert_properties (reachable m) (properties m)"
    using inv dynamic_inv_branches quiescent_settled m reaches_local_wins reaches_remote_wins
      reaches_late_loser reaches_both_fail
    by (simp add: properties_def atomic_claim_iff dynamic_inv_def)
next
  assume "assert_properties (reachable m) (properties m)"
  then have "\<forall>s. reachable m s \<longrightarrow> publishes s \<le> 1" by (simp add: properties_def)
  moreover have "\<not> (2 :: u8) \<le> 1" by (simp add: word_le_nat_alt)
  ultimately have "\<not> (\<exists>s. reachable m s \<and> publishes s = 2)" by metis
  then show "atomic_claim m" using reaches_double_publish by blast
qed

text \<open>
  A race always ends, and ends decided: with an atomic claim no execution of an action takes
  more than 26 steps, and when nothing is left to do the action has either been published exactly
  once or has failed, never both.
\<close>

theorem dynamic_settles:
  assumes "atomic_claim m" "run (actions m) (next_state m) (hd (init_states m)) as = Some t"
  shows "length as \<le> 26 \<and> (actions m t \<noteq> [] \<or> publishes t = 1 \<and> \<not> failed t \<or> publishes t = 0 \<and> failed t)"
proof -
  have m: "m = atomic" using assms(1) by (simp add: atomic_claim_iff)
  have i: "dynamic_inv (hd (init_states atomic))"
    by (rule dynamic_inv_init [of _ atomic]) (simp add: init_states_def)
  have r: "run (actions atomic) (next_state atomic) (hd (init_states atomic)) as = Some t"
    using assms(2) by (simp add: m)
  have "length as \<le> 26"
    using race.run_rank [OF i r]
    by (simp add: rank_def rank_of_def verdict_rank_def init_states_def is_published_def)
  moreover have t: "dynamic_inv t" by (rule race.run_inv [OF i r])
  moreover have "publishes t = 1 \<and> \<not> failed t \<or> publishes t = 0 \<and> failed t" if "actions m t = []"
    using quiescent_settled [OF t] that t
    by (auto simp: m dynamic_inv_defs dest!: branch_ok_won)
  ultimately show ?thesis by blast
qed

theorem dynamic_settles_witness:
  "let as = [Start 0, Start 1, Finish 0 True, Claim 0, IssueCancel 1, Publish 0, CancelLands 1];
       t = the (run (actions atomic) (next_state atomic) (hd (init_states atomic)) as)
   in length as \<le> 26 \<and> actions atomic t = [] \<and> publishes t = 1 \<and> \<not> failed t"
proof -
  let ?as = "[Start 0, Start 1, Finish 0 True, Claim 0, IssueCancel 1, Publish 0, CancelLands 1]"
  obtain t where t: "run (actions atomic) (next_state atomic) (hd (init_states atomic)) ?as = Some t"
      and q: "actions atomic t = []" "publishes t \<noteq> 0"
    by (simp add: dynamic_run_defs)
  show ?thesis
    using dynamic_settles [OF _ t] q t unfolding Let_def by simp
qed

end
