(* ===== verification/Disk_Cache_Protocol.thy ===== *)
theory Disk_Cache_Protocol
  imports Stateright
begin

text \<open>
  The shared \<open>--disk_cache\<close> directory (\<open>crates/fjfj-models/src/disk_cache.rs\<close>): two writers that
  produce the same action result, a reader, and a garbage collector that may delete at any time.
\<close>

section \<open>The model\<close>

datatype blob = Absent | Temp | Present

datatype reader = Idle | SawAc | Hit | Miss

record state =
  cas :: blob
  ac :: blob
  writer_done :: "bool list"
  reader :: reader
  bad_hit :: bool
  gcs :: u8

datatype action =
    WriteCasTemp nat
  | RenameCas nat
  | WriteAcTemp nat
  | RenameAc nat
  | ReadAc
  | UseBlob
  | GcAc
  | GcCas

record disk_cache =
  verify_cas_on_hit :: bool
  max_gcs :: u8

definition init_states :: "disk_cache \<Rightarrow> state list" where
  "init_states m =
     [\<lparr>cas = Absent, ac = Absent, writer_done = [False, False], reader = Idle, bad_hit = False,
       gcs = 0\<rparr>]"

text \<open>The action the body of the loop over the writers pushes for the writer \<open>w\<close>.\<close>

definition writer_actions :: "state \<Rightarrow> nat \<Rightarrow> action list" where
  "writer_actions s w =
     (if writer_done s ! w then []
      else case cas s of
        Absent \<Rightarrow> [WriteCasTemp w]
      | Temp \<Rightarrow> [RenameCas w]
      | Present \<Rightarrow>
          (case ac s of
             Absent \<Rightarrow> [WriteAcTemp w]
           | Temp \<Rightarrow> [RenameAc w]
           | Present \<Rightarrow> []))"

definition actions :: "disk_cache \<Rightarrow> state \<Rightarrow> action list" where
  "actions m s =
     concat (map (writer_actions s) [0, 1])
     @ (case reader s of
          Idle \<Rightarrow> (if ac s = Present \<or> list_all id (writer_done s) then [ReadAc] else [])
        | SawAc \<Rightarrow> [UseBlob]
        | _ \<Rightarrow> [])
     @ (if gcs s < max_gcs m then
          (if ac s = Present then [GcAc] else if cas s = Present then [GcCas] else [])
        else [])"

fun next_state :: "disk_cache \<Rightarrow> state \<Rightarrow> action \<Rightarrow> state option" where
  "next_state m s (WriteCasTemp w) = Some (s\<lparr>cas := Temp\<rparr>)"
| "next_state m s (RenameCas w) = Some (s\<lparr>cas := Present\<rparr>)"
| "next_state m s (WriteAcTemp w) = Some (s\<lparr>ac := Temp\<rparr>)"
| "next_state m s (RenameAc w) = Some (s\<lparr>ac := Present, writer_done := [True, True]\<rparr>)"
| "next_state m s ReadAc = Some (s\<lparr>reader := (if ac s = Present then SawAc else Miss)\<rparr>)"
| "next_state m s UseBlob =
     Some (if cas s = Present then s\<lparr>reader := Hit\<rparr>
           else if verify_cas_on_hit m then s\<lparr>reader := Miss\<rparr>
           else s\<lparr>reader := Hit, bad_hit := True\<rparr>)"
| "next_state m s GcAc = Some (s\<lparr>ac := Absent, gcs := gcs s + 1\<rparr>)"
| "next_state m s GcCas = Some (s\<lparr>cas := Absent, gcs := gcs s + 1\<rparr>)"

definition properties :: "disk_cache \<Rightarrow> state property list" where
  "properties m =
     [(Always, ''no hit without blob'', \<lambda>s. \<not> bad_hit s),
      (Always, ''reader never sees temp'', \<lambda>s. reader s \<noteq> SawAc \<or> ac s \<noteq> Temp),
      (Always, ''quiescence is settlement'', \<lambda>s. actions m s \<noteq> [] \<or> reader s \<in> {Hit, Miss}),
      (Sometimes, ''hit'', \<lambda>s. reader s = Hit),
      (Sometimes, ''miss after gc'', \<lambda>s. reader s = Miss \<and> gcs s > 0)]"

abbreviation reachable :: "disk_cache \<Rightarrow> state \<Rightarrow> bool" where
  "reachable m \<equiv> reach (init_states m) (actions m) (next_state m)"

section \<open>The invariant\<close>

text \<open>
  Either the writers are still at work, and then there is no entry and nothing has been read, or
  they are both done, and then no temporary file is left. In both cases an entry has its blob.
\<close>

definition cache_inv :: "disk_cache \<Rightarrow> state \<Rightarrow> bool" where
  "cache_inv m s \<longleftrightarrow>
     (writer_done s = [False, False] \<and> ac s \<noteq> Present \<and> reader s = Idle
       \<or> writer_done s = [True, True] \<and> ac s \<noteq> Temp \<and> cas s \<noteq> Temp)
     \<and> (ac s \<noteq> Present \<or> cas s = Present)
     \<and> (\<not> verify_cas_on_hit m \<or> \<not> bad_hit s)
     \<and> gcs s \<le> max_gcs m"

text \<open>What has to hold for an action to be enabled.\<close>

fun guard :: "disk_cache \<Rightarrow> state \<Rightarrow> action \<Rightarrow> bool" where
  "guard m s (WriteCasTemp w) \<longleftrightarrow> writer_done s = [False, False] \<and> cas s = Absent"
| "guard m s (RenameCas w) \<longleftrightarrow> writer_done s = [False, False] \<and> cas s = Temp"
| "guard m s (WriteAcTemp w) \<longleftrightarrow> writer_done s = [False, False] \<and> cas s = Present \<and> ac s = Absent"
| "guard m s (RenameAc w) \<longleftrightarrow> writer_done s = [False, False] \<and> cas s = Present \<and> ac s = Temp"
| "guard m s ReadAc \<longleftrightarrow> writer_done s = [True, True] \<and> reader s = Idle"
| "guard m s UseBlob \<longleftrightarrow> reader s = SawAc"
| "guard m s GcAc \<longleftrightarrow> ac s = Present \<and> gcs s < max_gcs m"
| "guard m s GcCas \<longleftrightarrow> ac s \<noteq> Present \<and> cas s = Present \<and> gcs s < max_gcs m"

lemma enabled_guard_cache:
  "cache_inv m s \<Longrightarrow> a \<in> set (actions m s) \<Longrightarrow> guard m s a"
  unfolding cache_inv_def
  by (elim conjE disjE)
    (auto simp: actions_def writer_actions_def split: blob.splits reader.splits if_splits)

lemma cache_inv_init: "s \<in> set (init_states m) \<Longrightarrow> cache_inv m s"
  by (simp add: init_states_def cache_inv_def)

lemma cache_inv_step:
  assumes "cache_inv m s" "guard m s a" "next_state m s a = Some t"
  shows "cache_inv m t"
proof (cases "a = GcAc \<or> a = GcCas")
  case True
  then have "gcs s + 1 \<le> max_gcs m" using assms(2) by (auto intro: u8_inc_le)
  then show ?thesis using True assms by (auto simp: cache_inv_def)
next
  case False
  then show ?thesis using assms by (cases a) (auto simp: cache_inv_def split: if_splits)
qed

section \<open>Termination\<close>

fun blob_rank :: "blob \<Rightarrow> nat" where
  "blob_rank Absent = 2"
| "blob_rank Temp = 1"
| "blob_rank Present = 0"

fun reader_rank :: "reader \<Rightarrow> nat" where
  "reader_rank Idle = 2"
| "reader_rank SawAc = 1"
| "reader_rank _ = 0"

definition rank :: "disk_cache \<Rightarrow> state \<Rightarrow> nat" where
  "rank m s = blob_rank (cas s) + blob_rank (ac s) + reader_rank (reader s)
     + 3 * (unat (max_gcs m) - unat (gcs s))"

lemma gc_rank: "g < (n :: u8) \<Longrightarrow> Suc (unat n - unat (g + 1)) = unat n - unat g"
  using u8_inc_unat [of g n] by (auto simp: word_less_nat_alt)

lemma rank_step_cache:
  assumes "cache_inv m s" "guard m s a" "next_state m s a = Some t"
  shows "rank m t < rank m s"
proof (cases a)
  case GcAc
  then have "t = s\<lparr>ac := Absent, gcs := gcs s + 1\<rparr>" "ac s = Present" "gcs s < max_gcs m"
    using assms(2,3) by auto
  then show ?thesis using gc_rank [of "gcs s" "max_gcs m"] by (simp add: rank_def)
next
  case GcCas
  then have "t = s\<lparr>cas := Absent, gcs := gcs s + 1\<rparr>" "cas s = Present" "gcs s < max_gcs m"
    using assms(2,3) by auto
  then show ?thesis using gc_rank [of "gcs s" "max_gcs m"] by (simp add: rank_def)
qed (use assms(2,3) in \<open>auto simp: rank_def split: if_splits\<close>)

lemma next_state_total_cache: "next_state m s a \<noteq> None"
  by (cases a) simp_all

interpretation cache: ranked_model "init_states m" "actions m" "next_state m" "cache_inv m" "rank m" for m
proof unfold_locales
  show "s \<in> set (init_states m) \<Longrightarrow> cache_inv m s" for s by (rule cache_inv_init)
  show "cache_inv m t" if "cache_inv m s" "a \<in> set (actions m s)" "next_state m s a = Some t" for s a t
    using that enabled_guard_cache cache_inv_step by blast
  show "rank m t < rank m s" if "cache_inv m s" "a \<in> set (actions m s)" "next_state m s a = Some t" for s a t
    using that enabled_guard_cache rank_step_cache by blast
  show "\<exists>a\<in>set (actions m s). next_state m s a \<noteq> None" if "actions m s \<noteq> []" for s
    using that next_state_total_cache by (meson last_in_set)
qed

section \<open>Properties\<close>

lemma quiescent_answered:
  assumes "cache_inv m s" "actions m s = []"
  shows "reader s \<in> {Hit, Miss}"
  using assms unfolding cache_inv_def
  by (elim conjE disjE)
    (auto simp: actions_def writer_actions_def split: blob.splits reader.splits if_splits)

lemmas cache_run_defs = init_states_def actions_def writer_actions_def

lemma reaches_hit: "\<exists>s. reachable m s \<and> reader s = Hit"
  by (rule sometimesI [where as =
        "[WriteCasTemp 0, RenameCas 1, WriteAcTemp 0, RenameAc 0, ReadAc, UseBlob]"])
    (simp_all add: cache_run_defs)

lemma reaches_miss_after_gc: "0 < max_gcs m \<Longrightarrow> \<exists>s. reachable m s \<and> reader s = Miss \<and> gcs s > 0"
  by (rule sometimesI [where as =
        "[WriteCasTemp 0, RenameCas 1, WriteAcTemp 0, RenameAc 0, GcAc, ReadAc]"])
    (simp_all add: cache_run_defs)

lemma reaches_bad_hit:
  "\<not> verify_cas_on_hit m \<Longrightarrow> 1 < max_gcs m \<Longrightarrow> \<exists>s. reachable m s \<and> bad_hit s"
  by (rule sometimesI [where as =
        "[WriteCasTemp 0, RenameCas 1, WriteAcTemp 0, RenameAc 0, ReadAc, GcAc, GcCas, UseBlob]"])
    (auto simp: cache_run_defs word_less_nat_alt)

text \<open>
  With room for at least two garbage collections, the properties the shared disk cache
  asserts (no hit is consumed while its blob is absent, the reader never sees a temporary file,
  nothing stops before the reader has an answer, hits and misses both occur) hold exactly when a
  hit is verified against the content store.
\<close>

theorem disk_cache_safe_iff_verified:
  assumes "1 < max_gcs m"
  shows "assert_properties (reachable m) (properties m) \<longleftrightarrow> verify_cas_on_hit m"
proof
  assume v: "verify_cas_on_hit m"
  have inv: "cache_inv m s" if "reachable m s" for s using that by (rule cache.reach_inv)
  have "\<not> bad_hit s \<and> (reader s \<noteq> SawAc \<or> ac s \<noteq> Temp)" if "reachable m s" for s
    using inv [OF that] v by (auto simp: cache_inv_def)
  moreover have "0 < max_gcs m" using assms by (auto simp: word_less_nat_alt)
  ultimately show "assert_properties (reachable m) (properties m)"
    using quiescent_answered inv reaches_hit [of m] reaches_miss_after_gc [of m]
    by (simp add: properties_def) blast
next
  assume "assert_properties (reachable m) (properties m)"
  then have "\<forall>s. reachable m s \<longrightarrow> \<not> bad_hit s" by (simp add: properties_def)
  then show "verify_cas_on_hit m" using reaches_bad_hit assms by blast
qed

theorem disk_cache_safe_iff_verified_witness:
  "\<not> assert_properties (reachable \<lparr>verify_cas_on_hit = False, max_gcs = 2\<rparr>)
      (properties \<lparr>verify_cas_on_hit = False, max_gcs = 2\<rparr>)"
  by (subst disk_cache_safe_iff_verified) (simp_all add: word_less_nat_alt)

text \<open>
  The collector's order, entries before blobs, does what its comment says: in every reachable
  state an action-cache entry has its blob, whether or not readers verify. So a hit can only be
  bad because a reader still holds an entry that has since been collected.
\<close>

theorem disk_cache_entry_has_blob:
  assumes "reachable m s" "ac s = Present"
  shows "cas s = Present"
  using cache.reach_inv [OF assms(1)] assms(2) by (simp add: cache_inv_def)

theorem disk_cache_entry_has_blob_witness:
  "cas (the (run (actions \<lparr>verify_cas_on_hit = False, max_gcs = 2\<rparr>)
      (next_state \<lparr>verify_cas_on_hit = False, max_gcs = 2\<rparr>)
      (hd (init_states \<lparr>verify_cas_on_hit = False, max_gcs = 2\<rparr>))
      [WriteCasTemp 0, RenameCas 1, WriteAcTemp 0, GcCas, WriteCasTemp 1, RenameCas 0, RenameAc 1])) = Present"
  by (rule disk_cache_entry_has_blob [OF reach_hd_runI [OF _ option.collapse [symmetric]]])
    (simp_all add: cache_run_defs)

text \<open>
  The reader always gets an answer: no run of the cache takes more than three steps per
  allowed garbage collection and six more, and when nothing is left to do the reader has a hit or
  a miss, and with verification on never a hit whose blob was gone.
\<close>

theorem disk_cache_reader_answers:
  assumes "run (actions m) (next_state m) (hd (init_states m)) as = Some t"
  shows "length as \<le> 3 * unat (max_gcs m) + 6
    \<and> (actions m t \<noteq> [] \<or> reader t \<in> {Hit, Miss} \<and> (bad_hit t \<longrightarrow> \<not> verify_cas_on_hit m))"
proof -
  have i: "cache_inv m (hd (init_states m))"
    by (rule cache_inv_init) (simp add: init_states_def)
  have "rank m (hd (init_states m)) = 3 * unat (max_gcs m) + 6"
    by (simp add: rank_def init_states_def)
  with cache.run_rank [OF i assms] have "length as \<le> 3 * unat (max_gcs m) + 6" by simp
  moreover have t: "cache_inv m t" by (rule cache.run_inv [OF i assms])
  ultimately show ?thesis using quiescent_answered [OF t] t by (auto simp: cache_inv_def)
qed

theorem disk_cache_reader_answers_witness:
  "let m = \<lparr>verify_cas_on_hit = True, max_gcs = 2\<rparr>;
       as = [WriteCasTemp 0, RenameCas 1, WriteAcTemp 0, RenameAc 0, ReadAc, GcAc, GcCas, UseBlob];
       t = the (run (actions m) (next_state m) (hd (init_states m)) as)
   in length as \<le> 12 \<and> reader t \<in> {Hit, Miss}"
proof -
  let ?m = "\<lparr>verify_cas_on_hit = True, max_gcs = 2\<rparr>"
  let ?as = "[WriteCasTemp 0, RenameCas 1, WriteAcTemp 0, RenameAc 0, ReadAc, GcAc, GcCas, UseBlob]"
  obtain t where t: "run (actions ?m) (next_state ?m) (hd (init_states ?m)) ?as = Some t"
      and q: "actions ?m t = []"
    by (simp add: cache_run_defs word_less_nat_alt)
  show ?thesis using disk_cache_reader_answers [OF t] q t unfolding Let_def by simp
qed

end
