(* ===== verification/Daemon_Protocol.thy ===== *)
theory Daemon_Protocol
  imports Stateright
begin

text \<open>
  The daemon's lifecycle (\<open>crates/fjfj-models/src/daemon.rs\<close>): one daemon per output base, guarded
  by a lock file; two clients that race to connect, to spawn and to run; crashes of either side
  and an idle timeout at any point.
\<close>

section \<open>The model\<close>

definition CLIENTS :: nat where "CLIENTS = 2"

datatype client = Idle | Connecting | Spawning | Blocked | Running | Done | Crashed

datatype daemon = Absent | Idle | Busy nat | ShuttingDown

datatype lock = Free | Held | Stale

record state =
  clients :: "client list"
  daemon :: daemon
  lock :: lock
  daemon_crashes :: u8
  client_crashes :: u8
  idle_timeouts :: u8
  refused_spawns :: u8

datatype action =
    Connect nat
  | Spawn nat
  | DaemonUp nat
  | Admit nat
  | Finish nat
  | ClientCrash nat
  | DaemonNoticesClientGone nat
  | IdleTimeout
  | ShutdownComplete
  | DaemonCrash

record daemon_protocol =
  break_stale_lock :: bool
  max_daemon_crashes :: u8
  max_client_crashes :: u8
  max_idle_timeouts :: u8
  max_refused_spawns :: u8

definition init_states :: "daemon_protocol \<Rightarrow> state list" where
  "init_states p =
     [\<lparr>clients = replicate CLIENTS client.Idle, daemon = Absent, lock = Free, daemon_crashes = 0,
       client_crashes = 0, idle_timeouts = 0, refused_spawns = 0\<rparr>]"

text \<open>The actions the body of the loop over the clients pushes for the client \<open>c\<close>.\<close>

definition client_actions :: "daemon_protocol \<Rightarrow> state \<Rightarrow> nat \<Rightarrow> action list" where
  "client_actions p s c =
     (case clients s ! c of
        client.Idle \<Rightarrow> [Connect c]
      | Connecting \<Rightarrow>
          (case daemon s of
             Absent \<Rightarrow> (if refused_spawns s < max_refused_spawns p then [Spawn c] else [])
           | Idle \<Rightarrow> [Admit c]
           | Busy _ \<Rightarrow> [Admit c]
           | ShuttingDown \<Rightarrow> [])
      | Spawning \<Rightarrow> [DaemonUp c]
      | Blocked \<Rightarrow> (if daemon s = Idle then [Admit c] else [])
      | Running \<Rightarrow>
          (if daemon s = Busy c then [Finish c] else [])
          @ (if client_crashes s < max_client_crashes p then [ClientCrash c] else [])
      | Done \<Rightarrow> []
      | Crashed \<Rightarrow> [])
     @ (if clients s ! c = Crashed \<and> daemon s = Busy c then [DaemonNoticesClientGone c] else [])"

definition actions :: "daemon_protocol \<Rightarrow> state \<Rightarrow> action list" where
  "actions p s =
     concat (map (client_actions p s) [0..<CLIENTS])
     @ (case daemon s of
          Idle \<Rightarrow>
            (if idle_timeouts s < max_idle_timeouts p \<and> Blocked \<notin> set (clients s)
             then [IdleTimeout] else [])
        | ShuttingDown \<Rightarrow> [ShutdownComplete]
        | _ \<Rightarrow> [])
     @ (if daemon s \<noteq> Absent \<and> daemon_crashes s < max_daemon_crashes p then [DaemonCrash] else [])"

fun next_state :: "daemon_protocol \<Rightarrow> state \<Rightarrow> action \<Rightarrow> state option" where
  "next_state p s (Connect c) = Some (s\<lparr>clients := (clients s)[c := Connecting]\<rparr>)"
| "next_state p s (Spawn c) = Some (s\<lparr>clients := (clients s)[c := Spawning]\<rparr>)"
| "next_state p s (DaemonUp c) =
     (let t = s\<lparr>clients := (clients s)[c := Connecting]\<rparr>
      in Some (if lock s = Free \<or> lock s = Stale \<and> break_stale_lock p
               then t\<lparr>lock := Held, daemon := Idle\<rparr>
               else t\<lparr>refused_spawns := refused_spawns t + 1\<rparr>))"
| "next_state p s (Admit c) =
     (case daemon s of
        Idle \<Rightarrow> Some (s\<lparr>daemon := Busy c, clients := (clients s)[c := Running]\<rparr>)
      | Busy _ \<Rightarrow> Some (s\<lparr>clients := (clients s)[c := Blocked]\<rparr>)
      | _ \<Rightarrow> None)"
| "next_state p s (Finish c) = Some (s\<lparr>clients := (clients s)[c := Done], daemon := Idle\<rparr>)"
| "next_state p s (ClientCrash c) =
     Some (s\<lparr>client_crashes := client_crashes s + 1, clients := (clients s)[c := Crashed]\<rparr>)"
| "next_state p s (DaemonNoticesClientGone c) = Some (s\<lparr>daemon := Idle\<rparr>)"
| "next_state p s IdleTimeout =
     Some (s\<lparr>idle_timeouts := idle_timeouts s + 1, daemon := ShuttingDown\<rparr>)"
| "next_state p s ShutdownComplete = Some (s\<lparr>daemon := Absent, lock := Free\<rparr>)"
| "next_state p s DaemonCrash =
     Some (s\<lparr>daemon_crashes := daemon_crashes s + 1, daemon := Absent, lock := Stale,
             clients := map (\<lambda>c. if c \<in> {Running, Blocked} then Connecting else c) (clients s)\<rparr>)"

definition properties :: "daemon_protocol \<Rightarrow> state property list" where
  "properties p =
     [(Always, ''one live daemon'',
         \<lambda>s. \<not> (case daemon s of Idle \<Rightarrow> True | Busy _ \<Rightarrow> True | ShuttingDown \<Rightarrow> True | Absent \<Rightarrow> False)
           \<or> lock s = Held),
      (Always, ''busy daemon has live client'',
         \<lambda>s. case daemon s of
           Busy client \<Rightarrow> clients s ! client = Running \<or> clients s ! client = Crashed
         | _ \<Rightarrow> True),
      (Always, ''commands are serialised'',
         \<lambda>s. length (filter (\<lambda>c. c = Running) (clients s)) \<le> 1),
      (Always, ''quiescence is settlement'',
         \<lambda>s. actions p s \<noteq> [] \<or> list_all (\<lambda>c. c \<in> {Done, Crashed}) (clients s)),
      (Sometimes, ''both clients complete'', \<lambda>s. list_all (\<lambda>c. c = Done) (clients s)),
      (Sometimes, ''spawn race is resolved by the lock'',
         \<lambda>s. daemon s \<noteq> Absent \<and> Spawning \<in> set (clients s))]"

abbreviation reachable :: "daemon_protocol \<Rightarrow> state \<Rightarrow> bool" where
  "reachable p \<equiv> reach (init_states p) (actions p) (next_state p)"

section \<open>The safety invariant\<close>

text \<open>What a client's state says of the daemon, and what the daemon's says of the clients.\<close>

fun client_ok :: "client \<Rightarrow> nat \<Rightarrow> daemon \<Rightarrow> bool" where
  "client_ok Running c d \<longleftrightarrow> d = Busy c"
| "client_ok Blocked c d \<longleftrightarrow> (case d of Idle \<Rightarrow> True | Busy _ \<Rightarrow> True | _ \<Rightarrow> False)"
| "client_ok _ c d \<longleftrightarrow> True"

fun daemon_ok :: "daemon \<Rightarrow> lock \<Rightarrow> bool \<Rightarrow> bool \<Rightarrow> bool" where
  "daemon_ok Absent l x y \<longleftrightarrow> l \<noteq> Held"
| "daemon_ok Idle l x y \<longleftrightarrow> l = Held"
| "daemon_ok (Busy c) l x y \<longleftrightarrow> l = Held \<and> (c = 0 \<and> x \<or> c = 1 \<and> y)"
| "daemon_ok ShuttingDown l x y \<longleftrightarrow> l = Held"

definition safe :: "state \<Rightarrow> bool" where
  "safe s \<longleftrightarrow> length (clients s) = 2
     \<and> client_ok (clients s ! 0) 0 (daemon s) \<and> client_ok (clients s ! 1) 1 (daemon s)
     \<and> daemon_ok (daemon s) (lock s)
         (clients s ! 0 \<in> {Running, Crashed}) (clients s ! 1 \<in> {Running, Crashed})"

text \<open>What has to hold for an action to be enabled.\<close>

fun guard :: "daemon_protocol \<Rightarrow> state \<Rightarrow> action \<Rightarrow> bool" where
  "guard p s (Connect c) \<longleftrightarrow> (c = 0 \<or> c = 1) \<and> clients s ! c = client.Idle"
| "guard p s (Spawn c) \<longleftrightarrow> (c = 0 \<or> c = 1) \<and> clients s ! c = Connecting \<and> daemon s = Absent
     \<and> refused_spawns s < max_refused_spawns p"
| "guard p s (DaemonUp c) \<longleftrightarrow> (c = 0 \<or> c = 1) \<and> clients s ! c = Spawning"
| "guard p s (Admit c) \<longleftrightarrow> (c = 0 \<or> c = 1) \<and> clients s ! c \<in> {Connecting, Blocked}
     \<and> (daemon s = Idle \<or> clients s ! c = Connecting \<and> (\<exists>b. daemon s = Busy b))"
| "guard p s (Finish c) \<longleftrightarrow> (c = 0 \<or> c = 1) \<and> clients s ! c = Running \<and> daemon s = Busy c"
| "guard p s (ClientCrash c) \<longleftrightarrow> (c = 0 \<or> c = 1) \<and> clients s ! c = Running
     \<and> client_crashes s < max_client_crashes p"
| "guard p s (DaemonNoticesClientGone c) \<longleftrightarrow>
     (c = 0 \<or> c = 1) \<and> clients s ! c = Crashed \<and> daemon s = Busy c"
| "guard p s IdleTimeout \<longleftrightarrow> daemon s = Idle \<and> clients s ! 0 \<noteq> Blocked \<and> clients s ! 1 \<noteq> Blocked
     \<and> idle_timeouts s < max_idle_timeouts p"
| "guard p s ShutdownComplete \<longleftrightarrow> daemon s = ShuttingDown"
| "guard p s DaemonCrash \<longleftrightarrow> daemon s \<noteq> Absent \<and> daemon_crashes s < max_daemon_crashes p"

lemma client_actions_guard:
  "c = 0 \<or> c = 1 \<Longrightarrow> a \<in> set (client_actions p s c) \<Longrightarrow> guard p s a"
  by (auto simp: client_actions_def split: client.splits daemon.splits if_splits)

lemma enabled_guard_daemon:
  assumes "length (clients s) = 2" "a \<in> set (actions p s)"
  shows "guard p s a"
proof -
  have "a \<in> set (client_actions p s 0) \<or> a \<in> set (client_actions p s 1)
      \<or> guard p s a"
    using assms
    by (auto simp: actions_def CLIENTS_def upt_rec numeral_2_eq_2 in_set_conv_nth
        split: daemon.splits if_splits)
  then show ?thesis using client_actions_guard [of 0 a p s] client_actions_guard [of 1 a p s] by blast
qed

lemma client_ok_elsewhere:
  "client_ok x c (Busy b) \<Longrightarrow> b \<noteq> c \<Longrightarrow> client_ok x c daemon.Idle"
  by (cases x) simp_all

lemma client_ok_quiet: "client_ok x c daemon.Idle \<Longrightarrow> x \<noteq> Blocked \<Longrightarrow> client_ok x c d"
  by (cases x) simp_all

lemma client_ok_dead:
  "client_ok x c ShuttingDown \<Longrightarrow> client_ok x c d" "client_ok x c Absent \<Longrightarrow> client_ok x c d"
  by (cases x; simp)+

lemma client_ok_taken: "client_ok x c daemon.Idle \<Longrightarrow> client_ok x c (Busy b)"
  by (cases x) simp_all

lemma client_ok_dropped: "client_ok (if x \<in> {Running, Blocked} then Connecting else x) c d"
  by (cases x) simp_all

lemma client_ok_free: "x \<noteq> Running \<Longrightarrow> x \<noteq> Blocked \<Longrightarrow> client_ok x c d"
  by (cases x) simp_all

lemma safe_unlocked: "safe s \<Longrightarrow> lock s \<noteq> Held \<Longrightarrow> daemon s = Absent"
  by (cases "daemon s") (simp_all add: safe_def)

lemma safe_step:
  assumes "safe s" "guard p s a" "next_state p s a = Some t"
  shows "safe t"
proof -
  have len: "length (clients s) = 2" using assms(1) by (simp add: safe_def)
  show ?thesis
  proof (cases a)
    case (Connect c)
    with assms len show ?thesis
      by (auto simp: safe_def split: if_splits daemon.splits
          intro: client_ok_elsewhere client_ok_quiet client_ok_dead client_ok_taken)
  next
    case (Spawn c)
    with assms len show ?thesis
      by (auto simp: safe_def split: if_splits daemon.splits
          intro: client_ok_elsewhere client_ok_quiet client_ok_dead client_ok_taken)
  next
    case (DaemonUp c)
    then show ?thesis
    proof (cases "lock s = Held")
      case True
      with DaemonUp assms len show ?thesis by (auto simp: safe_def Let_def)
    next
      case False
      with DaemonUp assms len safe_unlocked [OF assms(1)] show ?thesis
        by (auto simp: safe_def Let_def split: if_splits intro: client_ok_dead)
    qed
  next
    case (Admit c)
    with assms len show ?thesis
      by (auto simp: safe_def split: if_splits daemon.splits
          intro: client_ok_elsewhere client_ok_quiet client_ok_dead client_ok_taken)
  next
    case (Finish c)
    with assms len show ?thesis
      by (auto simp: safe_def split: if_splits daemon.splits
          intro: client_ok_elsewhere client_ok_quiet client_ok_dead client_ok_taken)
  next
    case (ClientCrash c)
    with assms len show ?thesis
      by (auto simp: safe_def split: if_splits daemon.splits
          intro: client_ok_elsewhere client_ok_quiet client_ok_dead client_ok_taken)
  next
    case (DaemonNoticesClientGone c)
    with assms len show ?thesis
      by (auto simp: safe_def split: if_splits daemon.splits
          intro: client_ok_elsewhere client_ok_quiet client_ok_dead client_ok_taken)
  next
    case IdleTimeout
    with assms len show ?thesis
      by (auto simp: safe_def split: if_splits daemon.splits
          intro: client_ok_elsewhere client_ok_quiet client_ok_dead client_ok_taken)
  next
    case ShutdownComplete
    with assms len show ?thesis
      by (auto simp: safe_def split: if_splits daemon.splits
          intro: client_ok_elsewhere client_ok_quiet client_ok_dead client_ok_taken)
  next
    case DaemonCrash
    with assms len show ?thesis
      by (auto simp: safe_def intro: client_ok_free)
  qed
qed

lemma safe_init: "s \<in> set (init_states p) \<Longrightarrow> safe s"
  by (simp add: init_states_def CLIENTS_def safe_def numeral_2_eq_2)

section \<open>Refused spawns\<close>

text \<open>
  A spawn is refused only when two clients race for one vacancy. When stale locks are broken, each
  life of a daemon costs at most one refusal, and lives end in a crash or an idle timeout. So the
  retries a client needs are bounded, and a protocol whose bound on refused spawns is above the
  number of lives never cuts a client off.
\<close>

definition spawning :: "client list \<Rightarrow> nat" where
  "spawning cs = (if cs ! 0 = Spawning then 1 else 0) + (if cs ! 1 = Spawning then 1 else 0)"

fun refusals_ok :: "daemon \<Rightarrow> nat \<Rightarrow> nat \<Rightarrow> nat \<Rightarrow> bool" where
  "refusals_ok Absent r n lives \<longleftrightarrow> r \<le> lives"
| "refusals_ok ShuttingDown r n lives \<longleftrightarrow> r + n \<le> lives"
| "refusals_ok _ r n lives \<longleftrightarrow> r + n \<le> Suc lives"

definition lives :: "state \<Rightarrow> nat" where
  "lives s = unat (daemon_crashes s) + unat (idle_timeouts s)"

definition max_lives :: "daemon_protocol \<Rightarrow> nat" where
  "max_lives p = unat (max_daemon_crashes p) + unat (max_idle_timeouts p)"

definition counters_ok :: "daemon_protocol \<Rightarrow> state \<Rightarrow> bool" where
  "counters_ok p s \<longleftrightarrow> daemon_crashes s \<le> max_daemon_crashes p \<and> idle_timeouts s \<le> max_idle_timeouts p
     \<and> refusals_ok (daemon s) (unat (refused_spawns s)) (spawning (clients s)) (lives s)"

definition roomy :: "daemon_protocol \<Rightarrow> bool" where
  "roomy p \<longleftrightarrow> break_stale_lock p \<and> max_lives p < unat (max_refused_spawns p)"

lemma lives_bounded: "counters_ok p s \<Longrightarrow> lives s \<le> max_lives p"
  by (auto simp: counters_ok_def lives_def max_lives_def word_le_nat_alt)

lemma refusals_bounded: "counters_ok p s \<Longrightarrow> unat (refused_spawns s) \<le> Suc (lives s)"
  by (cases "daemon s") (auto simp: counters_ok_def)

lemma refused_counts:
  assumes "roomy p" "safe s" "counters_ok p s" "clients s ! c = Spawning" "c = 0 \<or> c = 1" "lock s = Held"
  shows "unat (refused_spawns s + 1) = Suc (unat (refused_spawns s))"
    and "unat (refused_spawns s) < unat (max_refused_spawns p)"
proof -
  have "1 \<le> spawning (clients s)" using assms(4,5) by (auto simp: spawning_def)
  moreover have "daemon s \<noteq> Absent" using assms(2,6) by (auto simp: safe_def)
  ultimately have "unat (refused_spawns s) \<le> lives s"
    using assms(3) by (cases "daemon s") (auto simp: counters_ok_def)
  then show lt: "unat (refused_spawns s) < unat (max_refused_spawns p)"
    using lives_bounded [OF assms(3)] assms(1) by (simp add: roomy_def)
  then show "unat (refused_spawns s + 1) = Suc (unat (refused_spawns s))"
    by (intro u8_inc_unat [of _ "max_refused_spawns p"]) (simp add: word_less_nat_alt)
qed

lemma spawning_le: "spawning cs \<le> 2"
  by (simp add: spawning_def)

lemma spawning_update:
  "length cs = 2 \<Longrightarrow> c = 0 \<or> c = 1 \<Longrightarrow> cs ! c \<noteq> Spawning \<Longrightarrow> x \<noteq> Spawning \<Longrightarrow>
    spawning (cs[c := x]) = spawning cs"
  by (auto simp: spawning_def)

lemma spawning_leave:
  "length cs = 2 \<Longrightarrow> c = 0 \<or> c = 1 \<Longrightarrow> cs ! c = Spawning \<Longrightarrow>
    Suc (spawning (cs[c := Connecting])) = spawning cs"
  by (auto simp: spawning_def)

lemma spawning_dropped:
  "length cs = 2 \<Longrightarrow>
    spawning (map (\<lambda>c. if c \<in> {Running, Blocked} then Connecting else c) cs) = spawning cs"
  by (simp add: spawning_def)

lemma refusals_ended:
  "refusals_ok d r n l \<Longrightarrow> d \<noteq> Absent \<Longrightarrow> refusals_ok Absent r m (Suc l)"
  by (cases d) simp_all

lemma refused_step:
  assumes p: "roomy p" and inv: "safe s" "counters_ok p s" and c: "c = 0 \<or> c = 1" "clients s ! c = Spawning"
  shows "counters_ok p (the (next_state p s (DaemonUp c)))"
proof -
  have n: "Suc (spawning ((clients s)[c := Connecting])) = spawning (clients s)"
    using inv(1) c by (intro spawning_leave) (simp_all add: safe_def)
  show ?thesis
  proof (cases "lock s = Held")
    case True
    then have "daemon s \<noteq> Absent" using inv(1) by (auto simp: safe_def)
    with True n refused_counts(1) [OF p inv c(2,1) True] inv(2) show ?thesis
      by (cases "daemon s") (auto simp: counters_ok_def lives_def Let_def)
  next
    case False
    then have "daemon s = Absent" using inv(1) by (rule safe_unlocked [rotated])
    moreover have "lock s = Free \<or> lock s = Stale \<and> break_stale_lock p"
      using False p by (cases "lock s") (simp_all add: roomy_def)
    ultimately show ?thesis using inv(2) n spawning_le [of "clients s"]
      by (auto simp: counters_ok_def lives_def Let_def)
  qed
qed

lemma counters_step:
  assumes p: "roomy p" and inv: "safe s" "counters_ok p s"
    and step: "guard p s a" "next_state p s a = Some t"
  shows "counters_ok p t"
proof -
  have len: "length (clients s) = 2" using inv by (simp add: safe_def)
  show ?thesis
  proof (cases a)
    case (DaemonUp c)
    with refused_step [OF p inv, of c] step show ?thesis by (simp add: Let_def split: if_splits)
  next
    case IdleTimeout
    then show ?thesis using step inv(2) u8_inc_unat u8_inc_le
      by (auto simp: counters_ok_def lives_def)
  next
    case DaemonCrash
    then show ?thesis using step inv(2) u8_inc_unat u8_inc_le refusals_ended
      by (auto simp: counters_ok_def lives_def)
  next
    case ShutdownComplete
    then show ?thesis using step inv(2) by (auto simp: counters_ok_def lives_def)
  next
    case (Admit c)
    then show ?thesis using step inv(2) len spawning_update [of "clients s" c]
      by (auto simp: counters_ok_def lives_def)
  qed (use step inv(2) len spawning_update [of "clients s"] in
      \<open>auto simp: counters_ok_def lives_def\<close>)
qed

interpretation exclusive: model_invariant "init_states p" "actions p" "next_state p" safe for p
proof unfold_locales
  fix s assume "s \<in> set (init_states p)" then show "safe s" by (rule safe_init)
next
  fix s a t assume "safe s" "a \<in> set (actions p s)" "next_state p s a = Some t"
  then show "safe t" using safe_step enabled_guard_daemon by (meson safe_def)
qed

section \<open>Termination\<close>

text \<open>
  Every step lowers a rank: a client moves towards its end, and the steps that move it back are paid
  for by one of the counters.
\<close>

fun client_rank :: "client \<Rightarrow> nat" where
  "client_rank client.Idle = 7"
| "client_rank Connecting = 6"
| "client_rank Spawning = 5"
| "client_rank Blocked = 3"
| "client_rank Running = 1"
| "client_rank Done = 0"
| "client_rank Crashed = 0"

fun daemon_rank :: "daemon \<Rightarrow> nat" where
  "daemon_rank daemon.Idle = 0"
| "daemon_rank (Busy c) = 1"
| "daemon_rank Absent = 2"
| "daemon_rank ShuttingDown = 3"

definition rank :: "daemon_protocol \<Rightarrow> state \<Rightarrow> nat" where
  "rank p s = client_rank (clients s ! 0) + client_rank (clients s ! 1) + daemon_rank (daemon s)
     + 13 * (unat (max_daemon_crashes p) - unat (daemon_crashes s))
     + 4 * (unat (max_idle_timeouts p) - unat (idle_timeouts s))
     + 2 * (unat (max_refused_spawns p) - unat (refused_spawns s))"

lemma client_rank_dropped:
  "client_rank (if x \<in> {Running, Blocked} then Connecting else x) \<le> client_rank x + 5"
  by (cases x) simp_all

lemma u8_inc_left: "x < (y :: u8) \<Longrightarrow> unat y - unat x = Suc (unat y - unat (x + 1))"
  by (simp add: u8_inc_unat word_less_nat_alt)

lemma rank_decreases:
  assumes p: "roomy p" and inv: "safe s" "counters_ok p s"
    and step: "guard p s a" "next_state p s a = Some t"
  shows "rank p t < rank p s"
proof -
  have len: "length (clients s) = 2" using inv by (simp add: safe_def)
  show ?thesis
  proof (cases a)
    case (DaemonUp c)
    then have c: "c = 0 \<or> c = 1" "clients s ! c = Spawning" using step by auto
    show ?thesis
    proof (cases "lock s = Held")
      case True
      with DaemonUp step len c refused_counts [OF p inv c(2,1) True] show ?thesis
        by (auto simp: rank_def Let_def)
    next
      case False
      then have "daemon s = Absent" using inv(1) by (rule safe_unlocked [rotated])
      moreover have "lock s = Free \<or> lock s = Stale \<and> break_stale_lock p"
        using False p by (cases "lock s") (simp_all add: roomy_def)
      ultimately show ?thesis using DaemonUp step len c by (auto simp: rank_def Let_def)
    qed
  next
    case DaemonCrash
    have "daemon_rank (daemon t) \<le> daemon_rank (daemon s) + 2"
      using DaemonCrash step by auto
    with DaemonCrash step len u8_inc_left [of "daemon_crashes s" "max_daemon_crashes p"]
      client_rank_dropped [of "clients s ! 0"] client_rank_dropped [of "clients s ! 1"]
    show ?thesis by (auto simp: rank_def)
  next
    case IdleTimeout
    with step u8_inc_left [of "idle_timeouts s" "max_idle_timeouts p"] show ?thesis
      by (auto simp: rank_def)
  qed (use step len in \<open>auto simp: rank_def\<close>)
qed

lemma guard_progress: "guard p s a \<Longrightarrow> next_state p s a \<noteq> None"
  by (cases a) (auto simp: Let_def split: daemon.splits)

text \<open>The initial states of the protocols whose bound on refused spawns is above the number of lives.\<close>

definition roomy_init :: "daemon_protocol \<Rightarrow> state list" where
  "roomy_init p = (if roomy p then init_states p else [])"

lemma counters_init: "s \<in> set (init_states p) \<Longrightarrow> counters_ok p s"
  by (simp add: init_states_def counters_ok_def)

interpretation lifecycle: ranked_model "roomy_init p" "actions p" "next_state p"
  "\<lambda>s. roomy p \<and> safe s \<and> counters_ok p s" "rank p" for p
proof unfold_locales
  fix s assume "s \<in> set (roomy_init p)"
  then show "roomy p \<and> safe s \<and> counters_ok p s"
    using safe_init counters_init by (auto simp: roomy_init_def split: if_splits)
next
  fix s a t
  assume inv: "roomy p \<and> safe s \<and> counters_ok p s" and "a \<in> set (actions p s)"
    and t: "next_state p s a = Some t"
  then have g: "guard p s a" using enabled_guard_daemon by (simp add: safe_def)
  show "roomy p \<and> safe t \<and> counters_ok p t"
    using inv safe_step [OF _ g t] counters_step [OF _ _ _ g t] by blast
  show "rank p t < rank p s" using inv rank_decreases [OF _ _ _ g t] by blast
next
  fix s assume "roomy p \<and> safe s \<and> counters_ok p s" "actions p s \<noteq> []"
  then show "\<exists>a\<in>set (actions p s). next_state p s a \<noteq> None"
    using enabled_guard_daemon guard_progress by (metis list.set_sel(1) safe_def)
qed

lemma roomy_inv:
  assumes "roomy p" "reachable p s"
  shows "roomy p \<and> safe s \<and> counters_ok p s"
proof (rule lifecycle.reach_inv)
  show "reach (roomy_init p) (actions p) (next_state p) s" using assms by (simp add: roomy_init_def)
qed

section \<open>Quiescence\<close>

lemma actions_empty:
  assumes "actions p s = []"
  shows "client_actions p s 0 = []" "client_actions p s 1 = []" "daemon s \<noteq> ShuttingDown"
  using assms by (auto simp: actions_def CLIENTS_def upt_rec numeral_2_eq_2 split: daemon.splits)

lemma room_to_spawn:
  assumes "roomy p" "counters_ok p s" "daemon s = Absent"
  shows "refused_spawns s < max_refused_spawns p"
  using assms lives_bounded [OF assms(2)] by (simp add: roomy_def counters_ok_def word_less_nat_alt)

lemma busy_acts:
  assumes "safe s" "daemon s = Busy b"
  shows "client_actions p s 0 \<noteq> [] \<or> client_actions p s 1 \<noteq> []"
  using assms by (auto simp: safe_def client_actions_def)

lemma client_settled:
  assumes inv: "roomy p" "safe s" "counters_ok p s" and q: "actions p s = []" and c: "c = 0 \<or> c = 1"
  shows "clients s ! c \<in> {Done, Crashed}"
proof -
  have e: "client_actions p s c = []" using actions_empty [OF q] c by auto
  have nb: "daemon s \<noteq> Busy b" for b
    using busy_acts [OF inv(2)] actions_empty [OF q] by blast
  have ok: "client_ok (clients s ! c) c (daemon s)" using inv(2) c by (auto simp: safe_def)
  show ?thesis
    using e nb ok room_to_spawn [OF inv(1,3)] actions_empty(3) [OF q]
    by (auto simp: client_actions_def split: client.splits daemon.splits if_splits)
qed

lemma quiescence_settles:
  assumes "roomy p" "safe s" "counters_ok p s" "actions p s = []"
  shows "list_all (\<lambda>c. c \<in> {Done, Crashed}) (clients s)"
proof -
  have "length (clients s) = 2" using assms(2) by (simp add: safe_def)
  then show ?thesis using client_settled [OF assms, of 0] client_settled [OF assms, of 1]
    by (auto simp: list_all_length less_2_cases_iff)
qed

section \<open>The wedge\<close>

text \<open>
  Without breaking stale locks, a client that finds a stale lock spawns and is refused until the bound
  on refused spawns is reached, and then nothing is enabled.
\<close>

definition wedged :: "daemon_protocol \<Rightarrow> u8 \<Rightarrow> state" where
  "wedged p r = \<lparr>clients = [Connecting, Connecting], daemon = Absent, lock = Stale, daemon_crashes = 1,
     client_crashes = 0, idle_timeouts = 0, refused_spawns = r\<rparr>"

lemmas daemon_run_defs = actions_def client_actions_def CLIENTS_def upt_rec numeral_2_eq_2 Let_def

lemma wedged_refused:
  assumes "\<not> break_stale_lock p" "r < max_refused_spawns p"
  shows "run (actions p) (next_state p) (wedged p r) [Spawn 0, DaemonUp 0] = Some (wedged p (r + 1))"
  using assms by (simp add: wedged_def daemon_run_defs)

lemma wedged_for_good:
  assumes "\<not> break_stale_lock p" "reachable p (wedged p r)" "r \<le> max_refused_spawns p"
  shows "reachable p (wedged p (max_refused_spawns p))"
  using assms(2,3)
proof (induction "unat (max_refused_spawns p) - unat r" arbitrary: r)
  case 0
  then have "r = max_refused_spawns p" by (simp add: word_le_nat_alt word_unat_eq_iff)
  with "0.prems" show ?case by simp
next
  case (Suc n)
  then have lt: "r < max_refused_spawns p" by (simp add: word_less_nat_alt)
  from u8_inc_left [OF lt] Suc(2) have "n = unat (max_refused_spawns p) - unat (r + 1)" by simp
  then show ?case
    using Suc.hyps(1) run_reach [OF Suc.prems(1) wedged_refused [OF assms(1) lt]] u8_inc_le [OF lt]
    by simp
qed

lemma wedge_reachable:
  assumes "\<not> break_stale_lock p" "0 < max_daemon_crashes p" "0 < max_refused_spawns p"
  shows "reachable p (wedged p (max_refused_spawns p))"
proof (rule wedged_for_good [OF assms(1)])
  show "reachable p (wedged p 0)"
    by (rule reach_hd_runI [where as = "[Connect 0, Spawn 0, DaemonUp 0, DaemonCrash, Connect 1]"])
      (use assms in \<open>simp_all add: init_states_def wedged_def daemon_run_defs\<close>)
qed simp

lemma wedged_stuck: "actions p (wedged p (max_refused_spawns p)) = []"
  by (simp add: wedged_def daemon_run_defs)

section \<open>Properties\<close>

text \<open>
  C15. The daemon's lifecycle protocol satisfies everything \<open>assert_properties\<close> checks (one live
  daemon, a busy daemon has a client, commands are serialised, quiescence is settlement, both clients
  can complete, the spawn race happens) exactly when a spawn breaks the stale lock of a crashed daemon.
  This holds for every bound on crashes and timeouts, when at least one daemon crash is possible and the
  bound on refused spawns is above the number of times a daemon may die.
\<close>

theorem daemon_safe_iff_breaks_stale_lock:
  assumes "0 < max_daemon_crashes p" and "max_lives p < unat (max_refused_spawns p)"
  shows "assert_properties (reachable p) (properties p) \<longleftrightarrow> break_stale_lock p"
proof
  assume props: "assert_properties (reachable p) (properties p)"
  show "break_stale_lock p"
  proof (rule ccontr)
    assume nb: "\<not> break_stale_lock p"
    have "0 < max_refused_spawns p" using assms(2) by (simp add: word_less_nat_alt)
    then have "reachable p (wedged p (max_refused_spawns p))"
      using wedge_reachable [OF nb assms(1)] by blast
    with props wedged_stuck [of p] show False
      by (simp add: properties_def) (fastforce simp: wedged_def)
  qed
next
  assume b: "break_stale_lock p"
  have p: "roomy p" using b assms(2) by (simp add: roomy_def)
  have room: "0 < max_refused_spawns p" using assms(2) by (simp add: word_less_nat_alt)
  have inv: "safe s \<and> counters_ok p s" if "reachable p s" for s
    using roomy_inv [OF p that] by blast
  have complete: "\<exists>s. reachable p s \<and> list_all (\<lambda>c. c = Done) (clients s)"
    by (rule sometimesI [where as = "[Connect 0, Spawn 0, DaemonUp 0, Admit 0, Finish 0, Connect 1,
        Admit 1, Finish 1]"]) (use b room in \<open>simp_all add: init_states_def daemon_run_defs\<close>)
  have race: "\<exists>s. reachable p s \<and> daemon s \<noteq> Absent \<and> Spawning \<in> set (clients s)"
    by (rule sometimesI [where as = "[Connect 0, Connect 1, Spawn 0, Spawn 1, DaemonUp 0]"])
      (use b room in \<open>simp_all add: init_states_def daemon_run_defs\<close>)
  have lives: "lock s = Held" if "reachable p s" "daemon s \<noteq> Absent" for s
    using inv [OF that(1)] that(2) by (cases "daemon s") (simp_all add: safe_def)
  have client: "clients s ! c = Running \<or> clients s ! c = Crashed" if "reachable p s" "daemon s = Busy c" for s c
    using inv [OF that(1)] that(2) by (auto simp: safe_def)
  have serial: "length (filter (\<lambda>c. c = Running) (clients s)) \<le> 1" if "reachable p s" for s
  proof -
    have "length (clients s) = 2" using inv [OF that] by (simp add: safe_def)
    then obtain x y where "clients s = [x, y]" by (auto simp: numeral_2_eq_2 length_Suc_conv)
    with inv [OF that] show ?thesis by (auto simp: safe_def)
  qed
  have settles: "actions p s \<noteq> [] \<or> list_all (\<lambda>c. c \<in> {Done, Crashed}) (clients s)"
    if "reachable p s" for s
    using quiescence_settles [OF p] inv [OF that] by blast
  show "assert_properties (reachable p) (properties p)"
    using complete race lives client serial settles
    by (simp add: properties_def split: daemon.split)
qed

theorem daemon_safe_iff_breaks_stale_lock_witness:
  "assert_properties
     (reachable \<lparr>break_stale_lock = True, max_daemon_crashes = 1, max_client_crashes = 1,
        max_idle_timeouts = 1, max_refused_spawns = 4\<rparr>)
     (properties \<lparr>break_stale_lock = True, max_daemon_crashes = 1, max_client_crashes = 1,
        max_idle_timeouts = 1, max_refused_spawns = 4\<rparr>)
   \<and> \<not> assert_properties
     (reachable \<lparr>break_stale_lock = False, max_daemon_crashes = 1, max_client_crashes = 1,
        max_idle_timeouts = 1, max_refused_spawns = 4\<rparr>)
     (properties \<lparr>break_stale_lock = False, max_daemon_crashes = 1, max_client_crashes = 1,
        max_idle_timeouts = 1, max_refused_spawns = 4\<rparr>)"
  using daemon_safe_iff_breaks_stale_lock [of "\<lparr>break_stale_lock = True, max_daemon_crashes = 1,
      max_client_crashes = 1, max_idle_timeouts = 1, max_refused_spawns = 4\<rparr>"]
    daemon_safe_iff_breaks_stale_lock [of "\<lparr>break_stale_lock = False, max_daemon_crashes = 1,
      max_client_crashes = 1, max_idle_timeouts = 1, max_refused_spawns = 4\<rparr>"]
  by (simp add: max_lives_def)

text \<open>
  With stale locks broken and room for the refused spawns, the daemon's protocol has no livelock: every
  run from a reachable state is at most as long as the state's rank, and every reachable state has a
  run that ends with nothing enabled and every client done or crashed.
\<close>

theorem daemon_settles:
  assumes "break_stale_lock p" and "max_lives p < unat (max_refused_spawns p)" and "reachable p s"
  shows "(\<forall>as t. run (actions p) (next_state p) s as = Some t \<longrightarrow> length as \<le> rank p s)
    \<and> (\<exists>as t. run (actions p) (next_state p) s as = Some t \<and> actions p t = []
         \<and> list_all (\<lambda>c. c \<in> {Done, Crashed}) (clients t))"
proof -
  have p: "roomy p" using assms by (simp add: roomy_def)
  have inv: "roomy p \<and> safe s \<and> counters_ok p s" by (rule roomy_inv [OF p assms(3)])
  have "length as \<le> rank p s" if "run (actions p) (next_state p) s as = Some t" for as t
    using lifecycle.run_rank [OF inv that] by simp
  moreover obtain as t where "run (actions p) (next_state p) s as = Some t" "safe t" "counters_ok p t"
    "actions p t = []"
    using lifecycle.run_to_quiescence [OF inv] by blast
  ultimately show ?thesis using quiescence_settles [OF p] by blast
qed

theorem daemon_settles_witness:
  "\<exists>as t. run (actions \<lparr>break_stale_lock = True, max_daemon_crashes = 1, max_client_crashes = 1,
        max_idle_timeouts = 1, max_refused_spawns = 4\<rparr>)
      (next_state \<lparr>break_stale_lock = True, max_daemon_crashes = 1, max_client_crashes = 1,
        max_idle_timeouts = 1, max_refused_spawns = 4\<rparr>)
      \<lparr>clients = [client.Idle, client.Idle], daemon = Absent, lock = Free, daemon_crashes = 0,
       client_crashes = 0, idle_timeouts = 0, refused_spawns = 0\<rparr> as = Some t
    \<and> list_all (\<lambda>c. c \<in> {Done, Crashed}) (clients t)"
proof -
  let ?p = "\<lparr>break_stale_lock = True, max_daemon_crashes = 1, max_client_crashes = 1,
        max_idle_timeouts = 1, max_refused_spawns = 4\<rparr>"
  let ?s = "\<lparr>clients = [client.Idle, client.Idle], daemon = Absent, lock = Free, daemon_crashes = 0,
       client_crashes = 0, idle_timeouts = 0, refused_spawns = 0\<rparr>"
  have "reachable ?p ?s"
    by (rule reach.reach_init) (simp add: init_states_def CLIENTS_def numeral_2_eq_2)
  with daemon_settles [of ?p ?s] show ?thesis by (simp add: max_lives_def) blast
qed

end
