(* ===== verification/Scheduler_Protocol.thy ===== *)
theory Scheduler_Protocol
  imports Stateright
begin

text \<open>
  The engine's scheduler (\<open>crates/fjfj-models/src/scheduler.rs\<close>): versioned edges, early cutoff,
  cancellation and cycle detection on a graph of five nodes, two of which are inputs that an edit
  may change at any point of an evaluation.
\<close>

section \<open>The model\<close>

definition X :: nat where "X = 0"

definition Y :: nat where "Y = 1"

definition B :: nat where "B = 2"

definition C :: nat where "C = 3"

definition A :: nat where "A = 4"

definition N :: nat where "N = 5"

type_synonym version = u8

datatype status = Idle | is_Reading: Reading version | Error

record node =
  changed_at :: version
  verified_at :: "version option"
  status :: status
  observed :: "version option list"
  committed :: "version option list"
  demanded :: bool
  waiting_on :: "nat option"

record state =
  version :: version
  nodes :: "node list"
  edits :: u8
  cancels :: u8

datatype action = Edit nat | Start nat | Read nat nat | Finish nat | Cancel nat

record scheduler =
  restart_on_version_change :: bool
  cyclic :: bool
  max_edits :: u8
  max_cancels :: u8

definition deps :: "scheduler \<Rightarrow> nat \<Rightarrow> nat list" where
  "deps m n =
     (if n = B then [X]
      else if n = C then (if cyclic m then [Y, A] else [Y])
      else if n = A then [B, C]
      else [])"

definition is_input :: "nat \<Rightarrow> bool" where
  "is_input n \<longleftrightarrow> n = X \<or> n = Y"

definition is_constant :: "nat \<Rightarrow> bool" where
  "is_constant n \<longleftrightarrow> n = B"

text \<open>The loop of \<open>reaches\<close>; the first argument is the number of iterations left.\<close>

fun reaches_loop :: "nat \<Rightarrow> state \<Rightarrow> nat \<Rightarrow> nat \<Rightarrow> bool" where
  "reaches_loop 0 s from target = False"
| "reaches_loop (Suc k) s from target =
     (if from = target then True
      else case waiting_on (nodes s ! from) of
             Some nxt \<Rightarrow> reaches_loop k s nxt target
           | None \<Rightarrow> False)"

definition reaches :: "state \<Rightarrow> nat \<Rightarrow> nat \<Rightarrow> bool" where
  "reaches s from target = reaches_loop N s from target"

definition update_node :: "nat \<Rightarrow> (node \<Rightarrow> node) \<Rightarrow> state \<Rightarrow> state" where
  "update_node n f s = s\<lparr>nodes := (nodes s)[n := f (nodes s ! n)]\<rparr>"

definition init_states :: "scheduler \<Rightarrow> state list" where
  "init_states m =
     (let blank = \<lparr>changed_at = 0, verified_at = None, status = Idle, observed = replicate N None,
             committed = replicate N None, demanded = False, waiting_on = None\<rparr>;
          s = \<lparr>version = 0, nodes = replicate N blank, edits = 0, cancels = 0\<rparr>;
          s = fold (\<lambda>n. update_node n (verified_at_update (\<lambda>_. Some 0))) [X, Y] s
      in [update_node A (demanded_update (\<lambda>_. True)) s])"

text \<open>The body of the loop over the nodes.\<close>

definition node_actions :: "scheduler \<Rightarrow> state \<Rightarrow> nat \<Rightarrow> action list" where
  "node_actions m s n =
     (let nd = nodes s ! n
      in if is_input n \<or> \<not> demanded nd then []
         else case status nd of
                Idle \<Rightarrow> (if verified_at nd \<noteq> Some (version s) then [Start n] else [])
              | Reading _ \<Rightarrow>
                  (let pending = filter (\<lambda>d. observed nd ! d = None) (deps m n)
                   in (if pending = [] then [Finish n] else map (Read n) pending)
                      @ (if cancels s < max_cancels m then [Cancel n] else []))
              | Error \<Rightarrow> [])"

definition actions :: "scheduler \<Rightarrow> state \<Rightarrow> action list" where
  "actions m s =
     (if edits s < max_edits m then [Edit X, Edit Y] else [])
     @ concat (map (node_actions m s) [0..<N])"

definition is_stale :: "state \<Rightarrow> nat \<Rightarrow> nat \<Rightarrow> bool" where
  "is_stale s n d \<longleftrightarrow> verified_at (nodes s ! d) \<noteq> Some (version s)
     \<or> observed (nodes s ! n) ! d \<noteq> Some (changed_at (nodes s ! d))"

definition read_dep :: "state \<Rightarrow> nat \<Rightarrow> nat \<Rightarrow> state" where
  "read_dep s n d =
     (let dep = nodes s ! d
      in if status dep = Error
         then update_node n (\<lambda>x. x\<lparr>status := Error, waiting_on := None\<rparr>) s
         else if verified_at dep = Some (version s)
         then update_node n (\<lambda>x. x\<lparr>observed := (observed x)[d := Some (changed_at dep)], waiting_on := None\<rparr>) s
         else if reaches s d n
         then update_node n (\<lambda>x. x\<lparr>status := Error, waiting_on := None\<rparr>) s
         else update_node n (\<lambda>x. x\<lparr>waiting_on := Some d\<rparr>) (update_node d (\<lambda>x. x\<lparr>demanded := True\<rparr>) s))"

text \<open>The tail of \<open>Finish\<close>: the node commits what it observed as verified at \<open>verified\<close>.\<close>

definition commit :: "nat \<Rightarrow> version \<Rightarrow> node \<Rightarrow> node" where
  "commit n verified x =
     (let unchanged = verified_at x \<noteq> None \<and> observed x = committed x;
          x = (if \<not> (unchanged \<or> is_constant n \<and> verified_at x \<noteq> None)
               then x\<lparr>changed_at := verified\<rparr> else x)
      in x\<lparr>verified_at := Some verified, committed := observed x, status := Idle, waiting_on := None\<rparr>)"

fun next_state :: "scheduler \<Rightarrow> state \<Rightarrow> action \<Rightarrow> state option" where
  "next_state m s (Edit i) =
     (let v = version s + 1;
          t = update_node i (\<lambda>x. x\<lparr>changed_at := v\<rparr>) (s\<lparr>version := v, edits := edits s + 1\<rparr>)
      in Some (fold (\<lambda>n. update_node n (\<lambda>x. x\<lparr>verified_at := Some v\<rparr>)) [X, Y] t))"
| "next_state m s (Start n) =
     Some (update_node n (\<lambda>x. x\<lparr>status := Reading (version s), observed := replicate N None\<rparr>) s)"
| "next_state m s (Read n d) = Some (read_dep s n d)"
| "next_state m s (Finish n) =
     (case status (nodes s ! n) of
        Reading start \<Rightarrow>
          (if restart_on_version_change m \<and> list_ex (is_stale s n) (deps m n)
           then Some (update_node n
                  (\<lambda>x. x\<lparr>observed := fold (\<lambda>d obs. if is_stale s n d then obs[d := None] else obs)
                          (deps m n) (observed x),
                        status := Reading (version s)\<rparr>) s)
           else Some (update_node n
                  (commit n (if restart_on_version_change m then version s else start)) s))
      | _ \<Rightarrow> None)"
| "next_state m s (Cancel n) =
     Some (update_node n (\<lambda>x. x\<lparr>status := Idle, observed := replicate N None, waiting_on := None\<rparr>)
       (s\<lparr>cancels := cancels s + 1\<rparr>))"

definition properties :: "scheduler \<Rightarrow> state property list" where
  "properties m =
     [(Always, ''no reads from the future'',
         \<lambda>s. list_all (\<lambda>n. case verified_at n of None \<Rightarrow> True
           | Some v \<Rightarrow> list_all (\<lambda>obs. case obs of None \<Rightarrow> True | Some w \<Rightarrow> w \<le> v) (committed n)) (nodes s)),
      (Always, ''verified implies current deps'',
         \<lambda>s. list_all (\<lambda>n. status (nodes s ! n) = Error
           \<or> verified_at (nodes s ! n) \<noteq> Some (version s)
           \<or> list_all (\<lambda>d. committed (nodes s ! n) ! d = Some (changed_at (nodes s ! d))) (deps m n)) [0..<N]),
      (Always, ''quiescence is settlement'',
         \<lambda>s. actions m s \<noteq> [] \<or> list_all (\<lambda>n. \<not> demanded n \<or> status n = Error
           \<or> verified_at n = Some (version s)) (nodes s))]
     @ (if cyclic m
        then [(Sometimes, ''cycle is reported'',
          \<lambda>s. status (nodes s ! A) = Error \<or> status (nodes s ! C) = Error)]
        else [(Sometimes, ''early cutoff happens'',
          \<lambda>s. version s > 0 \<and> verified_at (nodes s ! A) = Some (version s)
            \<and> changed_at (nodes s ! A) < version s)])"

abbreviation reachable :: "scheduler \<Rightarrow> state \<Rightarrow> bool" where
  "reachable m \<equiv> reach (init_states m) (actions m) (next_state m)"

lemmas node_ids = X_def Y_def B_def C_def A_def N_def

lemma deps_bound: "d \<in> set (deps m n) \<Longrightarrow> d < 5 \<and> d \<noteq> n \<and> n < 5 \<and> \<not> is_input n"
  by (auto simp: deps_def is_input_def node_ids split: if_splits)

section \<open>Enabled actions\<close>

fun guard :: "scheduler \<Rightarrow> state \<Rightarrow> action \<Rightarrow> bool" where
  "guard m s (Edit i) \<longleftrightarrow> is_input i \<and> edits s < max_edits m"
| "guard m s (Start n) \<longleftrightarrow> n < 5 \<and> \<not> is_input n \<and> status (nodes s ! n) = Idle
     \<and> verified_at (nodes s ! n) \<noteq> Some (version s)"
| "guard m s (Read n d) \<longleftrightarrow> n < 5 \<and> \<not> is_input n \<and> is_Reading (status (nodes s ! n)) \<and> d \<in> set (deps m n)"
| "guard m s (Finish n) \<longleftrightarrow> n < 5 \<and> \<not> is_input n \<and> is_Reading (status (nodes s ! n))"
| "guard m s (Cancel n) \<longleftrightarrow> n < 5 \<and> \<not> is_input n \<and> is_Reading (status (nodes s ! n))"

lemma node_actions_guard: "n < 5 \<Longrightarrow> a \<in> set (node_actions m s n) \<Longrightarrow> guard m s a"
  by (auto simp: node_actions_def Let_def split: status.splits if_splits)

lemma enabled_guard_scheduler: "a \<in> set (actions m s) \<Longrightarrow> guard m s a"
  using node_actions_guard
  by (fastforce simp: actions_def N_def is_input_def split: if_splits)

lemma node_actions_settled:
  assumes "node_actions m s n = []" "\<not> is_input n"
  shows "\<not> demanded (nodes s ! n) \<or> status (nodes s ! n) = Error \<or> verified_at (nodes s ! n) = Some (version s)"
  using assms by (auto simp: node_actions_def Let_def split: status.splits if_splits)

section \<open>The versions a node carries\<close>

fun opt_le :: "version \<Rightarrow> version option \<Rightarrow> bool" where
  "opt_le v None \<longleftrightarrow> True"
| "opt_le v (Some w) \<longleftrightarrow> w \<le> v"

text \<open>
  Nothing a node carries is newer than the global version, nothing it committed is newer than the
  version it is verified at, and it is being evaluated only while it is not verified.
\<close>

definition node_ok :: "version \<Rightarrow> node \<Rightarrow> bool" where
  "node_ok v x \<longleftrightarrow> length (observed x) = 5 \<and> length (committed x) = 5
     \<and> changed_at x \<le> v \<and> opt_le v (verified_at x) \<and> list_all (opt_le v) (observed x)
     \<and> (case verified_at x of None \<Rightarrow> True | Some w \<Rightarrow> list_all (opt_le w) (committed x))
     \<and> (\<not> is_Reading (status x) \<or> verified_at x \<noteq> Some v)"

lemma opt_le_mono: "v \<le> w \<Longrightarrow> opt_le v x \<Longrightarrow> opt_le w x"
  by (cases x) auto

lemma all_opt_le_mono: "v \<le> w \<Longrightarrow> list_all (opt_le v) xs \<Longrightarrow> list_all (opt_le w) xs"
  by (auto simp: list_all_iff intro: opt_le_mono)

lemma all_opt_le_update:
  "list_all (opt_le v) xs \<Longrightarrow> opt_le v x \<Longrightarrow> list_all (opt_le v) (xs[i := x])"
  using set_update_subset_insert [of xs i x] by (auto simp: list_all_iff)

lemma all_opt_le_drop:
  "list_all (opt_le v) xs \<Longrightarrow>
    list_all (opt_le v) (fold (\<lambda>d obs. if P d then obs[d := None] else obs) ds xs)"
  by (induction ds arbitrary: xs) (simp_all add: all_opt_le_update)

lemma length_drop: "length (fold (\<lambda>d obs. if P d then obs[d := None] else obs) ds xs) = length xs"
  by (induction ds arbitrary: xs) simp_all

lemma node_ok_newer:
  assumes "node_ok v x" "v < w"
  shows "node_ok w x"
proof -
  have "v \<le> w" "\<not> w \<le> v" using assms(2) by auto
  then show ?thesis
    using assms(1) all_opt_le_mono [of v w] opt_le_mono [of v w] order_trans [of _ v w]
    by (auto simp: node_ok_def)
qed

lemma node_ok_edit:
  assumes "node_ok v x" "verified_at x = Some v" "status x = Idle" "v < w" "c \<le> w"
  shows "node_ok w (x\<lparr>changed_at := c, verified_at := Some w\<rparr>)"
  using assms node_ok_newer [OF assms(1,4)] all_opt_le_mono [of v w] by (simp add: node_ok_def)

lemma node_ok_status:
  assumes "node_ok v x" "is_Reading st \<Longrightarrow> verified_at x \<noteq> Some v"
    "length obs = 5" "list_all (opt_le v) obs"
  shows "node_ok v (x\<lparr>status := st, observed := obs, waiting_on := w\<rparr>)"
  using assms by (auto simp: node_ok_def split: option.splits)

lemma node_ok_commit: "node_ok v x \<Longrightarrow> node_ok v (commit n v x)"
  by (simp add: node_ok_def commit_def Let_def)

lemma commit_fields [simp]:
  "verified_at (commit n v x) = Some v" "committed (commit n v x) = observed x"
  "status (commit n v x) = Idle" "waiting_on (commit n v x) = None" "demanded (commit n v x) = demanded x"
  by (simp_all add: commit_def Let_def)

section \<open>The invariant of the restarting scheduler\<close>

text \<open>A node verified at the current version observed the current state of every dependency, each of
  them verified at the current version too.\<close>

definition deps_ok :: "scheduler \<Rightarrow> state \<Rightarrow> nat \<Rightarrow> bool" where
  "deps_ok m s n \<longleftrightarrow> verified_at (nodes s ! n) \<noteq> Some (version s)
     \<or> (\<forall>d \<in> set (deps m n). verified_at (nodes s ! d) = Some (version s)
          \<and> committed (nodes s ! n) ! d = Some (changed_at (nodes s ! d)))"

definition input_ok :: "state \<Rightarrow> nat \<Rightarrow> bool" where
  "input_ok s n \<longleftrightarrow> verified_at (nodes s ! n) = Some (version s) \<and> status (nodes s ! n) = Idle"

definition inv :: "scheduler \<Rightarrow> state \<Rightarrow> bool" where
  "inv m s \<longleftrightarrow> length (nodes s) = 5 \<and> version s = edits s \<and> edits s \<le> max_edits m
     \<and> input_ok s X \<and> input_ok s Y
     \<and> (\<forall>n < 5. node_ok (version s) (nodes s ! n)) \<and> (\<forall>n < 5. deps_ok m s n)"

lemma inv_node: "inv m s \<Longrightarrow> n < 5 \<Longrightarrow> node_ok (version s) (nodes s ! n)"
  unfolding inv_def by blast

lemma inv_deps: "inv m s \<Longrightarrow> n < 5 \<Longrightarrow> deps_ok m s n"
  unfolding inv_def by blast

lemma inv_init: "s \<in> set (init_states m) \<Longrightarrow> inv m s"
  by (auto simp: init_states_def inv_def input_ok_def node_ok_def deps_ok_def deps_def Let_def
      update_node_def node_ids nth_list_update list_all_iff)

lemma nth_update_node:
  "n < length (nodes s) \<Longrightarrow>
    nodes (update_node n f s) ! k = (if k = n then f (nodes s ! n) else nodes s ! k)"
  by (auto simp: update_node_def nth_list_update)

lemma update_node_simps [simp]:
  "length (nodes (update_node n f s)) = length (nodes s)" "version (update_node n f s) = version s"
  "edits (update_node n f s) = edits s" "cancels (update_node n f s) = cancels s"
  by (simp_all add: update_node_def)

lemma deps_ok_cong:
  assumes "version t = version s"
    and "\<And>k. changed_at (nodes t ! k) = changed_at (nodes s ! k)"
    and "\<And>k. verified_at (nodes t ! k) = verified_at (nodes s ! k)"
    and "\<And>k. committed (nodes t ! k) = committed (nodes s ! k)"
  shows "deps_ok m t k \<longleftrightarrow> deps_ok m s k"
  using assms by (simp add: deps_ok_def)

text \<open>A step that changes neither what is verified nor what it is verified against.\<close>

lemma inv_local:
  assumes inv: "inv m s" and n: "n < 5" "\<not> is_input n" and ok: "node_ok (version s) (f (nodes s ! n))"
    and core: "changed_at (f (nodes s ! n)) = changed_at (nodes s ! n)"
      "verified_at (f (nodes s ! n)) = verified_at (nodes s ! n)"
      "committed (f (nodes s ! n)) = committed (nodes s ! n)"
  shows "inv m (update_node n f s)"
proof -
  have len: "length (nodes s) = 5" using inv by (simp add: inv_def)
  have "deps_ok m (update_node n f s) k \<longleftrightarrow> deps_ok m s k" for k
    using len n core by (intro deps_ok_cong) (simp_all add: nth_update_node)
  moreover have "input_ok (update_node n f s) i \<longleftrightarrow> input_ok s i" if "is_input i" for i
    using len n that by (auto simp: input_ok_def nth_update_node)
  ultimately show ?thesis
    using inv len n ok by (auto simp: inv_def nth_update_node is_input_def)
qed

text \<open>Marking a dependency as demanded touches nothing the invariant speaks of.\<close>

lemma inv_demand:
  assumes inv: "inv m s" and d: "d < 5"
  shows "inv m (update_node d (\<lambda>x. x\<lparr>demanded := True\<rparr>) s)"
proof -
  have len: "length (nodes s) = 5" using inv by (simp add: inv_def)
  have "deps_ok m (update_node d (\<lambda>x. x\<lparr>demanded := True\<rparr>) s) k \<longleftrightarrow> deps_ok m s k" for k
    using len d by (intro deps_ok_cong) (simp_all add: nth_update_node)
  moreover have "input_ok (update_node d (\<lambda>x. x\<lparr>demanded := True\<rparr>) s) i \<longleftrightarrow> input_ok s i" for i
    using len d by (auto simp: input_ok_def nth_update_node)
  ultimately show ?thesis
    using inv len d by (auto simp: inv_def nth_update_node is_input_def node_ok_def split: option.splits)
qed

lemma inv_read:
  assumes inv: "inv m s" and g: "guard m s (Read n d)"
  shows "inv m (read_dep s n d)"
proof -
  have n: "n < 5" "\<not> is_input n" "d < 5" "d \<noteq> n" using g deps_bound by auto
  have len: "length (nodes s) = 5" using inv by (simp add: inv_def)
  have ok: "node_ok (version s) (nodes s ! n)" "node_ok (version s) (nodes s ! d)"
    using inv_node [OF inv] n by blast+
  have "inv m (update_node n (\<lambda>x. x\<lparr>status := Error, waiting_on := None\<rparr>) s)"
    using ok(1) by (intro inv_local [OF inv n(1,2)]) (auto simp: node_ok_def split: option.splits)
  moreover have "inv m (update_node n
      (\<lambda>x. x\<lparr>observed := (observed x)[d := Some (changed_at (nodes s ! d))], waiting_on := None\<rparr>) s)"
    using ok by (intro inv_local [OF inv n(1,2)])
      (auto simp: node_ok_def all_opt_le_update split: option.splits)
  moreover have "inv m (update_node n (\<lambda>x. x\<lparr>waiting_on := Some d\<rparr>)
      (update_node d (\<lambda>x. x\<lparr>demanded := True\<rparr>) s))"
    using ok n len by (intro inv_local [OF inv_demand [OF inv n(3)] n(1,2)])
      (auto simp: node_ok_def nth_update_node split: option.splits)
  ultimately show ?thesis by (simp add: read_dep_def Let_def)
qed

lemma inv_commit:
  assumes inv: "inv m s" and g: "guard m s (Finish n)" and fresh: "\<forall>d \<in> set (deps m n). \<not> is_stale s n d"
  shows "inv m (update_node n (commit n (version s)) s)"
proof -
  have n: "n < 5" "\<not> is_input n" using g by auto
  have len: "length (nodes s) = 5" using inv by (simp add: inv_def)
  have ok: "node_ok (version s) (nodes s ! n)" using inv_node [OF inv n(1)] .
  have unverified: "verified_at (nodes s ! n) \<noteq> Some (version s)" using ok g by (simp add: node_ok_def)
  have "deps_ok m (update_node n (commit n (version s)) s) k" if "k < 5" for k
  proof (cases "k = n")
    case True
    then show ?thesis using len n fresh deps_bound [of _ m n]
      by (auto simp: deps_ok_def nth_update_node is_stale_def)
  next
    case False
    have "deps_ok m s k" using inv_deps [OF inv that] .
    then show ?thesis using len n False unverified
      by (auto simp: deps_ok_def nth_update_node)
  qed
  moreover have "input_ok (update_node n (commit n (version s)) s) i \<longleftrightarrow> input_ok s i" if "is_input i" for i
    using len n that by (auto simp: input_ok_def nth_update_node)
  ultimately show ?thesis
    using inv len n node_ok_commit [OF ok] by (auto simp: inv_def nth_update_node is_input_def)
qed

text \<open>What an edit leaves of each node.\<close>

definition edited :: "nat \<Rightarrow> version \<Rightarrow> nat \<Rightarrow> node \<Rightarrow> node" where
  "edited i v k x =
     (if is_input k
      then x\<lparr>changed_at := (if k = i then v else changed_at x), verified_at := Some v\<rparr> else x)"

lemma next_state_edit:
  assumes "length (nodes s) = 5" "is_input i" "next_state m s (Edit i) = Some t" "k < 5"
  shows "nodes t ! k = edited i (version s + 1) k (nodes s ! k)"
  using assms by (auto simp: Let_def update_node_def edited_def is_input_def node_ids nth_list_update)

lemma next_state_edit_fields:
  assumes "next_state m s (Edit i) = Some t"
  shows "version t = version s + 1" "edits t = edits s + 1" "length (nodes t) = length (nodes s)"
  using assms by (auto simp: Let_def update_node_def node_ids)

lemma inv_edit:
  assumes inv: "inv m s" and g: "guard m s (Edit i)" and t: "next_state m s (Edit i) = Some t"
  shows "inv m t"
proof -
  note fields = next_state_edit_fields [OF t]
  have len: "length (nodes s) = 5" and v: "version s = edits s" using inv by (simp_all add: inv_def)
  have lt: "version s < max_edits m" using g v by simp
  note nth = next_state_edit [OF len _ t]
  have i: "is_input i" using g by simp
  have inputs: "input_ok s k" if "is_input k" for k using inv that by (auto simp: inv_def is_input_def)
  have ok: "node_ok (version t) (nodes t ! k)" if "k < 5" for k
  proof -
    have old: "node_ok (version s) (nodes s ! k)" using inv_node [OF inv that] .
    then have "changed_at (nodes s ! k) \<le> version s" by (simp add: node_ok_def)
    then have "changed_at (nodes s ! k) \<le> version s + 1"
      using u8_less_inc [OF lt] by (rule order_trans [OF _ less_imp_le])
    then show ?thesis
      using old inputs [of k] node_ok_newer [OF old u8_less_inc [OF lt]] node_ok_edit [OF old _ _ u8_less_inc [OF lt]]
      by (simp add: nth [OF i that] edited_def fields input_ok_def)
  qed
  have "deps_ok m t k" if "k < 5" for k
  proof (cases "is_input k")
    case True
    then show ?thesis by (auto simp: deps_ok_def is_input_def deps_def node_ids)
  next
    case False
    have "opt_le (version s) (verified_at (nodes s ! k))"
      using inv_node [OF inv that] by (simp add: node_ok_def)
    then have "verified_at (nodes s ! k) \<noteq> Some (version s + 1)" using u8_less_inc [OF lt] by auto
    then show ?thesis using False by (simp add: deps_ok_def nth [OF i that] edited_def fields)
  qed
  moreover have "input_ok t k" if "is_input k" for k
    using inputs [OF that] that nth [OF i, of k]
    by (auto simp: input_ok_def edited_def fields is_input_def node_ids)
  ultimately show ?thesis
    using ok len v u8_inc_le [OF lt] by (simp add: inv_def fields is_input_def)
qed

lemma inv_cancels: "inv m (s\<lparr>cancels := c\<rparr>) \<longleftrightarrow> inv m s"
  by (simp add: inv_def input_ok_def deps_ok_def)

lemma inv_step_scheduler:
  assumes inv: "inv m s" and g: "guard m s a" and t: "next_state m s a = Some t"
    and m: "restart_on_version_change m"
  shows "inv m t"
proof (cases a)
  case (Edit i)
  then show ?thesis using inv_edit inv g t by simp
next
  case (Start n)
  then have n: "n < 5" "\<not> is_input n" using g by auto
  have "node_ok (version s) (nodes s ! n)" using inv_node [OF inv n(1)] .
  then have "inv m (update_node n (\<lambda>x. x\<lparr>status := Reading (version s), observed := replicate N None\<rparr>) s)"
    using g Start by (intro inv_local [OF inv n]) (auto simp: node_ok_def N_def list_all_iff split: option.splits)
  then show ?thesis using t Start by simp
next
  case (Read n d)
  then show ?thesis using inv_read [OF inv, of n d] g t by auto
next
  case (Finish n)
  then have n: "n < 5" "\<not> is_input n" using g by auto
  obtain v where v: "status (nodes s ! n) = Reading v" using g Finish by (auto simp: is_Reading_def)
  show ?thesis
  proof (cases "list_ex (is_stale s n) (deps m n)")
    case True
    have "node_ok (version s) (nodes s ! n)" using inv_node [OF inv n(1)] .
    then have "inv m (update_node n
        (\<lambda>x. x\<lparr>observed := fold (\<lambda>d obs. if is_stale s n d then obs[d := None] else obs) (deps m n) (observed x),
              status := Reading (version s)\<rparr>) s)"
      using v by (intro inv_local [OF inv n])
        (auto simp: node_ok_def all_opt_le_drop length_drop split: option.splits)
    then show ?thesis using t Finish True v m by simp
  next
    case False
    then show ?thesis using t Finish v m inv_commit [OF inv, of n] g by (simp add: list_ex_iff)
  qed
next
  case (Cancel n)
  then have n: "n < 5" "\<not> is_input n" using g by auto
  have "inv m (s\<lparr>cancels := cancels s + 1\<rparr>)"
    using inv by (simp add: inv_cancels)
  moreover have "node_ok (version s) (nodes s ! n)" using inv_node [OF inv n(1)] .
  ultimately have "inv m (update_node n (\<lambda>x. x\<lparr>status := Idle, observed := replicate N None, waiting_on := None\<rparr>)
       (s\<lparr>cancels := cancels s + 1\<rparr>))"
    by (intro inv_local [OF _ n]) (auto simp: node_ok_def N_def list_all_iff split: option.splits)
  then show ?thesis using t Cancel by simp
qed

text \<open>The initial states of the schedulers that restart a node when the version moves.\<close>

definition restarting_init :: "scheduler \<Rightarrow> state list" where
  "restarting_init m = (if restart_on_version_change m then init_states m else [])"

interpretation versioned: model_invariant "restarting_init m" "actions m" "next_state m"
  "\<lambda>s. restart_on_version_change m \<and> inv m s" for m
proof unfold_locales
  fix s assume "s \<in> set (restarting_init m)"
  then show "restart_on_version_change m \<and> inv m s"
    using inv_init by (auto simp: restarting_init_def split: if_splits)
next
  fix s a t
  assume "restart_on_version_change m \<and> inv m s" "a \<in> set (actions m s)" "next_state m s a = Some t"
  then show "restart_on_version_change m \<and> inv m t"
    using inv_step_scheduler enabled_guard_scheduler by blast
qed

lemma scheduler_reachable_inv:
  assumes "restart_on_version_change m" "reachable m s"
  shows "inv m s"
proof -
  have "reach (restarting_init m) (actions m) (next_state m) s"
    using assms by (simp add: restarting_init_def)
  then show ?thesis using versioned.reach_inv by blast
qed

section \<open>Cycle detection\<close>

text \<open>
  Who may wait on whom: a node waits on a dependency of its own, the two nodes that may depend on each
  other never both wait, and where the graph has no cycle no node is in error.
\<close>

definition waits :: "scheduler \<Rightarrow> state \<Rightarrow> bool" where
  "waits m s \<longleftrightarrow> length (nodes s) = 5
     \<and> waiting_on (nodes s ! X) = None \<and> waiting_on (nodes s ! Y) = None
     \<and> waiting_on (nodes s ! B) \<in> {None, Some X}
     \<and> (waiting_on (nodes s ! C) \<in> {None, Some Y}
        \<or> cyclic m \<and> waiting_on (nodes s ! C) = Some A \<and> waiting_on (nodes s ! A) \<noteq> Some C)
     \<and> waiting_on (nodes s ! A) \<in> {None, Some B, Some C}
     \<and> (cyclic m \<or> (\<forall>n < 5. status (nodes s ! n) \<noteq> Error))"

lemma reaches_loop_numeral [simp]:
  "reaches_loop (numeral k) s from target =
     (if from = target then True
      else case waiting_on (nodes s ! from) of
             Some nxt \<Rightarrow> reaches_loop (pred_numeral k) s nxt target
           | None \<Rightarrow> False)"
  by (simp add: numeral_eq_Suc)

lemma reaches_stop: "from \<noteq> target \<Longrightarrow> waiting_on (nodes s ! from) = None \<Longrightarrow> \<not> reaches_loop k s from target"
  by (cases k) simp_all

lemmas reaches_simps = reaches_def N_def

lemma no_reach:
  assumes w: "waits m s" and d: "d \<in> set (deps m n)" and c: "cyclic m \<Longrightarrow> waiting_on (nodes s ! n) = Some d"
  shows "\<not> reaches s d n"
proof -
  have ids: "X \<noteq> A" "X \<noteq> B" "X \<noteq> C" "Y \<noteq> A" "Y \<noteq> C" "B \<noteq> A" "B \<noteq> C" "C \<noteq> A" "A \<noteq> C"
    by (simp_all add: node_ids)
  have stop: "waiting_on (nodes s ! X) = None" "waiting_on (nodes s ! Y) = None"
    "waiting_on (nodes s ! B) \<in> {None, Some X}" using w by (simp_all add: waits_def)
  have X: "\<not> reaches s X B" and Y: "\<not> reaches s Y C" and B: "\<not> reaches s B A"
    using stop ids by (auto simp: reaches_simps)
  have C: "\<not> reaches s C A" if "cyclic m \<Longrightarrow> waiting_on (nodes s ! A) = Some C"
  proof -
    have "waiting_on (nodes s ! C) \<in> {None, Some Y}" using w that by (auto simp: waits_def)
    with stop ids show ?thesis by (auto simp: reaches_simps)
  qed
  have A: "\<not> reaches s A C" if "waiting_on (nodes s ! C) = Some A"
  proof -
    have "waiting_on (nodes s ! A) \<in> {None, Some B}" using w that ids by (auto simp: waits_def node_ids)
    with stop ids show ?thesis by (auto simp: reaches_simps)
  qed
  consider "n = B" "d = X" | "n = C" "d = Y" | "n = C" "d = A" "cyclic m" | "n = A" "d = B" | "n = A" "d = C"
    using d by (auto simp: deps_def split: if_splits)
  then show ?thesis using A B C X Y c by cases auto
qed

lemma reaches_waiting: "waiting_on (nodes s ! n) = Some d \<Longrightarrow> n \<noteq> d \<Longrightarrow> reaches s n d"
  by (simp add: reaches_simps)

text \<open>A step that changes what at most one node waits on, to nothing.\<close>

lemma waits_fewer:
  assumes w: "waits m s" and len: "length (nodes t) = 5"
    and keep: "\<And>k. waiting_on (nodes t ! k) \<in> {None, waiting_on (nodes s ! k)}"
    and st: "cyclic m \<or> (\<forall>k < 5. status (nodes t ! k) \<noteq> Error)"
  shows "waits m t"
proof -
  have fewer: "a' \<in> M \<or> cyclic m \<and> a' = Some c \<and> b' \<noteq> Some d"
    if "a \<in> M \<or> cyclic m \<and> a = Some c \<and> b \<noteq> Some d" "a' \<in> {None, a}" "b' \<in> {None, b}" "None \<in> M"
    for a a' b b' c d and M :: "nat option set" using that by auto
  have only: "a' \<in> M" if "a \<in> M" "a' \<in> {None, a}" "None \<in> M" for a a' and M :: "nat option set"
    using that by auto
  show ?thesis
    unfolding waits_def
    using w st len only [OF _ keep, of B "{None, Some X}"]
      only [OF _ keep, of A "{None, Some B, Some C}"]
      fewer [OF _ keep keep, of C "{None, Some Y}" A A C] only [OF _ keep, of X "{None}"] only [OF _ keep, of Y "{None}"]
    by (simp add: waits_def)
qed

lemma waits_local:
  assumes w: "waits m s" and n: "n < 5" and st: "cyclic m \<or> status (f (nodes s ! n)) \<noteq> Error"
    and wait: "waiting_on (f (nodes s ! n)) \<in> {None, waiting_on (nodes s ! n)}"
  shows "waits m (update_node n f s)"
proof (rule waits_fewer [OF w])
  have len: "length (nodes s) = 5" using w by (simp add: waits_def)
  then show "length (nodes (update_node n f s)) = 5" by simp
  show "waiting_on (nodes (update_node n f s) ! k) \<in> {None, waiting_on (nodes s ! k)}" for k
    using len n wait by (simp add: nth_update_node)
  show "cyclic m \<or> (\<forall>k < 5. status (nodes (update_node n f s) ! k) \<noteq> Error)"
    using w st len n by (auto simp: waits_def nth_update_node)
qed

lemma waits_demand:
  assumes w: "waits m s" and d: "d < 5"
  shows "waits m (update_node d (\<lambda>x. x\<lparr>demanded := True\<rparr>) s)"
  using assms by (intro waits_local) (auto simp: waits_def)

lemma waits_wait:
  assumes w: "waits m s" and d: "d \<in> set (deps m n)" and r: "\<not> reaches s d n"
  shows "waits m (update_node n (\<lambda>x. x\<lparr>waiting_on := Some d\<rparr>) s)"
proof -
  have len: "length (nodes s) = 5" using w by (simp add: waits_def)
  have n: "n < 5" "d \<noteq> n" using deps_bound [OF d] by auto
  have no: "waiting_on (nodes s ! d) \<noteq> Some n" using reaches_waiting [of s d n] r n by blast
  have st: "cyclic m \<or> (\<forall>k < 5. status (nodes (update_node n (\<lambda>x. x\<lparr>waiting_on := Some d\<rparr>) s) ! k) \<noteq> Error)"
    using w len n by (auto simp: waits_def nth_update_node)
  consider "n = B" "d = X" | "n = C" "d = Y" | "n = C" "d = A" "cyclic m" | "n = A" "d = B" | "n = A" "d = C"
    using d by (auto simp: deps_def split: if_splits)
  then show ?thesis
    using w st len no n by cases (auto simp: waits_def nth_update_node node_ids)
qed

lemma waits_read:
  assumes w: "waits m s" and g: "guard m s (Read n d)"
  shows "waits m (read_dep s n d)"
proof -
  have d: "d \<in> set (deps m n)" and n: "n < 5" "d < 5" "d \<noteq> n" using g deps_bound by auto
  have len: "length (nodes s) = 5" using w by (simp add: waits_def)
  have error: "waits m (update_node n (\<lambda>x. x\<lparr>status := Error, waiting_on := None\<rparr>) s)" if "cyclic m"
    using that by (intro waits_local [OF w n(1)]) simp_all
  have "cyclic m" if "status (nodes s ! d) = Error" using w that n by (auto simp: waits_def)
  moreover have "cyclic m" if "reaches s d n" using no_reach [OF w d] that by blast
  moreover have "waits m (update_node n
      (\<lambda>x. x\<lparr>observed := (observed x)[d := Some (changed_at (nodes s ! d))], waiting_on := None\<rparr>) s)"
    using w n by (intro waits_local [OF w n(1)]) (auto simp: waits_def)
  moreover have "waits m (update_node n (\<lambda>x. x\<lparr>waiting_on := Some d\<rparr>)
      (update_node d (\<lambda>x. x\<lparr>demanded := True\<rparr>) s))" if "\<not> reaches s d n"
  proof (rule waits_wait [OF waits_demand [OF w n(2)] d])
    have "waiting_on (nodes (update_node d (\<lambda>x. x\<lparr>demanded := True\<rparr>) s) ! k) = waiting_on (nodes s ! k)" for k
      using len n by (simp add: nth_update_node)
    then have "reaches_loop k (update_node d (\<lambda>x. x\<lparr>demanded := True\<rparr>) s) a b = reaches_loop k s a b" for k a b
      by (induction k arbitrary: a) (simp_all split: option.split)
    then show "\<not> reaches (update_node d (\<lambda>x. x\<lparr>demanded := True\<rparr>) s) d n"
      using that by (simp add: reaches_def)
  qed
  ultimately show ?thesis using error by (simp add: read_dep_def Let_def)
qed

lemma waits_edit:
  assumes w: "waits m s" and g: "guard m s (Edit i)" and t: "next_state m s (Edit i) = Some t"
  shows "waits m t"
proof -
  have len: "length (nodes s) = 5" using w by (simp add: waits_def)
  have i: "is_input i" using g by simp
  have "waiting_on (nodes t ! k) = waiting_on (nodes s ! k)" "status (nodes t ! k) = status (nodes s ! k)"
    if "k < 5" for k
    using next_state_edit [OF len i t that] by (simp_all add: edited_def)
  then show ?thesis
    using w next_state_edit_fields(3) [OF t] by (simp add: waits_def node_ids)
qed

lemma waits_step:
  assumes w: "waits m s" and g: "guard m s a" and t: "next_state m s a = Some t"
  shows "waits m t"
proof (cases a)
  case (Edit i)
  then show ?thesis using waits_edit w g t by simp
next
  case (Start n)
  then have "waits m (update_node n (\<lambda>x. x\<lparr>status := Reading (version s), observed := replicate N None\<rparr>) s)"
    using g by (intro waits_local [OF w]) auto
  then show ?thesis using t Start by simp
next
  case (Read n d)
  then show ?thesis using waits_read [OF w, of n d] g t by auto
next
  case (Finish n)
  then have n: "n < 5" and "is_Reading (status (nodes s ! n))" using g by auto
  then obtain v where v: "status (nodes s ! n) = Reading v" by (auto simp: is_Reading_def)
  have commit: "waits m (update_node n (commit n x) s)" for x
    by (intro waits_local [OF w n]) auto
  have "waits m (update_node n
        (\<lambda>x. x\<lparr>observed := fold (\<lambda>d obs. if is_stale s n d then obs[d := None] else obs) (deps m n) (observed x),
              status := Reading (version s)\<rparr>) s)"
    by (intro waits_local [OF w n]) auto
  then show ?thesis using t Finish v commit by (auto split: if_splits)
next
  case (Cancel n)
  have "waits m (s\<lparr>cancels := cancels s + 1\<rparr>)" using w by (simp add: waits_def)
  then have "waits m (update_node n (\<lambda>x. x\<lparr>status := Idle, observed := replicate N None, waiting_on := None\<rparr>)
       (s\<lparr>cancels := cancels s + 1\<rparr>))"
    using g Cancel by (intro waits_local) auto
  then show ?thesis using t Cancel by simp
qed

lemma waits_init: "s \<in> set (init_states m) \<Longrightarrow> waits m s"
  by (auto simp: init_states_def waits_def Let_def update_node_def node_ids nth_list_update)

interpretation waiting: model_invariant "init_states m" "actions m" "next_state m" "waits m" for m
  by unfold_locales (auto intro: waits_init waits_step enabled_guard_scheduler)

section \<open>Properties\<close>

lemmas scheduler_run_defs = init_states_def actions_def node_actions_def read_dep_def commit_def
  update_node_def is_stale_def is_input_def is_constant_def deps_def node_ids Let_def upt_rec
  reaches_def eval_nat_numeral

lemma scheduler_quiescent_settled:
  assumes "length (nodes s) = 5" "input_ok s X" "input_ok s Y" "actions m s = []" "n < 5"
  shows "\<not> demanded (nodes s ! n) \<or> status (nodes s ! n) = Error \<or> verified_at (nodes s ! n) = Some (version s)"
proof (cases "is_input n")
  case True
  then show ?thesis using assms by (auto simp: is_input_def input_ok_def)
next
  case False
  have "node_actions m s n = []" using assms by (auto simp: actions_def N_def)
  then show ?thesis by (rule node_actions_settled [OF _ False])
qed

text \<open>A node verified at the start of an evaluation that read an input edited since.\<close>

lemma mixed_versions:
  assumes "\<not> restart_on_version_change m" "0 < max_edits m"
  shows "\<exists>s. reachable m s \<and> length (nodes s) = 5 \<and> verified_at (nodes s ! B) = Some 0
    \<and> Some 1 \<in> set (committed (nodes s ! B))"
  by (rule sometimesI [where as = "[Start A, Read A B, Start B, Edit X, Read B X, Finish B]"])
    (use assms in \<open>simp_all add: scheduler_run_defs\<close>)

lemma early_cutoff:
  assumes "restart_on_version_change m" "\<not> cyclic m" "0 < max_edits m"
  shows "\<exists>s. reachable m s \<and> version s > 0 \<and> verified_at (nodes s ! A) = Some (version s)
    \<and> changed_at (nodes s ! A) < version s"
  by (rule sometimesI [where as = "[Start A, Read A B, Start B, Read B X, Finish B, Read A B,
        Read A C, Start C, Read C Y, Finish C, Read A C, Finish A, Edit X,
        Start A, Read A B, Start B, Read B X, Finish B, Read A B, Read A C, Start C, Read C Y,
        Finish C, Read A C, Finish A]"])
    (use assms in \<open>simp_all add: scheduler_run_defs\<close>)

lemma cycle_reported:
  assumes "cyclic m"
  shows "\<exists>s. reachable m s \<and> (status (nodes s ! A) = Error \<or> status (nodes s ! C) = Error)"
  by (rule sometimesI [where as = "[Start A, Read A C, Start C, Read C A]"])
    (use assms in \<open>simp_all add: scheduler_run_defs\<close>)

text \<open>
  C6. The engine's scheduler satisfies everything \<open>assert_properties\<close> checks (no reads from the
  future, a verified node saw its current dependencies, quiescence is settlement, and early cutoff
  happens or, in a cyclic graph, the cycle is reported) exactly when it restarts a node whose reads
  went stale, for every bound on edits and cancellations as soon as one edit is possible.
\<close>

theorem scheduler_consistent_iff_restarts:
  assumes "0 < max_edits m"
  shows "assert_properties (reachable m) (properties m) \<longleftrightarrow> restart_on_version_change m"
proof
  assume props: "assert_properties (reachable m) (properties m)"
  show "restart_on_version_change m"
  proof (rule ccontr)
    assume "\<not> restart_on_version_change m"
    then obtain s where s: "reachable m s" "length (nodes s) = 5" "verified_at (nodes s ! B) = Some 0"
      "Some 1 \<in> set (committed (nodes s ! B))" using mixed_versions assms by blast
    have "nodes s ! B \<in> set (nodes s)" using s(2) by (simp add: B_def)
    with props s show False by (force simp: properties_def list_all_iff)
  qed
next
  assume m: "restart_on_version_change m"
  note inv = scheduler_reachable_inv [OF m]
  have future: "list_all (\<lambda>n. case verified_at n of None \<Rightarrow> True
      | Some v \<Rightarrow> list_all (\<lambda>obs. case obs of None \<Rightarrow> True | Some w \<Rightarrow> w \<le> v) (committed n)) (nodes s)"
    if r: "reachable m s" for s
  proof -
    have eq: "case_option True (\<lambda>w. w \<le> v) = opt_le v" for v
      by (rule ext) (simp split: option.split)
    have "length (nodes s) = 5" using inv [OF r] by (simp add: inv_def)
    moreover have "case verified_at (nodes s ! n) of None \<Rightarrow> True
        | Some v \<Rightarrow> list_all (opt_le v) (committed (nodes s ! n))" if "n < 5" for n
      using inv_node [OF inv [OF r] that] by (simp add: node_ok_def)
    ultimately show ?thesis unfolding eq list_all_length [of _ "nodes s"] by simp
  qed
  have current: "list_all (\<lambda>n. status (nodes s ! n) = Error \<or> verified_at (nodes s ! n) \<noteq> Some (version s)
      \<or> list_all (\<lambda>d. committed (nodes s ! n) ! d = Some (changed_at (nodes s ! d))) (deps m n)) [0..<N]"
    if r: "reachable m s" for s
    using inv_deps [OF inv [OF r]] by (auto simp: list_all_iff deps_ok_def N_def)
  have settled: "actions m s \<noteq> [] \<or> list_all (\<lambda>n. \<not> demanded n \<or> status n = Error
      \<or> verified_at n = Some (version s)) (nodes s)" if r: "reachable m s" for s
    using inv [OF r] scheduler_quiescent_settled [of s m] by (auto simp: inv_def list_all_length)
  show "assert_properties (reachable m) (properties m)"
    using future current settled early_cutoff [OF m] cycle_reported assms
    by (cases "cyclic m") (simp_all add: properties_def)
qed

theorem scheduler_consistent_iff_restarts_witness:
  "assert_properties
     (reachable \<lparr>restart_on_version_change = True, cyclic = False, max_edits = 2, max_cancels = 1\<rparr>)
     (properties \<lparr>restart_on_version_change = True, cyclic = False, max_edits = 2, max_cancels = 1\<rparr>)
   \<and> \<not> assert_properties
     (reachable \<lparr>restart_on_version_change = False, cyclic = True, max_edits = 2, max_cancels = 1\<rparr>)
     (properties \<lparr>restart_on_version_change = False, cyclic = True, max_edits = 2, max_cancels = 1\<rparr>)"
  using scheduler_consistent_iff_restarts
      [of "\<lparr>restart_on_version_change = True, cyclic = False, max_edits = 2, max_cancels = 1\<rparr>"]
    scheduler_consistent_iff_restarts
      [of "\<lparr>restart_on_version_change = False, cyclic = True, max_edits = 2, max_cancels = 1\<rparr>"]
  by simp

text \<open>
  The scheduler's cycle detection is exact. In every reachable state no node waits on a node that
  is, through any chain of waits, waiting on it, so no evaluation deadlocks; and where the graph has no
  cycle, no node is ever put in error.
\<close>

theorem scheduler_waits_acyclic:
  assumes "reachable m s" and "n < N"
  shows "(\<forall>d. waiting_on (nodes s ! n) = Some d \<longrightarrow> \<not> reaches s d n)
    \<and> (cyclic m \<or> status (nodes s ! n) \<noteq> Error)"
proof -
  have w: "waits m s" by (rule waiting.reach_inv [OF assms(1)])
  have "d \<in> set (deps m n)" if "waiting_on (nodes s ! n) = Some d" for d
  proof -
    have "n = X \<or> n = Y \<or> n = B \<or> n = C \<or> n = A" using assms(2) by (auto simp: node_ids)
    then show ?thesis using w that by (auto simp: waits_def deps_def node_ids)
  qed
  then show ?thesis using no_reach [OF w] w assms(2) by (auto simp: waits_def N_def)
qed

theorem scheduler_waits_acyclic_witness:
  "\<not> reaches (hd (init_states \<lparr>restart_on_version_change = True, cyclic = True, max_edits = 0, max_cancels = 0\<rparr>)) C A
   \<and> status (nodes (hd (init_states \<lparr>restart_on_version_change = True, cyclic = False, max_edits = 0,
        max_cancels = 0\<rparr>)) ! A) \<noteq> Error"
  (is "\<not> reaches ?s C A \<and> status (nodes ?t ! A) \<noteq> Error")
proof
  show "\<not> reaches ?s C A" by (simp add: scheduler_run_defs)
  have "reachable \<lparr>restart_on_version_change = True, cyclic = False, max_edits = 0, max_cancels = 0\<rparr> ?t"
    by (rule reach.reach_init) (simp add: init_states_def Let_def)
  from scheduler_waits_acyclic [OF this, of A] show "status (nodes ?t ! A) \<noteq> Error"
    by (simp add: node_ids)
qed

end
