(* ===== verification/Rust_Ord.thy ===== *)
theory Rust_Ord
  imports Rust_Base "HOL-Library.Char_ord" "HOL-Library.List_Lexorder"
begin

text \<open>
  The part of Rust's standard library for ordered data that the sources use: \<open>std::cmp::Ordering\<close> with
  its combinators, the order of vectors and strings, and \<open>BTreeMap\<close>. A type whose \<open>Ord\<close> is a total
  order is an instance of the class \<open>linorder\<close>, and \<open>compare\<close> is the three-valued comparison of
  such a type. Strings are lists of bytes, compared byte by byte as \<open>str\<close> is.
\<close>

section \<open>Orderings\<close>

datatype ordering = Less | Equal | Greater

fun then_with :: "ordering \<Rightarrow> ordering \<Rightarrow> ordering" where
  "then_with Equal r = r"
| "then_with Less r = Less"
| "then_with Greater r = Greater"

fun reverse :: "ordering \<Rightarrow> ordering" where
  "reverse Less = Greater"
| "reverse Equal = Equal"
| "reverse Greater = Less"

definition compare :: "'a :: linorder \<Rightarrow> 'a \<Rightarrow> ordering" where
  "compare a b = (if a < b then Less else if a = b then Equal else Greater)"

text \<open>The order of \<open>Vec\<close>: the first difference decides, and a prefix is below the longer list.\<close>

fun vec_cmp :: "('a \<Rightarrow> 'a \<Rightarrow> ordering) \<Rightarrow> 'a list \<Rightarrow> 'a list \<Rightarrow> ordering" where
  "vec_cmp c [] [] = Equal"
| "vec_cmp c [] (_ # _) = Less"
| "vec_cmp c (_ # _) [] = Greater"
| "vec_cmp c (x # xs) (y # ys) = then_with (c x y) (vec_cmp c xs ys)"

lemma reverse_reverse [simp]: "reverse (reverse r) = r"
  by (cases r) simp_all

lemma reverse_then_with [simp]: "reverse (then_with a b) = then_with (reverse a) (reverse b)"
  by (cases a) simp_all

lemma then_with_Equal [simp]: "then_with a b = Equal \<longleftrightarrow> a = Equal \<and> b = Equal"
  by (cases a) simp_all

lemma then_with_Less: "then_with a b = Less \<longleftrightarrow> a = Less \<or> a = Equal \<and> b = Less"
  by (cases a) simp_all

lemma compare_simps [simp]:
  "compare a b = Less \<longleftrightarrow> a < b" "compare a b = Equal \<longleftrightarrow> a = b" "compare a b = Greater \<longleftrightarrow> b < a"
  by (auto simp: compare_def)

lemma compare_refl: "compare a a = Equal"
  by simp

lemma reverse_compare [simp]: "reverse (compare a b) = compare b a"
  by (auto simp: compare_def)

lemma vec_cmp_compare: "vec_cmp compare xs ys = compare xs ys"
proof (induction "compare :: 'a \<Rightarrow> _" xs ys rule: vec_cmp.induct)
  case (4 x xs y ys)
  then show ?case by (auto simp: compare_def)
qed (simp_all add: compare_def)

text \<open>The laws Rust asks of an implementation of \<open>Ord\<close>.\<close>

locale rust_ord =
  fixes cmp :: "'a \<Rightarrow> 'a \<Rightarrow> ordering"
  assumes cmp_swap: "cmp b a = reverse (cmp a b)"
    and cmp_trans: "cmp a b = Less \<Longrightarrow> cmp b c = Less \<Longrightarrow> cmp a c = Less"
    and cmp_equal: "cmp a b = Equal \<Longrightarrow> cmp a c = cmp b c"
begin

lemma cmp_refl: "cmp a a = Equal"
  using cmp_swap [of a a] by (cases "cmp a a") simp_all

lemma cmp_equal_right: "cmp a b = Equal \<Longrightarrow> cmp c a = cmp c b"
  using cmp_equal [of a b c] cmp_swap [of c a] cmp_swap [of c b] by simp

lemma cmp_trans_le:
  assumes "cmp a b \<noteq> Greater" "cmp b c \<noteq> Greater"
  shows "cmp a c \<noteq> Greater"
proof (cases "cmp a b = Equal \<or> cmp b c = Equal")
  case True
  then show ?thesis using assms cmp_equal [of a b c] cmp_equal_right [of b c a] by auto
next
  case False
  then have "cmp a b = Less" "cmp b c = Less" using assms by (metis ordering.exhaust)+
  then show ?thesis using cmp_trans by auto
qed

end

interpretation std: rust_ord "compare :: 'a :: linorder \<Rightarrow> _"
  by unfold_locales auto

end
