(* ===== verification/Rust_Str.thy ===== *)
theory Rust_Str
  imports Rust_Ord "HOL-Library.Sublist"
begin

text \<open>
  The string functions of Rust's standard library that the sources use. A \<open>String\<close> is its list of
  bytes. The separators and character classes of the sources are ASCII, and in UTF-8 no byte of a
  multi-byte character is an ASCII byte, so searching bytes and searching characters agree.
\<close>

section \<open>Character classes\<close>

definition is_ascii_digit :: "char \<Rightarrow> bool" where
  "is_ascii_digit c \<longleftrightarrow> CHR ''0'' \<le> c \<and> c \<le> CHR ''9''"

definition is_ascii_lowercase :: "char \<Rightarrow> bool" where
  "is_ascii_lowercase c \<longleftrightarrow> CHR ''a'' \<le> c \<and> c \<le> CHR ''z''"

definition is_ascii_uppercase :: "char \<Rightarrow> bool" where
  "is_ascii_uppercase c \<longleftrightarrow> CHR ''A'' \<le> c \<and> c \<le> CHR ''Z''"

definition is_ascii_alphanumeric :: "char \<Rightarrow> bool" where
  "is_ascii_alphanumeric c \<longleftrightarrow> is_ascii_digit c \<or> is_ascii_lowercase c \<or> is_ascii_uppercase c"

lemmas char_classes = is_ascii_digit_def is_ascii_lowercase_def is_ascii_uppercase_def
  is_ascii_alphanumeric_def

text \<open>
  \<open>char::is_alphanumeric\<close> and \<open>char::is_whitespace\<close>, where a \<open>char\<close> is a code point below 256: the Unicode
  classes have the Latin-1 letters and numerals, and the control and no-break spaces.
\<close>

definition is_alphanumeric :: "char \<Rightarrow> bool" where
  "is_alphanumeric c \<longleftrightarrow> is_ascii_alphanumeric c
     \<or> (of_char c :: nat) \<in> {0xAA, 0xB2, 0xB3, 0xB5, 0xB9, 0xBA, 0xBC, 0xBD, 0xBE}
     \<or> (0xC0 \<le> (of_char c :: nat) \<and> (of_char c :: nat) \<noteq> 0xD7 \<and> (of_char c :: nat) \<noteq> 0xF7)"

definition is_whitespace :: "char \<Rightarrow> bool" where
  "is_whitespace c \<longleftrightarrow> (9 \<le> (of_char c :: nat) \<and> (of_char c :: nat) \<le> 13)
     \<or> (of_char c :: nat) \<in> {0x20, 0x85, 0xA0}"

section \<open>Numbers\<close>

definition digit_value :: "char \<Rightarrow> nat" where
  "digit_value c = of_char c - 48"

definition decimal :: "string \<Rightarrow> nat" where
  "decimal s = foldl (\<lambda>n c. 10 * n + digit_value c) 0 s"

text \<open>\<open>str::parse::<u64>\<close> of a non-empty string of digits.\<close>

definition parse_u64 :: "string \<Rightarrow> u64 option" where
  "parse_u64 s = (if decimal s < 2 ^ 64 then Some (of_nat (decimal s)) else None)"

text \<open>\<open>str::parse::<i64>\<close> of a non-empty string of digits, and \<open>to_string\<close> of an integer.\<close>

definition parse_i64 :: "string \<Rightarrow> i64 option" where
  "parse_i64 s = (if int (decimal s) < 2 ^ 63 then Some (word_of_int (int (decimal s))) else None)"

fun nat_display :: "nat \<Rightarrow> string" where
  "nat_display n = (if n < 10 then [] else nat_display (n div 10)) @ [char_of (48 + n mod 10)]"

declare nat_display.simps [simp del]

definition i64_display :: "i64 \<Rightarrow> string" where
  "i64_display n = (if sint n < 0 then ''-'' @ nat_display (nat (- sint n)) else nat_display (nat (sint n)))"

lemma digit_char:
  assumes "d < 10"
  shows "is_ascii_digit (char_of (48 + d))" "digit_value (char_of (48 + d)) = d"
proof -
  have "d \<in> {0, 1, 2, 3, 4, 5, 6, 7, 8, 9}" using assms by (simp, arith)
  then show "is_ascii_digit (char_of (48 + d))" by (elim insertE) (simp_all add: is_ascii_digit_def less_eq_char_def)
  show "digit_value (char_of (48 + d)) = d" using assms by (simp add: digit_value_def)
qed

lemma decimal_single: "decimal [c] = digit_value c"
  by (simp add: decimal_def)

lemma decimal_snoc: "decimal (s @ [c]) = 10 * decimal s + digit_value c"
  by (simp add: decimal_def)

lemma nat_display_digits: "nat_display n \<noteq> []" "list_all is_ascii_digit (nat_display n)"
proof (induction n rule: nat_display.induct)
  case (1 n)
  { case 1 show ?case by (subst nat_display.simps) simp }
  { case 2 show ?case using "1.IH"(2) by (subst nat_display.simps) (simp add: digit_char) }
qed

lemma i64_display_no_dollar: "\<not> prefix ''$'' (i64_display n)"
proof -
  have "\<not> prefix ''$'' (nat_display k)" for k
    using nat_display_digits [of k] by (cases "nat_display k") (auto simp: is_ascii_digit_def less_eq_char_def)
  then show ?thesis by (simp add: i64_display_def)
qed

lemma decimal_display: "decimal (nat_display n) = n"
proof (induction n rule: nat_display.induct)
  case (1 n)
  show ?case
  proof (cases "n < 10")
    case True
    then show ?thesis by (subst nat_display.simps) (simp add: decimal_single decimal_snoc digit_char(2))
  next
    case False
    then have "decimal (nat_display n) = 10 * (n div 10) + n mod 10"
      using 1 by (subst nat_display.simps) (simp add: decimal_single decimal_snoc digit_char(2))
    then show ?thesis by simp
  qed
qed

section \<open>Splitting and joining\<close>

fun split_on :: "char \<Rightarrow> string \<Rightarrow> string list" where
  "split_on c [] = [[]]"
| "split_on c (x # xs) =
     (if x = c then [] # split_on c xs
      else case split_on c xs of w # ws \<Rightarrow> (x # w) # ws | [] \<Rightarrow> [[x]])"

fun join :: "string \<Rightarrow> string list \<Rightarrow> string" where
  "join sep [] = []"
| "join sep [w] = w"
| "join sep (w # v # ws) = w @ sep @ join sep (v # ws)"

definition split_once :: "char \<Rightarrow> string \<Rightarrow> (string \<times> string) option" where
  "split_once c s =
     (if c \<in> set s then Some (takeWhile (\<lambda>x. x \<noteq> c) s, tl (dropWhile (\<lambda>x. x \<noteq> c) s)) else None)"

definition rsplit_once :: "char \<Rightarrow> string \<Rightarrow> (string \<times> string) option" where
  "rsplit_once c s =
     (case split_once c (rev s) of None \<Rightarrow> None | Some (a, b) \<Rightarrow> Some (rev b, rev a))"

definition strip_prefix :: "string \<Rightarrow> string \<Rightarrow> string option" where
  "strip_prefix p s = (if prefix p s then Some (drop (length p) s) else None)"

definition strip_suffix :: "string \<Rightarrow> string \<Rightarrow> string option" where
  "strip_suffix p s = (if suffix p s then Some (take (length s - length p) s) else None)"

lemma split_on_ne [simp]: "split_on c s \<noteq> []"
  by (induction s) (auto split: list.splits)

lemma split_on_word: "c \<notin> set w \<Longrightarrow> split_on c w = [w]"
  by (induction w) auto

lemma split_on_append: "c \<notin> set w \<Longrightarrow> split_on c (w @ c # s) = w # split_on c s"
  by (induction w) auto

lemma join_cons: "ws \<noteq> [] \<Longrightarrow> join sep (w # ws) = w @ sep @ join sep ws"
  by (cases ws) auto

lemma join_split [simp]: "join [c] (split_on c s) = s"
proof (induction s)
  case (Cons x s)
  show ?case
  proof (cases "split_on c s")
    case (Cons w ws)
    then show ?thesis using \<open>join [c] (split_on c s) = s\<close> by (cases ws) (auto simp: join_cons)
  qed simp
qed simp

lemma split_join:
  "ws \<noteq> [] \<Longrightarrow> (\<And>w. w \<in> set ws \<Longrightarrow> c \<notin> set w) \<Longrightarrow> split_on c (join [c] ws) = ws"
proof (induction ws)
  case (Cons w ws)
  then show ?case
    using split_on_append [of c w "join [c] ws"] by (cases "ws = []") (simp_all add: split_on_word join_cons)
qed simp

lemma split_on_words: "w \<in> set (split_on c s) \<Longrightarrow> c \<notin> set w \<and> set w \<subseteq> set s"
proof (induction s arbitrary: w)
  case (Cons x s)
  then show ?case by (cases "split_on c s") (fastforce split: if_splits)+
qed simp

lemma split_on_inj: "split_on c s = split_on c t \<longleftrightarrow> s = t"
  by (metis join_split)

lemma split_once_Some:
  "split_once c s = Some (a, b) \<longleftrightarrow> s = a @ c # b \<and> c \<notin> set a"
proof
  assume h: "split_once c s = Some (a, b)"
  then have c: "c \<in> set s" and a: "a = takeWhile (\<lambda>x. x \<noteq> c) s" and b: "b = tl (dropWhile (\<lambda>x. x \<noteq> c) s)"
    by (auto simp: split_once_def split: if_splits)
  have "dropWhile (\<lambda>x. x \<noteq> c) s = c # b"
    using c b hd_dropWhile [of "\<lambda>x. x \<noteq> c" s] by (cases "dropWhile (\<lambda>x. x \<noteq> c) s") (auto simp: dropWhile_eq_Nil_conv)
  then show "s = a @ c # b \<and> c \<notin> set a"
    using a takeWhile_dropWhile_id [of "\<lambda>x. x \<noteq> c" s] set_takeWhileD [of c "\<lambda>x. x \<noteq> c" s] by auto
next
  assume "s = a @ c # b \<and> c \<notin> set a"
  then show "split_once c s = Some (a, b)"
    by (auto simp: split_once_def takeWhile_append dropWhile_append)
qed

lemma split_once_None: "split_once c s = None \<longleftrightarrow> c \<notin> set s"
  by (simp add: split_once_def)

lemma rsplit_once_Some:
  "rsplit_once c s = Some (a, b) \<longleftrightarrow> s = a @ c # b \<and> c \<notin> set b"
proof
  assume "rsplit_once c s = Some (a, b)"
  then have "split_once c (rev s) = Some (rev b, rev a)"
    by (auto simp: rsplit_once_def split: option.splits prod.splits)
  then have "rev s = rev b @ c # rev a" "c \<notin> set b" by (simp_all add: split_once_Some)
  then show "s = a @ c # b \<and> c \<notin> set b" by (metis append.assoc append_Cons append_Nil rev.simps(2) rev_append rev_rev_ident)
next
  assume "s = a @ c # b \<and> c \<notin> set b"
  then have "split_once c (rev s) = Some (rev b, rev a)" by (simp add: split_once_Some)
  then show "rsplit_once c s = Some (a, b)" by (simp add: rsplit_once_def)
qed

lemma rsplit_once_None: "rsplit_once c s = None \<longleftrightarrow> c \<notin> set s"
  by (auto simp: rsplit_once_def split_once_def)

lemma strip_prefix_Some: "strip_prefix p s = Some r \<longleftrightarrow> s = p @ r"
  by (auto simp: strip_prefix_def prefix_def)

lemma strip_prefix_None: "strip_prefix p s = None \<longleftrightarrow> \<not> prefix p s"
  by (simp add: strip_prefix_def)

lemma strip_suffix_Some: "strip_suffix p s = Some r \<longleftrightarrow> s = r @ p"
  by (auto simp: strip_suffix_def suffix_def)

section \<open>The words of a split\<close>

lemma split_on_append_sep: "split_on c (x @ c # y) = split_on c x @ split_on c y"
proof (induction x)
  case (Cons a x)
  then show ?case by (cases "split_on c x") auto
qed simp

lemma join_append: "us \<noteq> [] \<Longrightarrow> vs \<noteq> [] \<Longrightarrow> join sep (us @ vs) = join sep us @ sep @ join sep vs"
  by (induction us rule: induct_list012) (auto simp: join_cons)

lemma in_butlast_split:
  assumes "c \<notin> set w"
  shows "w \<in> set (butlast (split_on c s)) \<longleftrightarrow> prefix (w @ [c]) s \<or> sublist (c # w @ [c]) s"
proof
  assume "w \<in> set (butlast (split_on c s))"
  then obtain us vs where uv: "butlast (split_on c s) = us @ w # vs" by (meson split_list)
  define l where "l = last (split_on c s)"
  have "split_on c s = us @ (w # vs @ [l])"
    using append_butlast_last_id [OF split_on_ne, of c s] uv by (simp add: l_def)
  then have "s = join [c] (us @ (w # vs @ [l]))" by (metis join_split)
  then have "s = (if us = [] then [] else join [c] us @ [c]) @ w @ [c] @ join [c] (vs @ [l])"
    by (simp add: join_append join_cons)
  then show "prefix (w @ [c]) s \<or> sublist (c # w @ [c]) s"
    by (cases "us = []") (auto simp: prefix_def sublist_def)
next
  have head: "w \<in> set (butlast (split_on c (w @ c # y)))" for y
    using split_on_append [OF assms, of y] by simp
  assume "prefix (w @ [c]) s \<or> sublist (c # w @ [c]) s"
  then show "w \<in> set (butlast (split_on c s))"
  proof
    assume "prefix (w @ [c]) s"
    then show ?thesis using head by (auto simp: prefix_def)
  next
    assume "sublist (c # w @ [c]) s"
    then obtain x y where "s = x @ c # w @ c # y" by (auto simp: sublist_def)
    then show ?thesis using head [of y] by (simp add: split_on_append_sep butlast_append)
  qed
qed

lemma last_split:
  assumes "c \<notin> set w"
  shows "last (split_on c s) = w \<longleftrightarrow> s = w \<or> suffix (c # w) s"
proof
  assume l: "last (split_on c s) = w"
  have s: "split_on c s = butlast (split_on c s) @ [w]" using l append_butlast_last_id [OF split_on_ne, of c s] by simp
  have "s = join [c] (butlast (split_on c s) @ [w])" using s by (metis join_split)
  then show "s = w \<or> suffix (c # w) s"
    by (cases "butlast (split_on c s) = []") (auto simp: join_append suffix_def)
next
  assume "s = w \<or> suffix (c # w) s"
  then show "last (split_on c s) = w"
    by (auto simp: split_on_word [OF assms] suffix_def split_on_append_sep)
qed

lemma in_split_on:
  assumes "c \<notin> set w"
  shows "w \<in> set (split_on c s) \<longleftrightarrow>
    s = w \<or> prefix (w @ [c]) s \<or> suffix (c # w) s \<or> sublist (c # w @ [c]) s"
proof -
  have "set xs = insert (last xs) (set (butlast xs))" if "xs \<noteq> []" for xs :: "string list"
    using that by (induction xs rule: rev_induct) auto
  note this [OF split_on_ne [of c s]]
  then have "w \<in> set (split_on c s) \<longleftrightarrow> last (split_on c s) = w \<or> w \<in> set (butlast (split_on c s))" by auto
  then show ?thesis unfolding last_split [OF assms] in_butlast_split [OF assms] by blast
qed

lemma prefix_split: "prefix (split_on c p) (split_on c q) \<longleftrightarrow> q = p \<or> prefix (p @ [c]) q"
proof
  assume "prefix (split_on c p) (split_on c q)"
  then obtain ws where ws: "split_on c q = split_on c p @ ws" by (auto simp: prefix_def)
  then have "q = join [c] (split_on c p @ ws)" by (metis join_split)
  then show "q = p \<or> prefix (p @ [c]) q" by (cases "ws = []") (auto simp: join_append prefix_def)
next
  assume "q = p \<or> prefix (p @ [c]) q"
  then show "prefix (split_on c p) (split_on c q)" by (auto simp: prefix_def split_on_append_sep)
qed

end
