(* ===== verification/Module_Version.thy ===== *)
theory Module_Version
  imports Rust_Str
begin

text \<open>
  Module versions (\<open>crates/fjfj-bzlmod/src/version.rs\<close>): the grammar \<open>RELEASE[-PRERELEASE][+BUILD]\<close>,
  its parser, and Bazel's order, in which numbers compare as numbers, a prerelease is below its
  release and the empty version is above everything. The fields of \<open>Version\<close> are private and \<open>parse\<close>
  and \<open>EMPTY\<close> are its only constructors, so every version of the program is a parsed one.
\<close>

section \<open>Identifiers\<close>

datatype ident = Numeric u64 string | Text string

datatype version_parse_error = Malformed string | EmptyIdentifier | SegmentTooLarge string

fun identifier_cmp :: "ident \<Rightarrow> ident \<Rightarrow> ordering" where
  "identifier_cmp (Numeric a at) (Numeric b bt) = then_with (compare a b) (compare at bt)"
| "identifier_cmp (Numeric _ _) (Text _) = Less"
| "identifier_cmp (Text _) (Numeric _ _) = Greater"
| "identifier_cmp (Text a) (Text b) = compare a b"

definition identifier_parse :: "string \<Rightarrow> (version_parse_error, ident) result" where
  "identifier_parse s =
     (if s = [] then Inl EmptyIdentifier
      else if list_all is_ascii_digit s
      then (case parse_u64 s of
              None \<Rightarrow> Inl (SegmentTooLarge s)
            | Some n \<Rightarrow> Inr (Numeric n s))
      else Inr (Text s))"

fun identifier_text :: "ident \<Rightarrow> string" where
  "identifier_text (Numeric n t) = t"
| "identifier_text (Text t) = t"

instantiation ident :: linorder
begin

definition less_eq_ident :: "ident \<Rightarrow> ident \<Rightarrow> bool" where
  "a \<le> b \<longleftrightarrow> identifier_cmp a b \<noteq> Greater"

definition less_ident :: "ident \<Rightarrow> ident \<Rightarrow> bool" where
  "a < b \<longleftrightarrow> identifier_cmp a b = Less"

instance
proof
  fix x y z :: ident
  show "x < y \<longleftrightarrow> x \<le> y \<and> \<not> y \<le> x"
    by (cases x; cases y) (auto simp: less_eq_ident_def less_ident_def compare_def)
  show "x \<le> x" by (cases x) (simp_all add: less_eq_ident_def compare_def)
  show "x \<le> y \<Longrightarrow> y \<le> z \<Longrightarrow> x \<le> z"
    by (cases x; cases y; cases z) (auto simp: less_eq_ident_def compare_def split: if_splits)
  show "x \<le> y \<Longrightarrow> y \<le> x \<Longrightarrow> x = y"
    by (cases x; cases y) (auto simp: less_eq_ident_def compare_def split: if_splits)
  show "x \<le> y \<or> y \<le> x"
    by (cases x; cases y) (auto simp: less_eq_ident_def compare_def split: if_splits)
qed

end

lemma identifier_cmp_compare: "identifier_cmp = compare"
proof (intro ext)
  fix a b
  show "identifier_cmp a b = compare a b"
  proof (cases "identifier_cmp a b")
    case Equal
    then have "a \<le> b" by (simp add: less_eq_ident_def)
    moreover have "\<not> a < b" using Equal by (simp add: less_ident_def)
    ultimately show ?thesis using Equal by (simp add: compare_def)
  next
    case Less
    then show ?thesis by (simp add: compare_def less_ident_def)
  next
    case Greater
    then have "\<not> a \<le> b" by (simp add: less_eq_ident_def)
    then show ?thesis using Greater by (auto simp: compare_def)
  qed
qed

lemma identifier_parse_text: "identifier_parse s = Inr i \<Longrightarrow> identifier_text i = s"
  by (auto simp: identifier_parse_def split: if_splits option.splits)

section \<open>Versions\<close>

datatype version = Version (release: "ident list") (prerelease: "ident list") (normalized: string)

definition EMPTY :: version where
  "EMPTY = Version [] [] []"

definition release_char :: "char \<Rightarrow> bool" where
  "release_char c \<longleftrightarrow> is_ascii_alphanumeric c \<or> c = CHR ''.''"

definition prerelease_char :: "char \<Rightarrow> bool" where
  "prerelease_char c \<longleftrightarrow> release_char c \<or> c = CHR ''-''"

text \<open>The optional build part at the end of \<open>VERSION_RE\<close>.\<close>

fun build_part :: "string \<Rightarrow> bool" where
  "build_part [] = True"
| "build_part (c # b) \<longleftrightarrow> c = CHR ''+'' \<and> b \<noteq> [] \<and> list_all prerelease_char b"

text \<open>
  \<open>VERSION_RE.captures\<close>: the release group and the prerelease group. No class contains the separator
  that ends it, so the first split is the only one.
\<close>

definition version_re :: "string \<Rightarrow> (string \<times> string option) option" where
  "version_re s =
     (let r = takeWhile release_char s; s1 = dropWhile release_char s
      in if r = [] then None
         else if s1 \<noteq> [] \<and> hd s1 = CHR ''-''
         then (let p = takeWhile prerelease_char (tl s1); s2 = dropWhile prerelease_char (tl s1)
               in if p \<noteq> [] \<and> build_part s2 then Some (r, Some p) else None)
         else if build_part s1 then Some (r, None) else None)"

definition parse :: "string \<Rightarrow> (version_parse_error, version) result" where
  "parse v =
     (if v = [] then Inr EMPTY
      else case version_re v of
        None \<Rightarrow> Inl (Malformed v)
      | Some (release_str, prerelease_opt) \<Rightarrow>
          (let prerelease_str = (case prerelease_opt of None \<Rightarrow> [] | Some p \<Rightarrow> p)
           in and_then (collect_results (map identifier_parse (split_on CHR ''.'' release_str))) (\<lambda>rel.
              and_then (if prerelease_str = [] then Inr []
                        else collect_results (map identifier_parse (split_on CHR ''.'' prerelease_str))) (\<lambda>pre.
              Inr (Version rel pre
                (if prerelease_str = [] then release_str else release_str @ ''-'' @ prerelease_str))))))"

definition is_empty :: "version \<Rightarrow> bool" where
  "is_empty v \<longleftrightarrow> normalized v = []"

definition is_prerelease :: "version \<Rightarrow> bool" where
  "is_prerelease v \<longleftrightarrow> prerelease v \<noteq> []"

definition version_eq :: "version \<Rightarrow> version \<Rightarrow> bool" where
  "version_eq a b \<longleftrightarrow> normalized a = normalized b"

definition version_cmp :: "version \<Rightarrow> version \<Rightarrow> ordering" where
  "version_cmp a b =
     then_with (compare (is_empty a) (is_empty b))
       (then_with (vec_cmp identifier_cmp (release a) (release b))
         (then_with (compare (is_prerelease b) (is_prerelease a))
           (vec_cmp identifier_cmp (prerelease a) (prerelease b))))"

text \<open>\<open>Display\<close>, and \<open>Serialize\<close> with \<open>Deserialize\<close> for the string of a version.\<close>

definition version_display :: "version \<Rightarrow> string" where
  "version_display v = normalized v"

section \<open>The order of versions\<close>

lemma rust_ord_by: "rust_ord (\<lambda>a b. compare (f a :: 'b :: linorder) (f b))"
  by unfold_locales auto

lemma rust_ord_then_with:
  assumes "rust_ord c" "rust_ord d"
  shows "rust_ord (\<lambda>a b. then_with (c a b) (d a b))"
proof -
  have c: "c y x = reverse (c x y)" "c x y = Equal \<Longrightarrow> c x z = c y z"
    "c x y = Less \<Longrightarrow> c y z = Less \<Longrightarrow> c x z = Less" for x y z
    using assms(1) unfolding rust_ord_def by blast+
  have d: "d y x = reverse (d x y)" "d x y = Equal \<Longrightarrow> d x z = d y z"
    "d x y = Less \<Longrightarrow> d y z = Less \<Longrightarrow> d x z = Less" for x y z
    using assms(2) unfolding rust_ord_def by blast+
  have right: "c z x = c z y" if "c x y = Equal" for x y z
    using c(1) [of z x] c(1) [of z y] c(2) [OF that, of z] by simp
  show ?thesis
  proof
    fix x y z
    show "then_with (c y x) (d y x) = reverse (then_with (c x y) (d x y))"
      using c(1) [of x y] d(1) [of x y] by simp
    show "then_with (c x z) (d x z) = then_with (c y z) (d y z)" if "then_with (c x y) (d x y) = Equal"
      using that c(2) [of x y z] d(2) [of x y z] by simp
    show "then_with (c x z) (d x z) = Less"
      if "then_with (c x y) (d x y) = Less" "then_with (c y z) (d y z) = Less"
      using that c(2) [of x y z] c(3) [of x y z] d(3) [of x y z] right [of y z x]
      unfolding then_with_Less by metis
  qed
qed

lemma version_cmp_alt:
  "version_cmp a b =
     then_with (compare (is_empty a) (is_empty b))
       (then_with (compare (release a) (release b))
         (then_with (compare (\<not> is_prerelease a) (\<not> is_prerelease b))
           (compare (prerelease a) (prerelease b))))"
proof -
  have "compare (\<not> x) (\<not> y) = compare y x" for x y by (cases x; cases y) (simp_all add: compare_def)
  then show ?thesis by (simp add: version_cmp_def identifier_cmp_compare vec_cmp_compare)
qed

interpretation version_order: rust_ord version_cmp
  unfolding version_cmp_alt [abs_def]
  by (intro rust_ord_then_with rust_ord_by)

text \<open>
  The instance of \<open>linorder\<close> breaks the ties of \<open>version_cmp\<close> on the text, which makes it total on every
  value of the type. On parsed versions there are no ties to break (\<open>version_cmp_parsed\<close> below), so there
  it is \<open>Ord for Version\<close>.
\<close>

definition version_total :: "version \<Rightarrow> version \<Rightarrow> ordering" where
  "version_total a b = then_with (version_cmp a b) (compare (normalized a) (normalized b))"

interpretation version_total: rust_ord version_total
  unfolding version_total_def [abs_def]
  by (intro rust_ord_then_with rust_ord_by version_order.rust_ord_axioms)

lemma version_total_Equal: "version_total a b = Equal \<longleftrightarrow> a = b"
  by (cases a; cases b) (auto simp: version_total_def version_cmp_alt is_empty_def is_prerelease_def)

instantiation version :: linorder
begin

definition less_eq_version :: "version \<Rightarrow> version \<Rightarrow> bool" where
  "a \<le> b \<longleftrightarrow> version_total a b \<noteq> Greater"

definition less_version :: "version \<Rightarrow> version \<Rightarrow> bool" where
  "a < b \<longleftrightarrow> version_total a b = Less"

instance
proof
  fix x y z :: version
  have swap: "version_total y x = reverse (version_total x y)" by (rule version_total.cmp_swap)
  show "x < y \<longleftrightarrow> x \<le> y \<and> \<not> y \<le> x"
    by (cases "version_total x y") (simp_all add: less_version_def less_eq_version_def swap)
  show "x \<le> x" by (simp add: less_eq_version_def version_total.cmp_refl)
  show "x \<le> y \<Longrightarrow> y \<le> z \<Longrightarrow> x \<le> z"
    unfolding less_eq_version_def by (rule version_total.cmp_trans_le)
  show "x \<le> y \<Longrightarrow> y \<le> x \<Longrightarrow> x = y"
    by (cases "version_total x y") (simp_all add: less_eq_version_def swap version_total_Equal)
  show "x \<le> y \<or> y \<le> x"
    by (cases "version_total x y") (simp_all add: less_eq_version_def swap)
qed

end

section \<open>The grammar\<close>

text \<open>The language of \<open>VERSION_RE\<close>, as its declaration says it, with the two groups it captures.\<close>

definition version_grammar :: "string \<Rightarrow> string \<Rightarrow> string option \<Rightarrow> bool" where
  "version_grammar s r p \<longleftrightarrow>
     (\<exists>b. s = r @ (case p of None \<Rightarrow> [] | Some q \<Rightarrow> CHR ''-'' # q) @ b
        \<and> r \<noteq> [] \<and> list_all release_char r
        \<and> (case p of None \<Rightarrow> True | Some q \<Rightarrow> q \<noteq> [] \<and> list_all prerelease_char q)
        \<and> build_part b)"

lemma class_separators [simp]:
  "\<not> release_char CHR ''-''" "\<not> release_char CHR ''+''" "\<not> prerelease_char CHR ''+''"
  "prerelease_char CHR ''-''" "release_char CHR ''.''"
  by (simp_all add: release_char_def prerelease_char_def char_classes)

lemma release_prerelease_char: "release_char c \<Longrightarrow> prerelease_char c"
  by (simp add: prerelease_char_def)

lemma takeWhile_class:
  "list_all P xs \<Longrightarrow> ys = [] \<or> \<not> P (hd ys) \<Longrightarrow> takeWhile P (xs @ ys) = xs \<and> dropWhile P (xs @ ys) = ys"
  by (cases ys) (induction xs; simp)+

lemma build_part_hd: "build_part b \<Longrightarrow> b = [] \<or> hd b = CHR ''+''"
  by (cases b) auto

lemma version_re_grammar: "version_re s = Some (r, p) \<longleftrightarrow> version_grammar s r p"
proof
  assume h: "version_re s = Some (r, p)"
  define s1 where "s1 = dropWhile release_char s"
  have r: "r = takeWhile release_char s" "r \<noteq> []"
    using h by (auto simp: version_re_def Let_def split: if_splits)
  have s: "s = r @ s1" "list_all release_char r"
    using r by (auto simp: s1_def list_all_iff dest: set_takeWhileD)
  show "version_grammar s r p"
  proof (cases "s1 \<noteq> [] \<and> hd s1 = CHR ''-''")
    case True
    define q where "q = takeWhile prerelease_char (tl s1)"
    have q: "p = Some q" "q \<noteq> []" "build_part (dropWhile prerelease_char (tl s1))"
      using h r True by (auto simp: version_re_def Let_def s1_def q_def split: if_splits)
    have "s1 = CHR ''-'' # q @ dropWhile prerelease_char (tl s1)" using True
      by (cases s1) (simp_all add: q_def)
    moreover have "list_all prerelease_char q" by (auto simp: q_def list_all_iff dest: set_takeWhileD)
    ultimately show ?thesis
      using q s r unfolding version_grammar_def
      by (intro exI [of _ "dropWhile prerelease_char (tl s1)"]) simp
  next
    case False
    then have "p = None" "build_part s1"
      using h r by (auto simp: version_re_def Let_def s1_def split: if_splits)
    then show ?thesis using s r unfolding version_grammar_def by auto
  qed
next
  assume "version_grammar s r p"
  then obtain b where s: "s = r @ (case p of None \<Rightarrow> [] | Some q \<Rightarrow> CHR ''-'' # q) @ b" and r: "r \<noteq> []"
    "list_all release_char r" and p: "case p of None \<Rightarrow> True | Some q \<Rightarrow> q \<noteq> [] \<and> list_all prerelease_char q"
    and b: "build_part b"
    unfolding version_grammar_def by blast
  show "version_re s = Some (r, p)"
  proof (cases p)
    case None
    then have "takeWhile release_char s = r \<and> dropWhile release_char s = b"
      using s takeWhile_class [OF r(2), of b] build_part_hd [OF b] by auto
    then show ?thesis using None r b build_part_hd [OF b] by (auto simp: version_re_def)
  next
    case (Some q)
    then have "takeWhile release_char s = r \<and> dropWhile release_char s = CHR ''-'' # q @ b"
      using s takeWhile_class [OF r(2), of "CHR ''-'' # q @ b"] by simp
    moreover have "takeWhile prerelease_char (q @ b) = q \<and> dropWhile prerelease_char (q @ b) = b"
      using Some p build_part_hd [OF b] by (intro takeWhile_class) auto
    ultimately show ?thesis using Some r p b by (simp add: version_re_def)
  qed
qed

section \<open>What a parsed version is\<close>

definition identifiers :: "string \<Rightarrow> ident list \<Rightarrow> bool" where
  "identifiers s ids \<longleftrightarrow> map identifier_parse (split_on CHR ''.'' s) = map Inr ids"

text \<open>The text of a version: its release, and its prerelease behind a hyphen when it has one.\<close>

definition version_text :: "string \<Rightarrow> string option \<Rightarrow> string" where
  "version_text r p = r @ (case p of None \<Rightarrow> [] | Some q \<Rightarrow> CHR ''-'' # q)"

definition parsed :: "version \<Rightarrow> string \<Rightarrow> string option \<Rightarrow> bool" where
  "parsed v r p \<longleftrightarrow> identifiers r (release v) \<and> normalized v = version_text r p
     \<and> (case p of None \<Rightarrow> prerelease v = [] | Some q \<Rightarrow> identifiers q (prerelease v))"

lemma identifiers_text:
  assumes "identifiers s ids"
  shows "split_on CHR ''.'' s = map identifier_text ids"
proof (rule nth_equalityI)
  show len: "length (split_on CHR ''.'' s) = length (map identifier_text ids)"
    using assms by (auto simp: identifiers_def dest: map_eq_imp_length_eq)
  fix i assume i: "i < length (split_on CHR ''.'' s)"
  then have "identifier_parse (split_on CHR ''.'' s ! i) = Inr (ids ! i)"
    using assms len unfolding identifiers_def by (metis length_map nth_map)
  then show "split_on CHR ''.'' s ! i = map identifier_text ids ! i"
    using identifier_parse_text i len by simp
qed

lemma identifiers_inj: "identifiers s ids \<Longrightarrow> identifiers t ids \<Longrightarrow> s = t"
  using identifiers_text split_on_inj by metis

lemma identifiers_fun: "identifiers s xs \<Longrightarrow> identifiers s ys \<Longrightarrow> xs = ys"
  by (simp add: identifiers_def inj_map_eq_map)

lemma parsed_fun: "parsed v r p \<Longrightarrow> parsed w r p \<Longrightarrow> v = w"
  by (cases v; cases w) (auto simp: parsed_def dest: identifiers_fun split: option.splits)

lemma identifiers_ne: "identifiers s ids \<Longrightarrow> ids \<noteq> []"
  by (auto simp: identifiers_def)

lemma grammar_ne: "version_grammar s r p \<Longrightarrow> s \<noteq> [] \<and> r \<noteq> [] \<and> p \<noteq> Some []"
  by (auto simp: version_grammar_def)

lemma grammar_unique: "version_grammar s r p \<Longrightarrow> version_grammar s r' p' \<Longrightarrow> r = r' \<and> p = p'"
  using version_re_grammar by (metis option.inject prod.inject)

lemma grammar_text: "version_grammar s r p \<Longrightarrow> version_grammar (version_text r p) r p"
  unfolding version_grammar_def version_text_def by (auto split: option.splits intro!: exI [of _ "[]"])

lemma parse_Inr:
  assumes "s \<noteq> []"
  shows "parse s = Inr v \<longleftrightarrow> (\<exists>r p. version_grammar s r p \<and> parsed v r p)"
proof (cases "version_re s")
  case None
  then have "\<not> version_grammar s r p" for r p using version_re_grammar [of s r p] by simp
  then show ?thesis using None assms by (simp add: parse_def)
next
  case (Some rp)
  obtain r p where rp: "rp = (r, p)" by (cases rp)
  then have g: "version_grammar s r p" using Some version_re_grammar by simp
  have "parse s = Inr v \<longleftrightarrow> parsed v r p"
  proof (cases p)
    case None
    then show ?thesis using assms Some rp
      by (cases v) (auto simp: parse_def parsed_def and_then_Inr collect_results_Inr identifiers_def version_text_def)
  next
    case (Some q)
    then show ?thesis using assms \<open>version_re s = Some rp\<close> rp grammar_ne [OF g]
      by (cases v) (auto simp: parse_def parsed_def and_then_Inr collect_results_Inr identifiers_def version_text_def)
  qed
  then show ?thesis using g grammar_unique by blast
qed

lemma parsed_text_inj:
  assumes "version_grammar s r p" "version_grammar t r' p'" "version_text r p = version_text r' p'"
  shows "r = r' \<and> p = p'"
  using grammar_text [OF assms(1)] grammar_text [OF assms(2)] assms(3) grammar_unique by metis

lemma parse_empty: "parse [] = Inr EMPTY"
  by (simp add: parse_def)

lemma parse_nonempty:
  "s \<noteq> [] \<Longrightarrow> parse s = Inr v \<Longrightarrow> release v \<noteq> [] \<and> normalized v \<noteq> [] \<and> \<not> is_empty v \<and> v \<noteq> EMPTY"
  using grammar_ne
  by (fastforce simp: parse_Inr parsed_def is_empty_def EMPTY_def version_text_def dest: identifiers_ne)

lemma parse_cases:
  assumes "parse s = Inr v"
  obtains "s = []" "v = EMPTY" | "s \<noteq> []" "release v \<noteq> []" "\<not> is_empty v" "v \<noteq> EMPTY"
  using assms parse_nonempty [of s v] by (cases "s = []") (auto simp: parse_def)

lemma parsed_unique:
  assumes "parsed v r p" "parsed w r' p'" "release v = release w" "prerelease v = prerelease w"
  shows "v = w"
proof -
  have "r = r'" using assms identifiers_inj by (simp add: parsed_def) metis
  moreover have "p = p'"
    using assms identifiers_inj identifiers_ne [of _ "[]"] by (auto simp: parsed_def split: option.splits)
  ultimately show ?thesis using assms by (cases v; cases w) (simp add: parsed_def)
qed

lemma version_cmp_Equal_parsed:
  assumes a: "parse s = Inr a" and b: "parse t = Inr b" and e: "version_cmp a b = Equal"
  shows "a = b"
proof -
  have eq: "is_empty a = is_empty b" "release a = release b" "prerelease a = prerelease b"
    using e by (simp_all add: version_cmp_alt)
  show ?thesis
  proof (cases "s = []")
    case True
    then have "a = EMPTY" using a by (simp add: parse_def)
    then have "t = []" using b eq parse_nonempty [of t b] by (auto simp: EMPTY_def is_empty_def)
    then show ?thesis using b \<open>a = EMPTY\<close> by (simp add: parse_def)
  next
    case False
    then have "t \<noteq> []" using a b eq parse_nonempty by (auto simp: parse_def EMPTY_def)
    then show ?thesis using False a b eq parsed_unique by (auto simp: parse_Inr)
  qed
qed

lemma version_cmp_compare:
  assumes "parse s = Inr a" "parse t = Inr b"
  shows "version_cmp a b = compare a b"
proof -
  have "version_cmp a b = version_total a b"
    using version_cmp_Equal_parsed [OF assms] by (cases "version_cmp a b") (auto simp: version_total_def compare_refl simp del: compare_simps)
  then show ?thesis
    using version_order.cmp_refl [of b]
    by (cases "version_total a b")
      (auto simp: compare_def less_version_def version_total_Equal)
qed

section \<open>Properties\<close>

lemmas version_eval = parse_def version_re_def char_classes release_char_def prerelease_char_def
  identifier_parse_def parse_u64_def decimal_def digit_value_def Let_def


lemma parse_display:
  assumes "parse s = Inr v"
  shows "parse (version_display v) = Inr v"
proof (cases "s = []")
  case True
  then have "v = EMPTY" using assms by (simp add: parse_empty)
  then show ?thesis by (simp add: parse_empty version_display_def EMPTY_def)
next
  case False
  then obtain r p where g: "version_grammar s r p" and v: "parsed v r p" using assms parse_Inr by blast
  have "version_text r p \<noteq> []" using grammar_ne [OF g] by (simp add: version_text_def)
  then have "parse (version_text r p) = Inr v" using parse_Inr grammar_text [OF g] v by blast
  then show ?thesis using v by (simp add: version_display_def parsed_def)
qed

lemma version_display_inj:
  assumes "parse s = Inr a" "parse t = Inr b"
  shows "version_display a = version_display b \<longleftrightarrow> a = b"
proof
  assume e: "version_display a = version_display b"
  have "Inr a = parse (version_display b)" using parse_display [OF assms(1)] e by metis
  then show "a = b" using parse_display [OF assms(2)] by simp
qed simp

text \<open>
  Printing and parsing a version round-trip: the text a parsed version displays, serialises and is
  sent to a registry as parses back to the same version, and it carries no build part.
\<close>

theorem version_display_roundtrip:
  assumes "parse s = Inr v"
  shows "parse (version_display v) = Inr v \<and> CHR ''+'' \<notin> set (version_display v)"
proof (cases "s = []")
  case True
  then have "v = EMPTY" using assms by (simp add: parse_empty)
  then show ?thesis by (simp add: parse_empty version_display_def EMPTY_def)
next
  case False
  then obtain r p where g: "version_grammar s r p" and v: "parsed v r p" using assms parse_Inr by blast
  have "CHR ''+'' \<notin> set (version_text r p)"
    using g class_separators by (auto simp: version_grammar_def version_text_def list_all_iff split: option.splits)
  then show ?thesis using parse_display [OF assms] v by (simp add: version_display_def parsed_def)
qed

theorem version_display_roundtrip_witness:
  "parse ''1.2.3-pre+build.4'' = parse ''1.2.3-pre'' \<and> is_ok (parse ''1.2.3-pre'')"
proof -
  have p: "parse ''1.2.3-pre+build.4'' = Inr (Version [Numeric 1 ''1'', Numeric 2 ''2'', Numeric 3 ''3''] [Text ''pre''] ''1.2.3-pre'')"
    by (simp add: version_eval)
  show ?thesis using version_display_roundtrip [OF p] p by (simp add: version_display_def is_ok_def)
qed

text \<open>
  The order of versions is consistent with their equality: two parsed versions compare as equal
  exactly when \<open>PartialEq\<close> (which looks at the text alone) finds them equal, and exactly when they are
  the same value, so that ordered maps and hashed sets of versions agree.
\<close>

theorem version_order_consistent:
  assumes "parse s = Inr a" and "parse t = Inr b"
  shows "(version_cmp a b = Equal \<longleftrightarrow> version_eq a b) \<and> (version_eq a b \<longleftrightarrow> a = b)
    \<and> version_cmp b a = reverse (version_cmp a b)"
proof -
  have "a = b" if "version_eq a b"
  proof -
    have "normalized a = normalized b" using that by (simp add: version_eq_def)
    then show ?thesis
    proof (cases "s = [] \<or> t = []")
      case True
      then show ?thesis
        using assms that parse_nonempty [of s a] parse_nonempty [of t b]
        by (cases "s = []"; cases "t = []") (auto simp: parse_empty version_eq_def EMPTY_def)
    next
      case False
      then obtain r p where a: "version_grammar s r p" "parsed a r p" using assms(1) parse_Inr by blast
      obtain r' p' where b: "version_grammar t r' p'" "parsed b r' p'"
        using False assms(2) parse_Inr by blast
      have "r = r' \<and> p = p'"
        using that a b by (intro parsed_text_inj [OF a(1) b(1)]) (simp add: version_eq_def parsed_def)
      then show ?thesis using a(2) b(2) parsed_fun by blast
    qed
  qed
  moreover have "version_cmp a a = Equal" "version_eq a a"
    by (simp_all add: version_order.cmp_refl version_eq_def)
  ultimately have eq: "(version_cmp a b = Equal \<longleftrightarrow> version_eq a b) \<and> (version_eq a b \<longleftrightarrow> a = b)"
    using version_cmp_Equal_parsed [OF assms] by blast
  have "version_cmp b a = reverse (version_cmp a b)" by (rule version_order.cmp_swap)
  with eq show ?thesis by blast
qed

theorem version_order_consistent_witness:
  "version_cmp (Version [Numeric 1 ''1'', Numeric 1 ''01''] [] ''1.01'')
      (Version [Numeric 1 ''1'', Numeric 1 ''1''] [] ''1.1'') \<noteq> Equal"
proof -
  have a: "parse ''1.01+x'' = Inr (Version [Numeric 1 ''1'', Numeric 1 ''01''] [] ''1.01'')" by (simp add: version_eval)
  have b: "parse ''1.1'' = Inr (Version [Numeric 1 ''1'', Numeric 1 ''1''] [] ''1.1'')" by (simp add: version_eval)
  show ?thesis using version_order_consistent [OF a b] by simp
qed

text \<open>
  Where Bazel puts the special versions: the empty version is above every other parsed version,
  and a prerelease is below the release it announces and above every parsed version that is below that
  release and has another release part.
\<close>

theorem version_order_special:
  assumes "parse s = Inr v" and "s \<noteq> []"
  shows "version_cmp v EMPTY = Less
    \<and> (\<forall>t w. parse t = Inr w \<and> release w = release v \<and> is_prerelease w \<and> \<not> is_prerelease v
         \<longrightarrow> version_cmp w v = Less
           \<and> (\<forall>x. release x \<noteq> release v \<and> version_cmp x v = Less \<longrightarrow> version_cmp x w = Less))"
proof -
  have ne: "\<not> is_empty v" "release v \<noteq> []" using parse_nonempty [OF assms(2,1)] by auto
  have "version_cmp v EMPTY = Less" using ne by (simp add: version_cmp_alt is_empty_def EMPTY_def then_with_Less)
  moreover have "version_cmp w v = Less
      \<and> (\<forall>x. release x \<noteq> release v \<and> version_cmp x v = Less \<longrightarrow> version_cmp x w = Less)"
    if w: "parse t = Inr w" "release w = release v" "is_prerelease w" "\<not> is_prerelease v" for t w
  proof -
    have "t \<noteq> []" using w ne by (auto simp: parse_empty EMPTY_def)
    then have "\<not> is_empty w" using w parse_nonempty [of t w] by blast
    then show ?thesis using ne w by (auto simp: version_cmp_alt then_with_Less)
  qed
  ultimately show ?thesis by blast
qed

theorem version_order_special_witness:
  "version_cmp (Version [Numeric 1 ''1'', Numeric 0 ''0''] [] ''1.0'') EMPTY = Less
   \<and> version_cmp (Version [Numeric 1 ''1'', Numeric 0 ''0''] [Text ''pre''] ''1.0-pre'')
       (Version [Numeric 1 ''1'', Numeric 0 ''0''] [] ''1.0'') = Less"
proof -
  have a: "parse ''1.0'' = Inr (Version [Numeric 1 ''1'', Numeric 0 ''0''] [] ''1.0'')" by (simp add: version_eval)
  have b: "parse ''1.0-pre'' = Inr (Version [Numeric 1 ''1'', Numeric 0 ''0''] [Text ''pre''] ''1.0-pre'')"
    by (simp add: version_eval)
  show ?thesis
    using version_order_special [OF a] b by (auto simp: is_prerelease_def)
qed

end
