(* ===== verification/Rust_Collections.thy ===== *)
theory Rust_Collections
  imports Rust_Ord "HOL-Library.Product_Lexorder"
begin

text \<open>
  \<open>std::collections::BTreeMap\<close> and \<open>BTreeSet\<close>: the entries in the order the collection iterates them,
  which is the order of the keys. The locale states what a client may rely on; the sorted association
  list provides it.
\<close>

section \<open>The interface of an ordered map\<close>

locale ordered_map =
  fixes empty :: "'m"
    and insert_at :: "'k :: linorder \<Rightarrow> 'v \<Rightarrow> 'm \<Rightarrow> 'm"
    and get :: "'m \<Rightarrow> 'k \<Rightarrow> 'v option"
    and entries :: "'m \<Rightarrow> ('k \<times> 'v) list"
    and inv :: "'m \<Rightarrow> bool"
  assumes inv_empty: "inv empty"
    and get_empty: "get empty k = None"
    and inv_insert: "inv m \<Longrightarrow> inv (insert_at k v m)"
    and get_insert: "inv m \<Longrightarrow> get (insert_at k v m) = (get m)(k \<mapsto> v)"
    and get_entries: "inv m \<Longrightarrow> get m k = Some v \<longleftrightarrow> (k, v) \<in> set (entries m)"
    and entries_sorted: "inv m \<Longrightarrow> sorted_wrt (<) (map fst (entries m))"
begin

definition collect_into :: "('k \<times> 'v) list \<Rightarrow> 'm \<Rightarrow> 'm" where
  "collect_into kvs m = fold (\<lambda>(k, v). insert_at k v) kvs m"

lemma inv_collect: "inv m \<Longrightarrow> inv (collect_into kvs m)"
  unfolding collect_into_def by (induction kvs arbitrary: m) (auto intro: inv_insert)

lemma get_collect: "inv m \<Longrightarrow> get (collect_into kvs m) = get m ++ map_of (rev kvs)"
  unfolding collect_into_def
proof (induction kvs arbitrary: m)
  case (Cons kv kvs)
  obtain k v where kv: "kv = (k, v)" by (cases kv)
  have "get (fold (\<lambda>(k, v). insert_at k v) kvs (insert_at k v m)) = (get m)(k \<mapsto> v) ++ map_of (rev kvs)"
    unfolding get_insert [OF Cons.prems, symmetric] by (rule Cons.IH [OF inv_insert [OF Cons.prems]])
  moreover have "map_of (rev (kv # kvs)) = [k \<mapsto> v] ++ map_of (rev kvs)"
    using kv by (simp add: map_add_def fun_eq_iff split: option.split)
  ultimately show ?case using kv by (simp add: map_add_assoc [symmetric])
qed simp

lemma entries_distinct: "inv m \<Longrightarrow> distinct (map fst (entries m))"
  using entries_sorted strict_sorted_iff by blast

lemma finite_dom: "inv m \<Longrightarrow> finite (dom (get m))"
proof -
  assume "inv m"
  then have "dom (get m) \<subseteq> fst ` set (entries m)" by (force simp: get_entries dom_def)
  then show ?thesis by (rule finite_subset) simp
qed

end

section \<open>Sorted association lists\<close>

type_synonym ('k, 'v) btree = "('k \<times> 'v) list"

fun btree_insert :: "'k :: linorder \<Rightarrow> 'v \<Rightarrow> ('k, 'v) btree \<Rightarrow> ('k, 'v) btree" where
  "btree_insert k v [] = [(k, v)]"
| "btree_insert k v ((l, w) # m) =
     (if k < l then (k, v) # (l, w) # m
      else if k = l then (k, v) # m
      else (l, w) # btree_insert k v m)"

definition btree_inv :: "('k :: linorder, 'v) btree \<Rightarrow> bool" where
  "btree_inv m \<longleftrightarrow> sorted_wrt (<) (map fst m)"

definition btree_collect :: "('k :: linorder \<times> 'v) list \<Rightarrow> ('k, 'v) btree" where
  "btree_collect kvs = fold (\<lambda>(k, v). btree_insert k v) kvs []"

lemma btree_insert_keys: "fst ` set (btree_insert k v m) = insert k (fst ` set m)"
  by (induction k v m rule: btree_insert.induct) auto

lemma btree_inv_insert: "btree_inv m \<Longrightarrow> btree_inv (btree_insert k v m)"
proof (induction k v m rule: btree_insert.induct)
  case (2 k v l w m)
  have "set (map fst (btree_insert k v m)) = insert k (set (map fst m))"
    using btree_insert_keys [of k v m] by simp
  then show ?case using 2 by (auto simp: btree_inv_def simp del: set_map)
qed (simp add: btree_inv_def)

lemma btree_get_insert: "btree_inv m \<Longrightarrow> map_of (btree_insert k v m) = (map_of m)(k \<mapsto> v)"
  by (induction k v m rule: btree_insert.induct) (auto simp: btree_inv_def fun_eq_iff)

interpretation btree: ordered_map "[]" btree_insert map_of "\<lambda>m. m" btree_inv
proof
  fix m :: "('a, 'b) btree" and k v
  show "btree_inv m \<Longrightarrow> map_of m k = Some v \<longleftrightarrow> (k, v) \<in> set m"
    by (metis btree_inv_def map_of_eq_Some_iff strict_sorted_iff)
qed (auto simp: btree_inv_insert btree_get_insert, simp_all add: btree_inv_def)

lemma btree_collect_into: "btree_collect kvs = btree.collect_into kvs []"
  by (simp add: btree_collect_def btree.collect_into_def)

lemma btree_insert_last:
  "btree_inv (m @ [(k, v)]) \<Longrightarrow> btree_insert k v m = m @ [(k, v)]"
  by (induction m) (auto simp: btree_inv_def sorted_wrt_append)

text \<open>Collecting entries that are in order already changes nothing.\<close>

lemma btree_collect_sorted: "btree_inv kvs \<Longrightarrow> btree_collect kvs = kvs"
proof (induction kvs rule: rev_induct)
  case (snoc kv kvs)
  then have "btree_inv kvs" by (simp add: btree_inv_def sorted_wrt_append)
  with snoc show ?case by (cases kv) (simp add: btree_collect_def btree_insert_last)
qed (simp add: btree_collect_def)

lemma btree_insert_subset: "set (btree_insert k v m) \<subseteq> insert (k, v) (set m)"
  by (induction k v m rule: btree_insert.induct) auto

lemma btree_collect_subset: "set (btree_collect kvs) \<subseteq> set kvs"
proof -
  have "set (fold (\<lambda>(k, v). btree_insert k v) kvs m) \<subseteq> set kvs \<union> set m" for m
    using btree_insert_subset by (induction kvs arbitrary: m) fastforce+
  then show ?thesis by (simp add: btree_collect_def) (metis empty_set sup_bot_right)
qed

section \<open>Sorted sets\<close>

text \<open>\<open>BTreeSet::insert\<close> and the first element of \<open>range(lo..)\<close>.\<close>

fun bset_insert :: "'a :: linorder \<Rightarrow> 'a list \<Rightarrow> 'a list" where
  "bset_insert x [] = [x]"
| "bset_insert x (y # ys) = (if x < y then x # y # ys else if x = y then y # ys else y # bset_insert x ys)"

definition bset_from :: "'a :: linorder list \<Rightarrow> 'a list" where
  "bset_from xs = fold bset_insert xs []"

definition range_next :: "'a :: linorder \<Rightarrow> 'a list \<Rightarrow> 'a option" where
  "range_next lo s = List.find (\<lambda>x. lo \<le> x) s"

lemma set_bset_insert [simp]: "set (bset_insert x s) = insert x (set s)"
  by (induction s) auto

lemma sorted_bset_insert: "sorted_wrt (<) s \<Longrightarrow> sorted_wrt (<) (bset_insert x s)"
  by (induction s) auto

lemma set_bset_from [simp]: "set (bset_from xs) = set xs"
proof -
  have "set (fold bset_insert xs s) = set xs \<union> set s" for s by (induction xs arbitrary: s) auto
  then show ?thesis by (simp add: bset_from_def)
qed

lemma sorted_bset_from: "sorted_wrt (<) (bset_from xs)"
proof -
  have "sorted_wrt (<) s \<Longrightarrow> sorted_wrt (<) (fold bset_insert xs s)" for s
    by (induction xs arbitrary: s) (auto intro: sorted_bset_insert)
  then show ?thesis by (simp add: bset_from_def)
qed

lemma range_next_least:
  assumes "sorted_wrt (<) s" "range_next lo s = Some x"
  shows "x \<in> set s \<and> lo \<le> x \<and> (\<forall>y \<in> set s. lo \<le> y \<longrightarrow> x \<le> y)"
  using assms by (induction s) (auto simp: range_next_def split: if_splits dest: less_imp_le)

lemma range_next_None: "range_next lo s = None \<longleftrightarrow> (\<forall>y \<in> set s. y < lo)"
  by (induction s) (auto simp: range_next_def)

end
