(* ===== verification/Bzlmod_Module.thy ===== *)
theory Bzlmod_Module
  imports Module_Version Rust_Collections
begin

text \<open>
  The data model of the module graph (\<open>crates/fjfj-bzlmod/src/module.rs\<close>, \<open>overrides.rs\<close>,
  \<open>attrs.rs\<close>, \<open>error.rs\<close>): module keys and the repository names made from them, dependency
  specifications, modules, overrides and errors.
\<close>

section \<open>Attributes and errors\<close>

datatype attr_value =
    ANone
  | ABool bool
  | AInt int
  | AString string
  | AList "attr_value list"
  | ADict "(attr_value \<times> attr_value) list"

type_synonym attrs = "(string \<times> attr_value) list"

fun as_str :: "attr_value \<Rightarrow> string option" where
  "as_str (AString s) = Some s"
| "as_str _ = None"

datatype bzlmod_error =
    BadModule string string
  | ModuleNotFound string string
  | MissingVersion string
  | Registry string string
  | Lockfile string
  | VersionResolution string
  | FetchRequired string string
  | NotAModuleFile
  | Io string

section \<open>Module keys\<close>

datatype module_key = ModuleKey (key_name: string) (key_version: version)

text \<open>The derived \<open>Ord\<close> compares the fields in their order.\<close>

instantiation module_key :: linorder
begin

definition less_eq_module_key :: "module_key \<Rightarrow> module_key \<Rightarrow> bool" where
  "a \<le> b \<longleftrightarrow> (key_name a, key_version a) \<le> (key_name b, key_version b)"

definition less_module_key :: "module_key \<Rightarrow> module_key \<Rightarrow> bool" where
  "a < b \<longleftrightarrow> (key_name a, key_version a) < (key_name b, key_version b)"

instance
proof
  fix x y z :: module_key
  show "x < y \<longleftrightarrow> x \<le> y \<and> \<not> y \<le> x"
    unfolding less_eq_module_key_def less_module_key_def by (rule less_le_not_le)
  show "x \<le> x" unfolding less_eq_module_key_def by (rule order_refl)
  show "x \<le> y \<Longrightarrow> y \<le> z \<Longrightarrow> x \<le> z" unfolding less_eq_module_key_def by (rule order_trans)
  show "x \<le> y \<or> y \<le> x" unfolding less_eq_module_key_def by (rule linear)
  assume "x \<le> y" "y \<le> x"
  then have "(key_name x, key_version x) = (key_name y, key_version y)"
    unfolding less_eq_module_key_def by (rule antisym)
  then show "x = y" by (simp add: module_key.expand)
qed

end

definition WELL_KNOWN_MODULES :: "string list" where
  "WELL_KNOWN_MODULES = [''bazel_tools'', ''platforms'']"

definition root_key :: module_key where
  "root_key = ModuleKey [] EMPTY"

definition is_root :: "module_key \<Rightarrow> bool" where
  "is_root k \<longleftrightarrow> key_name k = [] \<and> is_empty (key_version k)"

definition well_known_repo_name :: "module_key \<Rightarrow> string option" where
  "well_known_repo_name k = List.find (\<lambda>m. m = key_name k) WELL_KNOWN_MODULES"

definition canonical_repo_name_with_version :: "module_key \<Rightarrow> string option" where
  "canonical_repo_name_with_version k =
     (case well_known_repo_name k of
        Some m \<Rightarrow> Some m
      | None \<Rightarrow>
          (if is_empty (key_version k) then None
           else Some (key_name k @ ''+'' @ version_display (key_version k))))"

definition canonical_repo_name :: "module_key \<Rightarrow> string" where
  "canonical_repo_name k =
     (case well_known_repo_name k of
        Some m \<Rightarrow> m
      | None \<Rightarrow> (if is_root k then [] else key_name k @ ''+''))"

definition key_display :: "module_key \<Rightarrow> string" where
  "key_display k =
     (if is_root k then ''<root>''
      else if is_empty (key_version k) then key_name k @ ''@_''
      else key_name k @ ''@'' @ version_display (key_version k))"

section \<open>Modules\<close>

record dep_spec =
  dep_name :: string
  dep_version :: version

definition to_module_key :: "dep_spec \<Rightarrow> module_key" where
  "to_module_key d = ModuleKey (dep_name d) (dep_version d)"

definition with_version :: "dep_spec \<Rightarrow> version \<Rightarrow> dep_spec" where
  "with_version d v = \<lparr>dep_name = dep_name d, dep_version = v\<rparr>"

record dep =
  dep_repo_name :: string
  spec :: dep_spec

record repo_override =
  overridden_repo_name :: string
  overriding_repo_name :: string
  must_exist :: bool

record tag =
  tag_class :: string
  tag_attrs :: attrs
  tag_dev_dependency :: bool
  tag_location :: string
  tag_seq :: u32

record extension_usage =
  bzl_file :: string
  extension_name :: string
  isolate :: bool
  dev_dependency :: bool
  usage_imports :: "(string \<times> string) list"
  tags :: "tag list"
  repo_overrides :: "repo_override list"
  usage_location :: string

record bzl_module =
  mod_key :: module_key
  mod_name :: string
  mod_version :: version
  mod_repo_name :: string
  deps :: "dep list"
  nodep_deps :: "dep_spec list"
  mod_registry :: "string option"
  bazel_compatibility :: "string list"
  toolchains_to_register :: "string list"
  execution_platforms_to_register :: "string list"
  extension_usages :: "extension_usage list"
  flag_aliases :: "(string \<times> string) list"

definition module_dep :: "bzl_module \<Rightarrow> string \<Rightarrow> dep_spec option" where
  "module_dep m repo_name = map_option spec (List.find (\<lambda>d. dep_repo_name d = repo_name) (deps m))"

definition with_deps_transformed :: "(dep_spec \<Rightarrow> dep_spec) \<Rightarrow> bzl_module \<Rightarrow> bzl_module" where
  "with_deps_transformed f m =
     m\<lparr>deps := map (\<lambda>d. \<lparr>dep_repo_name = dep_repo_name d, spec = f (spec d)\<rparr>) (deps m),
       nodep_deps := map f (nodep_deps m)\<rparr>"

definition module_name_char :: "char \<Rightarrow> bool" where
  "module_name_char c \<longleftrightarrow> is_ascii_lowercase c \<or> is_ascii_digit c \<or> c \<in> {CHR ''.'', CHR ''-'', CHR ''_''}"

text \<open>The error carries the rejected name.\<close>

definition validate_module_name :: "string \<Rightarrow> (string, unit) result" where
  "validate_module_name name =
     (let first_ok = (case name of [] \<Rightarrow> False | c # _ \<Rightarrow> is_ascii_lowercase c);
          last_ok = (name \<noteq> [] \<and> (is_ascii_lowercase (last name) \<or> is_ascii_digit (last name)));
          body_ok = list_all module_name_char name
      in if first_ok \<and> last_ok \<and> body_ok then Inr () else Inl name)"

section \<open>Overrides\<close>

datatype repo_rule = HttpArchive | GitRepository | LocalRepository

fun repo_rule_id :: "repo_rule \<Rightarrow> string" where
  "repo_rule_id HttpArchive = ''@@bazel_tools//tools/build_defs/repo:http.bzl%http_archive''"
| "repo_rule_id GitRepository = ''@@bazel_tools//tools/build_defs/repo:git.bzl%git_repository''"
| "repo_rule_id LocalRepository = ''@@bazel_tools//tools/build_defs/repo:local.bzl%local_repository''"

record repo_spec =
  rule :: repo_rule
  rule_attrs :: attrs

record single_version_override =
  pinned :: version
  single_registry :: "string option"
  patches :: "string list"
  patch_cmds :: "string list"
  patch_strip :: int

record multiple_version_override =
  versions :: "version list"
  multiple_registry :: "string option"

datatype module_override =
    SingleVersion single_version_override
  | MultipleVersion multiple_version_override
  | NonRegistry repo_spec

fun override_registry :: "module_override \<Rightarrow> string option" where
  "override_registry (SingleVersion o1) = (if single_registry o1 = Some [] then None else single_registry o1)"
| "override_registry (MultipleVersion o1) = (if multiple_registry o1 = Some [] then None else multiple_registry o1)"
| "override_registry (NonRegistry _) = None"

fun is_non_registry :: "module_override \<Rightarrow> bool" where
  "is_non_registry (NonRegistry _) = True"
| "is_non_registry _ = False"

section \<open>Repository names\<close>

lemma validate_module_name_Inr:
  "validate_module_name n = Inr u \<longleftrightarrow> n \<noteq> [] \<and> is_ascii_lowercase (hd n)
     \<and> (is_ascii_lowercase (last n) \<or> is_ascii_digit (last n)) \<and> list_all module_name_char n"
  by (cases n) (auto simp: validate_module_name_def Let_def)

lemma module_name_separators [simp]: "\<not> module_name_char CHR ''+''" "\<not> module_name_char CHR ''@''"
  by (simp_all add: module_name_char_def char_classes)

lemma valid_name_separators:
  "validate_module_name n = Inr u \<Longrightarrow> CHR ''+'' \<notin> set n \<and> CHR ''@'' \<notin> set n"
  using module_name_separators by (auto simp: validate_module_name_Inr list_all_iff)

lemma well_known_cases:
  "well_known_repo_name k = (if key_name k \<in> set WELL_KNOWN_MODULES then Some (key_name k) else None)"
  by (auto simp: well_known_repo_name_def WELL_KNOWN_MODULES_def)

lemma append_sep_inj:
  assumes "(c :: char) \<notin> set a" "c \<notin> set b" "a @ c # x = b @ c # y"
  shows "a = b \<and> x = y"
proof -
  have a: "split_once c (a @ c # x) = Some (a, x)" using assms(1) by (simp add: split_once_Some)
  have b: "split_once c (b @ c # y) = Some (b, y)" using assms(2) by (simp add: split_once_Some)
  have "Some (a, x) = Some (b, y)" by (rule trans [OF sym [OF a [unfolded assms(3)]] b])
  then show ?thesis by simp
qed

lemma append_sep_iff:
  "(c :: char) \<notin> set a \<Longrightarrow> c \<notin> set b \<Longrightarrow> a @ c # x = b @ c # y \<longleftrightarrow> a = b \<and> x = y"
  using append_sep_inj by blast

lemma well_known_separators: "n \<in> set WELL_KNOWN_MODULES \<Longrightarrow> CHR ''+'' \<notin> set n"
  by (auto simp: WELL_KNOWN_MODULES_def)

text \<open>
  Canonical repository names tell modules apart. Two modules with valid names and parsed,
  non-empty versions that are not both well-known have the same canonical name with version only when
  they are the same module; and without the version, two modules with valid names share a canonical name
  exactly when they share a name.
\<close>

theorem canonical_repo_names_unique:
  assumes "validate_module_name (key_name k) = Inr ()" and "validate_module_name (key_name l) = Inr ()"
    and "parse s = Inr (key_version k)" and "parse t = Inr (key_version l)"
    and "\<not> is_empty (key_version k)" and "\<not> is_empty (key_version l)"
    and "key_name k \<notin> set WELL_KNOWN_MODULES"
  shows "(canonical_repo_name_with_version k = canonical_repo_name_with_version l \<longleftrightarrow> k = l)
    \<and> (canonical_repo_name k = canonical_repo_name l \<longleftrightarrow> key_name k = key_name l)"
proof -
  have sep: "CHR ''+'' \<notin> set (key_name k)" "CHR ''+'' \<notin> set (key_name l)"
    using valid_name_separators assms(1,2) by blast+
  have not_root: "\<not> is_root k" "\<not> is_root l" using assms(5,6) by (simp_all add: is_root_def)
  have k: "canonical_repo_name_with_version k = Some (key_name k @ CHR ''+'' # version_display (key_version k))"
    "canonical_repo_name k = key_name k @ CHR ''+'' # []"
    using assms(5,7) not_root
    by (simp_all add: canonical_repo_name_with_version_def canonical_repo_name_def well_known_cases)
  show ?thesis
  proof (cases "key_name l \<in> set WELL_KNOWN_MODULES")
    case True
    then have l: "canonical_repo_name_with_version l = Some (key_name l)" "canonical_repo_name l = key_name l"
      by (simp_all add: canonical_repo_name_with_version_def canonical_repo_name_def well_known_cases)
    have "key_name k @ CHR ''+'' # x \<noteq> key_name l" for x
    proof
      assume "key_name k @ CHR ''+'' # x = key_name l"
      then have "CHR ''+'' \<in> set (key_name l)" by (metis in_set_conv_decomp)
      then show False using well_known_separators [OF True] by simp
    qed
    then show ?thesis using k l True assms(7) by auto
  next
    case False
    then have l: "canonical_repo_name_with_version l = Some (key_name l @ CHR ''+'' # version_display (key_version l))"
      "canonical_repo_name l = key_name l @ CHR ''+'' # []"
      using assms(6) not_root
      by (simp_all add: canonical_repo_name_with_version_def canonical_repo_name_def well_known_cases)
    have eq: "k = l \<longleftrightarrow> key_name k = key_name l \<and> key_version k = key_version l"
      by (cases k; cases l) simp
    have disp: "version_display (key_version k) = version_display (key_version l) \<longleftrightarrow> key_version k = key_version l"
      by (rule version_display_inj [OF assms(3,4)])
    show ?thesis unfolding k l option.inject append_sep_iff [OF sep] eq disp by simp
  qed
qed

theorem canonical_repo_names_unique_witness:
  "canonical_repo_name_with_version (ModuleKey ''rules_cc'' (Version [Numeric 1 ''1''] [] ''1''))
     \<noteq> canonical_repo_name_with_version (ModuleKey ''rules_cc'' (Version [Numeric 2 ''2''] [] ''2''))"
proof -
  have a: "parse ''1'' = Inr (Version [Numeric 1 ''1''] [] ''1'')" by (simp add: version_eval)
  have b: "parse ''2'' = Inr (Version [Numeric 2 ''2''] [] ''2'')" by (simp add: version_eval)
  have n: "validate_module_name ''rules_cc'' = Inr ()"
    by (simp add: validate_module_name_def module_name_char_def char_classes)
  show ?thesis
    using canonical_repo_names_unique [of "ModuleKey ''rules_cc'' (Version [Numeric 1 ''1''] [] ''1'')"
        "ModuleKey ''rules_cc'' (Version [Numeric 2 ''2''] [] ''2'')" "''1''" "''2''"] a b n
    by (simp add: is_empty_def WELL_KNOWN_MODULES_def)
qed

end
