(* ===== verification/Version_Selection.thy ===== *)
theory Version_Selection
  imports Bzlmod_Module
begin

text \<open>
  Minimal version selection (\<open>crates/fjfj-bzlmod/src/selection.rs\<close>): the selection groups, the
  highest version of each grp, the rewriting of every dependency edge, and the breadth-first walk
  from the root that keeps what is reachable and checks it.
\<close>

section \<open>The model\<close>

type_synonym dep_graph = "(module_key, bzl_module) btree"

type_synonym overrides = "(string, module_override) btree"

record selection =
  resolved :: "(module_key \<times> bzl_module) list"
  unpruned :: "(module_key \<times> bzl_module) list"

definition selection_module :: "selection \<Rightarrow> string \<Rightarrow> bzl_module option" where
  "selection_module s name = map_option snd (List.find (\<lambda>(key, _). key_name key = name) (resolved s))"

definition selection_keys :: "selection \<Rightarrow> module_key list" where
  "selection_keys s = map fst (resolved s)"

datatype selection_group = SelectionGroup (group_name: string) (target_allowed_version: version)

instantiation selection_group :: linorder
begin

definition less_eq_selection_group :: "selection_group \<Rightarrow> selection_group \<Rightarrow> bool" where
  "a \<le> b \<longleftrightarrow> (group_name a, target_allowed_version a) \<le> (group_name b, target_allowed_version b)"

definition less_selection_group :: "selection_group \<Rightarrow> selection_group \<Rightarrow> bool" where
  "a < b \<longleftrightarrow> (group_name a, target_allowed_version a) < (group_name b, target_allowed_version b)"

instance
proof
  fix x y z :: selection_group
  show "x < y \<longleftrightarrow> x \<le> y \<and> \<not> y \<le> x"
    unfolding less_eq_selection_group_def less_selection_group_def by (rule less_le_not_le)
  show "x \<le> x" unfolding less_eq_selection_group_def by (rule order_refl)
  show "x \<le> y \<Longrightarrow> y \<le> z \<Longrightarrow> x \<le> z" unfolding less_eq_selection_group_def by (rule order_trans)
  show "x \<le> y \<or> y \<le> x" unfolding less_eq_selection_group_def by (rule linear)
  assume "x \<le> y" "y \<le> x"
  then have "(group_name x, target_allowed_version x) = (group_name y, target_allowed_version y)"
    unfolding less_eq_selection_group_def by (rule antisym)
  then show "x = y" by (simp add: selection_group.expand)
qed

end

type_synonym version_sets = "(string, version list) btree"

type_synonym 'a bzlmod_result = "(bzlmod_error, 'a) result"

text \<open>The inner loop of \<open>compute_allowed_version_sets\<close>, over the versions of one override.\<close>

fun allow_versions :: "string \<Rightarrow> dep_graph \<Rightarrow> version list \<Rightarrow> version_sets \<Rightarrow> version_sets bzlmod_result" where
  "allow_versions name g [] sets = Inr sets"
| "allow_versions name g (v # vs) sets =
     (if map_of g (ModuleKey name v) = None
      then Inl (VersionResolution (''multiple_version_override for module '' @ name @ '' contains version ''
             @ version_display v @ '', but it doesn't exist in the dependency graph''))
      else allow_versions name g vs
             (btree_insert name
                (bset_insert v (case map_of sets name of None \<Rightarrow> [EMPTY] | Some s \<Rightarrow> s)) sets))"

fun allowed_loop :: "dep_graph \<Rightarrow> (string \<times> module_override) list \<Rightarrow> version_sets \<Rightarrow> version_sets bzlmod_result" where
  "allowed_loop g [] sets = Inr sets"
| "allowed_loop g ((name, o1) # os) sets =
     (case o1 of
        MultipleVersion mvo \<Rightarrow> and_then (allow_versions name g (versions mvo) sets) (allowed_loop g os)
      | _ \<Rightarrow> allowed_loop g os sets)"

definition compute_allowed_version_sets :: "overrides \<Rightarrow> dep_graph \<Rightarrow> version_sets bzlmod_result" where
  "compute_allowed_version_sets overrides g = allowed_loop g overrides []"

definition compute_selection_group :: "module_key \<Rightarrow> version_sets \<Rightarrow> selection_group" where
  "compute_selection_group key sets =
     SelectionGroup (key_name key)
       (case map_of sets (key_name key) of
          None \<Rightarrow> EMPTY
        | Some allowed \<Rightarrow> (case range_next (key_version key) allowed of None \<Rightarrow> EMPTY | Some v \<Rightarrow> v))"

text \<open>One turn of the loop that keeps the highest version of each grp.\<close>

definition select_version ::
  "module_key \<times> selection_group \<Rightarrow> (selection_group, version) btree \<Rightarrow> (selection_group, version) btree" where
  "select_version kg m =
     (case kg of (key, grp) \<Rightarrow>
        case map_of m grp of
          Some selected \<Rightarrow>
            (if key_version key > selected then btree_insert grp (key_version key) m else m)
        | None \<Rightarrow> btree_insert grp (key_version key) m)"

definition resolve_dep :: "dep_spec \<Rightarrow> (selection_group, version) btree \<Rightarrow> version option" where
  "resolve_dep d selected =
     (case map snd (filter (\<lambda>(grp, _). group_name grp = dep_name d
             \<and> target_allowed_version grp \<ge> dep_version d) selected) of
        [] \<Rightarrow> None
      | v # vs \<Rightarrow> Some (fold min vs v))"

definition optional_display :: "module_key option \<Rightarrow> string" where
  "optional_display k = (case k of None \<Rightarrow> [] | Some k \<Rightarrow> key_display k)"

text \<open>The last loop of \<open>visit\<close>: no two dependencies of a module on the same module.\<close>

fun check_twice :: "module_key \<Rightarrow> (module_key, string) btree \<Rightarrow> dep list \<Rightarrow> unit bzlmod_result" where
  "check_twice key seen [] = Inr ()"
| "check_twice key seen (d # ds) =
     (let dep_key = to_module_key (spec d)
      in case map_of seen dep_key of
           Some previous \<Rightarrow>
             Inl (VersionResolution (key_display key @ '' depends on '' @ key_display dep_key
               @ '' at least twice (with repo names '' @ dep_repo_name d @ '' and '' @ previous
               @ ''). Consider adding a multiple_version_override if you want to depend on multiple versions of ''
               @ dep_name (spec d) @ '' simultaneously''))
         | None \<Rightarrow> check_twice key (btree_insert dep_key (dep_repo_name d) seen) ds)"

type_synonym by_name = "(string, module_key \<times> module_key option) btree"

text \<open>\<open>visit\<close>; the result is the updated \<open>module_by_name\<close>.\<close>

definition visit ::
  "module_key \<Rightarrow> bzl_module \<Rightarrow> module_key option \<Rightarrow> overrides \<Rightarrow> (module_key, selection_group) btree
    \<Rightarrow> by_name \<Rightarrow> by_name bzlmod_result" where
  "visit key m dependent overrides groups module_by_name =
     and_then
       (case map_of overrides (key_name key) of
          Some (MultipleVersion mvo) \<Rightarrow>
            (if (case map_of groups key of None \<Rightarrow> False
                 | Some grp \<Rightarrow> is_empty (target_allowed_version grp))
             then Inl (VersionResolution (optional_display dependent @ '' depends on '' @ key_display key
                    @ '' which is not allowed by the multiple_version_override on '' @ key_name key
                    @ '', which allows only ['' @ join '', '' (map version_display (versions mvo)) @ '']''))
             else Inr module_by_name)
        | _ \<Rightarrow>
            (case map_of module_by_name (mod_name m) of
               Some (existing_key, existing_from) \<Rightarrow>
                 (if existing_key \<noteq> key
                  then Inl (VersionResolution (optional_display dependent @ '' depends on '' @ key_display key
                         @ '' with compatibility level 0, but '' @ optional_display existing_from
                         @ '' depends on '' @ key_display existing_key
                         @ '' with compatibility level 0 which is different''))
                  else Inr (btree_insert (mod_name m) (key, dependent) module_by_name))
             | None \<Rightarrow> Inr (btree_insert (mod_name m) (key, dependent) module_by_name)))
       (\<lambda>by_name'. and_then (check_twice key [] (deps m)) (\<lambda>_. Inr by_name'))"

definition edges :: "bool \<Rightarrow> bzl_module \<Rightarrow> dep_spec list" where
  "edges ignore_nodeps m = map spec (deps m) @ (if ignore_nodeps then [] else nodep_deps m)"

text \<open>The loop over the edges: a key that was not known is remembered and queued.\<close>

fun enqueue ::
  "module_key \<Rightarrow> module_key list \<Rightarrow> module_key set \<Rightarrow> (module_key \<times> module_key option) list
    \<Rightarrow> module_key set \<times> (module_key \<times> module_key option) list" where
  "enqueue key [] known q = (known, q)"
| "enqueue key (d # ds) known q =
     (if d \<in> known then enqueue key ds known q
      else enqueue key ds (insert d known) (q @ [(d, Some key)]))"

definition rewrite_deps :: "(dep_spec \<Rightarrow> version) \<Rightarrow> bzl_module \<Rightarrow> bzl_module" where
  "rewrite_deps resolve = with_deps_transformed (\<lambda>d. with_version d (resolve d))"

text \<open>Every key the walk can queue; it bounds the length of the walk.\<close>

definition walk_universe :: "dep_graph \<Rightarrow> (dep_spec \<Rightarrow> version) \<Rightarrow> module_key set" where
  "walk_universe g resolve =
     (\<Union>m \<in> snd ` set g. to_module_key ` set (edges False (rewrite_deps resolve m)))"

lemma finite_walk_universe [simp]: "finite (walk_universe g resolve)"
  by (auto simp: walk_universe_def)

lemma enqueue_measure:
  assumes "enqueue key ds known q = (known', q')" "set ds \<subseteq> U" "finite U"
  shows "2 * card (U - known') + length q' \<le> 2 * card (U - known) + length q"
  using assms
proof (induction key ds known q rule: enqueue.induct)
  case (2 key d ds known q)
  show ?case
  proof (cases "d \<in> known")
    case False
    then have "U - known = insert d (U - insert d known)" using 2(4) by auto
    moreover have "card (insert d (U - insert d known)) = Suc (card (U - insert d known))"
      using 2(5) by simp
    ultimately have "card (U - known) = Suc (card (U - insert d known))" by metis
    moreover have "2 * card (U - known') + length q' \<le> 2 * card (U - insert d known) + length (q @ [(d, Some key)])"
      using 2(2) [OF False] 2(3,4,5) False by simp
    ultimately show ?thesis by simp
  qed (use 2 in simp)
qed simp

lemma edges_universe:
  assumes "map_of g key = Some m"
  shows "to_module_key ` set (edges b (rewrite_deps resolve m)) \<subseteq> walk_universe g resolve"
proof -
  have "m \<in> snd ` set g" using map_of_SomeD [OF assms] by force
  then have "to_module_key ` set (edges False (rewrite_deps resolve m)) \<subseteq> walk_universe g resolve"
    unfolding walk_universe_def by blast
  moreover have "set (edges b n) \<subseteq> set (edges False n)" for n by (auto simp: edges_def)
  ultimately show ?thesis by blast
qed

function walk_loop ::
  "dep_graph \<Rightarrow> overrides \<Rightarrow> (module_key, selection_group) btree \<Rightarrow> (dep_spec \<Rightarrow> version) \<Rightarrow> bool
    \<Rightarrow> module_key set \<Rightarrow> by_name \<Rightarrow> (module_key \<times> module_key option) list
    \<Rightarrow> (module_key \<times> bzl_module) list \<Rightarrow> (module_key \<times> bzl_module) list bzlmod_result" where
  "walk_loop g overrides groups resolve ignore_nodeps known by_name [] result = Inr result"
| "walk_loop g overrides groups resolve ignore_nodeps known by_name ((key, dependent) # q) result =
     (case map_of g key of
        None \<Rightarrow> Inl (VersionResolution (''selected module '' @ key_display key @ '' is not in the dependency graph''))
      | Some m0 \<Rightarrow>
          (let m = rewrite_deps resolve m0
           in case visit key m dependent overrides groups by_name of
                Inl e \<Rightarrow> Inl e
              | Inr by_name' \<Rightarrow>
                  (case enqueue key (map to_module_key (edges ignore_nodeps m)) known q of
                     (known', q') \<Rightarrow>
                       walk_loop g overrides groups resolve ignore_nodeps known' by_name' q'
                         (result @ [(key, m)]))))"
  by pat_completeness auto

termination
proof (relation "measure (\<lambda>(g, _, _, resolve, _, known, _, q, _).
    2 * card (walk_universe g resolve - known) + length q)", goal_cases)
  case (2 g overrides groups resolve ignore_nodeps known by_name key dependent q result m0 m by_name' known' q')
  have "set (map to_module_key (edges ignore_nodeps m)) \<subseteq> walk_universe g resolve"
    using edges_universe 2(1,2) by simp
  from enqueue_measure [OF _ this, of key known q known' q'] 2 show ?case by simp
qed simp

definition walk ::
  "dep_graph \<Rightarrow> overrides \<Rightarrow> (module_key, selection_group) btree \<Rightarrow> (dep_spec \<Rightarrow> version) \<Rightarrow> bool
    \<Rightarrow> (module_key \<times> bzl_module) list bzlmod_result" where
  "walk g overrides groups resolve ignore_nodeps =
     walk_loop g overrides groups resolve ignore_nodeps {root_key} [] [(root_key, None)] []"

definition selection_groups :: "dep_graph \<Rightarrow> version_sets \<Rightarrow> (module_key, selection_group) btree" where
  "selection_groups g sets = btree_collect (map (\<lambda>(key, _). (key, compute_selection_group key sets)) g)"

definition selected_versions :: "(module_key, selection_group) btree \<Rightarrow> (selection_group, version) btree" where
  "selected_versions groups = fold select_version groups []"

definition resolve_with :: "(selection_group, version) btree \<Rightarrow> dep_spec \<Rightarrow> version" where
  "resolve_with selected d = (case resolve_dep d selected of None \<Rightarrow> dep_version d | Some v \<Rightarrow> v)"

definition selection_run :: "dep_graph \<Rightarrow> overrides \<Rightarrow> selection bzlmod_result" where
  "selection_run g overrides =
     and_then (compute_allowed_version_sets overrides g) (\<lambda>sets.
       let groups = selection_groups g sets;
           resolve = resolve_with (selected_versions groups)
       in and_then (walk g overrides groups resolve False) (\<lambda>_.
          and_then (walk g overrides groups resolve True) (\<lambda>resolved.
          Inr \<lparr>resolved = resolved,
               unpruned = map (\<lambda>(key, m). (key, rewrite_deps resolve m)) g\<rparr>)))"

section \<open>The walk\<close>

text \<open>The keys a walk reaches, and what has to hold of each of them.\<close>

inductive walked :: "dep_graph \<Rightarrow> (dep_spec \<Rightarrow> version) \<Rightarrow> bool \<Rightarrow> module_key \<Rightarrow> bool" for g resolve b where
  walked_root: "walked g resolve b root_key"
| walked_edge: "walked g resolve b k \<Longrightarrow> map_of g k = Some m \<Longrightarrow> d \<in> set (edges b (rewrite_deps resolve m))
    \<Longrightarrow> walked g resolve b (to_module_key d)"

definition is_multiple :: "overrides \<Rightarrow> module_key \<Rightarrow> bool" where
  "is_multiple ov k \<longleftrightarrow> (\<exists>mvo. map_of ov (key_name k) = Some (MultipleVersion mvo))"

definition above_all_allowed :: "overrides \<Rightarrow> (module_key, selection_group) btree \<Rightarrow> module_key \<Rightarrow> bool" where
  "above_all_allowed ov groups k \<longleftrightarrow> is_multiple ov k
     \<and> (\<exists>grp. map_of groups k = Some grp \<and> is_empty (target_allowed_version grp))"

definition visit_ok ::
  "dep_graph \<Rightarrow> overrides \<Rightarrow> (module_key, selection_group) btree \<Rightarrow> (dep_spec \<Rightarrow> version) \<Rightarrow> module_key \<Rightarrow> bool" where
  "visit_ok g ov groups resolve k \<longleftrightarrow>
     (\<exists>m. map_of g k = Some m \<and> \<not> above_all_allowed ov groups k
        \<and> check_twice k [] (deps (rewrite_deps resolve m)) = Inr ())"

text \<open>Two modules that are not under a multiple-version override and carry one name.\<close>

definition name_clash :: "dep_graph \<Rightarrow> overrides \<Rightarrow> module_key \<Rightarrow> module_key \<Rightarrow> bool" where
  "name_clash g ov k l \<longleftrightarrow> k \<noteq> l \<and> \<not> is_multiple ov k \<and> \<not> is_multiple ov l
     \<and> (\<exists>m n. map_of g k = Some m \<and> map_of g l = Some n \<and> mod_name m = mod_name n)"

lemma walked_mono: "walked g resolve True k \<Longrightarrow> walked g resolve False k"
proof (induction rule: walked.induct)
  case (walked_edge k m d)
  then have "d \<in> set (edges False (rewrite_deps resolve m))" by (auto simp: edges_def)
  with walked_edge show ?case by (blast intro: walked.walked_edge)
qed (rule walked.walked_root)

lemma enqueue_new:
  "enqueue key ds known q = (known', q') \<Longrightarrow>
    known' = known \<union> set ds
    \<and> (\<exists>new. q' = q @ new \<and> fst ` set new = set ds - known \<and> distinct (map fst new))"
proof (induction key ds known q rule: enqueue.induct)
  case (2 key d ds known q)
  show ?case
  proof (cases "d \<in> known")
    case True
    then show ?thesis using 2(1) 2(3) by auto
  next
    case False
    then obtain new where new: "known' = insert d known \<union> set ds" "q' = (q @ [(d, Some key)]) @ new"
      "fst ` set new = set ds - insert d known" "distinct (map fst new)"
      using 2(2) [OF False] 2(3) by auto
    then have "q' = q @ (d, Some key) # new" "fst ` set ((d, Some key) # new) = set (d # ds) - known"
      "distinct (map fst ((d, Some key) # new))" using False by auto
    then show ?thesis using new(1) by auto
  qed
qed auto

definition by_name_ok :: "overrides \<Rightarrow> by_name \<Rightarrow> (module_key \<times> bzl_module) list \<Rightarrow> bool" where
  "by_name_ok ov names result \<longleftrightarrow> btree_inv names
     \<and> (\<forall>n k. (\<exists>d. map_of names n = Some (k, d))
          \<longleftrightarrow> (\<exists>m. (k, m) \<in> set result \<and> \<not> is_multiple ov k \<and> mod_name m = n))"

definition walk_inv ::
  "dep_graph \<Rightarrow> overrides \<Rightarrow> (module_key, selection_group) btree \<Rightarrow> (dep_spec \<Rightarrow> version) \<Rightarrow> bool
    \<Rightarrow> module_key set \<Rightarrow> by_name \<Rightarrow> (module_key \<times> module_key option) list
    \<Rightarrow> (module_key \<times> bzl_module) list \<Rightarrow> bool" where
  "walk_inv g ov groups resolve b known names q result \<longleftrightarrow>
     known = fst ` set result \<union> fst ` set q \<and> distinct (map fst result @ map fst q)
     \<and> root_key \<in> known \<and> (\<forall>k \<in> known. walked g resolve b k)
     \<and> (\<forall>k m. (k, m) \<in> set result \<longrightarrow> visit_ok g ov groups resolve k
          \<and> (\<exists>m0. map_of g k = Some m0 \<and> m = rewrite_deps resolve m0)
          \<and> to_module_key ` set (edges b m) \<subseteq> known)
     \<and> by_name_ok ov names result"

lemma walk_invD:
  assumes "walk_inv g ov groups resolve b known names q result"
  shows "known = fst ` set result \<union> fst ` set q" "distinct (map fst result @ map fst q)"
    "root_key \<in> known" "\<forall>k \<in> known. walked g resolve b k"
    "\<forall>k m. (k, m) \<in> set result \<longrightarrow> visit_ok g ov groups resolve k
          \<and> (\<exists>m0. map_of g k = Some m0 \<and> m = rewrite_deps resolve m0)
          \<and> to_module_key ` set (edges b m) \<subseteq> known"
    "by_name_ok ov names result"
  by (insert assms, unfold walk_inv_def, (elim conjE, assumption)+)

lemma visit_Inr:
  assumes ok: "by_name_ok ov names result" and v: "visit key (rewrite_deps resolve m) dependent ov groups names = Inr names'"
    and g: "map_of g key = Some m"
  shows "visit_ok g ov groups resolve key \<and> by_name_ok ov names' (result @ [(key, rewrite_deps resolve m)])"
proof -
  have twice: "check_twice key [] (deps (rewrite_deps resolve m)) = Inr ()"
    using v unfolding visit_def and_then_Inr by auto
  show ?thesis
  proof (cases "is_multiple ov key")
    case True
    then obtain mvo where mvo: "map_of ov (key_name key) = Some (MultipleVersion mvo)" by (auto simp: is_multiple_def)
    have "\<not> above_all_allowed ov groups key \<and> names' = names"
      using v mvo unfolding visit_def and_then_Inr
      by (auto simp: above_all_allowed_def split: if_splits option.splits)
    then show ?thesis using ok twice g True by (auto simp: visit_ok_def by_name_ok_def)
  next
    case False
    have names': "names' = btree_insert (mod_name m) (key, dependent) names"
      and same: "\<And>k d. map_of names (mod_name m) = Some (k, d) \<Longrightarrow> k = key"
      using v False unfolding visit_def and_then_Inr is_multiple_def
      by (auto simp: rewrite_deps_def with_deps_transformed_def split: if_splits option.splits module_override.splits)
    have inv: "btree_inv names" using ok by (simp add: by_name_ok_def)
    have "by_name_ok ov names' (result @ [(key, rewrite_deps resolve m)])"
      unfolding by_name_ok_def
    proof (intro conjI allI)
      show "btree_inv names'" unfolding names' by (rule btree_inv_insert [OF inv])
      fix n k
      have old: "(\<exists>d. map_of names n = Some (k, d)) \<longleftrightarrow>
          (\<exists>m. (k, m) \<in> set result \<and> \<not> is_multiple ov k \<and> mod_name m = n)"
        using ok unfolding by_name_ok_def by blast
      have nm: "mod_name (rewrite_deps resolve m) = mod_name m"
        by (simp add: rewrite_deps_def with_deps_transformed_def)
      show "(\<exists>d. map_of names' n = Some (k, d)) \<longleftrightarrow>
          (\<exists>m'. (k, m') \<in> set (result @ [(key, rewrite_deps resolve m)]) \<and> \<not> is_multiple ov k \<and> mod_name m' = n)"
        using old same [of k] False nm unfolding names' btree_get_insert [OF inv] by auto
    qed
    moreover have "visit_ok g ov groups resolve key"
      using twice g False by (auto simp: visit_ok_def above_all_allowed_def)
    ultimately show ?thesis by blast
  qed
qed

lemma visit_Inl:
  assumes ok: "by_name_ok ov names result" and v: "visit key (rewrite_deps resolve m) dependent ov groups names = Inl e"
    and g: "map_of g key = Some m"
    and res: "\<And>k m. (k, m) \<in> set result \<Longrightarrow> \<exists>m0. map_of g k = Some m0 \<and> m = rewrite_deps resolve m0"
  shows "\<not> visit_ok g ov groups resolve key \<or> (\<exists>l \<in> fst ` set result. name_clash g ov key l)"
proof (rule ccontr)
  assume none: "\<not> ?thesis"
  then have twice: "check_twice key [] (deps (rewrite_deps resolve m)) = Inr ()"
    and above: "\<not> above_all_allowed ov groups key" using g by (auto simp: visit_ok_def)
  show False
  proof (cases "is_multiple ov key")
    case True
    then obtain mvo where "map_of ov (key_name key) = Some (MultipleVersion mvo)" by (auto simp: is_multiple_def)
    then show False using v above True twice
      by (auto simp: visit_def above_all_allowed_def split: if_splits option.splits)
  next
    case False
    then obtain k d where k: "map_of names (mod_name m) = Some (k, d)" "k \<noteq> key"
      using v twice unfolding visit_def is_multiple_def
      by (auto simp: rewrite_deps_def with_deps_transformed_def split: if_splits option.splits module_override.splits)
    then obtain m' where m': "(k, m') \<in> set result" "\<not> is_multiple ov k" "mod_name m' = mod_name m"
      using ok unfolding by_name_ok_def by blast
    then obtain m0 where "map_of g k = Some m0" "mod_name m0 = mod_name m"
      using res [OF m'(1)] by (auto simp: rewrite_deps_def with_deps_transformed_def)
    then have "name_clash g ov key k" using k(2) g False m'(2) by (auto simp: name_clash_def)
    moreover have "k \<in> fst ` set result" using m'(1) by force
    ultimately show False using none by blast
  qed
qed

lemma walk_step:
  assumes inv: "walk_inv g ov groups resolve b known names ((key, dependent) # q) result"
    and g: "map_of g key = Some m"
    and v: "visit key (rewrite_deps resolve m) dependent ov groups names = Inr names'"
    and e: "enqueue key (map to_module_key (edges b (rewrite_deps resolve m))) known q = (known', q')"
  shows "walk_inv g ov groups resolve b known' names' q' (result @ [(key, rewrite_deps resolve m)])"
proof -
  let ?m = "rewrite_deps resolve m"
  note i = walk_invD [OF inv]
  have known: "known = fst ` set result \<union> insert key (fst ` set q)"
    and dist: "distinct (map fst result @ key # map fst q)"
    using i(1,2) by simp_all
  note root = i(3) and walked = i(4) and res = i(5) and names = i(6)
  obtain new where new: "known' = known \<union> to_module_key ` set (edges b ?m)" "q' = q @ new"
    "fst ` set new = to_module_key ` set (edges b ?m) - known" "distinct (map fst new)"
    using enqueue_new [OF e] by auto
  have "walked g resolve b key" using walked known by blast
  then have edge: "walked g resolve b (to_module_key d)" if "d \<in> set (edges b ?m)" for d
    using walked.walked_edge [OF _ g that] by blast
  note ok = visit_Inr [OF names v g]
  show ?thesis
    unfolding walk_inv_def
  proof (intro conjI)
    show "known' = fst ` set (result @ [(key, ?m)]) \<union> fst ` set q'" using new known by auto
    have "fst ` set new \<inter> known = {}" using new(3) by blast
    then show "distinct (map fst (result @ [(key, ?m)]) @ map fst q')"
      using dist new(2,4) known by auto
    show "root_key \<in> known'" using root new(1) by blast
    show "\<forall>k \<in> known'. walked g resolve b k" using walked new(1) edge by auto
    show "\<forall>k m. (k, m) \<in> set (result @ [(key, ?m)]) \<longrightarrow> visit_ok g ov groups resolve k
        \<and> (\<exists>m0. map_of g k = Some m0 \<and> m = rewrite_deps resolve m0) \<and> to_module_key ` set (edges b m) \<subseteq> known'"
    proof (intro allI impI)
      fix k n assume "(k, n) \<in> set (result @ [(key, ?m)])"
      then consider "(k, n) \<in> set result" | "k = key" "n = ?m" by auto
      then show "visit_ok g ov groups resolve k
        \<and> (\<exists>m0. map_of g k = Some m0 \<and> n = rewrite_deps resolve m0) \<and> to_module_key ` set (edges b n) \<subseteq> known'"
        using res ok g new(1) by cases blast+
    qed
    show "by_name_ok ov names' (result @ [(key, ?m)])" using ok by blast
  qed
qed

lemma walk_loop_Inr:
  assumes "walk_inv g ov groups resolve b known names q result"
    and "walk_loop g ov groups resolve b known names q result = Inr out"
  shows "\<exists>names. walk_inv g ov groups resolve b (fst ` set out) names [] out"
  using assms
proof (induction g ov groups resolve b known names q result rule: walk_loop.induct)
  case (1 g ov groups resolve b known names result)
  have "known = fst ` set out" using walk_invD(1) [OF 1(1)] 1(2) by simp
  then have "walk_inv g ov groups resolve b (fst ` set out) names [] out" using 1 by simp
  then show ?case by blast
next
  case (2 g ov groups resolve b known names key dependent q result)
  obtain m where m: "map_of g key = Some m" using 2(3) by (auto split: option.splits)
  obtain names' where v: "visit key (rewrite_deps resolve m) dependent ov groups names = Inr names'"
    using 2(3) m by (auto simp: Let_def split: sum.splits)
  obtain known' q' where e: "enqueue key (map to_module_key (edges b (rewrite_deps resolve m))) known q = (known', q')"
    by force
  have "walk_loop g ov groups resolve b known' names' q' (result @ [(key, rewrite_deps resolve m)]) = Inr out"
    using 2(3) m v e by simp
  then show ?case using 2(1) [OF m refl v e [symmetric] walk_step [OF 2(2) m v e]] by blast
qed

lemma walk_loop_Inl:
  assumes "walk_inv g ov groups resolve b known names q result"
    and "walk_loop g ov groups resolve b known names q result = Inl e"
  shows "\<exists>k. walked g resolve b k \<and> (\<not> visit_ok g ov groups resolve k
    \<or> (\<exists>l. walked g resolve b l \<and> name_clash g ov k l))"
  using assms
proof (induction g ov groups resolve b known names q result rule: walk_loop.induct)
  case (2 g ov groups resolve b known names key dependent q result)
  have w: "walked g resolve b key" and known: "\<And>k. k \<in> known \<Longrightarrow> walked g resolve b k"
    and sub: "fst ` set result \<subseteq> known" and names: "by_name_ok ov names result"
    and res: "\<And>k m. (k, m) \<in> set result \<Longrightarrow> \<exists>m0. map_of g k = Some m0 \<and> m = rewrite_deps resolve m0"
    using walk_invD [OF 2(2)] by auto
  show ?case
  proof (cases "map_of g key")
    case None
    then show ?thesis using w by (auto simp: visit_ok_def)
  next
    case (Some m)
    show ?thesis
    proof (cases "visit key (rewrite_deps resolve m) dependent ov groups names")
      case (Inl e')
      then show ?thesis using visit_Inl [OF names Inl Some res] w known sub by blast
    next
      case (Inr names')
      obtain known' q' where e: "enqueue key (map to_module_key (edges b (rewrite_deps resolve m))) known q = (known', q')"
        by force
      have "walk_loop g ov groups resolve b known' names' q' (result @ [(key, rewrite_deps resolve m)]) = Inl e"
        using 2(3) Some Inr e by simp
      then show ?thesis
        using 2(1) [OF Some refl Inr e [symmetric] walk_step [OF 2(2) Some Inr e]] by blast
    qed
  qed
qed simp

lemma walk_inv_init: "walk_inv g ov groups resolve b {root_key} [] [(root_key, None)] []"
  by (simp add: walk_inv_def walked.walked_root by_name_ok_def btree_inv_def)

text \<open>What a walk returns: each reachable key once, with its edges rewritten, all of them in order.\<close>

lemma walk_Inr:
  assumes "walk g ov groups resolve b = Inr out"
  shows "fst ` set out = {k. walked g resolve b k}" and "distinct (map fst out)"
    and "\<And>k m. (k, m) \<in> set out \<Longrightarrow> visit_ok g ov groups resolve k
      \<and> (\<exists>m0. map_of g k = Some m0 \<and> m = rewrite_deps resolve m0)"
    and "\<And>k l. walked g resolve b k \<Longrightarrow> walked g resolve b l \<Longrightarrow> \<not> name_clash g ov k l"
proof -
  obtain names where inv: "walk_inv g ov groups resolve b (fst ` set out) names [] out"
    using walk_loop_Inr [OF walk_inv_init] assms unfolding walk_def by blast
  show res: "\<And>k m. (k, m) \<in> set out \<Longrightarrow> visit_ok g ov groups resolve k
      \<and> (\<exists>m0. map_of g k = Some m0 \<and> m = rewrite_deps resolve m0)"
    using walk_invD(5) [OF inv] by blast
  have closed: "k \<in> fst ` set out" if "walked g resolve b k" for k
    using that
  proof (induction rule: walked.induct)
    case (walked_edge k m d)
    then obtain m' where m': "(k, m') \<in> set out" by auto
    then have "m' = rewrite_deps resolve m" using res walked_edge(2) by fastforce
    moreover have "to_module_key ` set (edges b m') \<subseteq> fst ` set out"
      using walk_invD(5) [OF inv] m' by blast
    ultimately show ?case using walked_edge(3) by blast
  qed (rule walk_invD(3) [OF inv])
  then show keys: "fst ` set out = {k. walked g resolve b k}" using walk_invD(4) [OF inv] by blast
  show "distinct (map fst out)" using walk_invD(2) [OF inv] by simp
  fix k l assume "walked g resolve b k" "walked g resolve b l"
  then obtain m n where mn: "(k, m) \<in> set out" "(l, n) \<in> set out" using closed by force
  show "\<not> name_clash g ov k l"
  proof
    assume c: "name_clash g ov k l"
    then obtain m0 n0 where "map_of g k = Some m0" "map_of g l = Some n0" "mod_name m0 = mod_name n0"
      and kl: "k \<noteq> l" "\<not> is_multiple ov k" "\<not> is_multiple ov l" by (auto simp: name_clash_def)
    then have "mod_name m = mod_name n"
      using res [OF mn(1)] res [OF mn(2)] by (auto simp: rewrite_deps_def with_deps_transformed_def)
    moreover have "\<exists>d. map_of names (mod_name m) = Some (k, d)" "\<exists>d. map_of names (mod_name n) = Some (l, d)"
      using walk_invD(6) [OF inv] mn kl unfolding by_name_ok_def by blast+
    ultimately show False using kl by auto
  qed
qed

lemma walk_Inl:
  "walk g ov groups resolve b = Inl e \<Longrightarrow>
    \<exists>k. walked g resolve b k \<and> (\<not> visit_ok g ov groups resolve k
      \<or> (\<exists>l. walked g resolve b l \<and> name_clash g ov k l))"
  unfolding walk_def by (rule walk_loop_Inl [OF walk_inv_init])

lemma second_walk_succeeds:
  assumes "walk g ov groups resolve False = Inr out"
  shows "\<exists>out'. walk g ov groups resolve True = Inr out'"
proof (cases "walk g ov groups resolve True")
  case (Inl e)
  have "visit_ok g ov groups resolve k" if "walked g resolve False k" for k
    using walk_Inr(1,3) [OF assms] that by force
  then show ?thesis using walk_Inl [OF Inl] walk_Inr(4) [OF assms] walked_mono by blast
qed simp

section \<open>Groups and selected versions\<close>

lemma selection_groups_map:
  assumes "btree_inv g"
  shows "selection_groups g sets = map (\<lambda>(key, _). (key, compute_selection_group key sets)) g"
proof -
  have "map fst (map (\<lambda>(key, _). (key, compute_selection_group key sets)) g) = map fst g"
    by (induction g) auto
  then have "btree_inv (map (\<lambda>(key, _). (key, compute_selection_group key sets)) g)"
    using assms unfolding btree_inv_def by metis
  then show ?thesis unfolding selection_groups_def by (rule btree_collect_sorted)
qed

lemma selection_groups_member:
  assumes "btree_inv g"
  shows "(k, grp) \<in> set (selection_groups g sets) \<longleftrightarrow> k \<in> dom (map_of g) \<and> grp = compute_selection_group k sets"
proof -
  have "k \<in> dom (map_of g) \<longleftrightarrow> k \<in> fst ` set g" by (simp add: dom_map_of_conv_image_fst)
  then show ?thesis unfolding selection_groups_map [OF assms] by force
qed

lemma select_version_pair:
  "select_version (key, grp) m =
     (case map_of m grp of
        Some selected \<Rightarrow> (if selected < key_version key then btree_insert grp (key_version key) m else m)
      | None \<Rightarrow> btree_insert grp (key_version key) m)"
  by (simp add: select_version_def)

lemma selected_versions_inv: "btree_inv (fold select_version kgs m)" if "btree_inv m" for m
  using that
  by (induction kgs arbitrary: m)
    (auto simp: select_version_def btree_inv_insert split: option.splits)

lemma selected_versions_get:
  "map_of (fold select_version kgs []) grp =
     (if grp \<in> snd ` set kgs then Some (Max (key_version ` {k. (k, grp) \<in> set kgs})) else None)"
proof (induction kgs rule: rev_induct)
  case (snoc kg kgs)
  obtain k G where kg: "kg = (k, G)" by (cases kg)
  have inv: "btree_inv (fold select_version kgs [])" by (rule selected_versions_inv) (simp add: btree_inv_def)
  have finite: "finite {k. (k, G) \<in> set kgs}" by (rule finite_subset [of _ "fst ` set kgs"]) force+
  show ?case
  proof (cases "grp = G")
    case False
    have "map_of (select_version kg m) grp = map_of m grp" if "btree_inv m" for m
      using that False kg by (simp add: select_version_pair btree_get_insert split: option.split)
    moreover have "{k. (k, grp) \<in> set (kgs @ [kg])} = {k. (k, grp) \<in> set kgs}" using False kg by auto
    ultimately show ?thesis using snoc inv False kg by simp
  next
    case True
    have keys: "{k'. (k', G) \<in> set (kgs @ [kg])} = insert k {k. (k, G) \<in> set kgs}" using kg by auto
    show ?thesis
    proof (cases "G \<in> snd ` set kgs")
      case False
      then have "{k. (k, G) \<in> set kgs} = {}" by force
      then show ?thesis using snoc inv True False kg keys by (simp add: select_version_pair btree_get_insert)
    next
      case in_kgs: True
      then have ne: "{k. (k, G) \<in> set kgs} \<noteq> {}" by force
      define top where "top = Max (key_version ` {k. (k, G) \<in> set kgs})"
      have "Max (key_version ` {k'. (k', G) \<in> set (kgs @ [kg])}) = max (key_version k) top"
        unfolding keys top_def using finite ne by simp
      moreover have "map_of (fold select_version kgs []) G = Some top" using snoc in_kgs True by (simp add: top_def)
      ultimately show ?thesis
        using True in_kgs kg inv by (auto simp: select_version_pair btree_get_insert max_def)
    qed
  qed
qed simp

lemma selected_versions_member:
  "(grp, v) \<in> set (selected_versions kgs) \<longleftrightarrow>
     grp \<in> snd ` set kgs \<and> v = Max (key_version ` {k. (k, grp) \<in> set kgs})"
proof -
  have inv: "btree_inv (selected_versions kgs)"
    unfolding selected_versions_def by (rule selected_versions_inv) (simp add: btree_inv_def)
  have "(grp, v) \<in> set (selected_versions kgs) \<longleftrightarrow> map_of (selected_versions kgs) grp = Some v"
    using btree.get_entries [OF inv] by blast
  then show ?thesis unfolding selected_versions_def selected_versions_get by auto
qed

lemma resolve_dep_Min:
  assumes "V = snd ` {gv \<in> set selected. group_name (fst gv) = dep_name d
      \<and> dep_version d \<le> target_allowed_version (fst gv)}"
  shows "resolve_dep d selected = (if V = {} then None else Some (Min V))"
proof -
  define vs where "vs = map snd (filter (\<lambda>(grp, _). group_name grp = dep_name d
      \<and> target_allowed_version grp \<ge> dep_version d) selected)"
  have V: "V = set vs" unfolding assms vs_def by (auto simp: case_prod_beta)
  show ?thesis
  proof (cases vs)
    case Nil
    then show ?thesis using V by (simp add: resolve_dep_def vs_def [symmetric])
  next
    case (Cons v ws)
    have "fold min ws v = Min V" unfolding V Cons by (rule Min.set_eq_fold [symmetric])
    then show ?thesis using V Cons by (simp add: resolve_dep_def vs_def [symmetric])
  qed
qed

text \<open>Every version in a graph comes from the parser.\<close>

definition is_parsed :: "version \<Rightarrow> bool" where
  "is_parsed v \<longleftrightarrow> parse (version_display v) = Inr v"

definition graph_parsed :: "dep_graph \<Rightarrow> bool" where
  "graph_parsed g \<longleftrightarrow> list_all (\<lambda>(k, m). is_parsed (key_version k)
     \<and> list_all (\<lambda>d. is_parsed (dep_version d)) (edges False m)) g"

lemma parsed_le_EMPTY:
  assumes "is_parsed v"
  shows "v \<le> EMPTY"
proof -
  have e: "parse [] = Inr EMPTY" by (rule parse_empty)
  have p: "parse (version_display v) = Inr v" using assms by (simp add: is_parsed_def)
  show ?thesis
  proof (cases "version_display v = []")
    case True
    then show ?thesis using p by (simp add: parse_empty)
  next
    case False
    then have "\<not> is_empty v" using parse_nonempty [OF _ p] by blast
    then have "version_cmp v EMPTY = Less"
      by (simp add: version_cmp_alt then_with_Less) (simp add: is_empty_def EMPTY_def)
    then show ?thesis using version_cmp_compare [OF p e] by simp
  qed
qed

section \<open>The allowed versions\<close>

definition sets_ok :: "version_sets \<Rightarrow> bool" where
  "sets_ok sets \<longleftrightarrow> btree_inv sets \<and> (\<forall>n s. map_of sets n = Some s \<longrightarrow> sorted_wrt (<) s)"

lemma sets_ok_insert:
  assumes "sets_ok sets"
  shows "sets_ok (btree_insert name (bset_insert v (case map_of sets name of None \<Rightarrow> [EMPTY] | Some s \<Rightarrow> s)) sets)"
proof -
  have inv: "btree_inv sets" using assms by (simp add: sets_ok_def)
  have "sorted_wrt (<) (case map_of sets name of None \<Rightarrow> [EMPTY] | Some s \<Rightarrow> s)"
    using assms by (auto simp: sets_ok_def split: option.split)
  then show ?thesis using assms inv
    by (auto simp: sets_ok_def btree_inv_insert btree_get_insert sorted_bset_insert)
qed

lemma allow_versions_Inr:
  assumes "allow_versions name g vs sets = Inr sets'" "sets_ok sets"
  shows "sets_ok sets' \<and> (\<forall>n. n \<noteq> name \<longrightarrow> map_of sets' n = map_of sets n)
    \<and> (\<forall>v \<in> set vs. ModuleKey name v \<in> dom (map_of g))
    \<and> (vs = [] \<and> sets' = sets \<or>
       (\<exists>s. map_of sets' name = Some s
          \<and> set s = set vs \<union> (case map_of sets name of None \<Rightarrow> {EMPTY} | Some s0 \<Rightarrow> set s0)))"
  using assms
proof (induction name g vs sets rule: allow_versions.induct)
  case (2 name g v vs sets)
  define sets1 where "sets1 = btree_insert name
    (bset_insert v (case map_of sets name of None \<Rightarrow> [EMPTY] | Some s \<Rightarrow> s)) sets"
  have dom: "ModuleKey name v \<in> dom (map_of g)" and rest: "allow_versions name g vs sets1 = Inr sets'"
    using 2(2) by (auto simp: sets1_def split: if_splits)
  have ok: "sets_ok sets1" unfolding sets1_def by (rule sets_ok_insert [OF 2(3)])
  have "btree_inv sets" using 2(3) by (simp add: sets_ok_def)
  then have get: "map_of sets1 = (map_of sets)(name \<mapsto> bset_insert v (case map_of sets name of None \<Rightarrow> [EMPTY] | Some s \<Rightarrow> s))"
    unfolding sets1_def by (rule btree_get_insert)
  have dom': "map_of g (ModuleKey name v) \<noteq> None" using dom by blast
  note IH = 2(1) [OF dom' rest [unfolded sets1_def] ok [unfolded sets1_def], folded sets1_def]
  have "\<exists>s. map_of sets' name = Some s
      \<and> set s = set (v # vs) \<union> (case map_of sets name of None \<Rightarrow> {EMPTY} | Some s0 \<Rightarrow> set s0)"
    using IH get by (auto split: option.splits)
  then show ?case using IH get dom by auto
qed simp

lemma allowed_loop_Inr:
  assumes "allowed_loop g os sets = Inr sets'" "sets_ok sets" "distinct (map fst os)"
    "\<And>n. n \<in> fst ` set os \<Longrightarrow> map_of sets n = None"
  shows "sets_ok sets'
    \<and> (\<forall>n mvo. (n, MultipleVersion mvo) \<in> set os \<longrightarrow>
         (\<forall>v \<in> set (versions mvo). ModuleKey n v \<in> dom (map_of g))
         \<and> (versions mvo = [] \<and> map_of sets' n = None
            \<or> (\<exists>s. map_of sets' n = Some s \<and> set s = insert EMPTY (set (versions mvo)))))
    \<and> (\<forall>n. (\<forall>mvo. (n, MultipleVersion mvo) \<notin> set os) \<longrightarrow> map_of sets' n = map_of sets n)"
  using assms
proof (induction g os sets rule: allowed_loop.induct)
  case (2 g name o1 os sets)
  show ?case
  proof (cases "\<exists>mvo. o1 = MultipleVersion mvo")
    case False
    then have "allowed_loop g os sets = Inr sets'" using 2(4) by (cases o1) auto
    moreover have "\<And>n. n \<in> fst ` set os \<Longrightarrow> map_of sets n = None" using 2(7) by simp
    ultimately show ?thesis using 2(1,2,3) 2(5,6) False by (cases o1) auto
  next
    case True
    then obtain mvo where o1: "o1 = MultipleVersion mvo" by blast
    obtain sets1 where a: "allow_versions name g (versions mvo) sets = Inr sets1"
      and rest: "allowed_loop g os sets1 = Inr sets'"
      using 2(4) o1 by (auto simp: and_then_Inr)
    note A = allow_versions_Inr [OF a 2(5)]
    have none: "map_of sets name = None" using 2(7) by simp
    have notin: "name \<notin> fst ` set os" "distinct (map fst os)" using 2(6) by simp_all
    have "map_of sets1 n = None" if "n \<in> fst ` set os" for n
      using A 2(7) [of n] that notin by auto
    then have B: "sets_ok sets'
      \<and> (\<forall>n mvo. (n, MultipleVersion mvo) \<in> set os \<longrightarrow>
           (\<forall>v \<in> set (versions mvo). ModuleKey n v \<in> dom (map_of g))
           \<and> (versions mvo = [] \<and> map_of sets' n = None
              \<or> (\<exists>s. map_of sets' n = Some s \<and> set s = insert EMPTY (set (versions mvo)))))
      \<and> (\<forall>n. (\<forall>mvo. (n, MultipleVersion mvo) \<notin> set os) \<longrightarrow> map_of sets' n = map_of sets1 n)"
      using 2(2) [OF o1 rest] A notin by blast
    have "(name, MultipleVersion x) \<notin> set os" for x using notin by force
    then have eq: "map_of sets' name = map_of sets1 name" using B by blast
    show ?thesis
      using A B eq none o1 by (auto split: option.splits)
  qed
qed simp

lemma allowed_sets:
  assumes a: "compute_allowed_version_sets ov g = Inr sets" and ov: "btree_inv ov"
  shows "\<not> is_multiple ov k \<Longrightarrow> map_of sets (key_name k) = None"
    and "map_of ov n = Some (MultipleVersion mvo) \<Longrightarrow> v \<in> set (versions mvo) \<Longrightarrow>
      ModuleKey n v \<in> dom (map_of g)
      \<and> (\<exists>s. map_of sets n = Some s \<and> set s = insert EMPTY (set (versions mvo)) \<and> sorted_wrt (<) s)"
proof -
  have dist: "distinct (map fst ov)" using ov btree.entries_distinct by blast
  have L: "allowed_loop g ov [] = Inr sets" using a by (simp add: compute_allowed_version_sets_def)
  have ok: "sets_ok []" by (simp add: sets_ok_def btree_inv_def)
  have empty: "map_of ([] :: version_sets) n = None" for n by simp
  note A = allowed_loop_Inr [OF L ok dist empty]
  have mem: "(n, o1) \<in> set ov \<longleftrightarrow> map_of ov n = Some o1" for n o1 using dist by simp
  show "\<not> is_multiple ov k \<Longrightarrow> map_of sets (key_name k) = None"
    using A unfolding mem is_multiple_def by simp
  assume n: "map_of ov n = Some (MultipleVersion mvo)" and v: "v \<in> set (versions mvo)"
  have "ModuleKey n v \<in> dom (map_of g)" "\<exists>s. map_of sets n = Some s \<and> set s = insert EMPTY (set (versions mvo))"
    using A n v unfolding mem by force+
  then show "ModuleKey n v \<in> dom (map_of g)
      \<and> (\<exists>s. map_of sets n = Some s \<and> set s = insert EMPTY (set (versions mvo)) \<and> sorted_wrt (<) s)"
    using A unfolding sets_ok_def by blast
qed

section \<open>Which version an edge resolves to\<close>

text \<open>The selected version of a group, over the keys of the graph.\<close>

definition group_versions :: "dep_graph \<Rightarrow> version_sets \<Rightarrow> selection_group \<Rightarrow> version set" where
  "group_versions g sets grp = key_version ` {k \<in> dom (map_of g). compute_selection_group k sets = grp}"

lemma finite_group_versions [simp]: "finite (group_versions g sets grp)"
  by (simp add: group_versions_def finite_dom_map_of)

lemma selected_member:
  assumes "btree_inv g"
  shows "(grp, v) \<in> set (selected_versions (selection_groups g sets)) \<longleftrightarrow>
     group_versions g sets grp \<noteq> {} \<and> v = Max (group_versions g sets grp)"
proof -
  have keys: "{k. (k, grp) \<in> set (selection_groups g sets)} = {k \<in> dom (map_of g). compute_selection_group k sets = grp}"
    using selection_groups_member [OF assms] by auto
  have ne: "grp \<in> snd ` set (selection_groups g sets) \<longleftrightarrow> group_versions g sets grp \<noteq> {}"
    unfolding group_versions_def keys [symmetric] by force
  show ?thesis unfolding selected_versions_member ne keys group_versions_def by blast
qed

lemma resolve_with_Min:
  assumes g: "btree_inv g" and V: "V = {Max (group_versions g sets grp) | grp. group_versions g sets grp \<noteq> {}
      \<and> group_name grp = dep_name d \<and> dep_version d \<le> target_allowed_version grp}"
  shows "resolve_with (selected_versions (selection_groups g sets)) d = (if V = {} then dep_version d else Min V)"
proof -
  have "V = snd ` {gv \<in> set (selected_versions (selection_groups g sets)). group_name (fst gv) = dep_name d
      \<and> dep_version d \<le> target_allowed_version (fst gv)}"
    unfolding V using selected_member [OF g] by force
  from resolve_dep_Min [OF this] show ?thesis by (simp add: resolve_with_def)
qed

lemma graph_parsed_key: "graph_parsed g \<Longrightarrow> map_of g k = Some m \<Longrightarrow> is_parsed (key_version k)"
  by (drule map_of_SomeD) (auto simp: graph_parsed_def list_all_iff)

lemma graph_parsed_dep:
  "graph_parsed g \<Longrightarrow> map_of g k = Some m \<Longrightarrow> d \<in> set (edges False m) \<Longrightarrow> is_parsed (dep_version d)"
  by (drule map_of_SomeD) (auto simp: graph_parsed_def list_all_iff)

text \<open>Without an override there is one group, and its version is the highest in the graph.\<close>

lemma resolve_highest:
  assumes g: "btree_inv g" and none: "map_of sets n = None" and k: "k \<in> dom (map_of g)" "key_name k = n"
    and d: "dep_name d = n" "is_parsed (dep_version d)"
  shows "resolve_with (selected_versions (selection_groups g sets)) d
    = Max {key_version l | l. l \<in> dom (map_of g) \<and> key_name l = n}"
proof -
  let ?top = "Max {key_version l | l. l \<in> dom (map_of g) \<and> key_name l = n}"
  have grp: "compute_selection_group l sets = SelectionGroup n EMPTY" if "key_name l = n" for l
    using none that by (simp add: compute_selection_group_def)
  have gv: "group_versions g sets (SelectionGroup n EMPTY) = {key_version l | l. l \<in> dom (map_of g) \<and> key_name l = n}"
    using grp by (auto simp: group_versions_def compute_selection_group_def)
  have only: "G = SelectionGroup n EMPTY" if "group_versions g sets G \<noteq> {}" "group_name G = n" for G
    using that grp by (auto simp: group_versions_def compute_selection_group_def)
  define G0 where "G0 = SelectionGroup n EMPTY"
  have ne: "group_versions g sets G0 \<noteq> {}" using k gv by (auto simp: G0_def)
  have "dep_version d \<le> target_allowed_version G0" "group_name G0 = dep_name d"
    using parsed_le_EMPTY [OF d(2)] d(1) by (simp_all add: G0_def)
  then have "{?top} = {Max (group_versions g sets G) | G. group_versions g sets G \<noteq> {} \<and> group_name G = dep_name d
      \<and> dep_version d \<le> target_allowed_version G}"
    using only [folded G0_def] ne d(1) unfolding gv [symmetric, folded G0_def] by blast
  from resolve_with_Min [OF g this] show ?thesis by simp
qed

lemma walked_highest:
  assumes g: "btree_inv g" "graph_parsed g" and ov: "btree_inv ov" and a: "compute_allowed_version_sets ov g = Inr sets"
    and w: "walked g (resolve_with (selected_versions (selection_groups g sets))) b k"
    and k: "k \<in> dom (map_of g)" and single: "\<not> is_multiple ov k"
  shows "key_version k = Max {key_version l | l. l \<in> dom (map_of g) \<and> key_name l = key_name k}"
  using w
proof (cases rule: walked.cases)
  case walked_root
  let ?V = "{key_version l | l. l \<in> dom (map_of g) \<and> key_name l = key_name k}"
  have "finite ?V" using finite_dom_map_of [of g] by simp
  moreover have "v \<le> key_version k" if "v \<in> ?V" for v
    using that walked_root graph_parsed_key [OF g(2)] parsed_le_EMPTY by (auto simp: root_key_def)
  moreover have "key_version k \<in> ?V" using k by blast
  ultimately show ?thesis using Max_eqI [of ?V "key_version k"] by simp
next
  case (walked_edge j m d)
  let ?r = "resolve_with (selected_versions (selection_groups g sets))"
  obtain d0 where d0: "d0 \<in> set (edges False m)" "d = with_version d0 (?r d0)"
    using walked_edge(4) by (auto simp: edges_def rewrite_deps_def with_deps_transformed_def split: if_splits)
  have n: "key_name k = dep_name d0" "key_version k = ?r d0"
    using walked_edge(1) d0(2) by (simp_all add: to_module_key_def with_version_def)
  show ?thesis
    unfolding n(2) using resolve_highest [OF g(1) allowed_sets(1) [OF a ov single] k refl n(1) [symmetric]]
      graph_parsed_dep [OF g(2) walked_edge(3) d0(1)] by blast
qed

lemma resolve_with_eqI:
  assumes g: "btree_inv g" and G: "group_versions g sets G \<noteq> {}" "group_name G = dep_name d"
      "dep_version d \<le> target_allowed_version G" "x = Max (group_versions g sets G)"
    and least: "\<And>H. group_versions g sets H \<noteq> {} \<Longrightarrow> group_name H = dep_name d \<Longrightarrow>
      dep_version d \<le> target_allowed_version H \<Longrightarrow> x \<le> Max (group_versions g sets H)"
  shows "resolve_with (selected_versions (selection_groups g sets)) d = x"
proof -
  define W where "W = {Max (group_versions g sets H) | H. group_versions g sets H \<noteq> {}
      \<and> group_name H = dep_name d \<and> dep_version d \<le> target_allowed_version H}"
  have "W \<subseteq> snd ` set (selected_versions (selection_groups g sets))"
    unfolding W_def using selected_member [OF g] by force
  then have "finite W" by (rule finite_subset) simp
  moreover have "x \<in> W" unfolding W_def using G by blast
  moreover have "x \<le> w" if "w \<in> W" for w using that least unfolding W_def by blast
  ultimately have "W \<noteq> {}" "Min W = x" by (auto intro: Min_eqI)
  then show ?thesis using resolve_with_Min [OF g W_def] by simp
qed

text \<open>Under a multiple-version override, each allowed version is the selected version of its own group,
  and only versions above all of them share the group without a target.\<close>

lemma snapped_group:
  assumes s: "map_of sets n = Some s" "set s = insert EMPTY A" "sorted_wrt (<) s"
    and A: "\<And>v. v \<in> A \<Longrightarrow> is_parsed v \<and> v \<noteq> EMPTY \<and> ModuleKey n v \<in> dom (map_of g)"
    and l: "key_name l = n" "is_parsed (key_version l)"
  shows "\<exists>t. compute_selection_group l sets = SelectionGroup n t \<and> key_version l \<le> t
    \<and> (t \<in> A \<or> t = EMPTY \<and> (\<forall>v \<in> A. v < key_version l)) \<and> (key_version l \<in> A \<longrightarrow> t = key_version l)"
proof -
  have "key_version l \<le> EMPTY" using parsed_le_EMPTY l by blast
  then have "range_next (key_version l) s \<noteq> None" using s(2) by (auto simp: range_next_None)
  then obtain t where t: "range_next (key_version l) s = Some t" by blast
  note T = range_next_least [OF s(3) t]
  have "v < key_version l" if "t = EMPTY" "v \<in> A" for v
  proof (rule ccontr)
    assume "\<not> v < key_version l"
    then have "EMPTY \<le> v" using T that s(2) by auto
    then show False using A [OF that(2)] parsed_le_EMPTY [of v] by auto
  qed
  moreover have "t = key_version l" if "key_version l \<in> A" using T that s(2) by (auto intro: antisym)
  ultimately show ?thesis using T s l t by (auto simp: compute_selection_group_def)
qed

lemma resolve_snaps:
  assumes g: "btree_inv g" "graph_parsed g"
    and s: "map_of sets n = Some s" "set s = insert EMPTY A" "sorted_wrt (<) s"
    and A: "\<And>v. v \<in> A \<Longrightarrow> is_parsed v \<and> v \<noteq> EMPTY \<and> ModuleKey n v \<in> dom (map_of g)"
    and d: "dep_name d = n" "a \<in> A" "dep_version d \<le> a" and fin: "finite A"
  shows "resolve_with (selected_versions (selection_groups g sets)) d = Min {v \<in> A. dep_version d \<le> v}"
proof -
  define x where "x = Min {v \<in> A. dep_version d \<le> v}"
  have "x \<in> {v \<in> A. dep_version d \<le> v}" unfolding x_def using fin d by (intro Min_in) auto
  then have x: "x \<in> A" "dep_version d \<le> x" by auto
  have x_min: "x \<le> v" if "v \<in> A" "dep_version d \<le> v" for v unfolding x_def using fin that by simp
  have target: "\<exists>t. compute_selection_group l sets = SelectionGroup n t \<and> key_version l \<le> t
    \<and> (t \<in> A \<or> t = EMPTY \<and> (\<forall>v \<in> A. v < key_version l)) \<and> (key_version l \<in> A \<longrightarrow> t = key_version l)"
    if "key_name l = n" "l \<in> dom (map_of g)" for l
    using snapped_group [OF s A that(1)] graph_parsed_key [OF g(2)] that(2) by blast
  have members: "Max (group_versions g sets (SelectionGroup n v)) = v \<and> group_versions g sets (SelectionGroup n v) \<noteq> {}"
    if "v \<in> A" for v
  proof -
    have "v \<in> group_versions g sets (SelectionGroup n v)"
      unfolding group_versions_def using target [of "ModuleKey n v"] A [OF that] that by force
    moreover have "w \<le> v" if "w \<in> group_versions g sets (SelectionGroup n v)" for w
    proof -
      obtain l where l: "w = key_version l" "l \<in> dom (map_of g)" "compute_selection_group l sets = SelectionGroup n v"
        using \<open>w \<in> _\<close> unfolding group_versions_def by blast
      then have "key_name l = n" by (simp add: compute_selection_group_def)
      then show ?thesis using target [OF _ l(2)] l by auto
    qed
    ultimately show ?thesis by (auto intro!: Max_eqI)
  qed
  show ?thesis
    unfolding x_def [symmetric]
  proof (rule resolve_with_eqI [OF g(1), of sets "SelectionGroup n x"])
    fix H assume H: "group_versions g sets H \<noteq> {}" "group_name H = dep_name d" "dep_version d \<le> target_allowed_version H"
    then obtain l where l: "l \<in> dom (map_of g)" "compute_selection_group l sets = H"
      unfolding group_versions_def by blast
    then have "key_name l = n" using H(2) d(1) by (auto simp: compute_selection_group_def)
    then obtain t where t: "H = SelectionGroup n t" "t \<in> A \<or> t = EMPTY \<and> (\<forall>v \<in> A. v < key_version l)"
      using target l by blast
    then show "x \<le> Max (group_versions g sets H)"
    proof (cases "t \<in> A")
      case True
      then show ?thesis using members [OF True] x_min [OF True] H(3) t(1) by simp
    next
      case False
      then have "x \<le> key_version l" using t(2) x(1) by auto
      moreover have "key_version l \<le> Max (group_versions g sets H)"
        using l by (intro Max_ge finite_group_versions) (auto simp: group_versions_def)
      ultimately show ?thesis by (rule order_trans)
    qed
  qed (use members [OF x(1)] x d in simp_all)
qed

section \<open>An example\<close>

text \<open>The graph of the repository's own test of \<open>multiple_version_override\<close>, as the test builds it.\<close>

definition example_version :: "u64 \<Rightarrow> string \<Rightarrow> version" where
  "example_version n t = Version [Numeric n t] [] t"

definition example_module :: "string \<Rightarrow> version \<Rightarrow> (string \<times> version) list \<Rightarrow> module_key \<times> bzl_module" where
  "example_module name v ds =
     (ModuleKey name v,
      \<lparr>mod_key = ModuleKey name v, mod_name = (if name = [] then ''root'' else name), mod_version = v,
       mod_repo_name = name,
       deps = map (\<lambda>(n, w). \<lparr>dep_repo_name = n, spec = \<lparr>dep_name = n, dep_version = w\<rparr>\<rparr>) ds,
       nodep_deps = [], mod_registry = None, bazel_compatibility = [], toolchains_to_register = [],
       execution_platforms_to_register = [], extension_usages = [], flag_aliases = []\<rparr>)"

definition example_graph :: dep_graph where
  "example_graph = btree_collect
     [example_module [] EMPTY [(''a'', example_version 1 ''1''), (''b'', example_version 1 ''1'')],
      example_module ''a'' (example_version 1 ''1'') [],
      example_module ''a'' (example_version 2 ''2'') [],
      example_module ''a'' (example_version 3 ''3'') [],
      example_module ''b'' (example_version 1 ''1'') [(''a'', example_version 2 ''2'')]]"

definition example_overrides :: overrides where
  "example_overrides =
     [(''a'', MultipleVersion \<lparr>versions = [example_version 1 ''1'', example_version 3 ''3''], multiple_registry = None\<rparr>)]"

lemma example_graph_inv: "btree_inv example_graph"
  unfolding example_graph_def btree_collect_into by (rule btree.inv_collect) (simp add: btree_inv_def)

lemma example_parsed:
  "is_parsed EMPTY" "is_parsed (example_version 1 ''1'')" "is_parsed (example_version 2 ''2'')"
  "is_parsed (example_version 3 ''3'')"
  by (simp add: is_parsed_def version_display_def EMPTY_def version_eval)
    (simp_all add: is_parsed_def version_display_def example_version_def version_eval)

lemma example_graph_parsed: "graph_parsed example_graph"
  unfolding graph_parsed_def list_all_iff example_graph_def
  by (intro ballI, drule btree_collect_subset [THEN subsetD])
    (auto simp: example_module_def edges_def example_parsed)

lemma example_overrides_inv: "btree_inv example_overrides"
  by code_simp

section \<open>Properties\<close>

lemma selection_run_Inr:
  assumes "selection_run g ov = Inr s"
  obtains sets where "compute_allowed_version_sets ov g = Inr sets"
    "walk g ov (selection_groups g sets) (resolve_with (selected_versions (selection_groups g sets))) True
      = Inr (resolved s)"
    "unpruned s = map (\<lambda>(key, m).
      (key, rewrite_deps (resolve_with (selected_versions (selection_groups g sets))) m)) g"
  using assms by (auto simp: selection_run_def and_then_Inr Let_def)

text \<open>
  C4. Minimal version selection: whenever selection succeeds, each selected module whose name is not
  under a multiple-version override is at the highest version of that name among the discovered
  modules; so one version per name survives.
\<close>

theorem selection_picks_highest:
  assumes "btree_inv g" and "graph_parsed g" and "btree_inv ov"
    and "selection_run g ov = Inr s" and "k \<in> set (selection_keys s)"
    and "\<forall>mvo. map_of ov (key_name k) \<noteq> Some (MultipleVersion mvo)"
  shows "key_version k = Max {key_version l | l. l \<in> dom (map_of g) \<and> key_name l = key_name k}"
proof -
  obtain sets where a: "compute_allowed_version_sets ov g = Inr sets" and w: "walk g ov (selection_groups g sets)
      (resolve_with (selected_versions (selection_groups g sets))) True = Inr (resolved s)"
    using selection_run_Inr [OF assms(4)] by metis
  obtain m where m: "(k, m) \<in> set (resolved s)" using assms(5) by (auto simp: selection_keys_def)
  have "walked g (resolve_with (selected_versions (selection_groups g sets))) True k"
    using walk_Inr(1) [OF w] m by force
  moreover have "k \<in> dom (map_of g)" using walk_Inr(3) [OF w m] by blast
  ultimately show ?thesis using walked_highest [OF assms(1,2,3) a] assms(6) by (simp add: is_multiple_def)
qed

theorem selection_picks_highest_witness:
  "key_version (ModuleKey ''a'' (example_version 3 ''3''))
     = Max {key_version l | l. l \<in> dom (map_of example_graph) \<and> key_name l = ''a''}"
proof -
  have "map_sum id selection_keys (selection_run example_graph [])
      = Inr [root_key, ModuleKey ''a'' (example_version 3 ''3''), ModuleKey ''b'' (example_version 1 ''1'')]"
    by code_simp
  then obtain s where s: "selection_run example_graph [] = Inr s"
    and k: "ModuleKey ''a'' (example_version 3 ''3'') \<in> set (selection_keys s)"
    by (cases "selection_run example_graph []") auto
  have "btree_inv ([] :: overrides)" by (simp add: btree_inv_def)
  from selection_picks_highest [OF example_graph_inv example_graph_parsed this s k] show ?thesis by simp
qed

text \<open>
  C5. What selection returns is a closed, pruned graph: every selected key appears once, the root is
  selected, every dependency of a selected module is selected at exactly the version its edge was
  rewritten to, and nothing is kept that the dependencies do not reach from the root.
\<close>

theorem selection_closed:
  assumes "selection_run g ov = Inr s"
  shows "distinct (selection_keys s) \<and> root_key \<in> set (selection_keys s)
    \<and> (\<forall>k m d. (k, m) \<in> set (resolved s) \<and> d \<in> set (deps m) \<longrightarrow> to_module_key (spec d) \<in> set (selection_keys s))
    \<and> (\<forall>K. root_key \<in> K \<and> (\<forall>k m d. (k, m) \<in> set (resolved s) \<and> k \<in> K \<and> d \<in> set (deps m)
             \<longrightarrow> to_module_key (spec d) \<in> K) \<longrightarrow> set (selection_keys s) \<subseteq> K)"
proof -
  obtain sets where w: "walk g ov (selection_groups g sets)
      (resolve_with (selected_versions (selection_groups g sets))) True = Inr (resolved s)"
    using selection_run_Inr [OF assms] by metis
  define r where "r = resolve_with (selected_versions (selection_groups g sets))"
  note W = walk_Inr [OF w [folded r_def]]
  have keys: "set (selection_keys s) = {k. walked g r True k}" using W(1) by (simp add: selection_keys_def)
  have edge: "to_module_key (spec d) \<in> set (selection_keys s)" if h: "(k, m) \<in> set (resolved s)" "d \<in> set (deps m)" for k m d
  proof -
    obtain m0 where m0: "map_of g k = Some m0" "m = rewrite_deps r m0" using W(3) [OF h(1)] by blast
    moreover have "walked g r True k" using W(1) h(1) by force
    moreover have "spec d \<in> set (edges True (rewrite_deps r m0))" using h(2) m0(2) by (auto simp: edges_def)
    ultimately show ?thesis unfolding keys using walked.walked_edge by blast
  qed
  have least: "k \<in> K" if "root_key \<in> K" and step: "\<And>k m d. (k, m) \<in> set (resolved s) \<Longrightarrow> k \<in> K \<Longrightarrow> d \<in> set (deps m)
      \<Longrightarrow> to_module_key (spec d) \<in> K" and "walked g r True k" for K k
    using that(3)
  proof (induction rule: walked.induct)
    case (walked_edge k m d)
    obtain m' where m': "(k, m') \<in> set (resolved s)" using W(1) walked_edge(1) by force
    then have "m' = rewrite_deps r m" using W(3) [OF m'] walked_edge(2) by force
    then obtain e where "e \<in> set (deps m')" "spec e = d" using walked_edge(3) by (auto simp: edges_def)
    then show ?case using step [OF m' walked_edge.IH] by blast
  qed (rule that(1))
  show ?thesis using W(2) edge least walked.walked_root unfolding keys by (auto simp: selection_keys_def)
qed

theorem selection_closed_witness:
  "\<exists>s. selection_run example_graph example_overrides = Inr s \<and> distinct (selection_keys s)
     \<and> root_key \<in> set (selection_keys s)"
proof -
  have "\<not> isl (selection_run example_graph example_overrides)" by code_simp
  then obtain s where s: "selection_run example_graph example_overrides = Inr s"
    by (cases "selection_run example_graph example_overrides") auto
  from selection_closed [OF s] s show ?thesis by blast
qed



text \<open>
  A multiple-version override snaps up: a dependency on its module is rewritten to the lowest
  allowed version that is not below the requested one, whenever there is one.
\<close>

theorem selection_snaps_up:
  assumes "btree_inv g" and "graph_parsed g" and "btree_inv ov" and "selection_run g ov = Inr s"
    and "map_of ov n = Some (MultipleVersion mvo)" and "\<forall>v \<in> set (versions mvo). is_parsed v \<and> v \<noteq> EMPTY"
    and "(k, m0) \<in> set g" and "d \<in> set (deps m0)" and "dep_name (spec d) = n"
    and "a \<in> set (versions mvo)" and "dep_version (spec d) \<le> a"
  shows "\<exists>m. (k, m) \<in> set (unpruned s)
    \<and> \<lparr>dep_repo_name = dep_repo_name d, spec = \<lparr>dep_name = n,
          dep_version = Min {v \<in> set (versions mvo). dep_version (spec d) \<le> v}\<rparr>\<rparr> \<in> set (deps m)"
proof -
  obtain sets where c: "compute_allowed_version_sets ov g = Inr sets" and u: "unpruned s = map (\<lambda>(key, m).
      (key, rewrite_deps (resolve_with (selected_versions (selection_groups g sets))) m)) g"
    using selection_run_Inr [OF assms(4)] by metis
  obtain sv where sv: "map_of sets n = Some sv" "set sv = insert EMPTY (set (versions mvo))" "sorted_wrt (<) sv"
    using allowed_sets(2) [OF c assms(3,5,10)] by blast
  have A: "is_parsed v \<and> v \<noteq> EMPTY \<and> ModuleKey n v \<in> dom (map_of g)" if "v \<in> set (versions mvo)" for v
    using assms(6) that allowed_sets(2) [OF c assms(3,5) that] by blast
  have r: "resolve_with (selected_versions (selection_groups g sets)) (spec d)
      = Min {v \<in> set (versions mvo). dep_version (spec d) \<le> v}"
    using resolve_snaps [OF assms(1,2) sv A assms(9,10,11)] by simp
  have "(k, rewrite_deps (resolve_with (selected_versions (selection_groups g sets))) m0) \<in> set (unpruned s)"
    unfolding u using assms(7) by force
  moreover have "\<lparr>dep_repo_name = dep_repo_name d, spec = \<lparr>dep_name = n,
          dep_version = Min {v \<in> set (versions mvo). dep_version (spec d) \<le> v}\<rparr>\<rparr>
      \<in> set (deps (rewrite_deps (resolve_with (selected_versions (selection_groups g sets))) m0))"
    unfolding rewrite_deps_def with_deps_transformed_def
    using assms(8,9) r by (force simp: with_version_def)
  ultimately show ?thesis by blast
qed

theorem selection_snaps_up_witness:
  "\<exists>s m. selection_run example_graph example_overrides = Inr s
     \<and> (ModuleKey ''b'' (example_version 1 ''1''), m) \<in> set (unpruned s)
     \<and> \<lparr>dep_repo_name = ''a'', spec = \<lparr>dep_name = ''a'',
          dep_version = Min {v \<in> {example_version 1 ''1'', example_version 3 ''3''}. example_version 2 ''2'' \<le> v}\<rparr>\<rparr>
        \<in> set (deps m)"
proof -
  have "\<not> isl (selection_run example_graph example_overrides)" by code_simp
  then obtain s where s: "selection_run example_graph example_overrides = Inr s"
    by (cases "selection_run example_graph example_overrides") auto
  let ?mvo = "\<lparr>versions = [example_version 1 ''1'', example_version 3 ''3''], multiple_registry = None\<rparr>"
  let ?b = "example_module ''b'' (example_version 1 ''1'') [(''a'', example_version 2 ''2'')]"
  let ?d = "\<lparr>dep_repo_name = ''a'', spec = \<lparr>dep_name = ''a'', dep_version = example_version 2 ''2''\<rparr>\<rparr>"
  have ov: "map_of example_overrides ''a'' = Some (MultipleVersion ?mvo)" by (simp add: example_overrides_def)
  have vs: "\<forall>v \<in> set (versions ?mvo). is_parsed v \<and> v \<noteq> EMPTY"
    using example_parsed by (simp add: example_version_def EMPTY_def)
  have b: "(fst ?b, snd ?b) \<in> set example_graph" by code_simp
  have d: "?d \<in> set (deps (snd ?b))" by (simp add: example_module_def)
  have le: "dep_version (spec ?d) \<le> example_version 3 ''3''" by code_simp
  show ?thesis
    using selection_snaps_up [OF example_graph_inv example_graph_parsed example_overrides_inv s ov vs b d _ _ le] s
    by (simp add: example_module_def)
qed

end
