(* ===== verification/Labels.thy ===== *)
theory Labels
  imports Rust_Str "HOL-Library.Product_Lexorder"
begin

text \<open>
  Labels (\<open>crates/fjfj-graph/src/label.rs\<close>, \<open>parse.rs\<close>, \<open>lib.rs\<close>): what is a legal package, target
  and repository name, the label a string of a BUILD file stands for, and how a label is printed.
\<close>

section \<open>Names\<close>

datatype label_error =
    PackageStartsWithSlash
  | PackageEndsWithSlash
  | PackageDoubleSlash
  | PackageInvalidChar
  | PackageDotOnlyComponent
  | TargetEmpty
  | TargetStartsWithSlash
  | TargetEndsWithSlash
  | TargetUpLevelReference
  | TargetDotSegment
  | TargetDoubleSlash
  | TargetTrailingCr
  | TargetNonPrintable char
  | TargetInvalidChar char
  | RepoInvalidChar string
  | UserProvidedRepoName string

text \<open>The two byte strings of punctuation, as byte values.\<close>

definition PACKAGE_PUNCTUATION :: "nat list" where
  "PACKAGE_PUNCTUATION = [32, 33, 34, 35, 36, 37, 38, 39, 40, 41, 42, 43, 44, 45, 46, 47, 59, 60, 61, 62,
     63, 64, 91, 93, 94, 95, 96, 123, 124, 125, 126]"

definition TARGET_PUNCTUATION :: "nat list" where
  "TARGET_PUNCTUATION = [32, 34, 35, 36, 38, 39, 40, 41, 42, 43, 44, 59, 60, 61, 62, 63, 91, 93, 123, 124,
     125, 126, 33, 37, 45, 64, 94, 95, 96]"

definition is_package_char :: "char \<Rightarrow> bool" where
  "is_package_char c \<longleftrightarrow> is_ascii_alphanumeric c \<or> of_char c \<in> set PACKAGE_PUNCTUATION"

text \<open>The loop over the segments of a package name.\<close>

fun check_segments :: "string list \<Rightarrow> (label_error, unit) result" where
  "check_segments [] = Inr ()"
| "check_segments (seg # segs) =
     (if seg = [] then Inl PackageDoubleSlash
      else if list_all (\<lambda>c. c = CHR ''.'') seg then Inl PackageDotOnlyComponent
      else check_segments segs)"

definition validate_package_name :: "string \<Rightarrow> (label_error, unit) result" where
  "validate_package_name p =
     (if p = [] then Inr ()
      else if prefix ''/'' p then Inl PackageStartsWithSlash
      else if \<not> list_all is_package_char p then Inl PackageInvalidChar
      else if suffix ''/'' p then Inl PackageEndsWithSlash
      else check_segments (split_on CHR ''/'' p))"

definition is_ascii :: "char \<Rightarrow> bool" where
  "is_ascii c \<longleftrightarrow> (of_char c :: nat) < 128"

definition is_always_allowed_target_char :: "char \<Rightarrow> bool" where
  "is_always_allowed_target_char c \<longleftrightarrow> is_ascii_alphanumeric c
     \<or> (is_ascii c \<and> of_char c \<in> set TARGET_PUNCTUATION) \<or> \<not> is_ascii c"

text \<open>The loop over the characters of a target name, with the previous one.\<close>

fun check_target_chars :: "char option \<Rightarrow> string \<Rightarrow> (label_error, unit) result" where
  "check_target_chars previous [] = Inr ()"
| "check_target_chars previous (c # cs) =
     (if c = CHR ''/'' \<and> previous = Some CHR ''/'' then Inl TargetDoubleSlash
      else if c = CHR ''.'' \<or> c = CHR ''/'' \<or> is_always_allowed_target_char c then check_target_chars (Some c) cs
      else if (of_char c :: nat) \<le> 31 \<or> (of_char c :: nat) = 127 then Inl (TargetNonPrintable c)
      else Inl (TargetInvalidChar c))"

definition validate_target_name :: "string \<Rightarrow> (label_error, unit) result" where
  "validate_target_name t =
     (if t = [] then Inl TargetEmpty
      else if t = ''.'' then Inr ()
      else if prefix ''/'' t then Inl TargetStartsWithSlash
      else if t = ''..'' \<or> prefix ''../'' t then Inl TargetUpLevelReference
      else if prefix ''./'' t then Inl TargetDotSegment
      else if suffix [CHR 0x0D] t then Inl TargetTrailingCr
      else and_then (check_target_chars None t) (\<lambda>_.
        if sublist ''/../'' t \<or> suffix ''/..'' t then Inl TargetUpLevelReference
        else if sublist ''/./'' t then Inl TargetDotSegment
        else if suffix ''/.'' t then Inr ()
        else if suffix ''/'' t then Inl TargetEndsWithSlash
        else Inr ()))"

definition is_repo_char :: "char \<Rightarrow> bool" where
  "is_repo_char c \<longleftrightarrow> is_ascii_alphanumeric c \<or> c \<in> {CHR ''_'', CHR ''-'', CHR ''.'', CHR ''+''}"

definition validate_repo_name :: "string \<Rightarrow> (label_error, unit) result" where
  "validate_repo_name r = (if list_all is_repo_char r then Inr () else Inl (RepoInvalidChar r))"

definition validate_user_provided_repo_name :: "string \<Rightarrow> (label_error, unit) result" where
  "validate_user_provided_repo_name r =
     (let first_ok = (case r of [] \<Rightarrow> False | c # _ \<Rightarrow> is_ascii_alphanumeric c);
          rest_ok = list_all (\<lambda>c. is_ascii_alphanumeric c \<or> c \<in> {CHR ''_'', CHR ''-'', CHR ''.''}) (tl r)
      in if first_ok \<and> rest_ok then Inr () else Inl (UserProvidedRepoName r))"

section \<open>Labels\<close>

datatype label = Label (repo: string) (package: string) (lname: string)

instantiation label :: linorder
begin

definition less_eq_label :: "label \<Rightarrow> label \<Rightarrow> bool" where
  "a \<le> b \<longleftrightarrow> (repo a, package a, lname a) \<le> (repo b, package b, lname b)"

definition less_label :: "label \<Rightarrow> label \<Rightarrow> bool" where
  "a < b \<longleftrightarrow> (repo a, package a, lname a) < (repo b, package b, lname b)"

instance
proof
  fix x y z :: label
  show "x < y \<longleftrightarrow> x \<le> y \<and> \<not> y \<le> x" unfolding less_eq_label_def less_label_def by (rule less_le_not_le)
  show "x \<le> x" unfolding less_eq_label_def by (rule order_refl)
  show "x \<le> y \<Longrightarrow> y \<le> z \<Longrightarrow> x \<le> z" unfolding less_eq_label_def by (rule order_trans)
  show "x \<le> y \<or> y \<le> x" unfolding less_eq_label_def by (rule linear)
  assume "x \<le> y" "y \<le> x"
  then have "(repo x, package x, lname x) = (repo y, package y, lname y)"
    unfolding less_eq_label_def by (rule antisym)
  then show "x = y" by (simp add: label.expand)
qed

end

definition label_new :: "string \<Rightarrow> string \<Rightarrow> string \<Rightarrow> (label_error, label) result" where
  "label_new r p n =
     and_then (validate_package_name p) (\<lambda>_. and_then (validate_target_name n) (\<lambda>_. Inr (Label r p n)))"

definition label_display :: "label \<Rightarrow> string" where
  "label_display l =
     (if repo l = [] then ''//'' @ package l @ '':'' @ lname l
      else ''@'' @ repo l @ ''//'' @ package l @ '':'' @ lname l)"

record label_context =
  ctx_repo :: string
  ctx_package :: string

datatype label_parse_error =
    NotAbsolute string
  | PackageWildcard string
  | PackageError string label_error "string option"
  | TargetError string label_error
  | RepoError string label_error

text \<open>The quoted form of a name in an error, and the hint of a label with no colon.\<close>

definition shown_char :: "char \<Rightarrow> string" where
  "shown_char c =
     (if c = CHR 0x0D then [CHR 0x5C, CHR ''r'']
      else if (of_char c :: nat) < 0x20 \<or> (of_char c :: nat) = 0x7F then ''<?>'' else [c])"

definition shown :: "string \<Rightarrow> string" where
  "shown s = concat (map shown_char s)"

definition package_hint :: "string option \<Rightarrow> string" where
  "package_hint suggestion =
     (case suggestion of Some t \<Rightarrow> '' (perhaps you meant '' @ [CHR 0x22] @ '':'' @ t @ [CHR 0x22] @ ''?)'' | None \<Rightarrow> [])"

text \<open>\<open>str::find\<close> of a string, as the text before the first occurrence and the text from it on.\<close>

fun split_at :: "string \<Rightarrow> string \<Rightarrow> (string \<times> string) option" where
  "split_at p [] = (if p = [] then Some ([], []) else None)"
| "split_at p (c # cs) =
     (if prefix p (c # cs) then Some ([], c # cs)
      else map_option (\<lambda>(a, b). (c # a, b)) (split_at p cs))"

definition split_repo :: "string \<Rightarrow> string option \<times> bool \<times> string \<times> bool" where
  "split_repo input =
     (case strip_prefix ''@'' input of
        Some after0 \<Rightarrow>
          (let (after1, apparent) = (case strip_prefix ''@'' after0 of
               Some canonical \<Rightarrow> (canonical, False) | None \<Rightarrow> (after0, True))
           in case split_at ''//'' after1 of
                Some (r, rest) \<Rightarrow> (Some r, apparent, rest, False)
              | None \<Rightarrow> (Some after1, apparent, [], True))
      | None \<Rightarrow> (None, False, input, False))"

text \<open>
  The text after the repository, taken apart: the package, the name, the suggestion for a label with no
  colon, whether it is not absolute, and what a \<open>...\<close> would make a wildcard.
\<close>

definition split_label ::
  "label_context \<Rightarrow> string \<Rightarrow> string \<Rightarrow> bool \<Rightarrow> string \<times> string \<times> string option \<times> bool \<times> string option" where
  "split_label ctx written rest repo_only =
     (if repo_only then ([], written, None, False, None)
      else case strip_prefix ''//'' rest of
        Some absolute \<Rightarrow>
          (case split_once CHR '':'' absolute of
             Some (p, n) \<Rightarrow> (p, n, None, False, None)
           | None \<Rightarrow>
               (let l = last (split_on CHR ''/'' absolute)
                in (absolute, l, Some l, False, None)))
      | None \<Rightarrow>
          (case strip_prefix '':'' rest of
             Some n \<Rightarrow> (ctx_package ctx, n, None, False, None)
           | None \<Rightarrow>
               (case split_once CHR '':'' rest of
                  Some (p, n) \<Rightarrow> (p, n, None, True, None)
                | None \<Rightarrow> (ctx_package ctx, rest, None, False, Some rest))))"

definition parse_mapped ::
  "string \<Rightarrow> label_context \<Rightarrow> (string \<Rightarrow> string) \<Rightarrow> (label_parse_error, label) result" where
  "parse_mapped input ctx map_repo =
     (let (repo_opt, apparent, rest, repo_only) = split_repo input
      in and_then (case repo_opt of
                     Some r \<Rightarrow> map_err (RepoError r) (validate_repo_name r)
                   | None \<Rightarrow> Inr ()) (\<lambda>_.
         let written = (case repo_opt of Some r \<Rightarrow> r | None \<Rightarrow> ctx_repo ctx);
             r = (if apparent then map_repo written else written);
             (p, n, colonless_package, not_absolute, wildcard_opt) = split_label ctx written rest repo_only;
             wildcard = (case wildcard_opt of Some w \<Rightarrow> w | None \<Rightarrow> p)
         in if wildcard = ''...'' \<or> suffix ''/...'' wildcard then Inl (PackageWildcard input)
            else and_then (map_err (\<lambda>e. PackageError p e colonless_package) (validate_package_name p)) (\<lambda>_.
                 and_then (map_err (TargetError n) (validate_target_name n)) (\<lambda>_.
                 if not_absolute then Inl (NotAbsolute input)
                 else Inr (Label r p (case strip_suffix ''/.'' n of Some m \<Rightarrow> m | None \<Rightarrow> n))))))"

definition label_parse :: "string \<Rightarrow> label_context \<Rightarrow> (label_parse_error, label) result" where
  "label_parse input ctx = parse_mapped input ctx (\<lambda>apparent. apparent)"

section \<open>Which names are legal\<close>

lemma check_segments_Inr:
  "check_segments segs = Inr u \<longleftrightarrow> (\<forall>seg \<in> set segs. seg \<noteq> [] \<and> \<not> list_all (\<lambda>c. c = CHR ''.'') seg)"
  by (induction segs) auto

lemma empty_segment:
  "[] \<in> set (split_on c s) \<longleftrightarrow> s = [] \<or> prefix [c] s \<or> suffix [c] s \<or> sublist [c, c] s"
  using in_split_on [of c "[]" s] by simp

lemma package_ok:
  "validate_package_name p = Inr u \<longleftrightarrow> p = [] \<or> list_all is_package_char p
     \<and> (\<forall>seg \<in> set (split_on CHR ''/'' p). seg \<noteq> [] \<and> \<not> list_all (\<lambda>c. c = CHR ''.'') seg)"
  using empty_segment [of "CHR ''/''" p] by (auto simp: validate_package_name_def check_segments_Inr)

definition target_char :: "char \<Rightarrow> bool" where
  "target_char c \<longleftrightarrow> c = CHR ''.'' \<or> c = CHR ''/'' \<or> is_always_allowed_target_char c"

lemma sublist_pair_Cons:
  "sublist [a, a] (c # cs) \<longleftrightarrow> c = a \<and> cs \<noteq> [] \<and> hd cs = a \<or> sublist [a, a] cs"
  by (cases cs) (auto simp: sublist_Cons_right)

lemma check_target_chars_Inr:
  "check_target_chars previous t = Inr u \<longleftrightarrow> list_all target_char t \<and> \<not> sublist ''//'' t
     \<and> \<not> (previous = Some CHR ''/'' \<and> t \<noteq> [] \<and> hd t = CHR ''/'')"
proof (induction previous t rule: check_target_chars.induct)
  case (2 previous c cs)
  then show ?case by (auto simp: target_char_def sublist_pair_Cons)
qed simp

lemma control_not_target_char: "\<not> target_char CHR 0x0D" "\<not> target_char CHR '':''"
  by (simp_all add: target_char_def is_always_allowed_target_char_def char_classes is_ascii_def TARGET_PUNCTUATION_def)

lemma target_ok:
  "validate_target_name t = Inr u \<longleftrightarrow> t \<noteq> [] \<and> list_all target_char t
     \<and> [] \<notin> set (split_on CHR ''/'' t) \<and> ''..'' \<notin> set (split_on CHR ''/'' t)
     \<and> ''.'' \<notin> set (butlast (split_on CHR ''/'' t))"
proof (cases "t = ''.''")
  case True
  then show ?thesis by (simp add: validate_target_name_def target_char_def)
next
  case False
  have cr: "\<not> list_all target_char t" if "suffix [CHR 0x0D] t"
    using that control_not_target_char by (auto simp: suffix_def)
  have dot: "''.'' \<in> set (butlast (split_on CHR ''/'' t)) \<longleftrightarrow> prefix ''./'' t \<or> sublist ''/./'' t"
    using in_butlast_split [of "CHR ''/''" "''.''" t] by simp
  have dots: "''..'' \<in> set (split_on CHR ''/'' t) \<longleftrightarrow>
      t = ''..'' \<or> prefix ''../'' t \<or> suffix ''/..'' t \<or> sublist ''/../'' t"
    using in_split_on [of "CHR ''/''" "''..''" t] by simp
  have trail: "\<not> suffix ''/'' t" if "suffix ''/.'' t" using that by (auto simp: suffix_def)
  have "validate_target_name t = Inr u \<longleftrightarrow> t \<noteq> [] \<and> \<not> prefix ''/'' t \<and> t \<noteq> ''..'' \<and> \<not> prefix ''../'' t
      \<and> \<not> prefix ''./'' t \<and> \<not> suffix [CHR 0x0D] t \<and> list_all target_char t \<and> \<not> sublist ''//'' t
      \<and> \<not> sublist ''/../'' t \<and> \<not> suffix ''/..'' t \<and> \<not> sublist ''/./'' t \<and> \<not> suffix ''/'' t"
    using False trail check_target_chars_Inr [of None t]
    by (auto simp: validate_target_name_def and_then_Inr)
  then show ?thesis unfolding empty_segment dots dot using cr by blast
qed

section \<open>What parses is legal\<close>

lemma package_wildcard:
  assumes "validate_package_name p = Inr ()"
  shows "\<not> (p = ''...'' \<or> suffix ''/...'' p)"
proof
  assume "p = ''...'' \<or> suffix ''/...'' p"
  then have "''...'' \<in> set (split_on CHR ''/'' p)" using in_split_on [of "CHR ''/''" "''...''" p] by auto
  then show False using assms by (auto simp: package_ok)
qed

lemma package_no_colon: "validate_package_name p = Inr () \<Longrightarrow> CHR '':'' \<notin> set p"
  by (auto simp: package_ok list_all_iff is_package_char_def char_classes PACKAGE_PUNCTUATION_def)

text \<open>The name of a parsed label: a legal one, less the dot segment it may end with.\<close>

definition drop_dot :: "string \<Rightarrow> string" where
  "drop_dot n = (case strip_suffix ''/.'' n of Some m \<Rightarrow> m | None \<Rightarrow> n)"

lemma drop_dot_legal:
  assumes "validate_target_name n = Inr ()"
  shows "validate_target_name (drop_dot n) = Inr () \<and> \<not> suffix ''/.'' (drop_dot n)"
proof (cases "suffix ''/.'' n")
  case True
  then obtain m where n: "n = m @ ''/.''" by (auto simp: suffix_def)
  have segs: "split_on CHR ''/'' n = split_on CHR ''/'' m @ [''.'']" by (simp add: n split_on_append_sep)
  have d: "drop_dot n = m" by (simp add: drop_dot_def n strip_suffix_def suffix_def)
  have ok: "list_all target_char m" "[] \<notin> set (split_on CHR ''/'' m)" "''..'' \<notin> set (split_on CHR ''/'' m)"
    "''.'' \<notin> set (split_on CHR ''/'' m)"
    using assms by (simp_all add: target_ok segs, simp_all add: n)
  moreover have "m \<noteq> []" using ok(2) by auto
  moreover have "\<not> suffix ''/.'' m" using ok(4) in_split_on [of "CHR ''/''" "''.''" m] by simp
  ultimately show ?thesis by (simp add: d target_ok in_set_butlastD) (meson in_set_butlastD)
next
  case False
  then have "drop_dot n = n" by (simp add: drop_dot_def strip_suffix_def)
  then show ?thesis using False assms by simp
qed

lemma parse_mapped_Inr:
  assumes "parse_mapped input ctx f = Inr l"
  obtains n where "validate_package_name (package l) = Inr ()" "validate_target_name n = Inr ()"
    "lname l = drop_dot n"
    "repo l \<in> {ctx_repo ctx} \<union> {r. validate_repo_name r = Inr ()} \<union> f ` {r. validate_repo_name r = Inr ()}"
proof -
  obtain ro ap rest ronly where sr: "split_repo input = (ro, ap, rest, ronly)" by (metis prod_cases4)
  have none: "\<not> ap" if "ro = None" using that sr by (auto simp: split_repo_def split: option.splits prod.splits)
  define written where "written = (case ro of Some r \<Rightarrow> r | None \<Rightarrow> ctx_repo ctx)"
  obtain p n c na w where sl: "split_label ctx written rest ronly = (p, n, c, na, w)" by (metis prod_cases5)
  have "(case ro of Some r \<Rightarrow> map_err (RepoError r) (validate_repo_name r) | None \<Rightarrow> Inr ()) = Inr ()"
    and "validate_package_name p = Inr ()" and "validate_target_name n = Inr ()"
    and "l = Label (if ap then f written else written) p (drop_dot n)"
    using assms
    by (auto simp: parse_mapped_def sr sl written_def [symmetric] Let_def and_then_Inr map_err_Inr drop_dot_def
        split: if_splits)
  moreover from this have "repo l \<in> {ctx_repo ctx} \<union> {r. validate_repo_name r = Inr ()} \<union> f ` {r. validate_repo_name r = Inr ()}"
    using none by (cases ro) (auto simp: written_def map_err_Inr)
  ultimately show ?thesis using that by simp
qed

lemma split_at_word: "c \<notin> set w \<Longrightarrow> split_at (c # cs) (w @ c # cs @ rest) = Some (w, c # cs @ rest)"
proof (induction w)
  case Nil
  then show ?case by (cases cs) simp_all
qed auto

lemma parse_label_display:
  assumes r: "validate_repo_name (repo l) = Inr ()" and p: "validate_package_name (package l) = Inr ()"
    and n: "validate_target_name (lname l) = Inr ()" and d: "\<not> suffix ''/.'' (lname l)"
  shows "label_parse (label_display l) \<lparr>ctx_repo = [], ctx_package = q\<rparr> = Inr l"
proof -
  obtain rs ps ns where l: "l = Label rs ps ns" by (cases l)
  let ?tail = "''//'' @ ps @ '':'' @ ns"
  have rc: "CHR ''@'' \<notin> set rs" "CHR ''/'' \<notin> set rs"
    using r by (auto simp: l validate_repo_name_def list_all_iff is_repo_char_def char_classes split: if_splits)
  have "split_repo (label_display l) = (if rs = [] then None else Some rs, rs \<noteq> [], ?tail, False)"
  proof (cases "rs = []")
    case False
    then have "strip_prefix ''@'' (rs @ ?tail) = None" using rc by (cases rs) (auto simp: strip_prefix_None)
    moreover have "split_at ''//'' (rs @ ?tail) = Some (rs, ?tail)"
      using split_at_word [OF rc(2), of "''/''" "ps @ '':'' @ ns"] by simp
    ultimately show ?thesis using False by (simp add: split_repo_def label_display_def l strip_prefix_def)
  qed (simp add: split_repo_def label_display_def l strip_prefix_def)
  moreover have "split_once CHR '':'' (ps @ '':'' @ ns) = Some (ps, ns)"
    using package_no_colon p by (simp add: l split_once_Some)
  moreover have "drop_dot ns = ns" using d by (simp add: l drop_dot_def strip_suffix_def)
  ultimately show ?thesis using r p n package_wildcard [OF p]
    by (simp add: label_parse_def parse_mapped_def split_label_def strip_prefix_def l map_err_def
        validate_repo_name_def drop_dot_def)
qed

lemma parse_mapped_absolute:
  assumes "CHR '':'' \<notin> set j" "\<not> (j = ''...'' \<or> suffix ''/...'' j)"
  shows "parse_mapped (''//'' @ j @ '':'' @ t) lctx f = Inr l \<longleftrightarrow>
    validate_package_name j = Inr () \<and> validate_target_name t = Inr () \<and> l = Label (ctx_repo lctx) j (drop_dot t)"
proof -
  have "split_once CHR '':'' (j @ '':'' @ t) = Some (j, t)" using assms(1) by (simp add: split_once_Some)
  then show ?thesis using assms(2)
    by (auto simp: parse_mapped_def split_repo_def strip_prefix_def split_label_def and_then_Inr map_err_Inr
        drop_dot_def [symmetric])
qed

section \<open>Properties\<close>

text \<open>
  C18. The character loop and the substring tests of \<open>validate_target_name\<close> decide a grammar on the
  segments of the name: it is accepted exactly when it is not empty, every character is legal, no
  segment between slashes is empty or \<open>..\<close>, and no segment but the last is \<open>.\<close>.
\<close>

theorem target_name_grammar:
  "validate_target_name t = Inr () \<longleftrightarrow>
     t \<noteq> [] \<and> list_all (\<lambda>c. c = CHR ''.'' \<or> c = CHR ''/'' \<or> is_always_allowed_target_char c) t
     \<and> (\<forall>seg. seg \<in> set (split_on CHR ''/'' t) \<longrightarrow> seg \<noteq> [] \<and> seg \<noteq> ''..'')
     \<and> ''.'' \<notin> set (butlast (split_on CHR ''/'' t))"
  unfolding target_ok target_char_def [abs_def] by blast

theorem target_name_grammar_witness:
  "validate_target_name ''a/b/.'' = Inr () \<and> ''..'' \<notin> set (split_on CHR ''/'' ''a/b/.'')
   \<and> validate_target_name ''a/../b'' \<noteq> Inr () \<and> validate_target_name ''./b'' \<noteq> Inr ()
   \<and> validate_target_name ''b:c'' = Inl (TargetInvalidChar CHR '':'')"
proof -
  have ok: "validate_target_name ''a/b/.'' = Inr ()" by code_simp
  moreover have "''..'' \<notin> set (split_on CHR ''/'' ''a/b/.'')"
    using target_name_grammar [of "''a/b/.''"] ok by blast
  moreover have "validate_target_name ''a/../b'' \<noteq> Inr ()" "validate_target_name ''./b'' \<noteq> Inr ()" by code_simp+
  moreover have "validate_target_name ''b:c'' = Inl (TargetInvalidChar CHR '':'')" by code_simp
  ultimately show ?thesis by blast
qed

text \<open>
  Every label the parser returns is well formed: its package and its name satisfy the name rules
  even after the trailing \<open>/.\<close> has been dropped, no such ending is left, and its repository is a legal
  name when the one of the context is.
\<close>

theorem parsed_label_legal:
  assumes "label_parse input ctx = Inr l" and "validate_repo_name (ctx_repo ctx) = Inr ()"
  shows "label_new (repo l) (package l) (lname l) = Inr l \<and> validate_repo_name (repo l) = Inr ()
    \<and> \<not> suffix ''/.'' (lname l)"
proof -
  obtain n where n: "validate_package_name (package l) = Inr ()" "validate_target_name n = Inr ()" "lname l = drop_dot n"
    and r: "repo l \<in> {ctx_repo ctx} \<union> {r. validate_repo_name r = Inr ()} \<union> (\<lambda>a. a) ` {r. validate_repo_name r = Inr ()}"
    using parse_mapped_Inr [OF assms(1) [unfolded label_parse_def]] by metis
  have "validate_repo_name (repo l) = Inr ()" using r assms(2) by auto
  then show ?thesis using n drop_dot_legal [OF n(2)] by (cases l) (simp add: label_new_def)
qed

theorem parsed_label_legal_witness:
  "label_parse ''@r//a/b:c/d/.'' \<lparr>ctx_repo = [], ctx_package = ''q''\<rparr> = Inr (Label ''r'' ''a/b'' ''c/d'')
   \<and> label_new ''r'' ''a/b'' ''c/d'' = Inr (Label ''r'' ''a/b'' ''c/d'')"
proof -
  have "label_parse ''@r//a/b:c/d/.'' \<lparr>ctx_repo = [], ctx_package = ''q''\<rparr> = Inr (Label ''r'' ''a/b'' ''c/d'')"
    and "validate_repo_name (ctx_repo \<lparr>ctx_repo = [], ctx_package = ''q''\<rparr>) = Inr ()" by code_simp+
  then show ?thesis using parsed_label_legal by fastforce
qed

text \<open>
  C11. Printing a parsed label and parsing what was printed, at the top of the main repository and in any
  package, gives the same label.
\<close>

theorem label_display_parse:
  assumes "label_parse input ctx = Inr l" and "validate_repo_name (ctx_repo ctx) = Inr ()"
  shows "label_parse (label_display l) \<lparr>ctx_repo = [], ctx_package = q\<rparr> = Inr l"
proof -
  obtain n where n: "validate_package_name (package l) = Inr ()" "validate_target_name n = Inr ()" "lname l = drop_dot n"
    and r: "repo l \<in> {ctx_repo ctx} \<union> {r. validate_repo_name r = Inr ()} \<union> (\<lambda>a. a) ` {r. validate_repo_name r = Inr ()}"
    using parse_mapped_Inr [OF assms(1) [unfolded label_parse_def]] by metis
  have "validate_repo_name (repo l) = Inr ()" using r assms(2) by auto
  then show ?thesis using n drop_dot_legal [OF n(2)] by (intro parse_label_display) simp_all
qed

theorem label_display_parse_witness:
  "label_parse '':x'' \<lparr>ctx_repo = ''r+'', ctx_package = ''a/b''\<rparr> = Inr (Label ''r+'' ''a/b'' ''x'')
   \<and> label_parse ''@r+//a/b:x'' \<lparr>ctx_repo = [], ctx_package = ''q''\<rparr> = Inr (Label ''r+'' ''a/b'' ''x'')"
proof -
  have "label_parse '':x'' \<lparr>ctx_repo = ''r+'', ctx_package = ''a/b''\<rparr> = Inr (Label ''r+'' ''a/b'' ''x'')"
    and "validate_repo_name (ctx_repo \<lparr>ctx_repo = ''r+'', ctx_package = ''a/b''\<rparr>) = Inr ()"
    and "label_display (Label ''r+'' ''a/b'' ''x'') = ''@r+//a/b:x''" by code_simp+
  then show ?thesis using label_display_parse by metis
qed

end
