(* ===== verification/Target_Pattern.thy ===== *)
theory Target_Pattern
  imports Labels
begin

text \<open>
  Target patterns (\<open>crates/fjfj-graph/src/pattern.rs\<close>): what an argument of a build command selects.
  The mapping of apparent repository names is a function the caller gives.
\<close>

section \<open>The parser\<close>

record pattern_context =
  pctx_repo :: string
  offset :: string

datatype pattern_error = LabelErr label_parse_error | WildcardTarget string

datatype pattern =
    Target label
  | InPackage string string bool
  | Below string string bool
  | Path string string

record target_pattern =
  tp_text :: string
  negative :: bool
  repo_written :: "string option"
  tp_pattern :: pattern

definition WILDCARD_TARGETS :: "string list" where
  "WILDCARD_TARGETS = [[], ''all'', ''*'', ''all-targets'']"

definition join_offset :: "string \<Rightarrow> string \<Rightarrow> string" where
  "join_offset off rest = (if off = [] then rest else if rest = [] then off else off @ ''/'' @ rest)"

definition package_error :: "string \<Rightarrow> label_error \<Rightarrow> pattern_error" where
  "package_error p e = LabelErr (PackageError p e None)"

definition pattern_repo :: "pattern \<Rightarrow> string" where
  "pattern_repo p = (case p of Target l \<Rightarrow> repo l | InPackage r _ _ \<Rightarrow> r | Below r _ _ \<Rightarrow> r | Path r _ \<Rightarrow> r)"

definition pattern_package :: "pattern \<Rightarrow> string" where
  "pattern_package p =
     (case p of Target l \<Rightarrow> package l | InPackage _ q _ \<Rightarrow> q | Below _ d _ \<Rightarrow> d | Path _ q \<Rightarrow> q)"

text \<open>The directory of a text that is \<open>...\<close> or ends in \<open>/...\<close>.\<close>

definition wildcard_dir :: "string \<Rightarrow> string" where
  "wildcard_dir package_text =
     (case strip_suffix ''...'' package_text of
        Some d \<Rightarrow> (case strip_suffix ''/'' d of Some e \<Rightarrow> e | None \<Rightarrow> d)
      | None \<Rightarrow> package_text)"

text \<open>What follows once the repository is known: the match on the text of the package and the target.\<close>

definition parse_body ::
  "string \<Rightarrow> label_context \<Rightarrow> (string \<Rightarrow> string) \<Rightarrow> string \<Rightarrow> string \<Rightarrow> (pattern_error, pattern) result" where
  "parse_body text lctx map_repo r rest =
     (let (absolute, body) = (case strip_prefix ''//'' rest of Some b \<Rightarrow> (True, b) | None \<Rightarrow> (False, rest));
          off = (if absolute then [] else ctx_package lctx);
          (package_text, target) = (case split_once CHR '':'' body of Some (p, t) \<Rightarrow> (p, Some t) | None \<Rightarrow> (body, None))
      in if package_text = ''...'' \<or> suffix ''/...'' package_text then
           (let dir = wildcard_dir package_text;
                wildcard = (case target of Some t \<Rightarrow> t | None \<Rightarrow> [])
            in if wildcard \<notin> set WILDCARD_TARGETS then Inl (WildcardTarget text)
               else and_then (map_err (package_error dir) (validate_package_name dir)) (\<lambda>_.
                    Inr (Below r (join_offset off dir) (wildcard = [] \<or> wildcard = ''all''))))
         else case target of
           Some t \<Rightarrow>
             (if t \<in> {''all'', ''*'', ''all-targets''} then
                and_then (map_err (package_error package_text) (validate_package_name package_text)) (\<lambda>_.
                Inr (InPackage r (join_offset off package_text) (t = ''all'')))
              else if \<not> absolute then
                and_then (map_err (package_error package_text) (validate_package_name package_text)) (\<lambda>_.
                and_then (map_err (\<lambda>e. LabelErr (TargetError t e)) (validate_target_name t)) (\<lambda>_.
                Inr (Target (Label r (join_offset off package_text)
                  (case strip_suffix ''/.'' t of Some m \<Rightarrow> m | None \<Rightarrow> t)))))
              else map_err LabelErr (and_then (parse_mapped text lctx map_repo) (\<lambda>l. Inr (Target l))))
         | None \<Rightarrow>
             (if \<not> absolute then
                and_then (map_err (\<lambda>e. LabelErr (TargetError text e)) (validate_target_name text)) (\<lambda>_.
                Inr (Path r (join_offset off
                  (if text = ''.'' then [] else case strip_suffix ''/.'' text of Some m \<Rightarrow> m | None \<Rightarrow> text))))
              else map_err LabelErr (and_then (parse_mapped text lctx map_repo) (\<lambda>l. Inr (Target l)))))"

definition target_pattern_parse ::
  "string \<Rightarrow> pattern_context \<Rightarrow> (string \<Rightarrow> string) \<Rightarrow> (pattern_error, target_pattern) result" where
  "target_pattern_parse input ctx map_repo =
     (let (neg, text) = (case strip_prefix ''-'' input of Some rest \<Rightarrow> (True, rest) | None \<Rightarrow> (False, input));
          lctx = \<lparr>ctx_repo = pctx_repo ctx, ctx_package = offset ctx\<rparr>;
          (written, apparent, rest, repo_only) = split_repo text;
          rw = map_option (\<lambda>_. take (length text - length rest) text) written;
          wrap = (\<lambda>p. \<lparr>tp_text = input, negative = neg, repo_written = rw, tp_pattern = p\<rparr>)
      in if repo_only then
           and_then (map_err LabelErr (parse_mapped text lctx map_repo)) (\<lambda>l. Inr (wrap (Target l)))
         else
           and_then (case written of
               Some r \<Rightarrow> and_then (map_err (\<lambda>e. LabelErr (RepoError r e)) (validate_repo_name r)) (\<lambda>_.
                 Inr (if apparent then map_repo r else r))
             | None \<Rightarrow> Inr (pctx_repo ctx)) (\<lambda>r.
           and_then (parse_body text lctx map_repo r rest) (\<lambda>p. Inr (wrap p))))"

section \<open>Joined names\<close>

lemma join_offset_legal:
  assumes "validate_package_name off = Inr ()"
  shows "validate_package_name (join_offset off p) = Inr () \<longleftrightarrow> validate_package_name p = Inr ()"
proof -
  have "is_package_char CHR ''/''" by code_simp
  then show ?thesis using assms by (auto simp: join_offset_def package_ok split_on_append_sep)
qed

lemma parse_mapped_package:
  "parse_mapped input ctx f = Inr l \<Longrightarrow> validate_package_name (package l) = Inr ()"
  by (erule parse_mapped_Inr)

lemma parse_mapped_name:
  "parse_mapped input ctx f = Inr l \<Longrightarrow> validate_target_name (lname l) = Inr ()"
  by (erule parse_mapped_Inr) (simp add: drop_dot_legal)

text \<open>A well-formed pattern: what it names is legal.\<close>

fun pattern_ok :: "string \<Rightarrow> pattern \<Rightarrow> bool" where
  "pattern_ok off (Target l) \<longleftrightarrow> validate_package_name (package l) = Inr () \<and> validate_target_name (lname l) = Inr ()"
| "pattern_ok off (InPackage r p b) \<longleftrightarrow> validate_package_name p = Inr ()"
| "pattern_ok off (Below r d b) \<longleftrightarrow> validate_package_name d = Inr ()"
| "pattern_ok off (Path r p) \<longleftrightarrow>
     p = off \<or> (\<exists>n. p = join_offset off n \<and> validate_target_name n = Inr () \<and> n \<noteq> ''.'' \<and> \<not> suffix ''/.'' n)"

lemma path_ok:
  assumes "validate_target_name t = Inr ()"
  shows "pattern_ok off (Path r (join_offset off (if t = ''.'' then [] else drop_dot t)))"
proof (cases "t = ''.''")
  case False
  have "drop_dot t \<noteq> ''.''"
  proof
    assume d: "drop_dot t = ''.''"
    then have "t = ''./.''" using False
      by (auto simp: drop_dot_def strip_suffix_Some split: option.splits)
    moreover have "validate_target_name ''./.'' \<noteq> Inr ()" by code_simp
    ultimately show False using assms by simp
  qed
  then show ?thesis using False drop_dot_legal [OF assms] by auto
qed (simp add: join_offset_def)

lemma parse_body_ok:
  assumes off: "validate_package_name (ctx_package lctx) = Inr ()" and p: "parse_body text lctx f r rest = Inr p"
  shows "pattern_ok (ctx_package lctx) p"
proof -
  obtain absolute body where b:
    "(case strip_prefix ''//'' rest of Some b \<Rightarrow> (True, b) | None \<Rightarrow> (False, rest)) = (absolute, body)" by fastforce
  obtain pt target where t:
    "(case split_once CHR '':'' body of Some (p, t) \<Rightarrow> (p, Some t) | None \<Rightarrow> (body, None)) = (pt, target)" by fastforce
  have "validate_package_name [] = Inr ()" by code_simp
  then have joined: "validate_package_name (join_offset (if absolute then [] else ctx_package lctx) q) = Inr ()"
    if "validate_package_name q = Inr ()" for q
    using that off join_offset_legal by simp
  show ?thesis
    using p joined path_ok [of "text" "ctx_package lctx" r] drop_dot_legal
    by (auto simp: parse_body_def b t Let_def and_then_Inr map_err_Inr parse_mapped_package parse_mapped_name
        drop_dot_def [symmetric] split: if_splits option.splits)
qed

section \<open>Relative and absolute patterns\<close>

lemma wildcard_dir_joined:
  assumes "p = ''...'' \<or> suffix ''/...'' p" "\<not> prefix ''/'' p"
  shows "wildcard_dir (join_offset off p) = join_offset off (wildcard_dir p)"
proof -
  consider "p = ''...''" | d where "p = d @ ''/...''" "d \<noteq> []"
  proof -
    assume h: "p = ''...'' \<Longrightarrow> thesis" "\<And>d. p = d @ ''/...'' \<Longrightarrow> d \<noteq> [] \<Longrightarrow> thesis"
    from assms(1) show thesis
    proof
      assume "suffix ''/...'' p"
      then obtain d where d: "p = d @ ''/...''" unfolding suffix_def ..
      moreover have "d \<noteq> []" using assms(2) d by (cases d) simp_all
      ultimately show thesis by (rule h(2))
    qed (rule h(1))
  qed
  then show ?thesis
  proof cases
    case 1
    have "strip_suffix ''...'' ''...'' = Some []" "strip_suffix ''/'' [] = None" by code_simp+
    moreover have "strip_suffix ''...'' (off @ ''/...'') = Some (off @ ''/'')" "strip_suffix ''/'' (off @ ''/'') = Some off"
      by (simp_all add: strip_suffix_Some)
    ultimately show ?thesis by (simp add: 1 wildcard_dir_def join_offset_def)
  next
    case 2
    have "strip_suffix ''...'' (x @ ''/...'') = Some (x @ ''/'')" "strip_suffix ''/'' (x @ ''/'') = Some x" for x
      by (simp_all add: strip_suffix_Some)
    note this [of d] this [of "off @ ''/'' @ d"]
    then show ?thesis using 2 by (simp add: wildcard_dir_def join_offset_def)
  qed
qed

lemma join_offset_wildcard:
  assumes "validate_package_name off = Inr ()" "\<not> prefix ''/'' p"
  shows "(join_offset off p = ''...'' \<or> suffix ''/...'' (join_offset off p)) \<longleftrightarrow> (p = ''...'' \<or> suffix ''/...'' p)"
proof (cases "off = [] \<or> p = []")
  case True
  then show ?thesis using package_wildcard [OF assms(1)] by (auto simp: join_offset_def)
next
  case False
  have key: "(s = ''...'' \<or> suffix ''/...'' s) \<longleftrightarrow> last (split_on CHR ''/'' s) = ''...''" for s
    using last_split [of "CHR ''/''" "''...''"] by simp
  show ?thesis unfolding key using False by (simp add: join_offset_def split_on_append_sep)
qed

lemma parse_body_relative:
  assumes off: "validate_package_name (ctx_package lctx) = Inr ()" and p: "CHR '':'' \<notin> set p" "\<not> prefix ''/'' p"
    and r: "r = ctx_repo lctx'" and j: "j = join_offset (ctx_package lctx) p"
  shows "parse_body (p @ '':'' @ t) lctx f r (p @ '':'' @ t) = Inr pat \<longleftrightarrow>
    parse_body (''//'' @ j @ '':'' @ t) lctx' f r (''//'' @ j @ '':'' @ t) = Inr pat"
proof -
  have jc: "CHR '':'' \<notin> set j" using p(1) package_no_colon [OF off] by (auto simp: j join_offset_def)
  have rel: "strip_prefix ''//'' (p @ '':'' @ t) = None" using p(2) by (cases p) (auto simp: strip_prefix_None)
  have abs: "strip_prefix ''//'' (''//'' @ j @ '':'' @ t) = Some (j @ '':'' @ t)" by (simp add: strip_prefix_Some)
  have so: "split_once CHR '':'' (p @ '':'' @ t) = Some (p, t)" "split_once CHR '':'' (j @ '':'' @ t) = Some (j, t)"
    using p(1) jc by (simp_all add: split_once_Some)
  note wild = join_offset_wildcard [OF off p(2), folded j]
  have nil: "join_offset [] x = x" for x by (simp add: join_offset_def)
  show ?thesis
  proof (cases "p = ''...'' \<or> suffix ''/...'' p")
    case True
    have "wildcard_dir j = join_offset (ctx_package lctx) (wildcard_dir p)"
      unfolding j by (rule wildcard_dir_joined [OF True p(2)])
    then show ?thesis
      using True wild by (simp add: parse_body_def Let_def rel [simplified] abs [simplified] so [simplified] nil and_then_Inr map_err_Inr join_offset_legal [OF off])
  next
    case False
    then have nw: "\<not> (j = ''...'' \<or> suffix ''/...'' j)" using wild by simp
    have "validate_package_name j = Inr () \<longleftrightarrow> validate_package_name p = Inr ()"
      unfolding j by (rule join_offset_legal [OF off])
    then show ?thesis
      using False nw parse_mapped_absolute [OF jc nw, of t lctx' f]
      by (auto simp: parse_body_def rel [simplified] abs [simplified] so [simplified] nil and_then_Inr map_err_Inr r j [symmetric] drop_dot_def [symmetric])
  qed
qed

section \<open>Properties\<close>

text \<open>
  Whatever a pattern parses to is well formed when the directory it is relative to is a legal
  package name: the package or directory it selects and the name of a target are legal, and a path is
  the directory joined with a legal name with no dot segment at the end.
\<close>

theorem parsed_pattern_legal:
  assumes "target_pattern_parse input ctx map_repo = Inr tp" and "validate_package_name (offset ctx) = Inr ()"
  shows "pattern_ok (offset ctx) (tp_pattern tp)"
proof -
  let ?lctx = "\<lparr>ctx_repo = pctx_repo ctx, ctx_package = offset ctx\<rparr>"
  obtain neg tx where n: "(case strip_prefix ''-'' input of Some rest \<Rightarrow> (True, rest) | None \<Rightarrow> (False, input)) = (neg, tx)"
    by fastforce
  obtain w ap rest ronly where s: "split_repo tx = (w, ap, rest, ronly)" by (metis prod_cases4)
  consider l where "parse_mapped tx ?lctx map_repo = Inr l" "tp_pattern tp = Target l"
    | r where "parse_body tx ?lctx map_repo r rest = Inr (tp_pattern tp)"
    using assms(1) by (auto simp: target_pattern_parse_def n s Let_def and_then_Inr map_err_Inr split: if_splits)
  then show ?thesis
    using parse_body_ok [of ?lctx] assms(2) by cases (auto simp: parse_mapped_package parse_mapped_name)
qed

theorem parsed_pattern_legal_witness:
  "target_pattern_parse ''-lib/...:*'' \<lparr>pctx_repo = [], offset = ''src''\<rparr> (\<lambda>r. r @ ''+'') =
     Inr \<lparr>tp_text = ''-lib/...:*'', negative = True, repo_written = None, tp_pattern = Below [] ''src/lib'' False\<rparr>
   \<and> validate_package_name ''src/lib'' = Inr ()"
proof -
  have "target_pattern_parse ''-lib/...:*'' \<lparr>pctx_repo = [], offset = ''src''\<rparr> (\<lambda>r. r @ ''+'') =
     Inr \<lparr>tp_text = ''-lib/...:*'', negative = True, repo_written = None, tp_pattern = Below [] ''src/lib'' False\<rparr>"
    and "validate_package_name (offset \<lparr>pctx_repo = [], offset = ''src''\<rparr>) = Inr ()" by code_simp+
  then show ?thesis using parsed_pattern_legal by fastforce
qed

text \<open>
  C19. A relative pattern with a colon, given in a subdirectory, selects exactly what the absolute
  pattern selects that one gets by joining the directory and the package, wildcards included, and it
  parses exactly when that one does. It holds for whatever directory the absolute pattern is given in.
\<close>

theorem relative_pattern_resolves:
  assumes "validate_package_name off = Inr ()" and "CHR '':'' \<notin> set p"
    and "\<not> prefix ''/'' p" and "\<not> prefix ''@'' p" and "\<not> prefix ''-'' p"
  shows "(\<exists>tp. target_pattern_parse (p @ '':'' @ t) \<lparr>pctx_repo = r, offset = off\<rparr> f = Inr tp \<and> tp_pattern tp = pat) \<longleftrightarrow>
    (\<exists>tp. target_pattern_parse (''//'' @ join_offset off p @ '':'' @ t) \<lparr>pctx_repo = r, offset = off'\<rparr> f = Inr tp
       \<and> tp_pattern tp = pat)"
proof -
  have np: "strip_prefix ''-'' (p @ '':'' @ t) = None" "strip_prefix ''@'' (p @ '':'' @ t) = None"
    using assms(4,5) by (cases p; auto simp: strip_prefix_None)+
  have na: "strip_prefix ''-'' (''//'' @ s) = None" "strip_prefix ''@'' (''//'' @ s) = None" for s
    by (simp_all add: strip_prefix_None)
  have *: "target_pattern_parse s \<lparr>pctx_repo = r, offset = o1\<rparr> f = Inr tp \<and> tp_pattern tp = pat \<longleftrightarrow>
      parse_body s \<lparr>ctx_repo = r, ctx_package = o1\<rparr> f r s = Inr pat
      \<and> tp = \<lparr>tp_text = s, negative = False, repo_written = None, tp_pattern = pat\<rparr>"
    if "strip_prefix ''-'' s = None" "strip_prefix ''@'' s = None" for s o1 tp
    using that by (auto simp: target_pattern_parse_def split_repo_def and_then_Inr)
  show ?thesis unfolding * [OF np] * [OF na]
    using parse_body_relative [of "\<lparr>ctx_repo = r, ctx_package = off\<rparr>" p r "\<lparr>ctx_repo = r, ctx_package = off'\<rparr>"] assms
    by simp
qed

theorem relative_pattern_resolves_witness:
  "\<exists>tp. target_pattern_parse ''//src/lib:x'' \<lparr>pctx_repo = [], offset = ''other''\<rparr> (\<lambda>r. r @ ''+'') = Inr tp
     \<and> tp_pattern tp = Target (Label [] ''src/lib'' ''x'')"
proof -
  have "\<exists>tp. target_pattern_parse ''lib:x'' \<lparr>pctx_repo = [], offset = ''src''\<rparr> (\<lambda>r. r @ ''+'') = Inr tp
      \<and> tp_pattern tp = Target (Label [] ''src/lib'' ''x'')"
    by (rule exI [of _ "\<lparr>tp_text = ''lib:x'', negative = False, repo_written = None,
          tp_pattern = Target (Label [] ''src/lib'' ''x'')\<rparr>"]) code_simp
  moreover have "validate_package_name ''src'' = Inr ()" "join_offset ''src'' ''lib'' = ''src/lib''" by code_simp+
  ultimately show ?thesis
    using relative_pattern_resolves [of "''src''" "''lib''" "''x''" "[]" "\<lambda>r. r @ ''+''" "Target (Label [] ''src/lib'' ''x'')" "''other''"]
    by simp
qed

end
