(* ===== verification/Visibility.thy ===== *)
theory Visibility
  imports Labels
begin

text \<open>
  Visibility (\<open>crates/fjfj-graph/src/visibility.rs\<close>): package specifications, the contents of a
  \<open>package_group\<close>, and whether a target may be used from a package. How a label of a group is resolved
  is a function the caller gives.
\<close>

section \<open>Specifications\<close>

datatype package_scope =
    Public
  | Repo string
  | Package string string
  | Subpackages string string

definition scope_contains :: "package_scope \<Rightarrow> string \<Rightarrow> string \<Rightarrow> bool" where
  "scope_contains scope rp pkg =
     (case scope of
        Public \<Rightarrow> True
      | Repo r \<Rightarrow> r = rp
      | Package r p \<Rightarrow> r = rp \<and> p = pkg
      | Subpackages r p \<Rightarrow> r = rp \<and> (p = [] \<or> pkg = p \<or>
          (case strip_prefix p pkg of Some rest \<Rightarrow> prefix ''/'' rest | None \<Rightarrow> False)))"

record package_spec =
  negated :: bool
  scope :: package_scope

datatype spec_error =
    NotAPackageSpec string
  | Malformed string
  | NamedTarget string string
  | SpecLabel label_parse_error

definition parse_scope :: "string \<Rightarrow> string \<Rightarrow> (spec_error, package_scope) result option" where
  "parse_scope body rp =
     (let parse = (\<lambda>s. map_err SpecLabel (label_parse s \<lparr>ctx_repo = rp, ctx_package = []\<rparr>))
      in if suffix ''//'' body then
           Some (and_then (parse (body @ '':x'')) (\<lambda>l. Inr (Package (repo l) [])))
         else case strip_suffix ''...'' body of
           Some pre \<Rightarrow>
             (case (if suffix ''//'' pre then Some pre else strip_suffix ''/'' pre) of
                None \<Rightarrow> None
              | Some root \<Rightarrow> Some (and_then (parse (root @ '':x'')) (\<lambda>l.
                  Inr (if package l = [] then Repo (repo l) else Subpackages (repo l) (package l)))))
         | None \<Rightarrow>
             (let named_a_target = CHR '':'' \<in> set body;
                  written = (case split_once CHR '':'' body of Some (_, n) \<Rightarrow> n | None \<Rightarrow> [])
              in if CHR '':'' \<in> set written then Some (Inl (NamedTarget body written))
                 else Some (and_then (parse body) (\<lambda>l.
                   if lname l = ''__subpackages__'' then Inr (Subpackages (repo l) (package l))
                   else if lname l = ''__pkg__'' then Inr (Package (repo l) (package l))
                   else if \<not> named_a_target then Inr (Package (repo l) (package l))
                   else Inl (NamedTarget body written)))))"

definition package_spec_parse :: "string \<Rightarrow> string \<Rightarrow> (spec_error, package_spec option) result" where
  "package_spec_parse spec rp =
     (let (neg, body) = (case strip_prefix ''-'' spec of Some b \<Rightarrow> (True, b) | None \<Rightarrow> (False, spec))
      in if body = ''public'' then Inr (Some \<lparr>negated = neg, scope = Public\<rparr>)
         else if body = ''private'' then Inr None
         else if prefix ''//'' body \<or> prefix ''@'' body then
           (case parse_scope body rp of
              None \<Rightarrow> Inl (Malformed spec)
            | Some res \<Rightarrow> and_then res (\<lambda>s. Inr (Some \<lparr>negated = neg, scope = s\<rparr>)))
         else Inl (NotAPackageSpec spec))"

section \<open>The visibility of a target\<close>

record package_group =
  specs :: "package_spec list"
  group_includes :: "label list"

datatype visibility_entry = Scope package_scope | Group label

text \<open>A \<open>Visibility\<close> is its one field, the list of its entries.\<close>

type_synonym visibility = "visibility_entry list"

definition visibility_private :: visibility where
  "visibility_private = []"

definition visibility_public :: visibility where
  "visibility_public = [Scope Public]"

text \<open>One item of the attribute: no entry for \<open>//visibility:private\<close>.\<close>

definition entry_of :: "label \<Rightarrow> visibility" where
  "entry_of l =
     (if package l = ''visibility'' \<and> lname l = ''public'' then [Scope Public]
      else if package l = ''visibility'' \<and> lname l = ''private'' then []
      else if lname l = ''__pkg__'' then [Scope (Package (repo l) (package l))]
      else if lname l = ''__subpackages__'' then [Scope (Subpackages (repo l) (package l))]
      else [Group l])"

fun visibility_parse :: "string list \<Rightarrow> label_context \<Rightarrow> (label_parse_error, visibility) result" where
  "visibility_parse [] ctx = Inr []"
| "visibility_parse (item # items) ctx =
     and_then (label_parse item ctx) (\<lambda>l.
     and_then (visibility_parse items ctx) (\<lambda>es. Inr (entry_of l @ es)))"

datatype visibility_error = NoSuchGroup label

fun scopes_of :: "visibility \<Rightarrow> package_scope list" where
  "scopes_of [] = []"
| "scopes_of (Scope s # es) = s # scopes_of es"
| "scopes_of (Group l # es) = scopes_of es"

fun groups_of :: "visibility \<Rightarrow> label list" where
  "groups_of [] = []"
| "groups_of (Scope s # es) = groups_of es"
| "groups_of (Group l # es) = l # groups_of es"

text \<open>
  The loop over the pending groups. The stack is kept with its top at the head, so \<open>extend\<close> puts the
  reversed list in front. The loop ends only if the groups do, hence the option: \<open>None\<close> is a loop that
  never returns.
\<close>

partial_function (option) collect_specs ::
  "(label \<Rightarrow> package_group option) \<Rightarrow> label list \<Rightarrow> label list \<Rightarrow> package_spec list
     \<Rightarrow> (visibility_error, package_spec list) result option" where
  [code]: "collect_specs grp pending seen sps =
     (case pending of
        [] \<Rightarrow> Some (Inr sps)
      | l # rest \<Rightarrow>
          if l \<in> set seen then collect_specs grp rest seen sps
          else case grp l of
            None \<Rightarrow> Some (Inl (NoSuchGroup l))
          | Some g \<Rightarrow> collect_specs grp (rev (group_includes g) @ rest) (l # seen) (sps @ specs g))"

definition is_visible ::
  "visibility \<Rightarrow> string \<times> string \<Rightarrow> string \<times> string \<Rightarrow> (label \<Rightarrow> package_group option)
     \<Rightarrow> (visibility_error, bool) result option" where
  "is_visible vis declared from_pkg grp =
     (if declared = from_pkg then Some (Inr True)
      else map_option (\<lambda>res. and_then res (\<lambda>sps.
        let (rp, pkg) = from_pkg;
            denied = list_ex (\<lambda>s. negated s \<and> scope_contains (scope s) rp pkg) sps;
            allowed = list_ex (\<lambda>s. scope_contains s rp pkg) (scopes_of vis)
              \<or> list_ex (\<lambda>s. \<not> negated s \<and> scope_contains (scope s) rp pkg) sps
        in Inr (allowed \<and> \<not> denied)))
        (collect_specs grp (rev (groups_of vis)) [] []))"

section \<open>The groups that count\<close>

text \<open>The groups of the entries and, transitively, the groups they include.\<close>

inductive_set included :: "(label \<Rightarrow> package_group option) \<Rightarrow> label set \<Rightarrow> label set"
  for grp :: "label \<Rightarrow> package_group option" and roots :: "label set" where
  root: "l \<in> roots \<Longrightarrow> l \<in> included grp roots"
| step: "l \<in> included grp roots \<Longrightarrow> grp l = Some g \<Longrightarrow> m \<in> set (group_includes g) \<Longrightarrow> m \<in> included grp roots"

definition specs_within :: "(label \<Rightarrow> package_group option) \<Rightarrow> label set \<Rightarrow> package_spec set" where
  "specs_within grp ls = {s. \<exists>l g. l \<in> ls \<and> grp l = Some g \<and> s \<in> set (specs g)}"

lemma specs_within_simps:
  "specs_within grp {} = {}"
  "grp l = Some g \<Longrightarrow> specs_within grp (insert l ls) = set (specs g) \<union> specs_within grp ls"
  by (auto simp: specs_within_def)

lemma included_least:
  assumes "roots \<subseteq> A" and "\<And>l g m. l \<in> A \<Longrightarrow> grp l = Some g \<Longrightarrow> m \<in> set (group_includes g) \<Longrightarrow> m \<in> A"
  shows "included grp roots \<subseteq> A"
proof
  fix l
  assume "l \<in> included grp roots"
  then show "l \<in> A" by induction (use assms in auto)
qed

text \<open>What the loop keeps: the visited groups are closed up to the pending ones.\<close>

definition frontier :: "(label \<Rightarrow> package_group option) \<Rightarrow> label set \<Rightarrow> label set \<Rightarrow> label set \<Rightarrow> bool" where
  "frontier grp roots seen pending \<longleftrightarrow> seen \<subseteq> dom grp \<and> seen \<union> pending \<subseteq> included grp roots \<and> roots \<subseteq> seen \<union> pending
     \<and> (\<forall>l g. l \<in> seen \<longrightarrow> grp l = Some g \<longrightarrow> set (group_includes g) \<subseteq> seen \<union> pending)"

lemma frontier_skip: "frontier grp roots seen (insert l ls) \<Longrightarrow> l \<in> seen \<Longrightarrow> frontier grp roots seen ls"
  by (simp add: frontier_def insert_absorb)

lemma frontier_visit:
  assumes "frontier grp roots seen (insert l ls)" "grp l = Some g"
  shows "frontier grp roots (insert l seen) (set (group_includes g) \<union> ls)"
  using assms included.step [of l grp roots g] unfolding frontier_def by (auto 0 3)

lemma frontier_done: "frontier grp roots seen {} \<Longrightarrow> seen = included grp roots"
  unfolding frontier_def using included_least [of roots seen grp] by blast

definition collected :: "(label \<Rightarrow> package_group option) \<Rightarrow> label set \<Rightarrow> (visibility_error, package_spec list) result \<Rightarrow> bool" where
  "collected grp roots res \<longleftrightarrow>
     (case res of
        Inr sps \<Rightarrow> included grp roots \<subseteq> dom grp \<and> set sps = specs_within grp (included grp roots)
      | Inl (NoSuchGroup l) \<Rightarrow> l \<in> included grp roots \<and> grp l = None)"

lemma collect_specs_collected:
  assumes "finite (dom grp)" "frontier grp roots (set seen) (set pending)" "set sps = specs_within grp (set seen)"
  shows "\<exists>res. collect_specs grp pending seen sps = Some res \<and> collected grp roots res"
  using assms(2,3)
proof (induction "card (dom grp - set seen)" arbitrary: seen pending sps rule: less_induct)
  case less
  note outer = less.hyps
  from less.prems show ?case
  proof (induction pending)
    case Nil
    then have "set seen = included grp roots" "set seen \<subseteq> dom grp"
      using frontier_done by (fastforce, simp add: frontier_def)
    then show ?case using Nil by (simp add: collect_specs.simps collected_def)
  next
    case (Cons l pending)
    show ?case
    proof (cases "l \<in> set seen")
      case True
      then show ?thesis using Cons frontier_skip [of grp roots "set seen" l]
        by (subst collect_specs.simps) simp
    next
      case new: False
      show ?thesis
      proof (cases "grp l")
        case None
        then show ?thesis using Cons.prems new
          by (subst collect_specs.simps) (simp add: collected_def frontier_def)
      next
        case (Some g)
        have "card (dom grp - set (l # seen)) < card (dom grp - set seen)"
          using assms(1) Some new by (intro psubset_card_mono) auto
        then have "\<exists>res. collect_specs grp (rev (group_includes g) @ pending) (l # seen) (sps @ specs g) = Some res
            \<and> collected grp roots res"
          using Cons.prems frontier_visit [of grp roots "set seen" l "set pending", OF _ Some] Some
          by (intro outer) (auto simp: specs_within_simps)
        then show ?thesis using Some new by (subst collect_specs.simps) simp
      qed
    qed
  qed
qed

lemma groups_collected:
  "finite (dom grp) \<Longrightarrow> \<exists>res. collect_specs grp (rev (groups_of vis)) [] [] = Some res \<and> collected grp (set (groups_of vis)) res"
  by (rule collect_specs_collected) (auto simp: frontier_def specs_within_simps intro: included.root)

section \<open>Properties\<close>

text \<open>
  The visibility check returns whenever finitely many labels name a group, also when groups
  include each other in a cycle.
\<close>

theorem visibility_terminates:
  assumes "finite (dom grp)"
  shows "\<exists>res. is_visible vis declared from_pkg grp = Some res"
  using groups_collected [OF assms, of vis] by (auto simp: is_visible_def)

text \<open>Two groups that include each other, the second of which excludes a subtree.\<close>

definition example_groups :: "label \<Rightarrow> package_group option" where
  "example_groups l =
     (if l = Label [] ''g'' ''a'' then Some \<lparr>specs = [\<lparr>negated = False, scope = Repo []\<rparr>], group_includes = [Label [] ''g'' ''b'']\<rparr>
      else if l = Label [] ''g'' ''b'' then
        Some \<lparr>specs = [\<lparr>negated = True, scope = Subpackages [] ''x''\<rparr>], group_includes = [Label [] ''g'' ''a'']\<rparr>
      else None)"

definition example_visibility :: visibility where
  "example_visibility = [Group (Label [] ''g'' ''a'')]"

lemma example_groups_finite: "finite (dom example_groups)"
  by (rule finite_subset [of _ "{Label [] ''g'' ''a'', Label [] ''g'' ''b''}"])
    (auto simp: example_groups_def split: if_splits)

theorem visibility_terminates_witness:
  "\<exists>res. is_visible example_visibility ([], ''p'') ([], ''x/y'') example_groups = Some res"
  by (rule visibility_terminates [OF example_groups_finite])

text \<open>
  C9. The check decides what the groups mean, whatever the order and the nesting of the entries: from
  another package, when every group reached through includes exists, the target is visible exactly when
  a scope of the attribute or a specification of a reached group matches the package and no negated
  specification of a reached group does. Otherwise the error names a reached label that is no group.
\<close>

theorem visibility_exact:
  assumes "finite (dom grp)" and "declared \<noteq> (rp, pkg)"
  shows "if included grp (set (groups_of vis)) \<subseteq> dom grp
    then is_visible vis declared (rp, pkg) grp = Some (Inr
      (((\<exists>s. Scope s \<in> set vis \<and> scope_contains s rp pkg)
        \<or> (\<exists>s \<in> specs_within grp (included grp (set (groups_of vis))). \<not> negated s \<and> scope_contains (scope s) rp pkg))
       \<and> \<not> (\<exists>s \<in> specs_within grp (included grp (set (groups_of vis))). negated s \<and> scope_contains (scope s) rp pkg)))
    else \<exists>l. l \<in> included grp (set (groups_of vis)) \<and> grp l = None
      \<and> is_visible vis declared (rp, pkg) grp = Some (Inl (NoSuchGroup l))"
proof -
  obtain res where res: "collect_specs grp (rev (groups_of vis)) [] [] = Some res" "collected grp (set (groups_of vis)) res"
    using groups_collected [OF assms(1)] by blast
  have scopes: "set (scopes_of vis) = {s. Scope s \<in> set vis}" by (induction vis rule: scopes_of.induct) auto
  show ?thesis
  proof (cases res)
    case (Inl e)
    then obtain l where "e = NoSuchGroup l" "l \<in> included grp (set (groups_of vis))" "grp l = None"
      using res(2) by (cases e) (auto simp: collected_def)
    then show ?thesis using res(1) Inl assms(2) by (auto simp: is_visible_def)
  next
    case (Inr sps)
    then show ?thesis using res assms(2)
      by (simp add: is_visible_def collected_def list_ex_iff scopes Bex_def)
  qed
qed

theorem visibility_exact_witness:
  "is_visible example_visibility ([], ''p'') ([], ''q'') example_groups = Some (Inr True)
   \<and> is_visible example_visibility ([], ''p'') ([], ''x/y'') example_groups = Some (Inr False)
   \<and> \<not> (\<exists>s \<in> specs_within example_groups (included example_groups (set (groups_of example_visibility))).
        negated s \<and> scope_contains (scope s) [] ''q'')"
proof -
  have v: "is_visible example_visibility ([], ''p'') ([], ''q'') example_groups = Some (Inr True)"
    "is_visible example_visibility ([], ''p'') ([], ''x/y'') example_groups = Some (Inr False)" by code_simp+
  have "([], ''p'') \<noteq> ([] :: string, ''q'')" by simp
  from visibility_exact [OF example_groups_finite this, of example_visibility] v show ?thesis
    by (auto split: if_splits)
qed

text \<open>
  The specification \<open>//p/...\<close> of a repository is the scope of \<open>p\<close> and everything below it: the
  packages whose path starts with the segments of \<open>p\<close>, so \<open>//p/...\<close> does not match \<open>pq\<close>.
\<close>

theorem spec_wildcard_scope:
  assumes "validate_package_name p = Inr ()" and "p \<noteq> []"
  shows "package_spec_parse (''//'' @ p @ ''/...'') r = Inr (Some \<lparr>negated = False, scope = Subpackages r p\<rparr>)
    \<and> (scope_contains (Subpackages r p) r q \<longleftrightarrow> prefix (split_on CHR ''/'' p) (split_on CHR ''/'' q))"
proof
  have l: "label_parse (''//'' @ p @ '':'' @ ''x'') \<lparr>ctx_repo = r, ctx_package = []\<rparr> = Inr (Label r p ''x'')"
  proof -
    have "validate_target_name ''x'' = Inr ()" "drop_dot ''x'' = ''x''" by code_simp+
    then show ?thesis unfolding label_parse_def
      using parse_mapped_absolute [OF package_no_colon package_wildcard] assms by simp
  qed
  have "\<not> suffix ''/'' p" using assms by (auto simp: package_ok empty_segment)
  then have "\<not> suffix ''/'' (''//'' @ p)" 
    using assms(2) suffix_snoc [of "''/''" "''//'' @ butlast p" "last p"] suffix_snoc [of "''/''" "butlast p" "last p"]
    by simp
  then have pre: "\<not> suffix ''//'' (''//'' @ p @ ''/'')"
    using suffix_snoc [of "''//''" "''//'' @ p" "CHR ''/''"] by simp
  have body: "\<not> suffix ''//'' (''//'' @ p @ ''/...'')"
    using suffix_snoc [of "''//''" "''//'' @ p @ ''/..''" "CHR ''.''"] by simp
  have "strip_suffix ''...'' (''//'' @ p @ ''/...'') = Some (''//'' @ p @ ''/'')"
    "strip_suffix ''/'' (''//'' @ p @ ''/'') = Some (''//'' @ p)" by (simp_all add: strip_suffix_Some)
  then have "parse_scope (''//'' @ p @ ''/...'') r = Some (Inr (Subpackages r p))"
    using pre body l assms(2) by (simp add: parse_scope_def map_err_def)
  then show "package_spec_parse (''//'' @ p @ ''/...'') r = Inr (Some \<lparr>negated = False, scope = Subpackages r p\<rparr>)"
    by (simp add: package_spec_parse_def strip_prefix_def)
next
  show "scope_contains (Subpackages r p) r q \<longleftrightarrow> prefix (split_on CHR ''/'' p) (split_on CHR ''/'' q)"
    unfolding prefix_split using assms(2)
    by (auto simp: scope_contains_def prefix_def strip_prefix_Some split: option.splits) (metis append.assoc append_Cons append_Nil option.distinct(1) strip_prefix_Some)
qed

theorem spec_wildcard_scope_witness:
  "package_spec_parse ''//a/b/...'' ''r'' = Inr (Some \<lparr>negated = False, scope = Subpackages ''r'' ''a/b''\<rparr>)
   \<and> scope_contains (Subpackages ''r'' ''a/b'') ''r'' ''a/b/c'' \<and> \<not> scope_contains (Subpackages ''r'' ''a/b'') ''r'' ''a/bc''"
proof -
  have ok: "validate_package_name ''a/b'' = Inr ()" "''a/b'' \<noteq> []" by code_simp+
  have "prefix (split_on CHR ''/'' ''a/b'') (split_on CHR ''/'' ''a/b/c'')"
    "\<not> prefix (split_on CHR ''/'' ''a/b'') (split_on CHR ''/'' ''a/bc'')" by code_simp+
  then show ?thesis
    using spec_wildcard_scope [OF ok, of "''r''" "''a/b/c''"] spec_wildcard_scope [OF ok, of "''r''" "''a/bc''"] by simp
qed

end
