(* ===== verification/Test_Suite.thy ===== *)
theory Test_Suite
  imports Labels "HOL-Library.Transitive_Closure_Table"
begin

text \<open>
  Test suites (\<open>crates/fjfj-graph/src/suite.rs\<close>): the tests a \<open>test_suite\<close> stands for. The trait that
  answers what a label is, is a record of two functions.
\<close>

section \<open>Expansion\<close>

record suite_test =
  test_tags :: "string list"
  test_size :: string

datatype suite_member =
    Test suite_test
  | Suite "label list" "string list"
  | OtherMember

record suites =
  suite_member_of :: "label \<Rightarrow> (string, suite_member) result"
  package_tests :: "label \<Rightarrow> (string, (label \<times> suite_test) list) result"

datatype suite_error =
    NotATest label label
  | Cycle "label list"
  | OtherError string

definition passes :: "string list \<Rightarrow> suite_test \<Rightarrow> bool" where
  "passes tags test =
     (let has = (\<lambda>tag. test_size test = tag \<or> tag \<in> set (test_tags test))
      in list_all (\<lambda>tag. case strip_prefix ''-'' tag of
           Some excluded \<Rightarrow> \<not> has excluded
         | None \<Rightarrow> tag = ''manual'' \<or> has tag) tags)"

text \<open>The first half of \<open>walk\<close>: the tags of a suite and what it lists.\<close>

definition listed :: "suites \<Rightarrow> label \<Rightarrow> (suite_error, string list \<times> (label \<times> suite_member) list) result" where
  "listed S suite =
     and_then (map_err OtherError (suite_member_of S suite)) (\<lambda>m. case m of
       Suite tests tags \<Rightarrow>
         (if tests = [] then
            and_then (map_err OtherError (package_tests S suite)) (\<lambda>ts.
            Inr (tags, map (\<lambda>(l, t). (l, Test t)) (filter (\<lambda>(_, t). ''manual'' \<notin> set (test_tags t)) ts)))
          else
            and_then (collect_results (map (\<lambda>l. and_then (map_err OtherError (suite_member_of S l)) (\<lambda>m. Inr (l, m))) tests))
              (\<lambda>ms. Inr (tags, ms)))
     | _ \<Rightarrow> Inl (OtherError (label_display suite @ '' is not a test_suite'')))"

text \<open>
  The loop of \<open>walk\<close> over what \<open>suite\<close> lists, with the suites on the path from the first one to it and
  the tests found so far; a nested suite is a call of \<open>walk\<close>, in the middle of the loop.
\<close>

partial_function (option) walk_members ::
  "suites \<Rightarrow> bool \<Rightarrow> label \<Rightarrow> string list \<Rightarrow> label list \<Rightarrow> (label \<times> suite_member) list \<Rightarrow> label list
     \<Rightarrow> (suite_error, label list) result option" where
  [code]: "walk_members S strict suite tags on_path ms out =
     (case ms of
        [] \<Rightarrow> Some (Inr out)
      | m # rest \<Rightarrow>
          (case snd m of
             Test test \<Rightarrow> walk_members S strict suite tags on_path rest (if passes tags test then out @ [fst m] else out)
           | Suite _ _ \<Rightarrow>
               (if fst m \<in> set on_path then
                  if \<not> strict then walk_members S strict suite tags on_path rest out
                  else Some (Inl (Cycle (dropWhile (\<lambda>l. l \<noteq> fst m) on_path @ [fst m])))
                else case listed S (fst m) of
                  Inl e \<Rightarrow> Some (Inl e)
                | Inr tms \<Rightarrow>
                    Option.bind (walk_members S strict (fst m) (fst tms) (on_path @ [fst m]) (snd tms) out) (\<lambda>r.
                    case r of Inl e \<Rightarrow> Some (Inl e) | Inr out' \<Rightarrow> walk_members S strict suite tags on_path rest out'))
           | OtherMember \<Rightarrow>
               (if strict then Some (Inl (NotATest suite (fst m)))
                else walk_members S strict suite tags on_path rest out)))"

definition walk :: "suites \<Rightarrow> label \<Rightarrow> bool \<Rightarrow> label list \<Rightarrow> label list \<Rightarrow> (suite_error, label list) result option" where
  "walk S suite strict on_path out =
     (case listed S suite of Inl e \<Rightarrow> Some (Inl e) | Inr (tags, ms) \<Rightarrow> walk_members S strict suite tags on_path ms out)"

fun retain_unseen :: "label list \<Rightarrow> label list \<Rightarrow> label list" where
  "retain_unseen seen [] = []"
| "retain_unseen seen (l # ls) =
     (if l \<in> set seen then retain_unseen seen ls else l # retain_unseen (l # seen) ls)"

definition expand :: "suites \<Rightarrow> label \<Rightarrow> bool \<Rightarrow> (suite_error, label list) result option" where
  "expand S suite strict =
     map_option (\<lambda>r. and_then r (\<lambda>out. Inr (retain_unseen [] out))) (walk S suite strict [suite] [])"

lemma walk_members_Nil: "walk_members S strict s tags path [] out = Some (Inr out)"
  by (simp add: walk_members.simps)

lemma walk_members_Test:
  "walk_members S strict s tags path ((l, Test test) # ms) out =
     walk_members S strict s tags path ms (if passes tags test then out @ [l] else out)"
  by (subst walk_members.simps) simp

lemma walk_members_Other:
  "walk_members S strict s tags path ((l, OtherMember) # ms) out =
     (if strict then Some (Inl (NotATest s l)) else walk_members S strict s tags path ms out)"
  by (subst walk_members.simps) simp

lemma walk_members_Suite:
  "walk_members S strict s tags path ((l, Suite ts us) # ms) out =
     (if l \<in> set path then
        if \<not> strict then walk_members S strict s tags path ms out
        else Some (Inl (Cycle (dropWhile (\<lambda>k. k \<noteq> l) path @ [l])))
      else Option.bind (walk S l strict (path @ [l]) out) (\<lambda>r.
        case r of Inl e \<Rightarrow> Some (Inl e) | Inr out' \<Rightarrow> walk_members S strict s tags path ms out'))"
  by (subst walk_members.simps) (simp add: walk_def split: sum.splits prod.splits)

lemmas walk_members_eqs = walk_members_Nil walk_members_Test walk_members_Other walk_members_Suite

section \<open>What a suite means\<close>

text \<open>The suites a suite lists, and the tests it lists itself that pass its tags.\<close>

definition lists_suite :: "suites \<Rightarrow> label \<Rightarrow> label \<Rightarrow> bool" where
  "lists_suite S s l \<longleftrightarrow> (\<exists>tags ms ts us. listed S s = Inr (tags, ms) \<and> (l, Suite ts us) \<in> set ms)"

definition own_test :: "suites \<Rightarrow> label \<Rightarrow> label \<Rightarrow> bool" where
  "own_test S s l \<longleftrightarrow> (\<exists>tags ms test. listed S s = Inr (tags, ms) \<and> (l, Test test) \<in> set ms \<and> passes tags test)"

definition stands_for :: "suites \<Rightarrow> label \<Rightarrow> label set" where
  "stands_for S root = {l. \<exists>s. (lists_suite S)\<^sup>*\<^sup>* root s \<and> own_test S s l}"

text \<open>What a walk finds that is not allowed to come back to the suites of \<open>P\<close>.\<close>

inductive finds :: "suites \<Rightarrow> label set \<Rightarrow> label \<Rightarrow> label \<Rightarrow> bool" for S where
  own: "own_test S s l \<Longrightarrow> finds S P s l"
| nested: "lists_suite S s t \<Longrightarrow> t \<notin> P \<Longrightarrow> finds S (insert t P) t l \<Longrightarrow> finds S P s l"

lemma finds_reach: "finds S P s l \<Longrightarrow> \<exists>t. (lists_suite S)\<^sup>*\<^sup>* s t \<and> own_test S t l"
proof (induction rule: finds.induct)
  case (nested s t P l)
  then show ?case by (meson converse_rtranclp_into_rtranclp)
qed blast

lemma path_finds:
  "rtrancl_path (lists_suite S) s xs t \<Longrightarrow> distinct xs \<Longrightarrow> set xs \<inter> P = {} \<Longrightarrow> own_test S t l \<Longrightarrow> finds S P s l"
proof (induction arbitrary: P rule: rtrancl_path.induct)
  case (step s y ys t)
  then have "finds S (insert y P) y l" by auto
  then show ?case using step finds.nested by auto
qed (rule finds.own)

lemma finds_stands_for: "finds S {root} root l \<longleftrightarrow> l \<in> stands_for S root"
proof
  assume "l \<in> stands_for S root"
  then obtain t where t: "(lists_suite S)\<^sup>*\<^sup>* root t" "own_test S t l" by (auto simp: stands_for_def)
  then obtain xs where "rtrancl_path (lists_suite S) root xs t" "distinct (root # xs)"
    by (metis rtranclp_eq_rtrancl_path rtrancl_path_distinct)
  then show "finds S {root} root l" using path_finds [of S root xs t] t(2) by simp
qed (use finds_reach in \<open>auto simp: stands_for_def\<close>)

text \<open>The same for a part of what a suite lists.\<close>

definition finds_in :: "suites \<Rightarrow> label set \<Rightarrow> string list \<Rightarrow> (label \<times> suite_member) list \<Rightarrow> label set" where
  "finds_in S P tags ms =
     {l. \<exists>test. (l, Test test) \<in> set ms \<and> passes tags test}
     \<union> {l. \<exists>t ts us. (t, Suite ts us) \<in> set ms \<and> t \<notin> P \<and> finds S (insert t P) t l}"

lemma finds_in_listed:
  assumes "listed S s = Inr (tags, ms)"
  shows "finds_in S P tags ms = {l. finds S P s l}"
proof -
  have "lists_suite S s t \<longleftrightarrow> (\<exists>ts us. (t, Suite ts us) \<in> set ms)"
    "own_test S s t \<longleftrightarrow> (\<exists>test. (t, Test test) \<in> set ms \<and> passes tags test)" for t
    using assms by (auto simp: lists_suite_def own_test_def)
  then show ?thesis unfolding finds.simps [of S P s] by (auto simp: finds_in_def)
qed

lemma finds_in_Nil: "finds_in S P tags [] = {}"
  by (simp add: finds_in_def)

lemma finds_in_Cons:
  "finds_in S P tags ((l, m) # ms) = (case m of
       Test test \<Rightarrow> (if passes tags test then {l} else {})
     | Suite ts us \<Rightarrow> (if l \<in> P then {} else {x. finds S (insert l P) l x})
     | OtherMember \<Rightarrow> {}) \<union> finds_in S P tags ms"
  by (auto simp: finds_in_def split: suite_member.splits)

section \<open>The walk\<close>

text \<open>
  Induction along a walk: over what is left of a list, and for a suite of \<open>F\<close> that is not on the path,
  over every walk with that suite on the path as well.
\<close>

lemma walk_induct [consumes 1, case_names Nil Cons]:
  assumes "finite F" and nil: "\<And>s tags path out. Q s tags path [] out"
    and cons: "\<And>s tags path l m ms out. (\<And>out. Q s tags path ms out) \<Longrightarrow>
      (\<And>s tags ms out. l \<in> F \<Longrightarrow> l \<notin> set path \<Longrightarrow> Q s tags (path @ [l]) ms out) \<Longrightarrow> Q s tags path ((l, m) # ms) out"
  shows "Q s tags path ms out"
proof (induction "card (F - set path)" arbitrary: s tags path ms out rule: less_induct)
  case (less path s tags ms out)
  note outer = less.hyps
  show ?case
  proof (induction ms arbitrary: out)
    case (Cons p ms out)
    obtain l m where p: "p = (l, m)" by fastforce
    have "card (F - set (path @ [l])) < card (F - set path)" if "l \<in> F" "l \<notin> set path"
      using that \<open>finite F\<close> by (intro psubset_card_mono) auto
    then show ?case unfolding p using Cons outer by (intro cons) blast+
  qed (rule nil)
qed

definition suites_of :: "suites \<Rightarrow> label set" where
  "suites_of S = {l. \<exists>ts us. suite_member_of S l = Inr (Suite ts us)}"

lemma listed_member:
  assumes "listed S s = Inr (tags, ms)" "(l, Suite ts us) \<in> set ms"
  shows "l \<in> suites_of S"
proof -
  obtain m where m: "suite_member_of S s = Inr m"
    using assms(1) by (cases "suite_member_of S s") (simp_all add: listed_def map_err_def)
  then obtain tests where "m = Suite tests tags"
    using assms(1) by (cases m) (auto simp: listed_def map_err_def and_then_Inr split: if_splits)
  note tests = m [unfolded this]
  show ?thesis
  proof (cases "tests = []")
    case True
    then show ?thesis using assms tests by (auto simp: listed_def and_then_Inr map_err_def)
  next
    case False
    then have "collect_results (map (\<lambda>l. and_then (map_err OtherError (suite_member_of S l)) (\<lambda>m. Inr (l, m))) tests) = Inr ms"
      using assms(1) tests by (auto simp: listed_def and_then_Inr map_err_def)
    then have "map (\<lambda>l. and_then (map_err OtherError (suite_member_of S l)) (\<lambda>m. Inr (l, m))) tests = map Inr ms"
      by (simp add: collect_results_Inr)
    from arg_cong [OF this, of set]
    have "Inr (l, Suite ts us) \<in> (\<lambda>l. and_then (map_err OtherError (suite_member_of S l)) (\<lambda>m. Inr (l, m))) ` set tests"
      using assms(2) by simp
    then obtain k where "and_then (map_err OtherError (suite_member_of S k)) (\<lambda>m. Inr (k, m)) = Inr (l, Suite ts us)" by auto
    then show ?thesis by (auto simp: suites_of_def and_then_Inr map_err_Inr)
  qed
qed

lemma listed_error:
  assumes "listed S s = Inl e"
  shows "\<exists>msg. e = OtherError msg"
proof (cases "suite_member_of S s")
  case (Inr m)
  have "\<exists>msg. e = OtherError msg"
    if "collect_results (map (\<lambda>l. and_then (map_err OtherError (suite_member_of S l)) (\<lambda>m. Inr (l, m))) tests) = Inl e" for tests
    using collect_results_Inl [OF that] by (auto simp: and_then_Inl map_err_Inl eq_commute [of "Inl e"])
  then show ?thesis using assms Inr
    by (cases m) (auto simp: listed_def map_err_def [of _ "Inr _"] and_then_Inl map_err_Inl split: if_splits)
qed (use assms in \<open>auto simp: listed_def map_err_def\<close>)

text \<open>A part of what a suite lists.\<close>

definition part_of :: "suites \<Rightarrow> label \<Rightarrow> string list \<Rightarrow> (label \<times> suite_member) list \<Rightarrow> bool" where
  "part_of S s tags ms \<longleftrightarrow> (\<exists>all_ms. listed S s = Inr (tags, all_ms) \<and> set ms \<subseteq> set all_ms)"

lemma part_of_Cons: "part_of S s tags ((l, m) # ms) \<Longrightarrow> part_of S s tags ms"
  by (auto simp: part_of_def)

lemma part_of_listed: "listed S s = Inr (tags, ms) \<Longrightarrow> part_of S s tags ms"
  by (simp add: part_of_def)

lemma part_of_suite:
  "part_of S s tags ((l, Suite ts us) # ms) \<Longrightarrow> l \<in> suites_of S \<and> lists_suite S s l"
  using listed_member by (fastforce simp: part_of_def lists_suite_def)

lemma walk_members_returns:
  assumes "finite (suites_of S)" "part_of S s tags ms"
  shows "\<exists>r. walk_members S strict s tags path ms out = Some r"
  using assms
proof (induction s tags path ms out rule: walk_induct)
  case (Nil s tags path out)
  show ?case by (simp add: walk_members_eqs)
next
  case (Cons s tags path l m ms out)
  have rest: "\<exists>r. walk_members S strict s tags path ms out = Some r" for out
    using Cons part_of_Cons by blast
  show ?case
  proof (cases m)
    case (Suite ts us)
    then have l: "l \<in> suites_of S" using Cons.prems part_of_suite by blast
    have "\<exists>r. walk S l strict (path @ [l]) out = Some r" if "l \<notin> set path"
    proof (cases "listed S l")
      case (Inr tms)
      then show ?thesis
        using Cons.IH(2) [OF l that] part_of_listed [of S l "fst tms" "snd tms"] by (simp add: walk_def split_beta)
    qed (simp add: walk_def)
    then have "l \<notin> set path \<Longrightarrow> \<exists>r. Option.bind (walk S l strict (path @ [l]) out) (\<lambda>r.
        case r of Inl e \<Rightarrow> Some (Inl e) | Inr out' \<Rightarrow> walk_members S strict s tags path ms out') = Some r"
      using rest by (auto split: sum.splits)
    then show ?thesis using rest [of out] Suite by (auto simp: walk_members_eqs)
  qed (use rest in \<open>cases strict; simp add: walk_members_eqs\<close>)+
qed

lemma walk_returns: "finite (suites_of S) \<Longrightarrow> \<exists>r. walk S s strict path out = Some r"
  using walk_members_returns part_of_listed by (fastforce simp: walk_def split: sum.splits)

text \<open>Without \<open>strict\<close>, and with every reached suite listed, the walk finds what it should.\<close>

lemma walk_members_finds:
  assumes "finite (suites_of S)" "part_of S s tags ms" "\<And>t. (lists_suite S)\<^sup>*\<^sup>* s t \<Longrightarrow> is_ok (listed S t)"
  shows "\<exists>out'. walk_members S False s tags path ms out = Some (Inr (out @ out')) \<and> set out' = finds_in S (set path) tags ms"
  using assms
proof (induction s tags path ms out rule: walk_induct)
  case (Nil s tags path out)
  show ?case by (simp add: walk_members_eqs finds_in_Nil)
next
  case (Cons s tags path l m ms out)
  have rest: "\<exists>out'. walk_members S False s tags path ms out = Some (Inr (out @ out')) \<and> set out' = finds_in S (set path) tags ms"
    for out using Cons part_of_Cons by blast
  show ?case
  proof (cases m)
    case (Test test)
    then show ?thesis using rest [of "if passes tags test then out @ [l] else out"]
      by (force simp: walk_members_eqs finds_in_Cons)
  next
    case (Suite ts us)
    show ?thesis
    proof (cases "l \<in> set path")
      case new: False
      have l: "l \<in> suites_of S" "lists_suite S s l" using Cons.prems Suite part_of_suite by blast+
      then have reach: "is_ok (listed S t)" if "(lists_suite S)\<^sup>*\<^sup>* l t" for t
        using Cons.prems(2) that by (meson converse_rtranclp_into_rtranclp)
      then obtain tags' ms' where ls: "listed S l = Inr (tags', ms')" by (metis is_ok_def rtranclp.rtrancl_refl surj_pair)
      obtain found where found: "walk S l False (path @ [l]) out = Some (Inr (out @ found))"
        "set found = {x. finds S (insert l (set path)) l x}"
        using Cons.IH(2) [OF l(1) new part_of_listed [OF ls] reach, of out] finds_in_listed [OF ls] by (auto simp: walk_def ls)
      then show ?thesis using rest [of "out @ found"] new Suite
        by (auto simp: walk_members_eqs finds_in_Cons)
    qed (use rest [of out] Suite in \<open>simp add: walk_members_eqs finds_in_Cons\<close>)
  qed (use rest [of out] in \<open>simp add: walk_members_eqs finds_in_Cons\<close>)
qed

text \<open>A strict walk that succeeds does what the other one does.\<close>

lemma walk_members_strict:
  assumes "finite (suites_of S)" "part_of S s tags ms" "walk_members S True s tags path ms out = Some (Inr out')"
  shows "walk_members S False s tags path ms out = Some (Inr out')"
  using assms
proof (induction s tags path ms out arbitrary: out' rule: walk_induct)
  case (Nil s tags path out)
  then show ?case by (simp add: walk_members_eqs)
next
  case (Cons s tags path l m ms out)
  note rest = Cons.IH(1) [OF part_of_Cons [OF Cons.prems(1)]]
  show ?case
  proof (cases m)
    case (Suite ts us)
    then have l: "l \<in> suites_of S" using Cons.prems part_of_suite by blast
    obtain found where new: "l \<notin> set path" and strict: "walk S l True (path @ [l]) out = Some (Inr found)"
      "walk_members S True s tags path ms found = Some (Inr out')"
      using Cons.prems(2) Suite
      by (cases "walk S l True (path @ [l]) out"; cases "the (walk S l True (path @ [l]) out)")
        (auto simp: walk_members_eqs split: if_splits)
    then have "walk S l False (path @ [l]) out = Some (Inr found)"
      using Cons.IH(2) [OF l new part_of_listed] by (auto simp: walk_def split: sum.splits)
    then show ?thesis using Suite new rest [OF strict(2)] by (simp add: walk_members_eqs)
  qed (use rest Cons.prems(2) in \<open>simp_all add: walk_members_eqs\<close>)
qed

text \<open>The errors of a walk say what is the case.\<close>

definition lists_other :: "suites \<Rightarrow> label \<Rightarrow> label \<Rightarrow> bool" where
  "lists_other S s l \<longleftrightarrow> (\<exists>tags ms. listed S s = Inr (tags, ms) \<and> (l, OtherMember) \<in> set ms)"

definition truthful :: "suites \<Rightarrow> bool \<Rightarrow> label \<Rightarrow> suite_error \<Rightarrow> bool" where
  "truthful S strict root e =
     (case e of
        NotATest s l \<Rightarrow> strict \<and> (lists_suite S)\<^sup>*\<^sup>* root s \<and> lists_other S s l
      | Cycle p \<Rightarrow> strict \<and> 2 \<le> length p \<and> hd p = last p \<and> successively (lists_suite S) p \<and> (lists_suite S)\<^sup>*\<^sup>* root (hd p)
      | OtherError _ \<Rightarrow> \<exists>s. (lists_suite S)\<^sup>*\<^sup>* root s \<and> listed S s = Inl e)"

text \<open>A path of suites from the first one to the current one.\<close>

definition suite_path :: "suites \<Rightarrow> label \<Rightarrow> label \<Rightarrow> label list \<Rightarrow> bool" where
  "suite_path S root s path \<longleftrightarrow> path \<noteq> [] \<and> hd path = root \<and> last path = s \<and> successively (lists_suite S) path"

lemma suite_path_snoc: "suite_path S root s path \<Longrightarrow> lists_suite S s l \<Longrightarrow> suite_path S root l (path @ [l])"
  by (auto simp: suite_path_def successively_append_iff)

lemma successively_reach: "successively r xs \<Longrightarrow> x \<in> set xs \<Longrightarrow> r\<^sup>*\<^sup>* (hd xs) x"
proof (induction xs rule: induct_list012)
  case (3 a b xs)
  then show ?case by (auto intro: converse_rtranclp_into_rtranclp)
qed auto

lemma suite_path_reach: "suite_path S root s path \<Longrightarrow> x \<in> set path \<Longrightarrow> (lists_suite S)\<^sup>*\<^sup>* root x"
  using successively_reach by (fastforce simp: suite_path_def)

lemma cycle_truthful:
  assumes "suite_path S root s path" "l \<in> set path" "lists_suite S s l"
  shows "truthful S True root (Cycle (dropWhile (\<lambda>k. k \<noteq> l) path @ [l]))"
proof -
  obtain us vs where uv: "path = us @ l # vs" "l \<notin> set us" using split_list_first [OF assms(2)] by blast
  have d: "dropWhile (\<lambda>k. k \<noteq> l) path = l # vs" using uv by (simp add: dropWhile_append)
  have "successively (lists_suite S) (l # vs @ [l])"
    using assms(1,3) successively_append_iff [of _ "l # vs" "[l]"] unfolding suite_path_def uv
    by (auto simp: successively_append_iff)
  then show ?thesis using suite_path_reach [OF assms(1,2)] by (simp add: truthful_def d)
qed

lemma walk_members_error:
  assumes "finite (suites_of S)" "part_of S s tags ms" "suite_path S root s path"
    "walk_members S strict s tags path ms out = Some (Inl e)"
  shows "truthful S strict root e"
  using assms
proof (induction s tags path ms out rule: walk_induct)
  case (Nil s tags path out)
  then show ?case by (simp add: walk_members_eqs)
next
  case (Cons s tags path l m ms out)
  note rest = Cons.IH(1) [OF part_of_Cons [OF Cons.prems(1)] Cons.prems(2)]
  have reach: "(lists_suite S)\<^sup>*\<^sup>* root s" using Cons.prems(2) suite_path_reach by (fastforce simp: suite_path_def)
  show ?case
  proof (cases m)
    case (Test test)
    then show ?thesis using Cons.prems(3) rest by (simp add: walk_members_eqs)
  next
    case OtherMember
    then have "lists_other S s l" using Cons.prems(1) by (auto simp: part_of_def lists_other_def)
    then show ?thesis using Cons.prems(3) rest reach OtherMember
      by (auto simp: walk_members_eqs truthful_def split: if_splits)
  next
    case (Suite ts us)
    then have l: "l \<in> suites_of S" "lists_suite S s l" using Cons.prems part_of_suite by blast+
    show ?thesis
    proof (cases "l \<in> set path")
      case True
      then show ?thesis using Cons.prems rest Suite cycle_truthful [OF Cons.prems(2) True l(2)]
        by (cases strict) (auto simp: walk_members_eqs)
    next
      case new: False
      note path = suite_path_snoc [OF Cons.prems(2) l(2)]
      have "truthful S strict root e" if "walk S l strict (path @ [l]) out = Some (Inl e)"
      proof (cases "listed S l")
        case (Inl e')
        then have "\<exists>msg. e' = OtherError msg" by (rule listed_error)
        moreover have "(lists_suite S)\<^sup>*\<^sup>* root l" using reach l(2) by (rule rtranclp.rtrancl_into_rtrancl)
        ultimately show ?thesis using that Inl by (auto simp: walk_def truthful_def)
      next
        case (Inr tms)
        then show ?thesis
          using that Cons.IH(2) [OF l(1) new _ path] part_of_listed [of S l "fst tms" "snd tms"]
          by (simp add: walk_def split_beta)
      qed
      then show ?thesis using Cons.prems(3) Suite new rest
        by (cases "walk S l strict (path @ [l]) out"; cases "the (walk S l strict (path @ [l]) out)")
          (auto simp: walk_members_eqs)
    qed
  qed
qed

lemma set_retain_unseen: "set (retain_unseen seen ls) = set ls - set seen"
  by (induction seen ls rule: retain_unseen.induct) auto

lemma distinct_retain_unseen: "distinct (retain_unseen seen ls)"
  by (induction seen ls rule: retain_unseen.induct) (auto simp: set_retain_unseen)

section \<open>Properties\<close>

text \<open>
  C20. Expanding a suite leniently returns, also when suites list each other in a cycle, and gives each
  test once: exactly those that a suite reached from it lists itself and that pass that suite's own
  tags. It needs finitely many suites and that what the reached suites list can be looked up.
\<close>

theorem suite_expand_exact:
  assumes "finite (suites_of S)" and "\<And>s. (lists_suite S)\<^sup>*\<^sup>* root s \<Longrightarrow> is_ok (listed S s)"
  shows "\<exists>out. expand S root False = Some (Inr out) \<and> distinct out \<and> set out = stands_for S root"
proof -
  obtain tags ms where l: "listed S root = Inr (tags, ms)"
    using assms(2) by (metis is_ok_def rtranclp.rtrancl_refl surj_pair)
  then obtain out where "walk S root False [root] [] = Some (Inr out)" "set out = {l. finds S {root} root l}"
    using walk_members_finds [OF assms(1) part_of_listed [OF l] assms(2), of "[root]" "[]"] finds_in_listed [OF l]
    by (auto simp: walk_def)
  then show ?thesis
    by (simp add: expand_def set_retain_unseen distinct_retain_unseen finds_stands_for)
qed

text \<open>
  Expanding a suite strictly returns as well. When it succeeds, it gives what the lenient expansion
  gives. When it fails, the error is true: the member it names is listed by a suite that is reached and
  is no test, the suites it names lead, each listing the next, back to the first of them, or a suite that
  is reached could not be read.
\<close>

theorem suite_strict_truthful:
  assumes "finite (suites_of S)"
  shows "\<exists>res. expand S root True = Some res
    \<and> (case res of Inr out \<Rightarrow> expand S root False = Some (Inr out) | Inl e \<Rightarrow> truthful S True root e)"
proof (cases "listed S root")
  case (Inl e)
  then show ?thesis using listed_error [OF Inl] by (auto simp: expand_def walk_def truthful_def)
next
  case (Inr tms)
  have part: "part_of S root (fst tms) (snd tms)" using Inr by (intro part_of_listed) simp
  have path: "suite_path S root root [root]" by (simp add: suite_path_def)
  obtain res where res: "walk S root True [root] [] = Some res" using walk_returns [OF assms] by blast
  then have w: "walk_members S True root (fst tms) [root] (snd tms) [] = Some res"
    using Inr by (simp add: walk_def split_beta)
  show ?thesis
  proof (cases res)
    case (Inl e)
    then show ?thesis using res walk_members_error [OF assms part path] w by (simp add: expand_def)
  next
    case out: (Inr out)
    then have "walk S root False [root] [] = Some (Inr out)"
      using walk_members_strict [OF assms part] w Inr by (simp add: walk_def split_beta)
    then show ?thesis using res out by (simp add: expand_def)
  qed
qed

text \<open>Two suites that list each other, each with a test, the second with a filter.\<close>

definition example_suites :: suites where
  "example_suites = \<lparr>
     suite_member_of = (\<lambda>l.
       if l = Label [] [] ''s'' then Inr (Suite [Label [] [] ''a'', Label [] [] ''t''] [])
       else if l = Label [] [] ''t'' then Inr (Suite [Label [] [] ''b'', Label [] [] ''c'', Label [] [] ''s''] [''-slow''])
       else if l = Label [] [] ''b'' then Inr (Test \<lparr>test_tags = [''slow''], test_size = ''large''\<rparr>)
       else Inr (Test \<lparr>test_tags = [], test_size = ''small''\<rparr>)),
     package_tests = (\<lambda>_. Inr [])\<rparr>"

lemma example_suites_finite: "finite (suites_of example_suites)"
  by (rule finite_subset [of _ "{Label [] [] ''s'', Label [] [] ''t''}"])
    (auto simp: suites_of_def example_suites_def split: if_splits)

lemma example_listed:
  "listed example_suites (Label [] [] ''s'') =
     Inr ([], [(Label [] [] ''a'', Test \<lparr>test_tags = [], test_size = ''small''\<rparr>),
       (Label [] [] ''t'', Suite [Label [] [] ''b'', Label [] [] ''c'', Label [] [] ''s''] [''-slow''])])"
  "is_ok (listed example_suites (Label [] [] ''t''))"
  by (simp_all add: listed_def example_suites_def map_err_def is_ok_def)

theorem suite_expand_exact_witness:
  "expand example_suites (Label [] [] ''s'') False = Some (Inr [Label [] [] ''a'', Label [] [] ''c''])
   \<and> stands_for example_suites (Label [] [] ''s'') = {Label [] [] ''a'', Label [] [] ''c''}"
proof -
  have e: "expand example_suites (Label [] [] ''s'') False = Some (Inr [Label [] [] ''a'', Label [] [] ''c''])" by code_simp
  have "t \<in> {Label [] [] ''s'', Label [] [] ''t''}" if "(lists_suite example_suites)\<^sup>*\<^sup>* (Label [] [] ''s'') t" for t
    using that
  proof (induction rule: rtranclp_induct)
    case (step y z)
    then have "z \<in> suites_of example_suites" using listed_member by (fastforce simp: lists_suite_def)
    then show ?case by (auto simp: suites_of_def example_suites_def split: if_splits)
  qed simp
  then have "is_ok (listed example_suites t)" if "(lists_suite example_suites)\<^sup>*\<^sup>* (Label [] [] ''s'') t" for t
    using that example_listed by (fastforce simp: is_ok_def)
  then have "\<exists>out. expand example_suites (Label [] [] ''s'') False = Some (Inr out) \<and> distinct out
      \<and> set out = stands_for example_suites (Label [] [] ''s'')"
    by (rule suite_expand_exact [OF example_suites_finite])
  then show ?thesis using e by auto
qed

theorem suite_strict_truthful_witness:
  "expand example_suites (Label [] [] ''s'') True =
     Some (Inl (Cycle [Label [] [] ''s'', Label [] [] ''t'', Label [] [] ''s'']))
   \<and> lists_suite example_suites (Label [] [] ''t'') (Label [] [] ''s'')"
proof -
  have e: "expand example_suites (Label [] [] ''s'') True =
     Some (Inl (Cycle [Label [] [] ''s'', Label [] [] ''t'', Label [] [] ''s'']))" by code_simp
  with suite_strict_truthful [OF example_suites_finite, of "Label [] [] ''s''"] show ?thesis
    by (simp add: truthful_def)
qed

end
