(* ===== verification/Artifacts.thy ===== *)
theory Artifacts
  imports Rust_Str
begin

text \<open>
  Files of a build (\<open>crates/fjfj-graph/src/artifact.rs\<close>): where an artifact is, the runfiles of a binary,
  and the nested sets that hold them. A nested set is shared by reference and skipped by reference when
  it is listed, so each carries its address.
\<close>

section \<open>Artifacts\<close>

record root =
  root_prefix :: string
  root_source :: bool

definition source_of :: "string \<Rightarrow> root" where
  "source_of rp = \<lparr>root_prefix = (if rp = [] then [] else ''external/'' @ rp), root_source = True\<rparr>"

definition derived_root :: "string \<Rightarrow> root" where
  "derived_root pre = \<lparr>root_prefix = pre, root_source = False\<rparr>"

record artifact =
  art_root :: root
  path :: string
  tree :: bool
  symlink :: bool

definition join_path :: "string \<Rightarrow> string \<Rightarrow> string" where
  "join_path dir name = (if dir = [] then name else if name = [] then dir else dir @ ''/'' @ name)"

definition source_artifact :: "string \<Rightarrow> string \<Rightarrow> string \<Rightarrow> artifact" where
  "source_artifact rp pkg name =
     \<lparr>art_root = source_of rp, path = join_path pkg name, tree = False, symlink = False\<rparr>"

definition derived_artifact :: "string \<Rightarrow> string \<Rightarrow> string \<Rightarrow> string \<Rightarrow> artifact" where
  "derived_artifact bin_dir rp pkg name =
     \<lparr>art_root = derived_root bin_dir,
      path = (if rp = [] then join_path pkg name else ''external/'' @ rp @ ''/'' @ join_path pkg name),
      tree = False, symlink = False\<rparr>"

definition is_source :: "artifact \<Rightarrow> bool" where
  "is_source a = root_source (art_root a)"

definition exec_path :: "artifact \<Rightarrow> string" where
  "exec_path a = join_path (root_prefix (art_root a)) (path a)"

section \<open>Runfiles\<close>

record runfiles =
  files :: "artifact list"
  symlinks :: "(string \<times> artifact) list"
  root_symlinks :: "(string \<times> artifact) list"
  python_inits :: bool

definition runfiles_is_empty :: "runfiles \<Rightarrow> bool" where
  "runfiles_is_empty r \<longleftrightarrow> files r = [] \<and> symlinks r = [] \<and> root_symlinks r = []"

text \<open>\<open>union\<close> of \<open>merge\<close>: the items of the second list that are not there yet, one after the other.\<close>

fun extend_missing :: "'a list \<Rightarrow> 'a list \<Rightarrow> 'a list" where
  "extend_missing out [] = out"
| "extend_missing out (x # xs) = extend_missing (if x \<in> set out then out else out @ [x]) xs"

definition merge :: "runfiles \<Rightarrow> runfiles \<Rightarrow> runfiles" where
  "merge a b = \<lparr>
     files = extend_missing (files a) (files b),
     symlinks = extend_missing (symlinks a) (symlinks b),
     root_symlinks = extend_missing (root_symlinks a) (root_symlinks b),
     python_inits = (python_inits a \<or> python_inits b)\<rparr>"

section \<open>Nested sets\<close>

datatype 'a nested_set = NestedSet (address: nat) (direct: "'a list") (transitive: "'a nested_set list")

fun nested_is_empty :: "'a nested_set \<Rightarrow> bool" where
  "nested_is_empty (NestedSet a ds ts) \<longleftrightarrow> ds = [] \<and> (\<forall>t \<in> set ts. nested_is_empty t)"

text \<open>The loop of \<open>join\<close>: the direct elements and the nested sets so far.\<close>

fun join_sets :: "'a nested_set list \<Rightarrow> 'a list \<Rightarrow> 'a nested_set list \<Rightarrow> 'a list \<times> 'a nested_set list" where
  "join_sets [] ds ts = (ds, ts)"
| "join_sets (s # ss) ds ts =
     (if nested_is_empty s then join_sets ss ds ts
      else case (direct s, transitive s) of
        ([only], []) \<Rightarrow> join_sets ss (if only \<in> set ds then ds else ds @ [only]) ts
      | _ \<Rightarrow> join_sets ss ds (ts @ [s]))"

text \<open>A set that \<open>join\<close> makes gets the address \<open>fresh\<close>.\<close>

definition nested_join :: "nat \<Rightarrow> 'a nested_set list \<Rightarrow> 'a nested_set" where
  "nested_join fresh sets =
     (case join_sets sets [] [] of
        ([], [t]) \<Rightarrow> t
      | (ds, ts) \<Rightarrow> NestedSet fresh ds ts)"

fun push_unseen :: "'a list \<Rightarrow> 'a list \<Rightarrow> 'a list \<Rightarrow> 'a list \<times> 'a list" where
  "push_unseen out seen [] = (out, seen)"
| "push_unseen out seen (x # xs) =
     (if x \<in> set seen then push_unseen out seen xs else push_unseen (out @ [x]) (x # seen) xs)"

fun collect :: "'a nested_set \<Rightarrow> 'a list \<Rightarrow> 'a list \<Rightarrow> nat list \<Rightarrow> 'a list \<times> 'a list \<times> nat list"
  and collect_nested :: "'a nested_set list \<Rightarrow> 'a list \<Rightarrow> 'a list \<Rightarrow> nat list \<Rightarrow> 'a list \<times> 'a list \<times> nat list" where
  "collect (NestedSet a ds ts) out seen visited =
     (let (out1, seen1, visited1) = collect_nested ts out seen visited;
          (out2, seen2) = push_unseen out1 seen1 ds
      in (out2, seen2, visited1))"
| "collect_nested [] out seen visited = (out, seen, visited)"
| "collect_nested (n # ns) out seen visited =
     (if address n \<in> set visited then collect_nested ns out seen visited
      else let (out1, seen1, visited1) = collect n out seen (visited @ [address n])
           in collect_nested ns out1 seen1 visited1)"

definition to_vec :: "'a nested_set \<Rightarrow> 'a list" where
  "to_vec n = fst (collect n [] [] [])"

section \<open>Listing a set\<close>

text \<open>The specification: the elements of the nested sets, in order and in full, then the set's own.\<close>

fun postorder :: "'a nested_set \<Rightarrow> 'a list" where
  "postorder (NestedSet a ds ts) = concat (map postorder ts) @ ds"

text \<open>Each element where it comes first.\<close>

fun firsts :: "'a set \<Rightarrow> 'a list \<Rightarrow> 'a list" where
  "firsts seen [] = []"
| "firsts seen (x # xs) = (if x \<in> seen then firsts seen xs else x # firsts (insert x seen) xs)"

fun subsets :: "'a nested_set \<Rightarrow> 'a nested_set set" where
  "subsets (NestedSet a ds ts) = insert (NestedSet a ds ts) (\<Union>t \<in> set ts. subsets t)"

text \<open>An address names one set.\<close>

definition well_shared :: "'a nested_set set \<Rightarrow> bool" where
  "well_shared U \<longleftrightarrow> (\<forall>m n. m \<in> U \<longrightarrow> n \<in> U \<longrightarrow> address m = address n \<longrightarrow> m = n)"

lemma firsts_append: "firsts seen (xs @ ys) = firsts seen xs @ firsts (seen \<union> set xs) ys"
  by (induction seen xs rule: firsts.induct) (auto simp: insert_absorb)

lemma firsts_seen: "set xs \<subseteq> seen \<Longrightarrow> firsts seen xs = []"
  by (induction xs) auto

lemma set_firsts: "set (firsts seen xs) = set xs - seen"
  by (induction seen xs rule: firsts.induct) auto

lemma distinct_firsts: "distinct (firsts seen xs)"
  by (induction seen xs rule: firsts.induct) (auto simp: set_firsts)

lemma self_subset [simp]: "n \<in> subsets n"
  by (cases n) simp

lemma push_unseen_firsts:
  "set seen = set out \<Longrightarrow> push_unseen out seen xs = (out', seen') \<Longrightarrow>
     out' = out @ firsts (set out) xs \<and> set seen' = set out'"
proof (induction xs arbitrary: out seen)
  case (Cons x xs)
  then show ?case using Cons.IH [of seen out] Cons.IH [of "x # seen" "out @ [x]"] by (simp split: if_splits)
qed simp

lemma subset_postorder: "m \<in> subsets n \<Longrightarrow> set (postorder m) \<subseteq> set (postorder n)"
  by (induction n) auto

lemma subset_size: "m \<in> subsets n \<Longrightarrow> m = n \<or> size m < size n"
proof (induction n)
  case (NestedSet a ds ts)
  show ?case
  proof (cases "m = NestedSet a ds ts")
    case False
    then obtain t where t: "t \<in> set ts" "m \<in> subsets t" using NestedSet.prems by auto
    have "size t \<le> size_list size ts" using t(1) by (simp add: size_list_estimation')
    then show ?thesis using NestedSet.IH [OF t] by auto
  qed simp
qed

lemma subsets_trans: "m \<in> subsets n \<Longrightarrow> n \<in> subsets k \<Longrightarrow> m \<in> subsets k"
  by (induction k) auto

lemma collect_firsts:
  fixes n :: "'a nested_set" and ns :: "'a nested_set list"
  shows "collect n out seen visited = (out', seen', visited') \<Longrightarrow> well_shared U \<Longrightarrow> subsets n \<subseteq> U \<Longrightarrow> set seen = set out \<Longrightarrow>
      (\<And>m. m \<in> subsets n \<Longrightarrow> m \<noteq> n \<Longrightarrow> address m \<in> set visited \<Longrightarrow> set (postorder m) \<subseteq> set out) \<Longrightarrow>
      out' = out @ firsts (set out) (postorder n) \<and> set seen' = set out'
      \<and> set visited' \<subseteq> set visited \<union> address ` subsets n"
    and "collect_nested ns out seen visited = (out', seen', visited') \<Longrightarrow> well_shared U \<Longrightarrow> \<Union> (subsets ` set ns) \<subseteq> U \<Longrightarrow>
      set seen = set out \<Longrightarrow>
      (\<And>m. m \<in> \<Union> (subsets ` set ns) \<Longrightarrow> address m \<in> set visited \<Longrightarrow> set (postorder m) \<subseteq> set out) \<Longrightarrow>
      out' = out @ firsts (set out) (concat (map postorder ns)) \<and> set seen' = set out'
      \<and> set visited' \<subseteq> set visited \<union> address ` \<Union> (subsets ` set ns)"
proof (induction n out seen visited and ns out seen visited arbitrary: out' seen' visited' and out' seen' visited'
    rule: collect_collect_nested.induct)
  case (1 a ds ts out seen visited)
  obtain out1 seen1 visited1 where c: "collect_nested ts out seen visited = (out1, seen1, visited1)" by (metis prod_cases3)
  have strict: "m \<noteq> NestedSet a ds ts" if h: "m \<in> \<Union> (subsets ` set ts)" for m
  proof
    assume m: "m = NestedSet a ds ts"
    obtain t where t: "t \<in> set ts" "m \<in> subsets t" using h by auto
    have "size t \<le> size_list size ts" using t(1) by (simp add: size_list_estimation')
    then show False using subset_size [OF t(2)] m by auto
  qed
  have nested: "out1 = out @ firsts (set out) (concat (map postorder ts)) \<and> set seen1 = set out1
      \<and> set visited1 \<subseteq> set visited \<union> address ` \<Union> (subsets ` set ts)"
    using 1(3-6) strict by (intro "1.IH" [OF c]) auto
  then show ?case using "1.prems"(1) c push_unseen_firsts [of seen1 out1 ds out' seen']
    by (auto simp: firsts_append set_firsts Un_Diff_cancel split: prod.splits)
next
  case (2 out seen visited)
  then show ?case by simp
next
  case (3 n ns out seen visited)
  show ?case
  proof (cases "address n \<in> set visited")
    case True
    have "set (postorder n) \<subseteq> set out" using "3.prems"(5) True by auto
    moreover have "out' = out @ firsts (set out) (concat (map postorder ns)) \<and> set seen' = set out'
        \<and> set visited' \<subseteq> set visited \<union> address ` \<Union> (subsets ` set ns)"
      using "3.prems" True by (intro "3.IH"(1)) auto
    ultimately show ?thesis by (simp add: firsts_append firsts_seen Un_absorb2) blast
  next
    case False
    obtain out1 seen1 visited1 where c: "collect n out seen (visited @ [address n]) = (out1, seen1, visited1)" by (metis prod_cases3)
    have one: "m = k" if "m \<in> subsets n \<or> m \<in> \<Union> (subsets ` set ns)" "k \<in> subsets n" "address m = address k" for m k
      using "3.prems"(2,3) that unfolding well_shared_def by auto
    have first: "out1 = out @ firsts (set out) (postorder n) \<and> set seen1 = set out1
        \<and> set visited1 \<subseteq> set (visited @ [address n]) \<union> address ` subsets n"
    proof (rule "3.IH"(2) [OF False c "3.prems"(2)])
      fix m
      assume m: "m \<in> subsets n" "m \<noteq> n" "address m \<in> set (visited @ [address n])"
      then have "address m \<noteq> address n" using one [of m n] by auto
      then show "set (postorder m) \<subseteq> set out" using m "3.prems"(5) by auto
    qed (use "3.prems" in auto)
    have out1: "set out1 = set out \<union> set (postorder n)" using first by (auto simp: set_firsts)
    have rest: "out' = out1 @ firsts (set out1) (concat (map postorder ns)) \<and> set seen' = set out'
        \<and> set visited' \<subseteq> set visited1 \<union> address ` \<Union> (subsets ` set ns)"
    proof (rule "3.IH"(3) [OF False refl c [symmetric] refl _ "3.prems"(2)])
      fix m
      assume m: "m \<in> \<Union> (subsets ` set ns)" "address m \<in> set visited1"
      then consider "address m \<in> set visited" | k where "k \<in> subsets n" "address m = address k"
        using first by force
      then show "set (postorder m) \<subseteq> set out1"
      proof cases
        case 1
        then show ?thesis using m "3.prems"(5) out1 by auto
      next
        case 2
        then show ?thesis using one [of m k] m(1) subset_postorder out1 by blast
      qed
    qed (use "3.prems" first False c in auto)
    have "set visited' \<subseteq> set visited \<union> address ` \<Union> (subsets ` set (n # ns))"
      using first rest self_subset [of n] by fastforce
    then show ?thesis using first out1 rest by (auto simp: firsts_append)
  qed
qed

section \<open>Joining sets\<close>

lemma nested_is_empty_postorder: "nested_is_empty n \<longleftrightarrow> postorder n = []"
proof (induction n)
  case (NestedSet a ds ts)
  then show ?case by (cases ds) auto
qed

lemma join_sets_elements:
  "join_sets ss ds ts = (ds', ts') \<Longrightarrow>
     set ds' \<union> (\<Union>t \<in> set ts'. set (postorder t)) =
       set ds \<union> (\<Union>t \<in> set ts. set (postorder t)) \<union> (\<Union>s \<in> set ss. set (postorder s))
     \<and> set ts' \<subseteq> set ts \<union> set ss \<and> (distinct ds \<longrightarrow> distinct ds')"
proof (induction ss arbitrary: ds ts)
  case (Cons s ss)
  obtain a xs ns where s: "s = NestedSet a xs ns" by (cases s)
  consider "nested_is_empty s" | x where "\<not> nested_is_empty s" "xs = [x]" "ns = []"
    | "\<not> nested_is_empty s" "join_sets (s # ss) ds ts = join_sets ss ds (ts @ [s])"
    by (cases "nested_is_empty s"; cases xs; cases "tl xs"; cases ns) (auto simp: s simp del: nested_is_empty.simps)
  then show ?case
  proof cases
    case 1
    then show ?thesis using Cons by (auto simp: nested_is_empty_postorder)
  next
    case 2
    then show ?thesis using Cons.IH [of "if x \<in> set ds then ds else ds @ [x]" ts] Cons.prems
      by (auto simp: s split: if_splits)
  next
    case 3
    then show ?thesis using Cons.IH [of ds "ts @ [s]"] Cons.prems by auto
  qed
qed auto

section \<open>Properties\<close>

text \<open>
  C21. Listing a nested set gives its elements in postorder, each where it comes first, although a
  set that has been visited is skipped by its address: with every address naming one set, the skipped
  sets would have added nothing.
\<close>

theorem nested_to_vec_postorder:
  assumes "well_shared (subsets n)"
  shows "to_vec n = firsts {} (postorder n) \<and> distinct (to_vec n) \<and> set (to_vec n) = set (postorder n)"
proof -
  obtain out seen visited where c: "collect n [] [] [] = (out, seen, visited)" by (metis prod_cases3)
  have "out = firsts {} (postorder n)"
    using collect_firsts(1) [OF c assms] by simp
  then show ?thesis by (simp add: to_vec_def c distinct_firsts set_firsts)
qed

text \<open>The diamond of the source's own test: two sets that share a third.\<close>

definition diamond :: "nat nested_set" where
  "diamond = (let shared = NestedSet 1 [1, 2] []
     in NestedSet 0 [5, 1] [NestedSet 2 [3] [shared], NestedSet 3 [4, 2] [shared]])"

theorem nested_to_vec_postorder_witness:
  "to_vec diamond = [1, 2, 3, 4, 5] \<and> firsts {} [1, 2, 3, 1, 2, 4, 2, 5, 1] = [1, 2, 3, 4, 5 :: nat]"
proof -
  have "well_shared (subsets diamond)" by (auto simp: well_shared_def diamond_def Let_def)
  from nested_to_vec_postorder [OF this] show ?thesis by (simp add: diamond_def Let_def)
qed

text \<open>
  Joining nested sets loses and adds nothing: the joined set lists exactly the elements of the sets,
  each once, whether they were made direct, kept as nested sets or the one set was returned as it is. The
  address of a new set has to be new.
\<close>

theorem nested_join_elements:
  assumes "well_shared (\<Union>s \<in> set sets. subsets s)" and "\<And>m. m \<in> (\<Union>s \<in> set sets. subsets s) \<Longrightarrow> address m \<noteq> fresh"
  shows "set (to_vec (nested_join fresh sets)) = (\<Union>s \<in> set sets. set (postorder s))
    \<and> distinct (to_vec (nested_join fresh sets))"
proof -
  obtain ds ts where j: "join_sets sets [] [] = (ds, ts)" by fastforce
  note e = join_sets_elements [OF j]
  have sub: "(\<Union>t \<in> set ts. subsets t) \<subseteq> (\<Union>s \<in> set sets. subsets s)" using e by auto
  consider t where "ds = []" "ts = [t]" "nested_join fresh sets = t" | "nested_join fresh sets = NestedSet fresh ds ts"
    by (cases ds; cases ts; cases "tl ts") (auto simp: nested_join_def j)
  then have "well_shared (subsets (nested_join fresh sets))
      \<and> set (postorder (nested_join fresh sets)) = (\<Union>s \<in> set sets. set (postorder s))"
  proof cases
    case 1
    then show ?thesis using e sub assms(1) by (auto simp: well_shared_def)
  next
    case 2
    have "well_shared (insert (NestedSet fresh ds ts) (\<Union>t \<in> set ts. subsets t))"
      using sub assms unfolding well_shared_def by (metis insert_iff nested_set.sel(1) subsetD)
    then show ?thesis using 2 e by auto
  qed
  then have ws: "well_shared (subsets (nested_join fresh sets))"
    and p: "set (postorder (nested_join fresh sets)) = (\<Union>s \<in> set sets. set (postorder s))" by blast+
  obtain out seen visited where c: "collect (nested_join fresh sets) [] [] [] = (out, seen, visited)" by (metis prod_cases3)
  have "out = firsts {} (postorder (nested_join fresh sets))"
    using collect_firsts(1) [OF c ws] by simp
  then show ?thesis using p by (simp add: to_vec_def c distinct_firsts set_firsts)
qed

theorem nested_join_elements_witness:
  "set (to_vec (nested_join 9 [NestedSet 1 [4] [], NestedSet 2 [] [], NestedSet 3 [4, 5] []])) = {4, 5 :: nat}"
proof -
  have "well_shared (\<Union>s \<in> set [NestedSet 1 [4] [], NestedSet 2 [] [], NestedSet 3 [4, 5 :: nat] []]. subsets s)"
    and "address m \<noteq> 9" if "m \<in> (\<Union>s \<in> set [NestedSet 1 [4] [], NestedSet 2 [] [], NestedSet 3 [4, 5 :: nat] []]. subsets s)" for m
    using that by (auto simp: well_shared_def)
  from nested_join_elements [OF this] show ?thesis by auto
qed

end
