(* ===== verification/Command_Line.thy ===== *)
theory Command_Line
  imports Rust_Base "HOL-Library.Sublist"
begin

text \<open>
  Command lines (\<open>crates/fjfj-graph/src/command_line.rs\<close>): the words of a call that reads a tree artifact,
  parameter files, shell quoting and the tokenizer that reads it back. The tokenizer looks at Unicode
  white space, so the texts of this theory are lists of code points.
\<close>

section \<open>Text\<close>

type_synonym ustring = "nat list"

definition ascii :: "string \<Rightarrow> ustring" where
  "ascii s = map of_char s"

text \<open>\<open>char::is_whitespace\<close>: the code points with the property \<open>White_Space\<close>.\<close>

definition is_whitespace :: "nat \<Rightarrow> bool" where
  "is_whitespace c \<longleftrightarrow> (9 \<le> c \<and> c \<le> 13) \<or> c \<in> {0x20, 0x85, 0xA0, 0x1680} \<or> (0x2000 \<le> c \<and> c \<le> 0x200A)
     \<or> c \<in> {0x2028, 0x2029, 0x202F, 0x205F, 0x3000}"

definition is_alphanumeric :: "nat \<Rightarrow> bool" where
  "is_alphanumeric c \<longleftrightarrow> (48 \<le> c \<and> c \<le> 57) \<or> (65 \<le> c \<and> c \<le> 90) \<or> (97 \<le> c \<and> c \<le> 122)"

fun join_words :: "ustring \<Rightarrow> ustring list \<Rightarrow> ustring" where
  "join_words sep [] = []"
| "join_words sep [w] = w"
| "join_words sep (w # v # ws) = w @ sep @ join_words sep (v # ws)"

section \<open>Data\<close>

datatype param_format = Shell | Multiline | FlagPerLine

datatype lazy_item =
    Text ustring
  | Tree ustring "ustring option"

datatype lazy_call =
    AddAll "ustring option" "lazy_item list" "ustring option" bool bool "ustring option"
  | AddJoined "ustring option" "lazy_item list" ustring "ustring option" bool bool

record lazy_arg =
  arg_at :: nat
  arg_len :: nat
  arg_call :: lazy_call

datatype tokenize_error = UnterminatedQuotation | BackslashAtEnd

definition tokenize_error_display :: "tokenize_error \<Rightarrow> string" where
  "tokenize_error_display e =
     (case e of UnterminatedQuotation \<Rightarrow> ''unterminated quotation'' | BackslashAtEnd \<Rightarrow> ''backslash at end of string'')"

section \<open>The tokenizer\<close>

text \<open>The two inner loops: the current word and what is left after the closing quote.\<close>

fun single_quoted :: "ustring \<Rightarrow> ustring \<Rightarrow> (tokenize_error, ustring \<times> ustring) result" where
  "single_quoted current [] = Inl UnterminatedQuotation"
| "single_quoted current (c # cs) = (if c = 39 then Inr (current, cs) else single_quoted (current @ [c]) cs)"

fun double_quoted :: "ustring \<Rightarrow> ustring \<Rightarrow> (tokenize_error, ustring \<times> ustring) result" where
  "double_quoted current [] = Inl UnterminatedQuotation"
| "double_quoted current (c # cs) =
     (if c = 34 then Inr (current, cs)
      else if c = 92 then
        (case cs of d # ds \<Rightarrow> double_quoted (current @ [d]) ds | [] \<Rightarrow> Inl UnterminatedQuotation)
      else double_quoted (current @ [c]) cs)"

lemma single_quoted_shorter: "single_quoted current cs = Inr (word, rest) \<Longrightarrow> length rest < length cs"
  by (induction current cs rule: single_quoted.induct) (auto split: if_splits)

lemma double_quoted_shorter: "double_quoted current cs = Inr (word, rest) \<Longrightarrow> length rest < length cs"
proof (induction current cs rule: double_quoted.induct)
  case (2 current c cs)
  then show ?case by (cases cs) (fastforce split: if_splits)+
qed simp

function tokenize_loop :: "ustring list \<Rightarrow> ustring \<Rightarrow> bool \<Rightarrow> ustring \<Rightarrow> (tokenize_error, ustring list) result" where
  "tokenize_loop words current in_word [] = Inr (if in_word then words @ [current] else words)"
| "tokenize_loop words current in_word (c # cs) =
     (if is_whitespace c then
        (if in_word then tokenize_loop (words @ [current]) [] False cs else tokenize_loop words current in_word cs)
      else if c = 39 then
        (case single_quoted current cs of Inl e \<Rightarrow> Inl e | Inr (word, rest) \<Rightarrow> tokenize_loop words word True rest)
      else if c = 34 then
        (case double_quoted current cs of Inl e \<Rightarrow> Inl e | Inr (word, rest) \<Rightarrow> tokenize_loop words word True rest)
      else if c = 92 then
        (case cs of d # ds \<Rightarrow> tokenize_loop words (current @ [d]) True ds | [] \<Rightarrow> Inl BackslashAtEnd)
      else tokenize_loop words (current @ [c]) True cs)"
  by pat_completeness auto
termination
  by (relation "measure (\<lambda>(_, _, _, cs). length cs)")
    (auto dest!: single_quoted_shorter double_quoted_shorter)

definition tokenize :: "ustring \<Rightarrow> (tokenize_error, ustring list) result" where
  "tokenize t = tokenize_loop [] [] False t"

section \<open>Placeholders and formats\<close>

text \<open>\<open>str::find\<close> of a text, as what comes before its first occurrence and what comes after it.\<close>

fun cut :: "ustring \<Rightarrow> ustring \<Rightarrow> (ustring \<times> ustring) option" where
  "cut p [] = (if p = [] then Some ([], []) else None)"
| "cut p (c # cs) =
     (if prefix p (c # cs) then Some ([], drop (length p) (c # cs))
      else map_option (\<lambda>(a, b). (c # a, b)) (cut p cs))"

lemma cut_length: "cut p s = Some (a, b) \<Longrightarrow> length a + length p + length b = length s"
proof (induction p s arbitrary: a rule: cut.induct)
  case (2 p c cs)
  then show ?case by (auto split: if_splits dest: prefix_length_le)
qed (auto split: if_splits)

lemma cut_Some: "cut p s = Some (a, b) \<Longrightarrow> s = a @ p @ b"
proof (induction p s arbitrary: a rule: cut.induct)
  case (2 p c cs)
  then show ?case by (auto simp: prefix_def split: if_splits)
qed (auto split: if_splits)

function placeholders_are_allowed :: "ustring \<Rightarrow> ustring list \<Rightarrow> bool" where
  "placeholders_are_allowed rest allowed =
     (case cut [37, 123] rest of
        None \<Rightarrow> True
      | Some (_, after) \<Rightarrow>
          (case cut [125] after of
             None \<Rightarrow> True
           | Some (name, rest') \<Rightarrow> name \<in> set allowed \<and> placeholders_are_allowed rest' allowed))"
  by pat_completeness auto
termination
  by (relation "measure (\<lambda>(rest, _). length rest)") (auto dest!: cut_length)

fun format_arg :: "ustring \<Rightarrow> ustring \<Rightarrow> ustring" where
  "format_arg [] t = []"
| "format_arg (c # cs) t =
     (if c = 37 then
        (case cs of
           d # ds \<Rightarrow> if d = 115 then t @ format_arg ds t else if d = 37 then 37 # format_arg ds t else c # format_arg cs t
         | [] \<Rightarrow> c # format_arg cs t)
      else c # format_arg cs t)"

section \<open>The words of a call\<close>

definition item_values :: "(ustring \<Rightarrow> ustring list) \<Rightarrow> lazy_item \<Rightarrow> ustring list" where
  "item_values files_of item =
     (case item of
        Text t \<Rightarrow> [t]
      | Tree dir format_each \<Rightarrow>
          map (\<lambda>file. case format_each of Some p \<Rightarrow> format_arg p file | None \<Rightarrow> file) (files_of dir))"

fun uniquified :: "ustring list \<Rightarrow> ustring list \<Rightarrow> ustring list" where
  "uniquified seen [] = []"
| "uniquified seen (v # vs) = (if v \<in> set seen then uniquified seen vs else v # uniquified (seen @ [v]) vs)"

definition call_values :: "(ustring \<Rightarrow> ustring list) \<Rightarrow> lazy_item list \<Rightarrow> bool \<Rightarrow> ustring list" where
  "call_values files_of items uniquify =
     (let values = concat (map (item_values files_of) items)
      in if uniquify then uniquified [] values else values)"

definition opt_list :: "'a option \<Rightarrow> 'a list" where
  "opt_list x = (case x of Some y \<Rightarrow> [y] | None \<Rightarrow> [])"

definition call_words :: "lazy_call \<Rightarrow> (ustring \<Rightarrow> ustring list) \<Rightarrow> ustring list" where
  "call_words call files_of =
     (case call of
        AddAll name items before_each omit_if_empty uniquify terminate_with \<Rightarrow>
          (let values = call_values files_of items uniquify
           in if values = [] \<and> omit_if_empty then []
              else opt_list name @ concat (map (\<lambda>v. opt_list before_each @ [v]) values) @ opt_list terminate_with)
      | AddJoined name items join_with format_joined omit_if_empty uniquify \<Rightarrow>
          (let values = call_values files_of items uniquify
           in if values = [] \<and> omit_if_empty then []
              else opt_list name @ [case format_joined of
                  Some p \<Rightarrow> format_arg p (join_words join_with values) | None \<Rightarrow> join_words join_with values]))"

text \<open>A slice out of range panics, which is \<open>None\<close>; \<open>words[a..b]\<close> has \<open>a \<le> b\<close> here.\<close>

fun expand_loop ::
  "ustring list \<Rightarrow> (ustring \<Rightarrow> ustring list) \<Rightarrow> lazy_arg list \<Rightarrow> nat \<Rightarrow> ustring list \<Rightarrow> ustring list option" where
  "expand_loop words files_of [] at out = Some (out @ drop (min at (length words)) words)"
| "expand_loop words files_of (c # cs) at out =
     (if arg_at c \<le> length words then
        expand_loop words files_of cs (arg_at c + arg_len c)
          (out @ drop (min at (arg_at c)) (take (arg_at c) words) @ call_words (arg_call c) files_of)
      else None)"

definition expand_words :: "ustring list \<Rightarrow> lazy_arg list \<Rightarrow> (ustring \<Rightarrow> ustring list) \<Rightarrow> ustring list option" where
  "expand_words words calls files_of = expand_loop words files_of calls 0 []"

section \<open>Parameter files\<close>

definition shell_quote :: "ustring \<Rightarrow> ustring" where
  "shell_quote arg =
     (let plain = (arg \<noteq> [] \<and> list_all (\<lambda>c. is_alphanumeric c \<or> c \<in> set (ascii ''-_./:,+@%'')) arg)
      in if plain then arg
         else [39] @ concat (map (\<lambda>c. if c = 39 then [39, 92, 39, 39] else [c]) arg) @ [39])"

definition param_line :: "param_format \<Rightarrow> ustring \<Rightarrow> ustring" where
  "param_line format item = (case format of Shell \<Rightarrow> shell_quote item @ [10] | _ \<Rightarrow> item @ [10])"

definition param_file_contents :: "ustring list \<Rightarrow> param_format \<Rightarrow> ustring" where
  "param_file_contents items format = concat (map (param_line format) items)"

section \<open>Reading a quoted word\<close>

definition word_char :: "nat \<Rightarrow> bool" where
  "word_char c \<longleftrightarrow> \<not> is_whitespace c \<and> c \<noteq> 39 \<and> c \<noteq> 34 \<and> c \<noteq> 92"

lemma plain_word_char:
  "is_alphanumeric c \<or> c \<in> set (ascii ''-_./:,+@%'') \<Longrightarrow> word_char c"
  by (auto simp: is_alphanumeric_def word_char_def is_whitespace_def ascii_def)

lemma tokenize_plain:
  "list_all word_char w \<Longrightarrow> w \<noteq> [] \<Longrightarrow> tokenize_loop ws cur b (w @ rest) = tokenize_loop ws (cur @ w) True rest"
proof (induction w arbitrary: cur b)
  case (Cons c w)
  then show ?case by (cases "w = []") (simp_all add: word_char_def)
qed simp

lemma tokenize_quoted:
  "(case single_quoted cur (concat (map (\<lambda>c. if c = 39 then [39, 92, 39, 39] else [c]) w) @ [39] @ rest) of
      Inl e \<Rightarrow> Inl e | Inr (word, rest') \<Rightarrow> tokenize_loop ws word True rest') = tokenize_loop ws (cur @ w) True rest"
proof (induction w arbitrary: cur)
  case (Cons c w)
  then show ?case by (simp add: is_whitespace_def)
qed simp

lemma tokenize_shell_quote:
  "tokenize_loop ws [] False (shell_quote w @ 10 # rest) = tokenize_loop (ws @ [w]) [] False rest"
proof (cases "w \<noteq> [] \<and> list_all (\<lambda>c. is_alphanumeric c \<or> c \<in> set (ascii ''-_./:,+@%'')) w")
  case True
  then have "list_all word_char w" using plain_word_char by (auto simp: list_all_iff)
  then show ?thesis using True tokenize_plain [where w = w and ws = ws and cur = "[]" and b = False] by (simp add: shell_quote_def is_whitespace_def)
next
  case False
  then show ?thesis using tokenize_quoted [where cur = "[]" and w = w and rest = "10 # rest" and ws = ws]
    by (auto simp: shell_quote_def is_whitespace_def)
qed

section \<open>Properties\<close>

text \<open>
  C22. A parameter file in the shell format, split into words the way a shell splits it, gives back the
  arguments it was made of, whatever they contain: quotes, backslashes, white space, nothing at all.
\<close>

theorem param_file_tokenize: "tokenize (param_file_contents items Shell) = Inr items"
proof -
  have "tokenize_loop ws [] False (param_file_contents items Shell) = Inr (ws @ items)" for ws
    by (induction items arbitrary: ws) (simp_all add: param_file_contents_def param_line_def tokenize_shell_quote)
  then show ?thesis by (simp add: tokenize_def)
qed

text \<open>
  A command line as it is laid out: known words, the words that stand for a call, the call, and so on.
\<close>

fun laid_out :: "(ustring list \<times> ustring list \<times> lazy_call) list \<Rightarrow> ustring list" where
  "laid_out [] = []"
| "laid_out ((known, shown, _) # segs) = known @ shown @ laid_out segs"

fun calls_at :: "nat \<Rightarrow> (ustring list \<times> ustring list \<times> lazy_call) list \<Rightarrow> lazy_arg list" where
  "calls_at n [] = []"
| "calls_at n ((known, shown, call) # segs) =
     \<lparr>arg_at = n + length known, arg_len = length shown, arg_call = call\<rparr>
       # calls_at (n + length known + length shown) segs"

fun spliced :: "(ustring \<Rightarrow> ustring list) \<Rightarrow> (ustring list \<times> ustring list \<times> lazy_call) list \<Rightarrow> ustring list" where
  "spliced files_of [] = []"
| "spliced files_of ((known, shown, call) # segs) = known @ call_words call files_of @ spliced files_of segs"

lemma expand_loop_spliced:
  "expand_loop (before @ laid_out segs @ end_words) files_of (calls_at (length before) segs) (length before) out =
     Some (out @ spliced files_of segs @ end_words)"
proof (induction files_of segs arbitrary: before out rule: spliced.induct)
  case (2 files_of known shown call segs)
  from 2 [of "before @ known @ shown"] show ?case by (simp add: add.assoc)
qed simp

text \<open>
  Expanding a command line puts, for every call that reads a tree, the words the call makes in the
  place of the words that stood for it, and keeps all other words in their order.
\<close>

theorem expand_words_splices:
  "expand_words (laid_out segs @ end_words) (calls_at 0 segs) files_of = Some (spliced files_of segs @ end_words)"
  using expand_loop_spliced [of "[]"] by (simp add: expand_words_def)

end
