(* ===== verification/Actions.thy ===== *)
theory Actions
  imports Artifacts Labels Command_Line Rust_Collections
begin

text \<open>
  Actions (\<open>crates/fjfj-graph/src/action.rs\<close>) and the bytes their keys are the digest of. What
  \<open>derive(Debug)\<close> prints for the lazy calls is an argument, and so is the hash function of the \<open>sha2\<close>
  crate. A \<open>BTreeMap\<close> of strings is its list of entries in the order of the keys.
\<close>

section \<open>Actions\<close>

datatype action_kind =
    Spawn "string list" "(string, string) btree" "(string, string) btree" "lazy_arg list"
  | WriteFile string bool
  | ParamFile "string list" "lazy_arg list" param_format
  | Symlink string
  | UnresolvedSymlink string
  | SymlinkTree string string "(string \<times> artifact) list" "string list" bool string
  | SourceManifest string "(string \<times> artifact) list" "string list"
  | RunfilesTree
  | WorkspaceStatus string string
  | Template string "(string \<times> string) list" bool

record action =
  act_owner :: label
  owner_kind :: string
  location :: string
  configuration :: string
  mnemonic :: string
  progress_message :: "string option"
  kind :: action_kind
  inputs :: "artifact list"
  input_set :: "artifact nested_set option"
  outputs :: "artifact list"
  exec_group :: "string option"

definition argv :: "action \<Rightarrow> string list option" where
  "argv a = (case kind a of Spawn args _ _ _ \<Rightarrow> Some args | _ \<Rightarrow> None)"

section \<open>What an action does, as fields\<close>

definition pairs :: "(string \<times> string) list \<Rightarrow> string list" where
  "pairs kvs = concat (map (\<lambda>(k, v). [k, v]) kvs)"

definition bool_byte :: "bool \<Rightarrow> string" where
  "bool_byte b = [if b then CHR 0x01 else CHR 0x00]"

record debug_text =
  debug_lazy :: "lazy_arg list \<Rightarrow> string"
  debug_format :: "param_format \<Rightarrow> string"

definition links_of :: "(string \<times> artifact) list \<Rightarrow> (string \<times> string) list" where
  "links_of entries = map (\<lambda>(p, a). (p, exec_path a)) entries"

definition kind_fields :: "debug_text \<Rightarrow> action_kind \<Rightarrow> string list" where
  "kind_fields dbg k =
     (case k of
        Spawn args env reqs lz \<Rightarrow>
          ''spawn'' # args @ (if lz = [] then [] else [''lazy'', debug_lazy dbg lz])
            @ ''env'' # pairs env @ ''requirements'' # pairs reqs
      | WriteFile contents executable \<Rightarrow> [''write'', contents, bool_byte executable]
      | ParamFile items lz format \<Rightarrow> ''param-file'' # items @ [debug_lazy dbg lz @ '' '' @ debug_format dbg format]
      | Symlink target \<Rightarrow> [''symlink'', target]
      | UnresolvedSymlink target \<Rightarrow> [''unresolved-symlink'', target]
      | RunfilesTree \<Rightarrow> [''runfiles-tree'']
      | SymlinkTree dir repo_mapping entries empty_files links main_repo \<Rightarrow>
          [''runfiles'', dir, bool_byte links, main_repo, repo_mapping] @ pairs (links_of entries) @ ''empty'' # empty_files
      | SourceManifest repo_mapping entries empty_files \<Rightarrow>
          [''source-manifest'', repo_mapping] @ pairs (links_of entries) @ ''empty'' # empty_files
      | WorkspaceStatus st vo \<Rightarrow> [''workspace-status'', st, vo]
      | Template tmpl substitutions executable \<Rightarrow>
          [''template'', tmpl] @ pairs substitutions @ [bool_byte executable])"

definition definition_fields :: "debug_text \<Rightarrow> action \<Rightarrow> string list" where
  "definition_fields dbg a = mnemonic a # kind_fields dbg (kind a)"

section \<open>Keys\<close>

text \<open>A field goes into the hash behind its length, as the eight bytes of a \<open>u64\<close>, lowest first.\<close>

definition u64_le_bytes :: "u64 \<Rightarrow> string" where
  "u64_le_bytes w = map (\<lambda>i. char_of (unat (drop_bit (8 * i) w) mod 256)) [0..<8]"

definition framed :: "string \<Rightarrow> string" where
  "framed bytes = u64_le_bytes (of_nat (length bytes)) @ bytes"

definition hashed :: "string list \<Rightarrow> string" where
  "hashed fs = concat (map framed fs)"

definition sorted_paths :: "artifact list \<Rightarrow> string list" where
  "sorted_paths arts = remdups_adj (sort (map exec_path arts))"

definition action_key :: "debug_text \<Rightarrow> (string \<Rightarrow> string) \<Rightarrow> action \<Rightarrow> string" where
  "action_key dbg sha256_hex a =
     sha256_hex (hashed (definition_fields dbg a @ ''inputs'' # sorted_paths (inputs a)
       @ ''outputs'' # map exec_path (outputs a)))"

section \<open>The hashed bytes determine the fields\<close>

lemma nat_bytes_inj:
  "(\<And>i. i < k \<Longrightarrow> m div 256 ^ i mod 256 = n div 256 ^ i mod 256) \<Longrightarrow> m mod 256 ^ k = n mod (256 ^ k :: nat)"
proof (induction k)
  case (Suc k)
  have "x mod 256 ^ Suc k = 256 ^ k * (x div 256 ^ k mod 256) + x mod 256 ^ k" for x :: nat
    using mod_mult2_eq [of x "256 ^ k" 256] by (simp add: mult.commute)
  then show ?case using Suc by simp
qed simp

lemma unat_drop_byte: "unat (drop_bit (8 * i) (w :: u64)) = unat w div 256 ^ i"
  by (simp only: unat_drop_bit_eq) (simp add: drop_bit_eq_div power_mult)

lemma u64_le_bytes_inj: "u64_le_bytes v = u64_le_bytes w \<longleftrightarrow> v = w"
proof
  assume h: "u64_le_bytes v = u64_le_bytes w"
  have byte: "unat v div 256 ^ i mod 256 = unat w div 256 ^ i mod 256" if "i < 8" for i
  proof -
    have "u64_le_bytes v ! i = u64_le_bytes w ! i" using h by simp
    then have "(char_of (unat v div 256 ^ i mod 256) :: char) = char_of (unat w div 256 ^ i mod 256)"
      using that by (simp add: u64_le_bytes_def unat_drop_byte)
    then show ?thesis by (metis mod_mod_trivial of_char_of)
  qed
  have "unat x mod 256 ^ 8 = unat x" for x :: u64 using unsigned_less [of x, where 'a = nat] by simp
  then have "unat v = unat w" using nat_bytes_inj [of 8 "unat v" "unat w"] byte by simp
  then show "v = w" by (rule unsigned_word_eqI)
qed simp

lemma length_u64_le_bytes [simp]: "length (u64_le_bytes w) = 8"
  by (simp add: u64_le_bytes_def)

lemma framed_append:
  assumes "length x < 2 ^ 64" "length y < 2 ^ 64"
  shows "framed x @ s = framed y @ t \<longleftrightarrow> x = y \<and> s = t"
proof
  assume h: "framed x @ s = framed y @ t"
  then have "u64_le_bytes (of_nat (length x)) = u64_le_bytes (of_nat (length y))" and rest: "x @ s = y @ t"
    by (auto simp: framed_def append_eq_append_conv)
  then have "(of_nat (length x) :: u64) = of_nat (length y)" by (simp add: u64_le_bytes_inj)
  then have "unat (of_nat (length x) :: u64) = unat (of_nat (length y) :: u64)" by simp
  then have "length x = length y" using assms by (simp add: unsigned_of_nat take_bit_eq_mod)
  then show "x = y \<and> s = t" using rest by simp
qed simp

lemma hashed_inj:
  "list_all (\<lambda>x. length x < 2 ^ 64) xs \<Longrightarrow> list_all (\<lambda>x. length x < 2 ^ 64) ys \<Longrightarrow> hashed xs = hashed ys \<longleftrightarrow> xs = ys"
proof (induction xs arbitrary: ys)
  case Nil
  then show ?case by (cases ys) (auto simp: hashed_def framed_def u64_le_bytes_def)
next
  case (Cons x xs)
  have nonempty: "framed x \<noteq> []" by (simp add: framed_def u64_le_bytes_def)
  show ?case
  proof (cases ys)
    case (Cons y ys')
    then show ?thesis using Cons.IH [of ys'] Cons.prems framed_append [of x y] by (simp add: hashed_def)
  qed (simp add: hashed_def nonempty)
qed

lemma pairs_inj: "length kvs = length kvs' \<Longrightarrow> pairs kvs @ xs = pairs kvs' @ ys \<longleftrightarrow> kvs = kvs' \<and> xs = ys"
  by (induction kvs kvs' rule: list_induct2) (auto simp: pairs_def)

section \<open>Properties\<close>

text \<open>
  The bytes that are hashed for two commands tell them apart, given that they have the same number
  of arguments and of environment variables and read no tree: with equal bytes, the mnemonic, the
  arguments, the environment and the execution requirements are equal.
\<close>

theorem spawn_bytes_injective:
  assumes "kind a = Spawn args env reqs []" and "kind b = Spawn args' env' reqs' []"
    and "length args = length args'" and "length env = length env'"
    and "list_all (\<lambda>x. length x < 2 ^ 64) (definition_fields dbg a)"
    and "list_all (\<lambda>x. length x < 2 ^ 64) (definition_fields dbg b)"
    and "hashed (definition_fields dbg a) = hashed (definition_fields dbg b)"
  shows "mnemonic a = mnemonic b \<and> args = args' \<and> env = env' \<and> reqs = reqs'"
proof -
  have "definition_fields dbg a = definition_fields dbg b" using assms hashed_inj by blast
  then have "mnemonic a = mnemonic b" "args = args'"
    and rest: "pairs env @ ''requirements'' # pairs reqs = pairs env' @ ''requirements'' # pairs reqs'"
    using assms(1-3) by (simp_all add: definition_fields_def kind_fields_def)
  moreover have "env = env'" "pairs reqs = pairs reqs'" using rest pairs_inj [OF assms(4)] by auto
  moreover have "length kvs * 2 = length (pairs kvs)" for kvs by (induction kvs) (auto simp: pairs_def)
  then have "length reqs = length reqs'" using \<open>pairs reqs = pairs reqs'\<close> by (metis mult_cancel2 zero_neq_numeral)
  then have "reqs = reqs'" using pairs_inj [of reqs reqs' "[]" "[]"] \<open>pairs reqs = pairs reqs'\<close> by simp
  ultimately show ?thesis by blast
qed

definition example_action :: action where
  "example_action = \<lparr>act_owner = Label [] ''p'' ''t'', owner_kind = ''genrule'', location = ''BUILD:1:1'',
     configuration = ''k8'', mnemonic = ''Genrule'', progress_message = None,
     kind = Spawn [''sh'', ''-c''] [(''PATH'', ''/bin'')] [] [], inputs = [], input_set = None, outputs = [], exec_group = None\<rparr>"

theorem spawn_bytes_injective_witness:
  "mnemonic example_action = mnemonic (example_action\<lparr>location := ''BUILD:2:1''\<rparr>)"
proof -
  let ?dbg = "\<lparr>debug_lazy = \<lambda>_. [], debug_format = \<lambda>_. []\<rparr>"
  have "list_all (\<lambda>x. length x < 2 ^ 64) (definition_fields ?dbg example_action)"
    by (simp add: definition_fields_def kind_fields_def example_action_def pairs_def)
  moreover have "definition_fields ?dbg (example_action\<lparr>location := ''BUILD:2:1''\<rparr>) = definition_fields ?dbg example_action"
    by (simp add: definition_fields_def)
  moreover have "kind example_action = Spawn [''sh'', ''-c''] [(''PATH'', ''/bin'')] [] []" by (simp add: example_action_def)
  ultimately show ?thesis
    using spawn_bytes_injective [of example_action "[''sh'', ''-c'']" "[(''PATH'', ''/bin'')]" "[]"
        "example_action\<lparr>location := ''BUILD:2:1''\<rparr>" "[''sh'', ''-c'']" "[(''PATH'', ''/bin'')]" "[]" ?dbg]
    by simp
qed

text \<open>
  C23. Without the counts the key does not tell commands apart. The fields have no mark between the
  arguments and the environment that an argument cannot be: a command with the variable \<open>x\<close> set to
  \<open>env\<close>, and the command with the two further arguments \<open>env\<close> and \<open>x\<close> and no environment, have the same
  key, whatever the hash function, and are different actions.
\<close>

theorem action_key_collision:
  "action_key dbg sha256_hex (a\<lparr>kind := Spawn args [(x, ''env'')] reqs []\<rparr>) =
     action_key dbg sha256_hex (a\<lparr>kind := Spawn (args @ [''env'', x]) [] reqs []\<rparr>)
   \<and> a\<lparr>kind := Spawn args [(x, ''env'')] reqs []\<rparr> \<noteq> a\<lparr>kind := Spawn (args @ [''env'', x]) [] reqs []\<rparr>"
proof
  have "kind_fields dbg (Spawn args [(x, ''env'')] reqs []) = kind_fields dbg (Spawn (args @ [''env'', x]) [] reqs [])"
    by (simp add: kind_fields_def pairs_def)
  then show "action_key dbg sha256_hex (a\<lparr>kind := Spawn args [(x, ''env'')] reqs []\<rparr>) =
      action_key dbg sha256_hex (a\<lparr>kind := Spawn (args @ [''env'', x]) [] reqs []\<rparr>)"
    by (simp add: action_key_def definition_fields_def)
  have "kind (a\<lparr>kind := Spawn args [(x, ''env'')] reqs []\<rparr>) \<noteq> kind (a\<lparr>kind := Spawn (args @ [''env'', x]) [] reqs []\<rparr>)" by simp
  then show "a\<lparr>kind := Spawn args [(x, ''env'')] reqs []\<rparr> \<noteq> a\<lparr>kind := Spawn (args @ [''env'', x]) [] reqs []\<rparr>" by metis
qed

end
