(* ===== verification/Conflicts.thy ===== *)
theory Conflicts
  imports Actions
begin

text \<open>
  Actions that cannot both be in a build (\<open>crates/fjfj-graph/src/conflicts.rs\<close>): two that make one file
  and differ, and two whose outputs one is inside the other. Actions are compared by reference when they
  are collected, so they are named by their place in the list. A panic of the source is \<open>None\<close>.
\<close>

section \<open>Finding the conflicts\<close>

record conflict =
  message :: string
  losers :: "label list"

definition shared :: "action \<Rightarrow> action \<Rightarrow> bool" where
  "shared a b \<longleftrightarrow> mnemonic a = mnemonic b \<and> progress_message a = progress_message b \<and> kind a = kind b
     \<and> inputs a = inputs b \<and> outputs a = outputs b"

definition root_relative :: "artifact \<Rightarrow> string" where
  "root_relative a = path a"

definition label_text :: "label \<Rightarrow> string" where
  "label_text l =
     (if repo l = [] then ''//'' @ package l @ '':'' @ lname l
      else ''@@'' @ repo l @ ''//'' @ package l @ '':'' @ lname l)"

text \<open>The map from the path of an output to the actions that make it, in the order they come.\<close>

definition register :: "nat \<Rightarrow> string \<Rightarrow> (string, nat list) btree \<Rightarrow> (string, nat list) btree" where
  "register i p by_output =
     (let at = (case map_of by_output p of Some l \<Rightarrow> l | None \<Rightarrow> [])
      in btree_insert p (if i \<in> set at then at else at @ [i]) by_output)"

fun register_all :: "nat \<Rightarrow> action list \<Rightarrow> (string, nat list) btree \<Rightarrow> (string, nat list) btree" where
  "register_all i [] by_output = by_output"
| "register_all i (a # as) by_output =
     register_all (Suc i) as (fold (\<lambda>out. register i (exec_path out)) (outputs a) by_output)"

definition unique :: "string list \<Rightarrow> string" where
  "unique items = join '', '' (extend_missing [] items)"

text \<open>A stable sort by a key, the largest key first.\<close>

definition sort_descending :: "('a \<Rightarrow> string) \<Rightarrow> 'a list \<Rightarrow> 'a list" where
  "sort_descending key xs = rev (sort_key key (rev xs))"

definition newline :: string where
  "newline = [CHR 0x0A]"

definition conflict_text :: "string \<Rightarrow> artifact \<Rightarrow> action \<Rightarrow> action list \<Rightarrow> action list \<Rightarrow> string" where
  "conflict_text p output first made_by newest_first =
     (let owners = unique (map (\<lambda>a. label_text (act_owner a)) newest_first);
          kinds = unique (map (\<lambda>a. owner_kind a @ '' rule'') newest_first);
          mnemonics = unique (map mnemonic newest_first);
          progress = unique (List.map_filter progress_message newest_first);
          inputs_equal = list_all (\<lambda>a. inputs a = inputs first) made_by;
          outputs_equal = list_all (\<lambda>a. outputs a = outputs first) made_by
      in ''file '' @ [CHR 0x27] @ root_relative output @ [CHR 0x27] @ '' is generated by these conflicting actions:'' @ newline
         @ ''Label: '' @ owners @ newline @ ''RuleClass: '' @ kinds @ newline @ ''Mnemonic: '' @ mnemonics @ newline
         @ (if sublist '', '' mnemonics then [] else ''IsShareable: true'' @ newline)
         @ (if progress = [] then [] else ''Progress message: '' @ progress @ newline)
         @ ''PrimaryOutput: File:[[<execution_root>]'' @ root_prefix (art_root output) @ '']'' @ path output @ newline
         @ ''MandatoryInputs: '' @ (if inputs_equal then ''are equal'' else ''differ'') @ newline
         @ ''Outputs: '' @ (if outputs_equal then ''are equal'' else ''differ''))"

definition conflict_losers :: "action list \<Rightarrow> label list" where
  "conflict_losers newest_first =
     (let lost = extend_missing [] (map act_owner (butlast newest_first))
      in if newest_first = [] then lost else filter (\<lambda>l. l \<noteq> act_owner (last newest_first)) lost)"

text \<open>One file: no conflict when every action that makes it is the first one, or one conflict.\<close>

definition differing :: "action list \<Rightarrow> string \<times> nat list \<Rightarrow> conflict list option" where
  "differing actions entry =
     (case map ((!) actions) (snd entry) of
        [] \<Rightarrow> None
      | first # rest \<Rightarrow>
          (let made_by = first # rest
           in if list_all (shared first) made_by then Some []
              else case List.find (\<lambda>out. exec_path out = fst entry) (outputs first) of
                None \<Rightarrow> None
              | Some output \<Rightarrow>
                  (let newest_first = sort_descending (\<lambda>a. label_text (act_owner a)) (rev made_by)
                   in Some [\<lparr>message = conflict_text (fst entry) output first made_by newest_first,
                            losers = conflict_losers newest_first\<rparr>])))"

text \<open>The inner loop over the paths after \<open>outer\<close>, which stops at the first that does not start with it.\<close>

fun inside :: "string \<Rightarrow> string list \<Rightarrow> string list" where
  "inside outer [] = []"
| "inside outer (p # ps) =
     (case strip_prefix outer p of
        None \<Rightarrow> []
      | Some rest \<Rightarrow> if prefix ''/'' rest then p # inside outer ps else inside outer ps)"

fun nested_pairs :: "string list \<Rightarrow> (string \<times> string) list" where
  "nested_pairs [] = []"
| "nested_pairs (outer # ps) = map (Pair outer) (inside outer ps) @ nested_pairs ps"

definition makes_tree :: "action \<Rightarrow> bool" where
  "makes_tree a = (case kind a of RunfilesTree \<Rightarrow> True | SymlinkTree _ _ _ _ _ _ \<Rightarrow> True | _ \<Rightarrow> False)"

definition nested_conflict :: "action list \<Rightarrow> (string, nat list) btree \<Rightarrow> string \<times> string \<Rightarrow> conflict list option" where
  "nested_conflict actions by_output pair =
     (let (outer, inner) = pair
      in case (map_of by_output outer, map_of by_output inner) of
           (Some (i # is), Some (j # js)) \<Rightarrow>
             (if list_ex (\<lambda>k. makes_tree (actions ! k)) (i # is) then Some []
              else Some [\<lparr>message =
                ''One of the output paths '' @ [CHR 0x27] @ inner @ [CHR 0x27] @ '' (belonging to ''
                  @ label_text (act_owner (actions ! j)) @ '') and '' @ [CHR 0x27] @ outer @ [CHR 0x27] @ '' (belonging to ''
                  @ label_text (act_owner (actions ! i))
                  @ '') is a prefix of the other. These actions cannot be simultaneously present; please rename one of the output files or build just one of them'',
                losers = [act_owner (actions ! j)]\<rparr>])
         | _ \<Rightarrow> None)"

definition found :: "action list \<Rightarrow> conflict list option" where
  "found actions =
     (let by_output = register_all 0 actions []
      in case (those (map (differing actions) by_output),
               those (map (nested_conflict actions by_output) (nested_pairs (map fst by_output)))) of
           (Some a, Some b) \<Rightarrow> Some (concat a @ concat b)
         | _ \<Rightarrow> None)"

definition conflicts :: "action list \<Rightarrow> string list option" where
  "conflicts actions = map_option (map message) (found actions)"

section \<open>The map of the outputs\<close>

definition makes :: "action list \<Rightarrow> nat \<Rightarrow> string \<Rightarrow> bool" where
  "makes actions i p \<longleftrightarrow> i < length actions \<and> p \<in> exec_path ` set (outputs (actions ! i))"

definition registered :: "(string, nat list) btree \<Rightarrow> nat \<Rightarrow> string \<Rightarrow> bool" where
  "registered m i p \<longleftrightarrow> (\<exists>l. map_of m p = Some l \<and> i \<in> set l)"

definition by_output_inv :: "(string, nat list) btree \<Rightarrow> bool" where
  "by_output_inv m \<longleftrightarrow> btree_inv m \<and> (\<forall>p. map_of m p \<noteq> Some [])"

lemma register_inv: "by_output_inv m \<Longrightarrow> by_output_inv (register i p m)"
  by (auto simp: by_output_inv_def register_def Let_def btree_inv_insert btree_get_insert split: option.splits)

lemma registered_register:
  "by_output_inv m \<Longrightarrow> registered (register i p m) j q \<longleftrightarrow> registered m j q \<or> j = i \<and> q = p"
  by (cases "map_of m p") (auto simp: by_output_inv_def registered_def register_def Let_def btree_get_insert)

lemma register_outputs:
  "by_output_inv m \<Longrightarrow> by_output_inv (fold (\<lambda>out. register i (exec_path out)) outs m)
     \<and> (\<forall>j q. registered (fold (\<lambda>out. register i (exec_path out)) outs m) j q \<longleftrightarrow>
          registered m j q \<or> j = i \<and> q \<in> exec_path ` set outs)"
proof (induction outs arbitrary: m)
  case (Cons out outs)
  from Cons.IH [OF register_inv [OF Cons.prems, of i "exec_path out"]] show ?case
    using registered_register [OF Cons.prems] by auto
qed simp

lemma register_all_inv:
  "by_output_inv m \<Longrightarrow> by_output_inv (register_all i as m)
     \<and> (\<forall>j q. registered (register_all i as m) j q \<longleftrightarrow>
          registered m j q \<or> (\<exists>k < length as. j = i + k \<and> q \<in> exec_path ` set (outputs (as ! k))))"
proof (induction i as m rule: register_all.induct)
  case (2 i a as m)
  have step: "(\<exists>k < length (a # as). j = i + k \<and> q \<in> exec_path ` set (outputs ((a # as) ! k))) \<longleftrightarrow>
      (j = i \<and> q \<in> exec_path ` set (outputs a)) \<or> (\<exists>k < length as. j = Suc i + k \<and> q \<in> exec_path ` set (outputs (as ! k)))"
    for j q by (auto simp: less_Suc_eq_0_disj)
  show ?case using 2 register_outputs [OF 2(2), of i "outputs a"] unfolding step by simp
qed simp

lemma by_output_facts:
  "by_output_inv (register_all 0 actions [])" "registered (register_all 0 actions []) i p \<longleftrightarrow> makes actions i p"
proof -
  have "by_output_inv []" "\<not> registered [] j q" for j q by (auto simp: by_output_inv_def btree_inv_def registered_def)
  then show "by_output_inv (register_all 0 actions [])" "registered (register_all 0 actions []) i p \<longleftrightarrow> makes actions i p"
    using register_all_inv [of "[]" 0 actions] by (auto simp: makes_def)
qed

section \<open>Nested outputs\<close>

text \<open>In a sorted list, what starts with a string follows it without a gap.\<close>

lemma prefix_gap: "outer < p \<Longrightarrow> \<not> prefix outer p \<Longrightarrow> p < q \<Longrightarrow> \<not> prefix outer (q :: string)"
proof (induction outer arbitrary: p q)
  case (Cons c cs)
  then obtain d ds where p: "p = d # ds" by (cases p) auto
  then obtain e es where q: "q = e # es" using Cons.prems by (cases q) auto
  show ?case using Cons p q by (auto simp: Cons_less_Cons)
qed simp

definition below :: "string \<Rightarrow> string \<Rightarrow> bool" where
  "below outer p \<longleftrightarrow> prefix (outer @ ''/'') p"

lemma inside_below:
  "sorted_wrt (<) ps \<Longrightarrow> (\<And>p. p \<in> set ps \<Longrightarrow> outer < p) \<Longrightarrow> set (inside outer ps) = {p \<in> set ps. below outer p}"
proof (induction ps)
  case (Cons p ps)
  have below: "below outer q \<Longrightarrow> prefix outer q" for q unfolding below_def by (rule append_prefixD)
  show ?case
  proof (cases "strip_prefix outer p")
    case None
    then have "\<not> prefix outer p" by (simp add: strip_prefix_None)
    then have "\<not> prefix outer q" if "q \<in> set (p # ps)" for q
      using Cons.prems prefix_gap [of outer p q] that by auto
    then show ?thesis using None below by auto
  next
    case (Some rest)
    then have "p = outer @ rest" by (simp add: strip_prefix_Some)
    then have "below outer p \<longleftrightarrow> prefix ''/'' rest" by (simp add: below_def)
    then show ?thesis using Some Cons by auto
  qed
qed simp

lemma below_less: "below outer p \<Longrightarrow> outer < p"
proof -
  have "outer < outer @ c # r" for c r by (induction outer) (auto simp: Cons_less_Cons)
  then show "below outer p \<Longrightarrow> outer < p" by (auto simp: below_def prefix_def)
qed

lemma nested_pairs_below:
  "sorted_wrt (<) ps \<Longrightarrow> set (nested_pairs ps) = {(outer, inner). outer \<in> set ps \<and> inner \<in> set ps \<and> below outer inner}"
proof (induction ps)
  case (Cons outer ps)
  have above: "\<And>p. p \<in> set ps \<Longrightarrow> outer < p" using Cons.prems by simp
  have "\<not> below p outer" if "p \<in> set (outer # ps)" for p
    using below_less [of p outer] above that by fastforce
  then show ?case using Cons inside_below [of ps outer, OF _ above] by auto
qed simp

section \<open>What is found\<close>

lemma those_total: "(\<And>x. x \<in> set xs \<Longrightarrow> f x \<noteq> None) \<Longrightarrow> those (map f xs) = Some (map (the \<circ> f) xs)"
  by (induction xs) (auto split: option.splits)

lemma entry_lookup:
  assumes "(p, l) \<in> set (register_all 0 actions [])"
  shows "map_of (register_all 0 actions []) p = Some l"
proof -
  have "btree_inv (register_all 0 actions [])" using by_output_facts(1) by (simp add: by_output_inv_def)
  from btree.get_entries [OF this, of p l] assms show ?thesis by simp
qed

lemma entry_makes:
  assumes "(p, l) \<in> set (register_all 0 actions [])"
  shows "l \<noteq> [] \<and> (\<forall>i. i \<in> set l \<longleftrightarrow> makes actions i p)"
proof -
  note lookup = entry_lookup [OF assms]
  have "registered (register_all 0 actions []) i p \<longleftrightarrow> i \<in> set l" for i using lookup by (simp add: registered_def)
  moreover have "l \<noteq> []" using by_output_facts(1) [of actions] lookup by (auto simp: by_output_inv_def)
  ultimately show ?thesis unfolding by_output_facts(2) by blast
qed

lemma entry_exists: "makes actions i p \<Longrightarrow> \<exists>l. (p, l) \<in> set (register_all 0 actions [])"
  unfolding by_output_facts(2) [symmetric] registered_def by (auto dest: map_of_SomeD)

lemma keys_made: "p \<in> fst ` set (register_all 0 actions []) \<longleftrightarrow> (\<exists>i. makes actions i p)"
proof
  assume "p \<in> fst ` set (register_all 0 actions [])"
  then obtain l where "(p, l) \<in> set (register_all 0 actions [])" by auto
  from entry_makes [OF this] show "\<exists>i. makes actions i p" by (metis list.set_sel(1))
qed (use entry_exists in force)

lemma shared_trans: "shared a b \<Longrightarrow> shared a c \<Longrightarrow> shared b c"
  by (simp add: shared_def)

lemma differing_total:
  assumes "(p, l) \<in> set (register_all 0 actions [])"
  shows "differing actions (p, l) \<noteq> None
    \<and> (differing actions (p, l) = Some [] \<longleftrightarrow>
        (\<forall>i j. makes actions i p \<longrightarrow> makes actions j p \<longrightarrow> shared (actions ! i) (actions ! j)))"
proof -
  note l = entry_makes [OF assms]
  then obtain i il where il: "l = i # il" by (cases l) auto
  have "makes actions i p" using l il by auto
  then obtain out where "List.find (\<lambda>out. exec_path out = p) (outputs (actions ! i)) = Some out"
    by (cases "List.find (\<lambda>out. exec_path out = p) (outputs (actions ! i))") (auto simp: makes_def find_None_iff)
  moreover have "list_all (shared (actions ! i)) (map ((!) actions) l) \<longleftrightarrow>
      (\<forall>j. makes actions j p \<longrightarrow> shared (actions ! i) (actions ! j))"
    using l by (auto simp: list_all_iff)
  then have "(\<forall>i j. makes actions i p \<longrightarrow> makes actions j p \<longrightarrow> shared (actions ! i) (actions ! j)) \<longleftrightarrow>
      list_all (shared (actions ! i)) (map ((!) actions) l)"
    using \<open>makes actions i p\<close> shared_trans by blast
  ultimately show ?thesis by (simp add: differing_def il Let_def)
qed

lemma nested_conflict_total:
  assumes "(outer, inner) \<in> set (nested_pairs (map fst (register_all 0 actions [])))"
  shows "nested_conflict actions (register_all 0 actions []) (outer, inner) \<noteq> None
    \<and> (nested_conflict actions (register_all 0 actions []) (outer, inner) = Some [] \<longleftrightarrow>
        (\<exists>k. makes actions k outer \<and> makes_tree (actions ! k)))"
proof -
  let ?m = "register_all 0 actions []"
  have sorted: "sorted_wrt (<) (map fst ?m)" using by_output_facts(1) by (simp add: by_output_inv_def btree_inv_def)
  have "outer \<in> fst ` set ?m" "inner \<in> fst ` set ?m" using assms nested_pairs_below [OF sorted] by auto
  then obtain l l' where e: "(outer, l) \<in> set ?m" "(inner, l') \<in> set ?m" by auto
  then have "map_of ?m outer = Some l" "map_of ?m inner = Some l'" by (simp_all only: entry_lookup)
  moreover obtain i il j jl where "l = i # il" "l' = j # jl"
    using entry_makes [OF e(1)] entry_makes [OF e(2)] by (metis list.exhaust)
  moreover have "(\<exists>k. makes actions k outer \<and> makes_tree (actions ! k)) \<longleftrightarrow> list_ex (\<lambda>k. makes_tree (actions ! k)) l"
    using entry_makes [OF e(1)] by (auto simp: list_ex_iff)
  ultimately show ?thesis by (simp add: nested_conflict_def)
qed

section \<open>Properties\<close>

text \<open>
  C10. Looking for conflicts never panics, and it finds none exactly when the actions can be together: any
  two that make the same file are the same action, and no output is inside another, unless what makes
  the outer one makes a runfiles tree. That the search below an output stops at the first path that does not
  start with it loses nothing.
\<close>

theorem conflicts_exact:
  "\<exists>cs. found actions = Some cs \<and> (cs = [] \<longleftrightarrow>
     (\<forall>i j p. makes actions i p \<longrightarrow> makes actions j p \<longrightarrow> shared (actions ! i) (actions ! j))
     \<and> (\<forall>i j outer inner. makes actions i outer \<longrightarrow> makes actions j inner \<longrightarrow> prefix (outer @ ''/'') inner \<longrightarrow>
          (\<exists>k. makes actions k outer \<and> makes_tree (actions ! k))))"
proof -
  let ?m = "register_all 0 actions []"
  let ?pairs = "nested_pairs (map fst ?m)"
  have sorted: "sorted_wrt (<) (map fst ?m)" using by_output_facts(1) by (simp add: by_output_inv_def btree_inv_def)
  have d: "those (map (differing actions) ?m) = Some (map (the \<circ> differing actions) ?m)"
    using differing_total by (intro those_total) (metis surj_pair)
  have n: "those (map (nested_conflict actions ?m) ?pairs) = Some (map (the \<circ> nested_conflict actions ?m) ?pairs)"
    using nested_conflict_total by (intro those_total) (metis surj_pair)
  have "(\<forall>e \<in> set ?m. the (differing actions e) = []) \<longleftrightarrow>
      (\<forall>i j p. makes actions i p \<longrightarrow> makes actions j p \<longrightarrow> shared (actions ! i) (actions ! j))"
  proof -
    have "the (differing actions (p, l)) = [] \<longleftrightarrow>
        (\<forall>i j. makes actions i p \<longrightarrow> makes actions j p \<longrightarrow> shared (actions ! i) (actions ! j))"
      if "(p, l) \<in> set ?m" for p l using differing_total [OF that] by (metis option.collapse option.sel)
    then show ?thesis using entry_exists by (metis (no_types, lifting) surj_pair)
  qed
  moreover have "(\<forall>e \<in> set ?pairs. the (nested_conflict actions ?m e) = []) \<longleftrightarrow>
      (\<forall>i j outer inner. makes actions i outer \<longrightarrow> makes actions j inner \<longrightarrow> prefix (outer @ ''/'') inner \<longrightarrow>
          (\<exists>k. makes actions k outer \<and> makes_tree (actions ! k)))"
  proof -
    have "the (nested_conflict actions ?m (outer, inner)) = [] \<longleftrightarrow> (\<exists>k. makes actions k outer \<and> makes_tree (actions ! k))"
      if "(outer, inner) \<in> set ?pairs" for outer inner
      using nested_conflict_total [OF that] by (metis option.collapse option.sel)
    moreover have "(outer, inner) \<in> set ?pairs \<longleftrightarrow>
        (\<exists>i j. makes actions i outer \<and> makes actions j inner) \<and> prefix (outer @ ''/'') inner" for outer inner
      unfolding nested_pairs_below [OF sorted] by (simp add: below_def keys_made)
    ultimately show ?thesis by (metis surj_pair)
  qed
  ultimately show ?thesis by (simp add: found_def d n Let_def)
qed

text \<open>One action that two targets registered, and an output inside its output.\<close>

definition example_shared :: "action list" where
  "example_shared =
     (let a = example_action\<lparr>outputs := [derived_artifact ''bin'' [] ''p'' ''o'']\<rparr>
      in [a, a\<lparr>act_owner := Label [] ''q'' ''u''\<rparr>])"

definition example_nested :: "action list" where
  "example_nested = example_shared @ [example_action\<lparr>outputs := [derived_artifact ''bin'' [] ''p'' ''o/x'']\<rparr>]"

theorem conflicts_exact_witness:
  "found example_shared = Some [] \<and> shared (example_shared ! 0) (example_shared ! 1)
   \<and> map_option (map losers) (found example_nested) = Some [[Label [] ''p'' ''t'']]"
proof -
  have f: "found example_shared = Some []" by code_simp
  have "makes example_shared 0 ''bin/p/o''" "makes example_shared 1 ''bin/p/o''"
    by (simp_all add: makes_def example_shared_def derived_artifact_def exec_path_def derived_root_def join_path_def Let_def)
  then have "shared (example_shared ! 0) (example_shared ! 1)" using conflicts_exact [of example_shared] f by fastforce
  moreover have "map_option (map losers) (found example_nested) = Some [[Label [] ''p'' ''t'']]" by code_simp
  ultimately show ?thesis using f by blast
qed

end
