(* ===== verification/Slots.thy ===== *)
theory Slots
  imports Rust_Ord
begin

text \<open>
  The slots that \<open>--jobs\<close> limits commands with (\<open>crates/fjfj-exec/src/slots.rs\<close>). A call of \<open>acquire\<close> is a future:
  it takes a free slot at once or waits for one, which \<open>release\<close> passes to it through a one-shot channel. The mutex
  makes the two critical sections atomic, so a pool is the state behind the mutex together with where each call
  is, and a run is a sequence of events. A call is known by its number, which also stands for its channel: sending
  succeeds while the receiver has not been dropped, as \<open>tokio\<close> documents it. \<open>BinaryHeap\<close> is the list of what it
  holds, and popping takes the greatest. The arrival counter is a \<open>u64\<close> that never gets to its end.
\<close>

section \<open>The queue\<close>

record waiter =
  rank :: u64
  arrival :: nat
  wake :: nat

definition waiter_cmp :: "waiter \<Rightarrow> waiter \<Rightarrow> ordering" where
  "waiter_cmp a b = then_with (compare (rank a) (rank b)) (reverse (compare (arrival a) (arrival b)))"

fun heap_max :: "waiter \<Rightarrow> waiter list \<Rightarrow> waiter" where
  "heap_max w [] = w"
| "heap_max w (v # vs) = heap_max (if waiter_cmp w v = Less then v else w) vs"

definition heap_pop :: "waiter list \<Rightarrow> (waiter \<times> waiter list) option" where
  "heap_pop ws = (case ws of [] \<Rightarrow> None | w # vs \<Rightarrow> (let m = heap_max w vs in Some (m, remove1 m ws)))"

record slots =
  free :: nat
  next_arrival :: nat
  waiting :: "waiter list"

definition slots_new :: "nat \<Rightarrow> slots" where
  "slots_new count = \<lparr>free = count, next_arrival = 0, waiting = []\<rparr>"

text \<open>The critical section of \<open>acquire\<close>, with whether the call has its slot at once, and \<open>release\<close>, with the call
  that was passed the slot.\<close>

definition acquire :: "u64 \<Rightarrow> nat \<Rightarrow> slots \<Rightarrow> bool \<times> slots" where
  "acquire r t s =
     (if 0 < free s \<and> waiting s = [] then (True, s\<lparr>free := free s - 1\<rparr>)
      else (False, s\<lparr>next_arrival := next_arrival s + 1,
              waiting := \<lparr>rank = r, arrival = next_arrival s, wake = t\<rparr> # waiting s\<rparr>))"

lemma heap_max_in: "heap_max w vs \<in> set (w # vs)"
  by (induction w vs rule: heap_max.induct) (auto split: if_splits)

lemma heap_pop_in: "heap_pop ws = Some (w, rest) \<Longrightarrow> w \<in> set ws \<and> rest = remove1 w ws"
  using heap_max_in by (fastforce simp: heap_pop_def Let_def split: list.splits)

lemma heap_pop_length: "heap_pop ws = Some (w, rest) \<Longrightarrow> length rest < length ws"
  using heap_pop_in [of ws w rest] length_pos_if_in_set [of w ws] by (auto simp: length_remove1)

function release :: "(nat \<Rightarrow> bool) \<Rightarrow> slots \<Rightarrow> nat option \<times> slots" where
  "release listening s =
     (case heap_pop (waiting s) of
        Some (w, rest) \<Rightarrow>
          (if listening (wake w) then (Some (wake w), s\<lparr>waiting := rest\<rparr>)
           else release listening (s\<lparr>waiting := rest\<rparr>))
      | None \<Rightarrow> (None, s\<lparr>free := free s + 1\<rparr>))"
  by auto
termination
  by (relation "measure (\<lambda>(l, s). length (waiting s))") (auto dest: heap_pop_length)

declare release.simps [simp del]

section \<open>Calls and events\<close>

text \<open>
  Where the calls are: \<open>listening\<close> ones wait on their channel, \<open>handed\<close> ones have been sent the slot but have not run
  since, and \<open>holding\<close> ones have returned a \<open>Slot\<close> that is still there. A call whose future is dropped is
  cancelled while it listens and abandoned once it has been handed the slot.
\<close>

record pool =
  state :: slots
  calls :: nat
  listening :: "nat list"
  handed :: "nat list"
  holding :: "nat list"

definition pool_new :: "nat \<Rightarrow> pool" where
  "pool_new count = \<lparr>state = slots_new count, calls = 0, listening = [], handed = [], holding = []\<rparr>"

datatype event = Acquire u64 | Woken nat | Cancel nat | Abandon nat | Drop nat

definition enter :: "u64 \<Rightarrow> pool \<Rightarrow> pool" where
  "enter r p =
     (let (at_once, s) = acquire r (calls p) (state p)
      in if at_once then p\<lparr>state := s, calls := calls p + 1, holding := calls p # holding p\<rparr>
         else p\<lparr>state := s, calls := calls p + 1, listening := calls p # listening p\<rparr>)"

definition drop_slot :: "nat \<Rightarrow> pool \<Rightarrow> pool" where
  "drop_slot t p =
     (let (passed, s) = release (\<lambda>u. u \<in> set (listening p)) (state p)
      in case passed of
           None \<Rightarrow> p\<lparr>state := s, holding := remove1 t (holding p)\<rparr>
         | Some u \<Rightarrow> p\<lparr>state := s, holding := remove1 t (holding p), listening := remove1 u (listening p),
                        handed := u # handed p\<rparr>)"

inductive step :: "pool \<Rightarrow> event \<Rightarrow> pool \<Rightarrow> bool" where
  step_acquire: "step p (Acquire r) (enter r p)"
| step_woken: "t \<in> set (handed p) \<Longrightarrow>
    step p (Woken t) (p\<lparr>handed := remove1 t (handed p), holding := t # holding p\<rparr>)"
| step_cancel: "t \<in> set (listening p) \<Longrightarrow>
    step p (Cancel t) (p\<lparr>listening := remove1 t (listening p)\<rparr>)"
| step_abandon: "t \<in> set (handed p) \<Longrightarrow>
    step p (Abandon t) (p\<lparr>handed := remove1 t (handed p)\<rparr>)"
| step_drop: "t \<in> set (holding p) \<Longrightarrow> step p (Drop t) (drop_slot t p)"

inductive steps :: "pool \<Rightarrow> event list \<Rightarrow> pool \<Rightarrow> bool" where
  steps_none: "steps p [] p"
| steps_more: "step p e q \<Longrightarrow> steps q es r \<Longrightarrow> steps p (e # es) r"

inductive_simps steps_simps [simp]: "steps p [] q" "steps p (e # es) q"

section \<open>The greatest waiter is popped\<close>

definition before :: "waiter \<Rightarrow> waiter \<Rightarrow> bool" where
  "before w v \<longleftrightarrow> rank v < rank w \<or> rank v = rank w \<and> arrival w \<le> arrival v"

lemma before_refl: "before w w"
  by (simp add: before_def)

lemma before_trans: "before u v \<Longrightarrow> before v w \<Longrightarrow> before u w"
  by (auto simp: before_def)

lemma before_total: "before v w \<or> before w v"
  by (auto simp: before_def)

lemma waiter_cmp_Less: "waiter_cmp w v = Less \<longleftrightarrow> \<not> before w v"
  by (auto simp: waiter_cmp_def then_with_Less before_def)

lemma heap_max_before: "v \<in> set (w # vs) \<Longrightarrow> before (heap_max w vs) v"
proof (induction w vs arbitrary: v rule: heap_max.induct)
  case (2 w u us)
  let ?w = "if waiter_cmp w u = Less then u else w"
  have "before ?w w" "before ?w u"
    using before_total [of w u] by (auto simp: waiter_cmp_Less before_refl)
  moreover have "before (heap_max w (u # us)) ?w" using "2.IH" [of ?w] by simp
  ultimately have "before (heap_max w (u # us)) w" "before (heap_max w (u # us)) u"
    by (blast intro: before_trans)+
  then show ?case using "2.IH" [of v] "2.prems" by auto
qed (simp add: before_refl)

lemma heap_pop_before: "heap_pop ws = Some (w, rest) \<Longrightarrow> v \<in> set ws \<Longrightarrow> before w v"
  using heap_max_before by (fastforce simp: heap_pop_def Let_def split: list.splits)

lemma heap_pop_None: "heap_pop ws = None \<longleftrightarrow> ws = []"
  by (simp add: heap_pop_def Let_def split: list.splits)

lemma remove1_keeps: "v \<in> set ws \<Longrightarrow> v = w \<or> v \<in> set (remove1 w ws)"
  by (metis in_set_remove1)

text \<open>What \<open>release\<close> does: the slot goes to the first in the order among the calls that still listen.\<close>

lemma release_None:
  "release l s = (None, s') \<Longrightarrow>
    (\<forall>w \<in> set (waiting s). \<not> l (wake w)) \<and> s' = s\<lparr>free := free s + 1, waiting := []\<rparr>"
proof (induction l s rule: release.induct)
  case (1 l s)
  show ?case
  proof (cases "heap_pop (waiting s)")
    case None
    then have "waiting s = []" by (simp add: heap_pop_None)
    with None "1.prems" show ?thesis by (auto simp: release.simps [of l s])
  next
    case (Some a)
    obtain w rest where a: "a = (w, rest)" by (cases a)
    then have pop: "heap_pop (waiting s) = Some (w, rest)" using Some by simp
    have w: "\<not> l (wake w)" "release l (s\<lparr>waiting := rest\<rparr>) = (None, s')"
      using "1.prems" pop by (simp_all add: release.simps [of l s] split: if_splits)
    have "v = w \<or> v \<in> set rest" if "v \<in> set (waiting s)" for v
      using remove1_keeps [OF that, of w] heap_pop_in [OF pop] by simp
    then show ?thesis using "1.IH" [OF pop refl w] w by auto
  qed
qed

definition passed_to :: "(nat \<Rightarrow> bool) \<Rightarrow> waiter list \<Rightarrow> nat \<Rightarrow> waiter list \<Rightarrow> bool" where
  "passed_to l ws u ws' \<longleftrightarrow>
     (\<exists>w \<in> set ws. wake w = u \<and> l u \<and> (\<forall>v \<in> set ws. l (wake v) \<longrightarrow> before w v \<and> (v = w \<or> v \<in> set ws')))
     \<and> u \<notin> wake ` set ws' \<and> set ws' \<subseteq> set ws \<and> distinct (map wake ws')"

lemma in_set_remove1_in: "x \<in> set (remove1 w ws) \<Longrightarrow> x \<in> set ws"
  using set_remove1_subset by fastforce

lemma distinct_wake_remove1:
  "distinct (map wake ws) \<Longrightarrow> w \<in> set ws \<Longrightarrow>
    distinct (map wake (remove1 w ws)) \<and> wake w \<notin> wake ` set (remove1 w ws)"
  by (induction ws) (auto dest: in_set_remove1_in simp: image_iff)

lemma release_Some:
  "release l s = (Some u, s') \<Longrightarrow> distinct (map wake (waiting s)) \<Longrightarrow>
    passed_to l (waiting s) u (waiting s') \<and> s' = s\<lparr>waiting := waiting s'\<rparr>"
proof (induction l s rule: release.induct)
  case (1 l s)
  then obtain w rest where pop: "heap_pop (waiting s) = Some (w, rest)"
    by (auto simp: release.simps [of l s] split: option.splits)
  note w = heap_pop_in [OF pop]
  have rest: "distinct (map wake rest)" "wake w \<notin> wake ` set rest"
    using distinct_wake_remove1 "1.prems"(2) w by blast+
  have sub: "set rest \<subseteq> set (waiting s)" using w by (simp add: set_remove1_subset)
  have keeps: "v = w \<or> v \<in> set rest" if "v \<in> set (waiting s)" for v
    using remove1_keeps [OF that, of w] w by simp
  show ?case
  proof (cases "l (wake w)")
    case True
    then have "u = wake w" "s' = s\<lparr>waiting := rest\<rparr>"
      using "1.prems"(1) pop by (simp_all add: release.simps [of l s])
    then show ?thesis
      using True w rest sub keeps heap_pop_before [OF pop] unfolding passed_to_def
      by (simp del: set_remove1_eq) blast
  next
    case False
    then have "release l (s\<lparr>waiting := rest\<rparr>) = (Some u, s')"
      using "1.prems"(1) pop by (simp add: release.simps [of l s])
    then have "passed_to l rest u (waiting s') \<and> s' = s\<lparr>waiting := waiting s'\<rparr>"
      using "1.IH" [OF pop refl False] rest by simp
    moreover have "\<forall>v \<in> set (waiting s). l (wake v) \<longrightarrow> v \<in> set rest" using keeps False by blast
    ultimately show ?thesis using sub unfolding passed_to_def by blast
  qed
qed

section \<open>No slot is lost, and none is idle while a call waits\<close>

text \<open>The waiters have different channels, every listening call has its waiter, and a slot is only free when
  nothing waits.\<close>

definition pool_ok :: "pool \<Rightarrow> bool" where
  "pool_ok p \<longleftrightarrow> (free (state p) = 0 \<or> waiting (state p) = [])
     \<and> set (listening p) \<subseteq> wake ` set (waiting (state p)) \<and> distinct (listening p)
     \<and> distinct (map wake (waiting (state p))) \<and> (\<forall>w \<in> set (waiting (state p)). wake w < calls p)"

definition in_use :: "pool \<Rightarrow> nat" where
  "in_use p = free (state p) + length (handed p) + length (holding p)"

definition abandons :: "event list \<Rightarrow> nat" where
  "abandons es = length (filter (\<lambda>e. case e of Abandon _ \<Rightarrow> True | _ \<Rightarrow> False) es)"

lemma abandons_simps [simp]:
  "abandons [] = 0"
  "abandons (e # es) = (case e of Abandon _ \<Rightarrow> 1 | _ \<Rightarrow> 0) + abandons es"
  by (simp_all add: abandons_def split: event.splits)

lemma pool_new_ok: "pool_ok (pool_new n)" "in_use (pool_new n) = n"
  by (simp_all add: pool_ok_def pool_new_def slots_new_def in_use_def)

lemma enter_ok: "pool_ok p \<Longrightarrow> pool_ok (enter r p) \<and> in_use (enter r p) = in_use p"
proof -
  assume ok: "pool_ok p"
  then have "calls p \<notin> set (listening p)" by (fastforce simp: pool_ok_def)
  with ok show ?thesis by (auto simp: pool_ok_def enter_def acquire_def in_use_def less_Suc_eq)
qed

lemma drop_slot_ok:
  assumes ok: "pool_ok p" and t: "t \<in> set (holding p)"
  shows "pool_ok (drop_slot t p) \<and> in_use (drop_slot t p) = in_use p"
proof -
  obtain passed s where rel: "release (\<lambda>u. u \<in> set (listening p)) (state p) = (passed, s)"
    by (cases "release (\<lambda>u. u \<in> set (listening p)) (state p)")
  have len: "length (holding p) = Suc (length (remove1 t (holding p)))"
    using t length_pos_if_in_set [OF t] by (simp add: length_remove1)
  show ?thesis
  proof (cases passed)
    case None
    with rel release_None have "\<forall>w \<in> set (waiting (state p)). wake w \<notin> set (listening p)"
      and s: "s = (state p)\<lparr>free := free (state p) + 1, waiting := []\<rparr>" by auto
    moreover have "set (listening p) \<subseteq> wake ` set (waiting (state p))" using ok by (simp add: pool_ok_def)
    ultimately have "listening p = []" by (cases "listening p") auto
    then show ?thesis using None rel s len by (simp add: drop_slot_def pool_ok_def in_use_def)
  next
    case (Some u)
    let ?l = "\<lambda>u. u \<in> set (listening p)"
    have d: "distinct (map wake (waiting (state p)))" using ok by (simp add: pool_ok_def)
    have P: "passed_to ?l (waiting (state p)) u (waiting s)" "s = (state p)\<lparr>waiting := waiting s\<rparr>"
      using release_Some [OF _ d] rel Some by auto
    then have free: "free s = free (state p)" by (metis slots.ext_inject slots.surjective slots.update_convs(3))
    have "v \<in> wake ` set (waiting s)" if "v \<in> set (listening p)" "v \<noteq> u" for v
      using that ok P(1) unfolding pool_ok_def passed_to_def by (smt (verit, best) image_iff subsetD)
    then have "pool_ok (drop_slot t p)"
      using ok P(1) free Some rel unfolding pool_ok_def passed_to_def
      by (auto simp: drop_slot_def)
    moreover have "in_use (drop_slot t p) = in_use p"
      using Some rel free len by (simp add: drop_slot_def in_use_def)
    ultimately show ?thesis by simp
  qed
qed

lemma step_ok:
  assumes "step p e q" "pool_ok p"
  shows "pool_ok q \<and> in_use q + (case e of Abandon _ \<Rightarrow> 1 | _ \<Rightarrow> 0) = in_use p"
  using assms
proof (cases rule: step.cases)
  case (step_woken t)
  then show ?thesis using assms length_pos_if_in_set [of t "handed p"]
    by (simp add: pool_ok_def in_use_def length_remove1)
next
  case (step_cancel t)
  then show ?thesis using assms set_remove1_subset [of t "listening p"] by (auto simp: pool_ok_def in_use_def)
next
  case (step_abandon t)
  then show ?thesis using assms length_pos_if_in_set [of t "handed p"]
    by (simp add: pool_ok_def in_use_def length_remove1)
qed (use assms enter_ok drop_slot_ok in auto)

lemma steps_ok: "steps p es q \<Longrightarrow> pool_ok p \<Longrightarrow> pool_ok q \<and> in_use q + abandons es = in_use p"
  by (induction rule: steps.induct) (fastforce dest: step_ok)+

lemma steps_append: "steps p (es @ fs) r \<longleftrightarrow> (\<exists>q. steps p es q \<and> steps q fs r)"
  by (induction es arbitrary: p) auto


text \<open>One slot, a call that holds it, one that waits with rank 7 and one that waits with rank 9.\<close>

definition three_calls :: pool where
  "three_calls = enter 9 (enter 7 (enter 0 (pool_new 1)))"

lemma three_calls_reached: "steps (pool_new 1) [Acquire 0, Acquire 7, Acquire 9] three_calls"
  unfolding three_calls_def by (auto intro: step.intros)

lemma three_calls_state:
  "three_calls = \<lparr>state = \<lparr>free = 0, next_arrival = 2, waiting =
       [\<lparr>rank = 9, arrival = 1, wake = 2\<rparr>, \<lparr>rank = 7, arrival = 0, wake = 1\<rparr>]\<rparr>,
     calls = 3, listening = [2, 1], handed = [], holding = [0]\<rparr>"
  by (simp add: three_calls_def pool_new_def slots_new_def enter_def acquire_def numeral_eq_Suc)


text \<open>
  A slot that is dropped goes to a call that still waits, if there is one, and of those to one with the greatest
  rank that arrived first among its equals. The other calls wait on.
\<close>

theorem dropped_slot_goes_to_greatest:
  assumes "steps (pool_new n) es p" "t \<in> set (holding p)" "listening p \<noteq> []"
  shows "\<exists>w \<in> set (waiting (state p)). wake w \<in> set (listening p)
    \<and> (\<forall>v \<in> set (waiting (state p)). wake v \<in> set (listening p) \<longrightarrow>
         rank v < rank w \<or> rank v = rank w \<and> arrival w \<le> arrival v)
    \<and> handed (drop_slot t p) = wake w # handed p
    \<and> listening (drop_slot t p) = remove1 (wake w) (listening p)
    \<and> holding (drop_slot t p) = remove1 t (holding p)"
proof -
  have ok: "pool_ok p" using steps_ok [OF assms(1)] pool_new_ok by simp
  let ?l = "\<lambda>u. u \<in> set (listening p)"
  obtain passed s where rel: "release ?l (state p) = (passed, s)" by (cases "release ?l (state p)")
  then obtain u where u: "passed = Some u"
    using release_None [of ?l "state p" s] ok assms(3) by (cases passed) (fastforce simp: pool_ok_def neq_Nil_conv)+
  then have "passed_to ?l (waiting (state p)) u (waiting s)"
    using release_Some [of ?l "state p" u s] ok rel by (simp add: pool_ok_def)
  then show ?thesis using rel u unfolding passed_to_def before_def by (auto simp: drop_slot_def)
qed

theorem dropped_slot_goes_to_greatest_witness:
  "\<exists>w \<in> set (waiting (state three_calls)). rank w = 9 \<and> handed (drop_slot 0 three_calls) = [wake w]"
  using dropped_slot_goes_to_greatest [OF three_calls_reached, of 0]
  by (simp add: three_calls_state)

text \<open>
  C39. A call that is abandoned after it was handed a slot and before it runs again takes the slot with it: nothing
  passes it on. Here a pool of one slot has no call left, and no call will ever get a slot again.
\<close>

theorem abandoned_slot_is_lost:
  "\<exists>es p. steps (pool_new 1) es p \<and> listening p = [] \<and> handed p = [] \<and> holding p = []
     \<and> (\<forall>fs q. steps p fs q \<longrightarrow> holding q = [] \<and> handed q = [])"
proof -
  let ?p = "\<lparr>state = \<lparr>free = 0, next_arrival = 1, waiting = []\<rparr>, calls = 2, listening = [], handed = [], holding = []\<rparr>"
  let ?es = "[Acquire 0, Acquire 7, Drop 0, Abandon 1]"
  let ?q = "enter 7 (enter 0 (pool_new 1))"
  have "step (drop_slot 0 ?q) (Abandon 1) ((drop_slot 0 ?q)\<lparr>handed := remove1 1 (handed (drop_slot 0 ?q))\<rparr>)"
    by (rule step.step_abandon)
      (simp add: pool_new_def slots_new_def enter_def acquire_def drop_slot_def release.simps heap_pop_def)
  moreover have "(drop_slot 0 ?q)\<lparr>handed := remove1 1 (handed (drop_slot 0 ?q))\<rparr> = ?p"
    by (simp add: pool_new_def slots_new_def enter_def acquire_def drop_slot_def release.simps heap_pop_def)
  moreover have "step ?q (Drop 0) (drop_slot 0 ?q)"
    by (rule step.step_drop) (simp add: pool_new_def slots_new_def enter_def acquire_def)
  ultimately have es: "steps (pool_new 1) ?es ?p" using step.step_acquire by fastforce
  moreover have "holding q = [] \<and> handed q = []" if "steps ?p fs q" for fs q
  proof -
    have "steps (pool_new 1) (?es @ fs) q" using es that steps_append by blast
    from steps_ok [OF this] pool_new_ok have "in_use q + abandons (?es @ fs) = 1" by simp
    then show ?thesis by (simp add: in_use_def)
  qed
  ultimately show ?thesis by (intro exI [of _ ?es] exI [of _ ?p]) simp
qed

theorem abandoned_slot_is_lost_witness:
  "\<exists>p. listening p = [] \<and> holding p = [] \<and> holding (enter 5 p) = []"
proof -
  obtain p where "listening p = []" "holding p = []" "\<And>fs q. steps p fs q \<Longrightarrow> holding q = []"
    using abandoned_slot_is_lost by blast
  moreover have "steps p [Acquire 5] (enter 5 p)" by (simp add: step.step_acquire)
  ultimately show ?thesis by blast
qed

end
