(* ===== verification/Action_Cache.thy ===== *)
theory Action_Cache
  imports Actions
begin

text \<open>
  The action cache (\<open>crates/fjfj-exec/src/cache.rs\<close>): what is known of the last run of each action, so that
  it does not run again while its key and its outputs are the same. The methods are modelled one after
  the other, each on the whole state; the file system is the value that \<open>metadata\<close>, \<open>symlink_metadata\<close>
  and \<open>open\<close> answer from, under the execution root, and the crates \<open>sha2\<close> and \<open>hex\<close> are functions. Times
  in milliseconds and counts are \<open>u64\<close>.
\<close>

section \<open>The file system and the crates\<close>

record file_node =
  mtime :: nat
  content :: string
  readable :: bool

datatype node = FileNode file_node | DirNode | OtherNode

datatype link_node = LinkNode | PlainNode node

text \<open>\<open>stat\<close> follows symlinks, \<open>lstat\<close> does not; \<open>None\<close> is an error.\<close>

record file_system =
  stat :: "string \<Rightarrow> node option"
  lstat :: "string \<Rightarrow> link_node option"

record crates =
  sha256 :: "string \<Rightarrow> string"
  hex_encode :: "string \<Rightarrow> string"
  debug :: debug_text

section \<open>State\<close>

definition VOLATILE_STATUS :: string where
  "VOLATILE_STATUS = ''bazel-out/volatile-status.txt''"

record file_digest =
  mtime_ns :: nat
  size_of :: nat
  digest_hex :: string

record entry =
  entry_key :: string
  duration_ms :: u64
  entry_outputs :: "(string \<times> string) list"

record mean =
  runs :: u64
  mean_ms :: u64

definition MEAN_WINDOW :: u64 where
  "MEAN_WINDOW = 32"

record action_cache =
  cache_actions :: "string \<rightharpoonup> entry"
  cache_files :: "string \<rightharpoonup> file_digest"
  mnemonics :: "string \<rightharpoonup> mean"
  dirs :: "string \<rightharpoonup> string"
  fragments :: "string \<rightharpoonup> string"

section \<open>Digests and keys\<close>

definition digest :: "crates \<Rightarrow> file_system \<Rightarrow> string \<Rightarrow> action_cache \<Rightarrow> string option \<times> action_cache" where
  "digest cr fs p c =
     (case stat fs p of
        None \<Rightarrow> (None, c)
      | Some DirNode \<Rightarrow> (dirs c p, c)
      | Some OtherNode \<Rightarrow> (None, c)
      | Some (FileNode f) \<Rightarrow>
          (case (case cache_files c p of
                   Some known \<Rightarrow> if mtime_ns known = mtime f \<and> size_of known = length (content f) then Some known else None
                 | None \<Rightarrow> None) of
             Some known \<Rightarrow> (Some (digest_hex known), c)
           | None \<Rightarrow>
               (if \<not> readable f then (None, c)
                else let d = hex_encode cr (sha256 cr (content f))
                     in (Some d, c\<lparr>cache_files := (cache_files c)(p \<mapsto>
                          \<lparr>mtime_ns = mtime f, size_of = length (content f), digest_hex = d\<rparr>)\<rparr>))))"

definition input_fragment :: "crates \<Rightarrow> file_system \<Rightarrow> string \<Rightarrow> action_cache \<Rightarrow> string option \<times> action_cache" where
  "input_fragment cr fs p c =
     (case fragments c p of
        Some fragment \<Rightarrow> (Some fragment, c)
      | None \<Rightarrow>
          (case (if p = VOLATILE_STATUS then (map_option (\<lambda>_. ''volatile'') (stat fs p), c) else digest cr fs p c) of
             (None, c') \<Rightarrow> (None, c')
           | (Some d, c') \<Rightarrow>
               (let fragment = sha256 cr (framed p @ framed d)
                in (Some fragment, c'\<lparr>fragments := (fragments c')(p \<mapsto> fragment)\<rparr>))))"

fun input_fragments :: "crates \<Rightarrow> file_system \<Rightarrow> string list \<Rightarrow> action_cache \<Rightarrow> string option \<times> action_cache" where
  "input_fragments cr fs [] c = (Some [], c)"
| "input_fragments cr fs (p # ps) c =
     (case input_fragment cr fs p c of
        (None, c') \<Rightarrow> (None, c')
      | (Some fragment, c') \<Rightarrow>
          (case input_fragments cr fs ps c' of
             (None, c'') \<Rightarrow> (None, c'')
           | (Some rest, c'') \<Rightarrow> (Some (fragment @ rest), c'')))"

definition key :: "crates \<Rightarrow> file_system \<Rightarrow> action \<Rightarrow> action_cache \<Rightarrow> string option \<times> action_cache" where
  "key cr fs a c =
     (case input_fragments cr fs (sorted_paths (inputs a)) c of
        (None, c') \<Rightarrow> (None, c')
      | (Some fragment, c') \<Rightarrow>
          (Some (hex_encode cr (sha256 cr (hashed
             (definition_fields (debug cr) a @ [''inputs'', fragment] @ ''outputs'' # map exec_path (outputs a))))), c'))"

section \<open>Looking up and recording\<close>

definition directory_of :: "string \<Rightarrow> string" where
  "directory_of k = ''directory:'' @ k"

definition note_dirs :: "file_system \<Rightarrow> action \<Rightarrow> string \<Rightarrow> action_cache \<Rightarrow> action_cache" where
  "note_dirs fs a k c =
     c\<lparr>dirs := fold (\<lambda>out m. if stat fs (exec_path out) = Some DirNode then m(exec_path out \<mapsto> directory_of k) else m)
       (outputs a) (dirs c)\<rparr>"

text \<open>Whether one recorded output is as it was, and the test of all of them, which stops at the first that is not.\<close>

definition output_current ::
  "crates \<Rightarrow> file_system \<Rightarrow> string \<Rightarrow> string \<times> string \<Rightarrow> action_cache \<Rightarrow> bool \<times> action_cache" where
  "output_current cr fs k out c =
     (case lstat fs (fst out) of
        Some LinkNode \<Rightarrow> (snd out = ''symlink'', c)
      | Some (PlainNode DirNode) \<Rightarrow> (snd out = directory_of k, c)
      | Some (PlainNode _) \<Rightarrow> (let (d, c') = digest cr fs (fst out) c in (d = Some (snd out), c'))
      | None \<Rightarrow> (False, c))"

fun outputs_current ::
  "crates \<Rightarrow> file_system \<Rightarrow> string \<Rightarrow> (string \<times> string) list \<Rightarrow> action_cache \<Rightarrow> bool \<times> action_cache" where
  "outputs_current cr fs k [] c = (True, c)"
| "outputs_current cr fs k (out # outs) c =
     (case output_current cr fs k out c of
        (False, c') \<Rightarrow> (False, c')
      | (True, c') \<Rightarrow> outputs_current cr fs k outs c')"

definition is_current :: "crates \<Rightarrow> file_system \<Rightarrow> action \<Rightarrow> string \<Rightarrow> action_cache \<Rightarrow> bool \<times> action_cache" where
  "is_current cr fs a k c =
     (case outputs a of
        [] \<Rightarrow> (False, c)
      | first # _ \<Rightarrow>
          (case cache_actions c (exec_path first) of
             None \<Rightarrow> (False, c)
           | Some e \<Rightarrow>
               (if entry_key e = k \<and> length (entry_outputs e) = length (outputs a) then
                  (case outputs_current cr fs k (entry_outputs e) c of
                     (False, c') \<Rightarrow> (False, c')
                   | (True, c') \<Rightarrow> (True, note_dirs fs a k c'))
                else (False, c))))"

definition duration :: "action \<Rightarrow> action_cache \<Rightarrow> u64 option" where
  "duration a c =
     (case outputs a of [] \<Rightarrow> None | first # _ \<Rightarrow> map_option duration_ms (cache_actions c (exec_path first)))"

definition mnemonic_mean :: "string \<Rightarrow> action_cache \<Rightarrow> u64 option" where
  "mnemonic_mean m c =
     (case mnemonics c m of Some x \<Rightarrow> if 0 < runs x then Some (mean_ms x) else None | None \<Rightarrow> None)"

definition output_digest ::
  "crates \<Rightarrow> file_system \<Rightarrow> string \<Rightarrow> string \<Rightarrow> action_cache \<Rightarrow> (string \<times> string) \<times> action_cache" where
  "output_digest cr fs k p c =
     (case lstat fs p of
        Some LinkNode \<Rightarrow> ((p, ''symlink''), c)
      | Some (PlainNode DirNode) \<Rightarrow> ((p, directory_of k), c)
      | _ \<Rightarrow> (let (d, c') = digest cr fs p c in ((p, case d of Some x \<Rightarrow> x | None \<Rightarrow> []), c')))"

fun output_digests ::
  "crates \<Rightarrow> file_system \<Rightarrow> string \<Rightarrow> string list \<Rightarrow> action_cache \<Rightarrow> (string \<times> string) list \<times> action_cache" where
  "output_digests cr fs k [] c = ([], c)"
| "output_digests cr fs k (p # ps) c =
     (let (d, c1) = output_digest cr fs k p c; (ds, c2) = output_digests cr fs k ps c1 in (d # ds, c2))"

definition next_mean :: "mean option \<Rightarrow> u64 \<Rightarrow> mean" where
  "next_mean old took_ms =
     (let m = (case old of Some x \<Rightarrow> x | None \<Rightarrow> \<lparr>runs = 0, mean_ms = 0\<rparr>);
          n = min (runs m + 1) MEAN_WINDOW
      in \<lparr>runs = n, mean_ms = (if n = 1 then took_ms else (mean_ms m * (n - 1) + took_ms) div n)\<rparr>)"

definition record_run :: "crates \<Rightarrow> file_system \<Rightarrow> action \<Rightarrow> string \<Rightarrow> u64 \<Rightarrow> action_cache \<Rightarrow> action_cache" where
  "record_run cr fs a k took_ms c =
     (case outputs a of
        [] \<Rightarrow> c
      | first # _ \<Rightarrow>
          (let (outs, c1) = output_digests cr fs k (map exec_path (outputs a)) (note_dirs fs a k c);
               c2 = c1\<lparr>mnemonics := (mnemonics c1)(mnemonic a \<mapsto> next_mean (mnemonics c1 (mnemonic a)) took_ms)\<rparr>
           in c2\<lparr>cache_actions := (cache_actions c2)(exec_path first \<mapsto>
                \<lparr>entry_key = k, duration_ms = took_ms, entry_outputs = outs\<rparr>)\<rparr>))"

section \<open>Digests are stable\<close>

abbreviation answer :: "crates \<Rightarrow> file_system \<Rightarrow> string \<Rightarrow> action_cache \<Rightarrow> string option" where
  "answer cr fs p c \<equiv> fst (digest cr fs p c)"

lemma answer_cong: "cache_files d = cache_files c \<Longrightarrow> dirs d = dirs c \<Longrightarrow> answer cr fs p d = answer cr fs p c"
  by (simp add: digest_def Let_def split: option.split node.split)

text \<open>Asking for a digest changes no answer and nothing but the remembered digests.\<close>

definition same_answers :: "crates \<Rightarrow> file_system \<Rightarrow> action_cache \<Rightarrow> action_cache \<Rightarrow> bool" where
  "same_answers cr fs c d \<longleftrightarrow> (\<forall>p. answer cr fs p d = answer cr fs p c) \<and> cache_actions d = cache_actions c
     \<and> dirs d = dirs c \<and> mnemonics d = mnemonics c"

lemma same_answers_refl [simp]: "same_answers cr fs c c"
  by (simp add: same_answers_def)

lemma same_answers_trans: "same_answers cr fs c d \<Longrightarrow> same_answers cr fs d e \<Longrightarrow> same_answers cr fs c e"
  by (simp add: same_answers_def)

lemma digest_same: "same_answers cr fs c (snd (digest cr fs q c))"
  by (auto simp: same_answers_def digest_def Let_def split: option.splits node.splits if_splits)

text \<open>One output as it should be, with the answers of a state.\<close>

definition output_good :: "crates \<Rightarrow> file_system \<Rightarrow> string \<Rightarrow> action_cache \<Rightarrow> string \<times> string \<Rightarrow> bool" where
  "output_good cr fs k c out =
     (case lstat fs (fst out) of
        Some LinkNode \<Rightarrow> snd out = ''symlink''
      | Some (PlainNode DirNode) \<Rightarrow> snd out = directory_of k
      | Some (PlainNode _) \<Rightarrow> answer cr fs (fst out) c = Some (snd out)
      | None \<Rightarrow> False)"

lemma output_current_good:
  "fst (output_current cr fs k out c) \<longleftrightarrow> output_good cr fs k c out"
  "same_answers cr fs c (snd (output_current cr fs k out c))"
  using digest_same [of cr fs c "fst out"]
  by (auto simp: output_current_def output_good_def split_beta split: option.splits link_node.splits node.splits)

lemma same_answers_good: "same_answers cr fs c d \<Longrightarrow> output_good cr fs k d = output_good cr fs k c"
  by (rule ext) (auto simp: output_good_def same_answers_def split: option.split link_node.split node.split)

lemma outputs_current_good:
  "fst (outputs_current cr fs k outs c) \<longleftrightarrow> list_all (output_good cr fs k c) outs"
proof (induction outs arbitrary: c)
  case (Cons out outs)
  note o1 = output_current_good [where cr = cr and fs = fs and k = k and out = out and c = c]
  show ?case using Cons.IH [of "snd (output_current cr fs k out c)"] o1(1) same_answers_good [OF o1(2), of k]
    by (cases "output_current cr fs k out c"; cases "fst (output_current cr fs k out c)") auto
qed simp

definition digest_of :: "crates \<Rightarrow> file_system \<Rightarrow> string \<Rightarrow> action_cache \<Rightarrow> string \<Rightarrow> string \<times> string" where
  "digest_of cr fs k c p =
     (case lstat fs p of
        Some LinkNode \<Rightarrow> (p, ''symlink'')
      | Some (PlainNode DirNode) \<Rightarrow> (p, directory_of k)
      | _ \<Rightarrow> (p, case answer cr fs p c of Some x \<Rightarrow> x | None \<Rightarrow> []))"

lemma output_digest_eq:
  "fst (output_digest cr fs k p c) = digest_of cr fs k c p" "same_answers cr fs c (snd (output_digest cr fs k p c))"
  using digest_same [of cr fs c p]
  by (auto simp: output_digest_def digest_of_def split_beta split: option.splits link_node.splits node.splits)

lemma output_digests_eq:
  "fst (output_digests cr fs k ps c) = map (digest_of cr fs k c) ps \<and> same_answers cr fs c (snd (output_digests cr fs k ps c))"
proof (induction ps arbitrary: c)
  case (Cons p ps)
  note d = output_digest_eq [where cr = cr and fs = fs and k = k and p = p and c = c]
  have "digest_of cr fs k (snd (output_digest cr fs k p c)) = digest_of cr fs k c"
    using d(2) by (intro ext) (auto simp: digest_of_def same_answers_def split: option.split link_node.split node.split)
  then show ?case using Cons [of "snd (output_digest cr fs k p c)"] d same_answers_trans
    by (auto simp: split_beta Let_def)
qed simp

text \<open>An output that is there: a link, a directory or a file that can be read.\<close>

definition present :: "file_system \<Rightarrow> string \<Rightarrow> bool" where
  "present fs p \<longleftrightarrow> lstat fs p = Some LinkNode \<or> lstat fs p = Some (PlainNode DirNode)
     \<or> (\<exists>f. lstat fs p = Some (PlainNode (FileNode f)) \<and> stat fs p = Some (FileNode f) \<and> readable f)"

lemma present_good: "present fs p \<Longrightarrow> output_good cr fs k c (digest_of cr fs k c p)"
  by (auto simp: present_def output_good_def digest_of_def digest_def Let_def split: option.splits)

lemma record_run_state:
  assumes "outputs a = first # rest"
    and c'_def: "c' = record_run cr fs a k took c"
  shows "cache_actions c' (exec_path first) =
      Some \<lparr>entry_key = k, duration_ms = took, entry_outputs = map (digest_of cr fs k (note_dirs fs a k c)) (map exec_path (outputs a))\<rparr>"
    and "output_good cr fs j c' = output_good cr fs j (note_dirs fs a k c)"
proof -
  note d = output_digests_eq [of cr fs k "map exec_path (outputs a)" "note_dirs fs a k c"]
  show "cache_actions c' (exec_path first) =
      Some \<lparr>entry_key = k, duration_ms = took, entry_outputs = map (digest_of cr fs k (note_dirs fs a k c)) (map exec_path (outputs a))\<rparr>"
    using d assms(1) by (simp add: c'_def record_run_def split_beta Let_def)
  have "answer cr fs p c' = answer cr fs p (snd (output_digests cr fs k (map exec_path (outputs a)) (note_dirs fs a k c)))" for p
    using assms(1) by (intro answer_cong) (simp_all add: c'_def record_run_def split_beta Let_def)
  then have "answer cr fs p c' = answer cr fs p (note_dirs fs a k c)" for p using d by (simp add: same_answers_def)
  then show "output_good cr fs j c' = output_good cr fs j (note_dirs fs a k c)"
    by (intro ext) (auto simp: output_good_def split: option.split link_node.split node.split)
qed

section \<open>Honest digests\<close>

text \<open>A remembered digest of a file with the same time and size is the digest of what the file holds.\<close>

definition honest :: "crates \<Rightarrow> file_system \<Rightarrow> action_cache \<Rightarrow> bool" where
  "honest cr fs c \<longleftrightarrow> (\<forall>p f known. stat fs p = Some (FileNode f) \<longrightarrow> cache_files c p = Some known \<longrightarrow>
     mtime_ns known = mtime f \<longrightarrow> size_of known = length (content f) \<longrightarrow>
     digest_hex known = hex_encode cr (sha256 cr (content f)))"

lemma honest_cong: "cache_files d = cache_files c \<Longrightarrow> honest cr fs d \<longleftrightarrow> honest cr fs c"
  by (simp add: honest_def)

lemma honest_digest: "honest cr fs c \<Longrightarrow> honest cr fs (snd (digest cr fs p c))"
  by (auto simp: honest_def digest_def Let_def split: option.splits node.splits if_splits)

lemma honest_answer:
  "honest cr fs c \<Longrightarrow> stat fs p = Some (FileNode f) \<Longrightarrow> answer cr fs p c = Some d \<Longrightarrow> d = hex_encode cr (sha256 cr (content f))"
  by (auto simp: honest_def digest_def Let_def split: option.splits if_splits)

lemma honest_output_current: "honest cr fs c \<Longrightarrow> honest cr fs (snd (output_current cr fs k out c))"
  using honest_digest [of cr fs c "fst out"]
  by (auto simp: output_current_def split_beta split: option.splits link_node.splits node.splits)

lemma honest_outputs_current: "honest cr fs c \<Longrightarrow> honest cr fs (snd (outputs_current cr fs k outs c))"
proof (induction outs arbitrary: c)
  case (Cons out outs)
  show ?case using Cons.IH honest_output_current [OF Cons.prems, of k out]
    by (auto split: prod.splits bool.splits)
qed simp

lemma honest_output_digests: "honest cr fs c \<Longrightarrow> honest cr fs (snd (output_digests cr fs k ps c))"
proof (induction ps arbitrary: c)
  case (Cons p ps)
  have "honest cr fs (snd (output_digest cr fs k p c))"
    using honest_digest [OF Cons.prems, of p] Cons.prems
    by (auto simp: output_digest_def split_beta split: option.splits link_node.splits node.splits)
  then show ?case using Cons.IH by (simp add: split_beta Let_def)
qed simp

lemma honest_input_fragment:
  assumes "honest cr fs c"
  shows "honest cr fs (snd (input_fragment cr fs p c))"
proof (cases "fragments c p")
  case None
  obtain r c' where i: "(if p = VOLATILE_STATUS then (map_option (\<lambda>_. ''volatile'') (stat fs p), c) else digest cr fs p c) = (r, c')"
    by (cases "if p = VOLATILE_STATUS then (map_option (\<lambda>_. ''volatile'') (stat fs p), c) else digest cr fs p c")
  then have "honest cr fs c'" using assms honest_digest [OF assms, of p] by (auto split: if_splits)
  moreover have "cache_files (snd (input_fragment cr fs p c)) = cache_files c'"
    by (cases r) (simp_all add: input_fragment_def None i Let_def)
  ultimately show ?thesis using honest_cong by blast
qed (use assms in \<open>simp add: input_fragment_def\<close>)

lemma honest_input_fragments: "honest cr fs c \<Longrightarrow> honest cr fs (snd (input_fragments cr fs ps c))"
proof (induction ps arbitrary: c)
  case (Cons p ps)
  obtain r c' where i: "input_fragment cr fs p c = (r, c')" by fastforce
  then have "honest cr fs c'" using honest_input_fragment [OF Cons.prems, of p] by simp
  then show ?case using Cons.IH [of c'] by (cases r; cases "input_fragments cr fs ps c'") (auto simp: i split: option.splits)
qed simp

lemma honest_record_run:
  assumes "honest cr fs c"
  shows "honest cr fs (record_run cr fs a k took c)"
proof (cases "outputs a")
  case (Cons first rest)
  have "honest cr fs (note_dirs fs a k c)" using assms honest_cong [of "note_dirs fs a k c" c] by (simp add: note_dirs_def)
  then have "honest cr fs (snd (output_digests cr fs k (map exec_path (outputs a)) (note_dirs fs a k c)))"
    by (rule honest_output_digests)
  moreover have "cache_files (record_run cr fs a k took c) =
      cache_files (snd (output_digests cr fs k (map exec_path (outputs a)) (note_dirs fs a k c)))"
    by (simp add: record_run_def Cons split_beta Let_def)
  ultimately show ?thesis using honest_cong by blast
qed (use assms in \<open>simp add: record_run_def\<close>)

lemma honest_is_current:
  assumes "honest cr fs c"
  shows "honest cr fs (snd (is_current cr fs a k c))"
proof -
  have same: "honest cr fs (snd (outputs_current cr fs k outs c))" for outs using assms by (rule honest_outputs_current)
  consider "snd (is_current cr fs a k c) = c"
    | outs where "cache_files (snd (is_current cr fs a k c)) = cache_files (snd (outputs_current cr fs k outs c))"
  proof (cases "outputs a")
    case (Cons first rest)
    assume h: "snd (is_current cr fs a k c) = c \<Longrightarrow> thesis"
      "\<And>outs. cache_files (snd (is_current cr fs a k c)) = cache_files (snd (outputs_current cr fs k outs c)) \<Longrightarrow> thesis"
    show thesis
    proof (cases "cache_actions c (exec_path first)")
      case (Some e)
      show thesis
      proof (cases "entry_key e = k \<and> length (entry_outputs e) = length (outputs a)")
        case True
        show thesis
          by (rule h(2) [of "entry_outputs e"], cases "outputs_current cr fs k (entry_outputs e) c";
              cases "fst (outputs_current cr fs k (entry_outputs e) c)")
            (use True Some Cons in \<open>auto simp: is_current_def note_dirs_def\<close>)
      qed (rule h(1), use Some Cons in \<open>auto simp: is_current_def\<close>)
    qed (rule h(1), simp add: is_current_def Cons)
  qed (simp add: is_current_def)
  then show ?thesis
  proof cases
    case 2
    from honest_cong [OF this] same show ?thesis by simp
  qed (use assms in simp)
qed

section \<open>Properties\<close>

text \<open>
  An action that has been recorded with a key, and whose outputs are there, is current with that
  key as long as the file system is the same, and with no other key.
\<close>

theorem recorded_is_current:
  assumes "outputs a \<noteq> []" and "\<And>out. out \<in> set (outputs a) \<Longrightarrow> present fs (exec_path out)"
  shows "fst (is_current cr fs a j (record_run cr fs a k took c)) \<longleftrightarrow> j = k"
proof -
  obtain first rest where f: "outputs a = first # rest" using assms(1) by (cases "outputs a") auto
  note r = record_run_state [OF f refl, where cr = cr and fs = fs and k = k and took = took and c = c]
  let ?e = "map (digest_of cr fs k (note_dirs fs a k c)) (map exec_path (outputs a))"
  have "list_all (output_good cr fs k (record_run cr fs a k took c)) ?e"
    using assms(2) present_good by (simp add: r(2) list_all_iff)
  then have "fst (outputs_current cr fs k ?e (record_run cr fs a k took c))" by (simp only: outputs_current_good)
  then show ?thesis by (auto simp: is_current_def f r(1) [unfolded f] split: prod.splits bool.splits)
qed

text \<open>One action with one output file, with the identity for the hash.\<close>

definition example_crates :: crates where
  "example_crates = \<lparr>sha256 = \<lambda>s. s, hex_encode = \<lambda>s. s, debug = \<lparr>debug_lazy = \<lambda>_. [], debug_format = \<lambda>_. []\<rparr>\<rparr>"

definition example_fs :: file_system where
  "example_fs = (let f = FileNode \<lparr>mtime = 7, content = ''hello'', readable = True\<rparr>
     in \<lparr>stat = [''bin/p/o'' \<mapsto> f], lstat = [''bin/p/o'' \<mapsto> PlainNode f]\<rparr>)"

definition example_run :: action where
  "example_run = example_action\<lparr>outputs := [derived_artifact ''bin'' [] ''p'' ''o'']\<rparr>"

definition empty_cache :: action_cache where
  "empty_cache = \<lparr>cache_actions = Map.empty, cache_files = Map.empty, mnemonics = Map.empty, dirs = Map.empty, fragments = Map.empty\<rparr>"

lemmas example_run_defs = example_run_def derived_artifact_def exec_path_def derived_root_def join_path_def

lemma example_present: "out \<in> set (outputs example_run) \<Longrightarrow> present example_fs (exec_path out)"
  by (auto simp: example_run_defs present_def example_fs_def Let_def)

theorem recorded_is_current_witness:
  "fst (is_current example_crates example_fs example_run ''k'' (record_run example_crates example_fs example_run ''k'' 5 empty_cache))
   \<and> \<not> fst (is_current example_crates example_fs example_run ''l'' (record_run example_crates example_fs example_run ''k'' 5 empty_cache))"
proof -
  have "outputs example_run \<noteq> []" by (simp add: example_run_def)
  note current = recorded_is_current [OF this example_present]
  show ?thesis by (simp add: current)
qed

text \<open>
  What the cache takes for current is current: when the remembered digests are honest, an
  action that is found current was recorded with this key, and every recorded output that is a file holds
  what has the recorded digest. Every operation keeps the remembered digests honest.
\<close>

theorem current_outputs_unchanged:
  assumes "honest cr fs c" and "fst (is_current cr fs a k c)"
  shows "(\<exists>e. cache_actions c (exec_path (hd (outputs a))) = Some e \<and> entry_key e = k
      \<and> (\<forall>p d f. (p, d) \<in> set (entry_outputs e) \<longrightarrow> lstat fs p = Some (PlainNode (FileNode f)) \<longrightarrow> stat fs p = Some (FileNode f) \<longrightarrow>
           d = hex_encode cr (sha256 cr (content f))))
    \<and> honest cr fs (snd (is_current cr fs a k c)) \<and> honest cr fs (record_run cr fs a k took c)
    \<and> honest cr fs (snd (key cr fs a c))"
proof (intro conjI)
  obtain first rest e where f: "outputs a = first # rest" and e: "cache_actions c (exec_path first) = Some e"
    "entry_key e = k" "fst (outputs_current cr fs k (entry_outputs e) c)"
    using assms(2) by (auto simp: is_current_def split: list.splits option.splits if_splits prod.splits bool.splits)
  have "d = hex_encode cr (sha256 cr (content f))"
    if "(p, d) \<in> set (entry_outputs e)" "lstat fs p = Some (PlainNode (FileNode f))" "stat fs p = Some (FileNode f)" for p d f
  proof -
    have "output_good cr fs k c (p, d)" using e(3) that(1) by (auto simp: outputs_current_good list_all_iff)
    then have "answer cr fs p c = Some d" using that(2) by (simp add: output_good_def)
    then show ?thesis using honest_answer [OF assms(1) that(3)] by simp
  qed
  then show "\<exists>e. cache_actions c (exec_path (hd (outputs a))) = Some e \<and> entry_key e = k
      \<and> (\<forall>p d f. (p, d) \<in> set (entry_outputs e) \<longrightarrow> lstat fs p = Some (PlainNode (FileNode f)) \<longrightarrow> stat fs p = Some (FileNode f) \<longrightarrow>
           d = hex_encode cr (sha256 cr (content f)))"
    using e f by auto
  show "honest cr fs (snd (is_current cr fs a k c))" "honest cr fs (record_run cr fs a k took c)"
    using assms(1) by (rule honest_is_current, rule honest_record_run)
  show "honest cr fs (snd (key cr fs a c))"
    using honest_input_fragments [OF assms(1), of "sorted_paths (inputs a)"] by (auto simp: key_def split: prod.splits option.splits)
qed

theorem current_outputs_unchanged_witness:
  "\<exists>e. cache_actions (record_run example_crates example_fs example_run ''k'' 5 empty_cache) ''bin/p/o'' = Some e
     \<and> entry_key e = ''k''"
proof -
  let ?c = "record_run example_crates example_fs example_run ''k'' 5 empty_cache"
  have h: "honest example_crates example_fs ?c"
    by (rule honest_record_run) (simp add: honest_def empty_cache_def)
  have "fst (is_current example_crates example_fs example_run ''k'' ?c)" by code_simp
  note current = current_outputs_unchanged [OF h this]
  have "exec_path (hd (outputs example_run)) = ''bin/p/o''" by (simp add: example_run_defs)
  with current show ?thesis by metis
qed

text \<open>
  C24. The running mean of a mnemonic does not overflow: while the times are below \<open>2 ^ 58\<close> milliseconds, the
  stored mean is the arithmetic mean over the window, rounded down, no larger than the larger of the old mean
  and the new time, and the window is not exceeded.
\<close>

theorem next_mean_bounded:
  assumes "runs m \<le> MEAN_WINDOW" and "mean_ms m \<le> lim" and "took \<le> lim" and "lim \<le> 2 ^ 58"
  defines "n \<equiv> min (Suc (unat (runs m))) 32"
  shows "unat (mean_ms (next_mean (Some m) took)) =
      (if n = 1 then unat took else (unat (mean_ms m) * (n - 1) + unat took) div n)
    \<and> mean_ms (next_mean (Some m) took) \<le> lim \<and> runs (next_mean (Some m) took) \<le> MEAN_WINDOW"
proof -
  define nw where "nw = min (runs m + 1) MEAN_WINDOW"
  have r: "unat (runs m) \<le> 32" using assms(1) by (simp add: MEAN_WINDOW_def word_le_nat_alt)
  have M: "unat (mean_ms m) \<le> unat lim" "unat took \<le> unat lim" "unat lim \<le> 2 ^ 58"
    using assms(2-4) by (simp_all add: word_le_nat_alt)
  have "unat (runs m + 1) = Suc (unat (runs m))" using r by (simp add: unat_word_ariths)
  then have nw: "unat nw = n" by (simp add: nw_def n_def MEAN_WINDOW_def min_def word_le_nat_alt)
  have n: "1 \<le> n" "n \<le> 32" by (simp_all add: n_def)
  then have pred: "unat (nw - 1) = n - 1" using nw by (metis not_one_le_zero unat_0 unat_minus_one)
  have "unat (mean_ms m) * (n - 1) \<le> 2 ^ 58 * 31" using M n by (intro mult_le_mono) auto
  then have "unat (mean_ms m * (nw - 1) + took) = unat (mean_ms m) * (n - 1) + unat took"
    using M by (simp add: unat_word_ariths pred)
  then have div: "unat ((mean_ms m * (nw - 1) + took) div nw) = (unat (mean_ms m) * (n - 1) + unat took) div n"
    by (simp add: unat_div nw)
  have "unat (mean_ms m) * (n - 1) + unat took \<le> unat lim * (n - 1) + unat lim" using M by (simp add: add_mono)
  also have "\<dots> = unat lim * n" using n by (cases n) auto
  finally have "(unat (mean_ms m) * (n - 1) + unat took) div n \<le> unat lim * n div n" by (rule div_le_mono)
  then have "(unat (mean_ms m) * (n - 1) + unat took) div n \<le> unat lim" using n by simp
  moreover have "nw = 1 \<longleftrightarrow> n = 1" using nw by (metis unat_1 word_unat_eq_iff)
  ultimately show ?thesis using div M n nw
    unfolding next_mean_def Let_def option.case nw_def [symmetric] by (simp add: word_le_nat_alt MEAN_WINDOW_def)
qed

theorem next_mean_bounded_witness:
  "unat (mean_ms (next_mean (Some \<lparr>runs = 3, mean_ms = 100\<rparr>) 60)) = 90
   \<and> runs (next_mean (Some \<lparr>runs = 3, mean_ms = 100\<rparr>) 60) \<le> MEAN_WINDOW"
  using next_mean_bounded [of "\<lparr>runs = 3, mean_ms = 100\<rparr>" 100 60] by (simp add: MEAN_WINDOW_def)

end
