(* ===== verification/Longest_Chain.thy ===== *)
theory Longest_Chain
  imports Main
begin

text \<open>
  Chains in a finite acyclic graph and the greatest weight of a chain that starts at a node. A graph is a function
  from a node to its successors, on the nodes below a bound; the scheduler of \<open>fjfj-exec\<close> searches two such graphs,
  from an action to what it reads and from an action to what reads it.
\<close>

section \<open>Chains\<close>

inductive is_chain :: "(nat \<Rightarrow> nat list) \<Rightarrow> nat list \<Rightarrow> bool" for g where
  chain_one: "is_chain g [v]"
| chain_more: "u \<in> set (g v) \<Longrightarrow> is_chain g (u # c) \<Longrightarrow> is_chain g (v # u # c)"

inductive_simps is_chain_simps [simp]: "is_chain g []" "is_chain g [v]" "is_chain g (v # u # c)"

definition longest :: "(nat \<Rightarrow> nat list) \<Rightarrow> (nat \<Rightarrow> nat) \<Rightarrow> nat \<Rightarrow> nat" where
  "longest g w v = Max {sum_list (map w c) |c. is_chain g c \<and> hd c = v}"

definition edges :: "(nat \<Rightarrow> nat list) \<Rightarrow> nat \<Rightarrow> (nat \<times> nat) set" where
  "edges g n = {(u, v). v < n \<and> u \<in> set (g v)}"

text \<open>Successors are nodes, and no node is a successor of itself through any number of others.\<close>

definition dag :: "(nat \<Rightarrow> nat list) \<Rightarrow> nat \<Rightarrow> bool" where
  "dag g n \<longleftrightarrow> (\<forall>v < n. \<forall>u \<in> set (g v). u < n) \<and> acyclic (edges g n)"

definition list_max :: "nat list \<Rightarrow> nat" where
  "list_max xs = foldr max xs 0"

lemma list_max_simps [simp]: "list_max [] = 0" "list_max (x # xs) = max x (list_max xs)"
  by (simp_all add: list_max_def)

lemma list_max_le: "list_max xs \<le> b \<longleftrightarrow> (\<forall>x \<in> set xs. x \<le> b)"
  by (induction xs) auto

lemma list_max_ge: "x \<in> set xs \<Longrightarrow> x \<le> list_max xs"
  by (induction xs) auto

lemma list_max_in: "xs \<noteq> [] \<Longrightarrow> list_max xs \<in> set xs"
proof (induction xs)
  case (Cons x xs)
  then show ?case by (cases "xs = []") (auto simp: max_def)
qed simp

lemma list_max_set: "set xs = set ys \<Longrightarrow> list_max xs = list_max ys"
  by (metis list_max_le order_antisym order_refl)

lemma dag_finite: "finite (edges g n)" if "dag g n"
proof -
  have "edges g n \<subseteq> {..<n} \<times> {..<n}" using that by (auto simp: edges_def dag_def)
  then show ?thesis by (rule finite_subset) simp
qed

lemma dag_wf: "dag g n \<Longrightarrow> wf (edges g n)"
  using dag_finite finite_acyclic_wf by (auto simp: dag_def)

lemma dag_induct [consumes 2, case_names node]:
  assumes "dag g n" "v < n" and step: "\<And>v. v < n \<Longrightarrow> (\<And>u. u \<in> set (g v) \<Longrightarrow> P u) \<Longrightarrow> P v"
  shows "P v"
proof -
  have "v < n \<longrightarrow> P v"
  proof (induction v rule: wf_induct_rule [OF dag_wf [OF assms(1)]])
    case (1 v)
    then show ?case using step [of v] assms(1) by (auto simp: edges_def dag_def)
  qed
  then show ?thesis using assms(2) by simp
qed

lemma is_chain_Cons: "is_chain g (v # c) \<longleftrightarrow> c = [] \<or> hd c \<in> set (g v) \<and> is_chain g c"
  by (cases c) auto

lemma chains_from:
  "{c. is_chain g c \<and> hd c = v} = insert [v] (\<Union>u \<in> set (g v). (\<lambda>c. v # c) ` {c. is_chain g c \<and> hd c = u})"
  (is "?l = ?r")
proof
  show "?l \<subseteq> ?r"
  proof
    fix c assume "c \<in> ?l"
    then obtain d where "c = v # d" "d = [] \<or> hd d \<in> set (g v) \<and> is_chain g d"
      by (cases c) (auto simp: is_chain_Cons)
    then show "c \<in> ?r" by auto
  qed
qed (auto simp: is_chain_Cons)

lemma finite_chains: "dag g n \<Longrightarrow> v < n \<Longrightarrow> finite {c. is_chain g c \<and> hd c = v}"
proof (induction v rule: dag_induct)
  case (node v)
  then show ?case by (subst chains_from) simp
qed

lemma longest_bounds:
  assumes "dag g n" "v < n"
  shows "is_chain g c \<Longrightarrow> hd c = v \<Longrightarrow> sum_list (map w c) \<le> longest g w v"
    and "\<exists>c. is_chain g c \<and> hd c = v \<and> longest g w v = sum_list (map w c)"
proof -
  let ?s = "(\<lambda>c. sum_list (map w c)) ` {c. is_chain g c \<and> hd c = v}"
  have eq: "{sum_list (map w c) |c. is_chain g c \<and> hd c = v} = ?s" by auto
  have fin: "finite ?s" using finite_chains [OF assms] by simp
  show "sum_list (map w c) \<le> longest g w v" if "is_chain g c" "hd c = v"
    unfolding longest_def eq by (rule Max_ge [OF fin]) (use that in auto)
  have "[v] \<in> {c. is_chain g c \<and> hd c = v}" by simp
  then have "?s \<noteq> {}" by blast
  from Max_in [OF fin this] show "\<exists>c. is_chain g c \<and> hd c = v \<and> longest g w v = sum_list (map w c)"
    unfolding longest_def eq by auto
qed

text \<open>The greatest weight satisfies the recursion that the program computes it with.\<close>

lemma longest_rec:
  assumes "dag g n" "v < n"
  shows "longest g w v = w v + list_max (map (longest g w) (g v))"
proof (rule order_antisym)
  obtain c where c: "is_chain g c" "hd c = v" "longest g w v = sum_list (map w c)"
    using longest_bounds(2) [OF assms] by blast
  then obtain d where d: "c = v # d" "d = [] \<or> hd d \<in> set (g v) \<and> is_chain g d"
    by (cases c) (auto simp: is_chain_Cons)
  show "longest g w v \<le> w v + list_max (map (longest g w) (g v))"
  proof (cases "d = []")
    case False
    then have h: "hd d \<in> set (g v)" "is_chain g d" using d by auto
    then have "hd d < n" using assms by (auto simp: dag_def)
    from longest_bounds(1) [OF assms(1) this h(2) refl, of w]
    have "sum_list (map w d) \<le> list_max (map (longest g w) (g v))"
      using list_max_ge [of "longest g w (hd d)" "map (longest g w) (g v)"] h(1) by simp
    then show ?thesis using c d by simp
  qed (use c d in simp)
next
  show "w v + list_max (map (longest g w) (g v)) \<le> longest g w v"
  proof (cases "g v = []")
    case True
    then show ?thesis using longest_bounds(1) [OF assms, of "[v]" w] by simp
  next
    case False
    then obtain u where u: "u \<in> set (g v)" "list_max (map (longest g w) (g v)) = longest g w u"
      using list_max_in [of "map (longest g w) (g v)"] by auto
    then have "u < n" using assms by (auto simp: dag_def)
    then obtain c where "is_chain g c" "hd c = u" "longest g w u = sum_list (map w c)"
      using longest_bounds(2) [OF assms(1)] by blast
    then show ?thesis using longest_bounds(1) [OF assms, of "v # c" w] u by (simp add: is_chain_Cons)
  qed
qed

lemma dag_irrefl: "dag g n \<Longrightarrow> v < n \<Longrightarrow> v \<notin> set (g v)"
  by (auto simp: dag_def edges_def acyclic_def)

text \<open>The graph with every arrow turned round.\<close>

lemma dag_converse:
  assumes "dag g n" "\<And>v u. v < n \<Longrightarrow> u \<in> set (h v) \<longleftrightarrow> u < n \<and> v \<in> set (g u)"
  shows "dag h n"
proof -
  have "edges h n = (edges g n)\<inverse>" using assms by (auto simp: edges_def dag_def)
  then show ?thesis using assms by (auto simp: dag_def)
qed

lemma longest_cong:
  assumes "dag g n" "v < n" "\<And>v. v < n \<Longrightarrow> h v = g v" "\<And>v. v < n \<Longrightarrow> x v = w v"
  shows "longest g w v = longest h x v"
proof -
  have "edges h n = edges g n" using assms(3) by (auto simp: edges_def)
  then have h: "dag h n" using assms(1,3) by (simp add: dag_def)
  from assms(1,2) show ?thesis
  proof (induction v rule: dag_induct)
    case (node v)
    then have "map (longest g w) (g v) = map (longest h x) (h v)" using assms(3) by simp
    then show ?case
      using longest_rec [OF assms(1) node.hyps, of w] longest_rec [OF h node.hyps, of x] assms(4) [OF node.hyps] by simp
  qed
qed

lemma dag_decreasing: "(\<And>v u. v < n \<Longrightarrow> u \<in> set (g v) \<Longrightarrow> u < v) \<Longrightarrow> dag g n"
proof -
  assume dec: "\<And>v u. v < n \<Longrightarrow> u \<in> set (g v) \<Longrightarrow> u < v"
  then have "edges g n \<subseteq> less_than" by (auto simp: edges_def)
  then have "acyclic (edges g n)" by (rule acyclic_subset [rotated]) (simp add: wf_acyclic)
  then show ?thesis using dec by (fastforce simp: dag_def)
qed

end
