(* ===== verification/Action_Graph.thy ===== *)
theory Action_Graph
  imports Action_Cache Longest_Chain
begin

text \<open>
  The graph of the actions of a build (\<open>crates/fjfj-exec/src/run.rs\<close>): which action makes an artifact, how many actions
  a request comes to, the ranks that decide which action gets a slot, and the critical path that is reported
  afterwards. An action is its index in the list of actions, and a vector indexed by actions is a list. A \<open>HashMap\<close>
  is a function. A stack has its top at the head of the list, so that what is pushed last is popped first. Durations
  are in nanoseconds and do not overflow; ranks are \<open>u64\<close> and saturate.
\<close>

section \<open>Makers\<close>

definition by_output :: "action list \<Rightarrow> artifact \<rightharpoonup> nat" where
  "by_output acts = fold (\<lambda>(i, a) m. fold (\<lambda>out m. m(out \<mapsto> i)) (outputs a) m) (List.enumerate 0 acts) Map.empty"

definition makers :: "action list \<Rightarrow> (artifact \<rightharpoonup> nat) \<Rightarrow> nat \<Rightarrow> nat list" where
  "makers acts bo i = List.map_filter bo (inputs (acts ! i))"

definition wanted :: "(artifact \<rightharpoonup> nat) \<Rightarrow> artifact list \<Rightarrow> nat list" where
  "wanted bo requested = remdups_adj (sort (List.map_filter bo requested))"

text \<open>What an action waits for: the makers of its inputs but for itself, each once.\<close>

definition other_makers :: "action list \<Rightarrow> (artifact \<rightharpoonup> nat) \<Rightarrow> nat \<Rightarrow> nat list" where
  "other_makers acts bo i = remdups_adj (sort (filter (\<lambda>m. m \<noteq> i) (makers acts bo i)))"

section \<open>The closure of a request\<close>

definition counted :: "action \<Rightarrow> bool" where
  "counted a \<longleftrightarrow> mnemonic a \<noteq> ''ParameterFileWrite''"

lemma unseen_decreases:
  "i < length seen \<Longrightarrow> \<not> seen ! i \<Longrightarrow> length (filter Not (seen[i := True])) < length (filter Not seen)"
proof (induction seen arbitrary: i)
  case (Cons b seen)
  then show ?case by (cases i) auto
qed simp

text \<open>\<open>None\<close> is the panic of an index out of range.\<close>

function closure_loop :: "action list \<Rightarrow> (artifact \<rightharpoonup> nat) \<Rightarrow> bool list \<Rightarrow> nat list \<Rightarrow> nat \<Rightarrow> nat option" where
  "closure_loop acts bo seen [] count = Some count"
| "closure_loop acts bo seen (i # stack) count =
     (if length seen \<le> i then None
      else if seen ! i then closure_loop acts bo seen stack count
      else closure_loop acts bo (seen[i := True]) (rev (makers acts bo i) @ stack)
             (count + (if counted (acts ! i) then 1 else 0)))"
  by pat_completeness auto

termination
  by (relation "measures [\<lambda>(acts, bo, seen, stack, count). length (filter Not seen),
      \<lambda>(acts, bo, seen, stack, count). length stack]") (auto simp: unseen_decreases)

definition closure_size :: "action list \<Rightarrow> (artifact \<rightharpoonup> nat) \<Rightarrow> nat list \<Rightarrow> nat option" where
  "closure_size acts bo roots = closure_loop acts bo (replicate (length acts) False) (rev roots) 0"

section \<open>The critical path\<close>

type_synonym nanos = nat

definition took_of :: "(string \<times> nanos) list \<Rightarrow> string list \<Rightarrow> string \<rightharpoonup> nanos" where
  "took_of durations cached_outputs =
     map_of (rev (filter (\<lambda>(path, d). path \<notin> set cached_outputs) durations))"

definition own_time :: "action list \<Rightarrow> (string \<rightharpoonup> nanos) \<Rightarrow> nat \<Rightarrow> nanos" where
  "own_time acts took i =
     (case outputs (acts ! i) of
        [] \<Rightarrow> 0
      | first # _ \<Rightarrow> (case took (exec_path first) of Some d \<Rightarrow> d | None \<Rightarrow> 0))"

text \<open>The loop goes round for ever if an action reads what it makes, which is \<open>None\<close>.\<close>

partial_function (option) critical_loop ::
  "(nat \<Rightarrow> nanos) \<Rightarrow> (nat \<Rightarrow> nat list) \<Rightarrow> (nat \<times> bool) list \<Rightarrow> nanos option list \<Rightarrow> nanos option list option" where
  "critical_loop own mk stack chain =
     (case stack of
        [] \<Rightarrow> Some chain
      | (i, visited) # rest \<Rightarrow>
          (if chain ! i \<noteq> None then critical_loop own mk rest chain
           else if visited then
             critical_loop own mk rest
               (chain[i := Some (own i + list_max (List.map_filter (\<lambda>m. chain ! m) (mk i)))])
           else critical_loop own mk
                  (rev (map (\<lambda>m. (m, False)) (filter (\<lambda>m. chain ! m = None) (mk i))) @ (i, True) # rest) chain))"

definition critical_path ::
  "action list \<Rightarrow> (artifact \<rightharpoonup> nat) \<Rightarrow> nat list \<Rightarrow> (string \<times> nanos) list \<Rightarrow> string list \<Rightarrow> nanos option" where
  "critical_path acts bo roots durations cached_outputs =
     map_option (\<lambda>chain. list_max (List.map_filter (\<lambda>r. chain ! r) roots))
       (critical_loop (own_time acts (took_of durations cached_outputs)) (makers acts bo)
          (rev (map (\<lambda>r. (r, False)) roots)) (replicate (length acts) None))"

section \<open>Ranks\<close>

definition GUESS_US :: u64 where
  "GUESS_US = 1000000"

definition guess_us :: "action \<Rightarrow> u64" where
  "guess_us a =
     (case kind a of
        Spawn _ _ _ _ \<Rightarrow>
          (if mnemonic a = ''Rustc'' then 4 * GUESS_US
           else if mnemonic a \<in> {''CppCompile'', ''CargoBuildScriptRun'', ''CppLink''} then 3 * GUESS_US
           else if mnemonic a \<in> {''Clippy'', ''Rustfmt''} then 2 * GUESS_US
           else GUESS_US)
      | _ \<Rightarrow> 10000)"

text \<open>A duration from the cache is in milliseconds; \<open>as_micros\<close> is a \<open>u128\<close> that is cut to 64 bits.\<close>

definition expected_us :: "action_cache \<Rightarrow> action \<Rightarrow> u64" where
  "expected_us c a =
     (case (case duration a c of Some d \<Rightarrow> Some d | None \<Rightarrow> mnemonic_mean (mnemonic a) c) of
        Some ms \<Rightarrow> of_nat (max 1 (unat ms * 1000))
      | None \<Rightarrow> guess_us a)"

definition saturating_add :: "u64 \<Rightarrow> u64 \<Rightarrow> u64" where
  "saturating_add a b = (if a \<le> - 1 - b then a + b else - 1)"

definition u64_max :: "u64 list \<Rightarrow> u64" where
  "u64_max xs = foldr max xs 0"

definition note_reader :: "nat \<Rightarrow> nat \<Rightarrow> nat list list \<times> nat list \<Rightarrow> nat list list \<times> nat list" where
  "note_reader i maker = (\<lambda>(readers, waiting_on).
     (readers[maker := readers ! maker @ [i]], waiting_on[i := waiting_on ! i + 1]))"

definition reader_lists :: "action list \<Rightarrow> (artifact \<rightharpoonup> nat) \<Rightarrow> nat list list \<times> nat list" where
  "reader_lists acts bo =
     fold (\<lambda>i. fold (note_reader i) (other_makers acts bo i)) [0..<length acts]
       (replicate (length acts) [], replicate (length acts) 0)"

fun visit_readers :: "nat list \<Rightarrow> nat list \<Rightarrow> nat list \<Rightarrow> nat list \<times> nat list" where
  "visit_readers [] waiting_on order = (waiting_on, order)"
| "visit_readers (r # rs) waiting_on order =
     (let w = waiting_on[r := waiting_on ! r - 1]
      in visit_readers rs w (if w ! r = 0 then order @ [r] else order))"

partial_function (option) order_loop ::
  "nat list list \<Rightarrow> nat list \<Rightarrow> nat list \<Rightarrow> nat \<Rightarrow> nat list option" where
  "order_loop readers waiting_on order nxt =
     (if nxt < length order then
        (let (w, ord) = visit_readers (readers ! (order ! nxt)) waiting_on order
         in order_loop readers w ord (nxt + 1))
      else Some order)"

definition rank_of :: "u64 list \<Rightarrow> nat list list \<Rightarrow> nat \<Rightarrow> u64 list \<Rightarrow> u64 list" where
  "rank_of own readers i rks = rks[i := saturating_add (own ! i) (u64_max (map (\<lambda>r. rks ! r) (readers ! i)))]"

definition ranks :: "action list \<Rightarrow> (artifact \<rightharpoonup> nat) \<Rightarrow> action_cache \<Rightarrow> u64 list option" where
  "ranks acts bo c =
     (let own = map (expected_us c) acts;
          (readers, waiting_on) = reader_lists acts bo
      in map_option (\<lambda>order. fold (rank_of own readers) (rev order) own)
           (order_loop readers waiting_on (filter (\<lambda>i. waiting_on ! i = 0) [0..<length acts]) 0))"

section \<open>The makers are actions that make the artifact\<close>

lemma fold_output: "fold (\<lambda>out m. m(out \<mapsto> i)) outs m x = (if x \<in> set outs then Some i else m x)"
  by (induction outs arbitrary: m) auto

lemma fold_outputs:
  "fold (\<lambda>(i, a) m. fold (\<lambda>out m. m(out \<mapsto> i)) (outputs a) m) (List.enumerate k acts) m x = Some i \<Longrightarrow>
    m x = Some i \<or> k \<le> i \<and> i < k + length acts \<and> x \<in> set (outputs (acts ! (i - k)))"
proof (induction acts arbitrary: k m)
  case (Cons a acts)
  have "fold (\<lambda>out m. m(out \<mapsto> k)) (outputs a) m x = Some i
    \<or> Suc k \<le> i \<and> i < Suc k + length acts \<and> x \<in> set (outputs (acts ! (i - Suc k)))"
    by (rule Cons.IH) (use Cons.prems in simp)
  then show ?case by (auto simp: fold_output nth_Cons' Suc_diff_le split: if_splits)
qed simp

lemma by_output_makes: "by_output acts x = Some i \<Longrightarrow> i < length acts \<and> x \<in> set (outputs (acts ! i))"
  using fold_outputs [of 0 acts Map.empty x i] by (simp add: by_output_def)

lemma makers_in: "u \<in> set (makers acts bo v) \<longleftrightarrow> (\<exists>x \<in> set (inputs (acts ! v)). bo x = Some u)"
  by (force simp: makers_def map_filter_def image_iff)

lemma makers_range: "u \<in> set (makers acts (by_output acts) v) \<Longrightarrow> u < length acts"
  using by_output_makes by (auto simp: makers_in)

lemma wanted_range: "u \<in> set (wanted (by_output acts) req) \<Longrightarrow> u < length acts"
  using by_output_makes by (fastforce simp: wanted_def map_filter_def)

lemma other_makers_in: "set (other_makers acts bo v) = set (makers acts bo v) - {v}"
  by (auto simp: other_makers_def)

lemma sorted_distinct_remdups_adj: "sorted xs \<Longrightarrow> distinct (remdups_adj xs)" for xs :: "nat list"
  by (induction xs rule: remdups_adj.induct) auto

lemma other_makers_distinct: "distinct (other_makers acts bo v)"
  by (simp add: other_makers_def sorted_distinct_remdups_adj)

section \<open>The closure counts what the roots reach\<close>

definition reads :: "action list \<Rightarrow> (nat \<times> nat) set" where
  "reads acts = {(v, u). u \<in> set (makers acts (by_output acts) v)}"

definition needed :: "action list \<Rightarrow> nat list \<Rightarrow> nat set" where
  "needed acts roots = (reads acts)\<^sup>* `` set roots"

lemma needed_step: "v \<in> needed acts roots \<Longrightarrow> u \<in> set (makers acts (by_output acts) v) \<Longrightarrow> u \<in> needed acts roots"
  unfolding needed_def reads_def by (auto intro: rtrancl_into_rtrancl)

lemma needed_least:
  assumes "set roots \<subseteq> S" "\<And>v u. v \<in> S \<Longrightarrow> u \<in> set (makers acts (by_output acts) v) \<Longrightarrow> u \<in> S"
  shows "needed acts roots \<subseteq> S"
proof
  fix u assume "u \<in> needed acts roots"
  then obtain r where r: "r \<in> set roots" "(r, u) \<in> (reads acts)\<^sup>*" by (auto simp: needed_def)
  from r(2) show "u \<in> S" by induction (use r assms in \<open>auto simp: reads_def\<close>)
qed

lemma closure_loop_counts:
  assumes "length seen = length acts" "\<forall>v \<in> set stack. v < length acts \<and> v \<in> needed acts roots"
    and "\<forall>v < length acts. seen ! v \<longrightarrow> v \<in> needed acts roots
      \<and> (\<forall>u \<in> set (makers acts (by_output acts) v). seen ! u \<or> u \<in> set stack)"
    and "\<forall>r \<in> set roots. r < length acts \<and> (seen ! r \<or> r \<in> set stack)"
    and "count = card {v. v < length acts \<and> seen ! v \<and> counted (acts ! v)}"
  shows "closure_loop acts (by_output acts) seen stack count
    = Some (card {v \<in> needed acts roots. counted (acts ! v)})"
  using assms
proof (induction acts "by_output acts" seen stack count rule: closure_loop.induct)
  case (1 acts seen count)
  have "needed acts roots \<subseteq> {v. v < length acts \<and> seen ! v}"
    by (rule needed_least) (use 1 makers_range in auto)
  then have "{v \<in> needed acts roots. counted (acts ! v)} = {v. v < length acts \<and> seen ! v \<and> counted (acts ! v)}"
    using 1 by auto
  then show ?case using 1 by simp
next
  case (2 acts seen i stack count)
  have i: "i < length acts" "i < length seen" "i \<in> needed acts roots" using "2.prems" by auto
  show ?case
  proof (cases "seen ! i")
    case True
    have "closure_loop acts (by_output acts) seen stack count = Some (card {v \<in> needed acts roots. counted (acts ! v)})"
    proof (rule "2.hyps"(1))
      show "\<forall>v<length acts. seen ! v \<longrightarrow> v \<in> needed acts roots
          \<and> (\<forall>u\<in>set (makers acts (by_output acts) v). seen ! u \<or> u \<in> set stack)"
        using "2.prems"(3) True by auto
      show "\<forall>r\<in>set roots. r < length acts \<and> (seen ! r \<or> r \<in> set stack)" using "2.prems"(4) True by auto
    qed (use True i "2.prems" in auto)
    then show ?thesis using True i by simp
  next
    case False
    let ?seen = "seen[i := True]" and ?stack = "rev (makers acts (by_output acts) i) @ stack"
    have set: "{v. v < length acts \<and> ?seen ! v \<and> counted (acts ! v)} =
        (if counted (acts ! i) then insert i else (\<lambda>s. s)) {v. v < length acts \<and> seen ! v \<and> counted (acts ! v)}"
      using i False by (auto simp: nth_list_update)
    have seen_more: "?seen ! u \<longleftrightarrow> u = i \<or> seen ! u" for u using i by (simp add: nth_list_update)
    have "closure_loop acts (by_output acts) ?seen ?stack (count + (if counted (acts ! i) then 1 else 0))
        = Some (card {v \<in> needed acts roots. counted (acts ! v)})"
    proof (rule "2.hyps"(2))
      show "\<forall>v\<in>set ?stack. v < length acts \<and> v \<in> needed acts roots"
        using "2.prems"(2) i needed_step makers_range by auto
      show "\<forall>v<length acts. ?seen ! v \<longrightarrow> v \<in> needed acts roots
          \<and> (\<forall>u\<in>set (makers acts (by_output acts) v). ?seen ! u \<or> u \<in> set ?stack)"
      proof (intro allI impI)
        fix v assume v: "v < length acts" "?seen ! v"
        show "v \<in> needed acts roots \<and> (\<forall>u\<in>set (makers acts (by_output acts) v). ?seen ! u \<or> u \<in> set ?stack)"
        proof (cases "v = i")
          case False
          then have "seen ! v" using v by simp
          with "2.prems"(3) v have "v \<in> needed acts roots"
            "\<forall>u\<in>set (makers acts (by_output acts) v). seen ! u \<or> u \<in> set (i # stack)" by auto
          then show ?thesis using i by (auto simp: seen_more)
        qed (use i in auto)
      qed
      show "\<forall>r\<in>set roots. r < length acts \<and> (?seen ! r \<or> r \<in> set ?stack)"
        using "2.prems"(4) i by (auto simp: seen_more)
      show "count + (if counted (acts ! i) then 1 else 0) =
          card {v. v < length acts \<and> ?seen ! v \<and> counted (acts ! v)}"
        unfolding set using "2.prems"(5) False by simp
    qed (use False i "2.prems"(1) in auto)
    then show ?thesis using False i by simp
  qed
qed

text \<open>
  The number of actions a request comes to is the number of actions that are reached from the makers of what was
  requested through what actions read, parameter files not counted. No index is out of range and the search ends,
  also when actions read each other's outputs in a circle.
\<close>

theorem closure_size_counts_needed:
  "closure_size acts (by_output acts) (wanted (by_output acts) requested) =
     Some (card {v \<in> needed acts (wanted (by_output acts) requested). counted (acts ! v)})"
  unfolding closure_size_def
  by (rule closure_loop_counts) (use wanted_range in \<open>auto simp: needed_def\<close>)

text \<open>Two actions: one makes an object file, the other reads it and makes a program.\<close>

definition object_file :: artifact where
  "object_file = derived_artifact ''bin'' [] ''p'' ''o''"

definition program_file :: artifact where
  "program_file = derived_artifact ''bin'' [] ''p'' ''x''"

definition compile_and_link :: "action list" where
  "compile_and_link = [example_action\<lparr>mnemonic := ''Rustc'', inputs := [], outputs := [object_file]\<rparr>,
     example_action\<lparr>mnemonic := ''Rustc'', inputs := [object_file], outputs := [program_file]\<rparr>]"

lemma compile_and_link_graph:
  "by_output compile_and_link object_file = Some 0" "by_output compile_and_link program_file = Some 1"
  "length compile_and_link = 2"
  "makers compile_and_link (by_output compile_and_link) 0 = []"
  "makers compile_and_link (by_output compile_and_link) 1 = [0]"
  "wanted (by_output compile_and_link) [program_file] = [1]"
proof -
  have ne: "object_file \<noteq> program_file"
    by (simp add: object_file_def program_file_def derived_artifact_def join_path_def)
  show out: "by_output compile_and_link object_file = Some 0" "by_output compile_and_link program_file = Some 1"
    using ne by (simp_all add: by_output_def compile_and_link_def numeral_2_eq_2)
  show "length compile_and_link = 2" by (simp add: compile_and_link_def)
  show "makers compile_and_link (by_output compile_and_link) 0 = []"
    "makers compile_and_link (by_output compile_and_link) 1 = [0]"
    "wanted (by_output compile_and_link) [program_file] = [1]"
    using out by (simp_all add: makers_def wanted_def map_filter_simps) (simp_all add: compile_and_link_def map_filter_simps)
qed

lemma compile_and_link_dag:
  "dag (makers compile_and_link (by_output compile_and_link)) (length compile_and_link)"
  "dag (other_makers compile_and_link (by_output compile_and_link)) (length compile_and_link)"
  by (rule dag_decreasing; use compile_and_link_graph in \<open>auto simp: less_2_cases_iff other_makers_in\<close>)+

section \<open>The critical path is the longest chain\<close>

lemma critical_loop_nil: "critical_loop own mk [] chain = Some chain"
  by (simp add: critical_loop.simps)

lemma critical_loop_known:
  "chain ! v \<noteq> None \<Longrightarrow> critical_loop own mk ((v, b) # st) chain = critical_loop own mk st chain"
  by (subst critical_loop.simps) simp

lemma critical_loop_first:
  "chain ! v = None \<Longrightarrow> critical_loop own mk ((v, False) # st) chain =
    critical_loop own mk (map (\<lambda>m. (m, False)) (rev (filter (\<lambda>m. chain ! m = None) (mk v))) @ (v, True) # st) chain"
  by (subst critical_loop.simps) (simp add: rev_map)

lemma critical_loop_second:
  "chain ! v = None \<Longrightarrow> critical_loop own mk ((v, True) # st) chain = critical_loop own mk st
    (chain[v := Some (own v + list_max (List.map_filter (\<lambda>m. chain ! m) (mk v)))])"
  by (subst critical_loop.simps) simp

text \<open>What is known of the chains is right, and what was known stays.\<close>

definition chains_right :: "(nat \<Rightarrow> nanos) \<Rightarrow> (nat \<Rightarrow> nat list) \<Rightarrow> nat \<Rightarrow> nanos option list \<Rightarrow> bool" where
  "chains_right own mk n chain \<longleftrightarrow>
     length chain = n \<and> (\<forall>v < n. chain ! v = None \<or> chain ! v = Some (longest mk own v))"

definition known_after ::
  "(nat \<Rightarrow> nanos) \<Rightarrow> (nat \<Rightarrow> nat list) \<Rightarrow> nat \<Rightarrow> nat list \<Rightarrow> (nat \<times> bool) list \<Rightarrow> nanos option list \<Rightarrow> bool" where
  "known_after own mk n vs st chain \<longleftrightarrow>
     (\<exists>chain'. critical_loop own mk (map (\<lambda>v. (v, False)) vs @ st) chain = critical_loop own mk st chain'
        \<and> chains_right own mk n chain' \<and> (\<forall>v < n. chain ! v \<noteq> None \<longrightarrow> chain' ! v = chain ! v)
        \<and> (\<forall>v \<in> set vs. chain' ! v \<noteq> None))"

lemma known_after_list:
  assumes "chains_right own mk n chain" "\<forall>v \<in> set vs. v < n"
    and "\<And>v st chain. v \<in> set vs \<Longrightarrow> chains_right own mk n chain \<Longrightarrow> known_after own mk n [v] st chain"
  shows "known_after own mk n vs st chain"
  using assms
proof (induction vs arbitrary: chain)
  case (Cons v vs)
  from Cons.prems(3) [of v chain "map (\<lambda>v. (v, False)) vs @ st"] Cons.prems(1)
  obtain c1 where c1: "critical_loop own mk (map (\<lambda>v. (v, False)) (v # vs) @ st) chain =
      critical_loop own mk (map (\<lambda>v. (v, False)) vs @ st) c1" "chains_right own mk n c1"
    "\<forall>v < n. chain ! v \<noteq> None \<longrightarrow> c1 ! v = chain ! v" "c1 ! v \<noteq> None"
    by (auto simp: known_after_def)
  from Cons.IH [OF c1(2)] Cons.prems obtain c2 where
    "critical_loop own mk (map (\<lambda>v. (v, False)) vs @ st) c1 = critical_loop own mk st c2"
    "chains_right own mk n c2" "\<forall>v < n. c1 ! v \<noteq> None \<longrightarrow> c2 ! v = c1 ! v" "\<forall>v \<in> set vs. c2 ! v \<noteq> None"
    by (auto simp: known_after_def)
  with c1 Cons.prems(2) show ?case unfolding known_after_def
    by (intro exI [of _ c2]) (metis list.set_intros(1) set_ConsD)
qed (auto simp: known_after_def)

lemma map_filter_known:
  "\<forall>m \<in> set ms. f m = Some (l m) \<Longrightarrow> List.map_filter f ms = map l ms"
  by (induction ms) (auto simp: map_filter_simps)

lemma known_after_one:
  assumes "dag mk n" "v < n" "chains_right own mk n chain"
  shows "known_after own mk n [v] st chain"
  using assms(1,2,3)
proof (induction v arbitrary: st chain rule: dag_induct)
  case (node v)
  show ?case
  proof (cases "chain ! v = None")
    case False
    then show ?thesis unfolding known_after_def
      by (intro exI [of _ chain]) (use node False in \<open>simp add: critical_loop_known\<close>)
  next
    case None: True
    let ?new = "rev (filter (\<lambda>m. chain ! m = None) (mk v))"
    have range: "\<forall>m \<in> set (mk v). m < n" using assms(1) node.hyps by (auto simp: dag_def)
    have "known_after own mk n ?new ((v, True) # st) chain"
      by (rule known_after_list) (use node range in auto)
    then obtain c1 where c1: "critical_loop own mk ((v, False) # st) chain = critical_loop own mk ((v, True) # st) c1"
      "chains_right own mk n c1" "\<forall>v < n. chain ! v \<noteq> None \<longrightarrow> c1 ! v = chain ! v" "\<forall>m \<in> set ?new. c1 ! m \<noteq> None"
      by (auto simp: known_after_def critical_loop_first [OF None])
    have "c1 ! m = Some (longest mk own m)" if "m \<in> set (mk v)" for m
    proof -
      have "m < n" using that range by blast
      moreover have "c1 ! m \<noteq> None" using c1(3,4) that \<open>m < n\<close> by (cases "chain ! m = None") auto
      ultimately show ?thesis using c1(2) by (auto simp: chains_right_def)
    qed
    then have "own v + list_max (List.map_filter (\<lambda>m. c1 ! m) (mk v)) = longest mk own v"
      using map_filter_known [of "mk v" "\<lambda>m. c1 ! m" "longest mk own"] longest_rec [OF assms(1) node.hyps] by simp
    then have "critical_loop own mk ((v, True) # st) c1 = critical_loop own mk st (c1[v := Some (longest mk own v)])"
    proof (cases "c1 ! v = None")
      case False
      then have "c1 ! v = Some (longest mk own v)" using c1(2) node.hyps by (auto simp: chains_right_def)
      then have "c1[v := Some (longest mk own v)] = c1" by (metis list_update_id)
      then show ?thesis using False by (simp add: critical_loop_known)
    qed (simp add: critical_loop_second)
    moreover have "chains_right own mk n (c1[v := Some (longest mk own v)])"
      using c1(2) node.hyps by (auto simp: chains_right_def nth_list_update)
    ultimately show ?thesis unfolding known_after_def
      by (intro exI [of _ "c1[v := Some (longest mk own v)]"])
        (use c1 None node.hyps in \<open>auto simp: chains_right_def nth_list_update\<close>)
  qed
qed

text \<open>
  When no action reads its own output, directly or through others, the search for the critical path ends and gives
  the time of the longest chain that starts at an action that was asked for and goes back through what each
  reads; an action that did not run counts nothing.
\<close>

theorem critical_path_longest:
  assumes "dag (makers acts (by_output acts)) (length acts)"
  shows "critical_path acts (by_output acts) (wanted (by_output acts) requested) durations cached =
     Some (list_max (map (longest (makers acts (by_output acts)) (own_time acts (took_of durations cached)))
       (wanted (by_output acts) requested)))"
proof -
  let ?own = "own_time acts (took_of durations cached)" and ?mk = "makers acts (by_output acts)"
  let ?roots = "wanted (by_output acts) requested" and ?n = "length acts"
  have start: "chains_right ?own ?mk ?n (replicate ?n None)" by (simp add: chains_right_def)
  have "known_after ?own ?mk ?n (rev ?roots) [] (replicate ?n None)"
    by (rule known_after_list [OF start]) (use wanted_range known_after_one [OF assms] in auto)
  then obtain chain where "critical_loop ?own ?mk (rev (map (\<lambda>r. (r, False)) ?roots)) (replicate ?n None) = Some chain"
    "chains_right ?own ?mk ?n chain" "\<forall>r \<in> set ?roots. chain ! r \<noteq> None"
    by (auto simp: known_after_def critical_loop_nil rev_map)
  then show ?thesis
    using map_filter_known [of ?roots "\<lambda>r. chain ! r" "longest ?mk ?own"] wanted_range
    by (fastforce simp: critical_path_def chains_right_def)
qed

theorem critical_path_longest_witness:
  "critical_path compile_and_link (by_output compile_and_link) (wanted (by_output compile_and_link) [program_file])
     [(''bin/p/o'', 3), (''bin/p/x'', 4)] [] = Some 7"
proof -
  let ?mk = "makers compile_and_link (by_output compile_and_link)"
  let ?own = "own_time compile_and_link (took_of [(''bin/p/o'', 3), (''bin/p/x'', 4)] [])"
  have own: "?own 0 = 3" "?own 1 = 4"
    by (simp_all add: own_time_def took_of_def compile_and_link_def object_file_def program_file_def
        derived_artifact_def derived_root_def exec_path_def join_path_def)
  note g = compile_and_link_graph
  have "longest ?mk ?own 0 = 3" using longest_rec [OF compile_and_link_dag(1), of 0 ?own] own g by simp
  moreover have "longest ?mk ?own 1 = 4 + longest ?mk ?own 0"
    using longest_rec [OF compile_and_link_dag(1), of 1 ?own] own g by simp
  ultimately show ?thesis
    using critical_path_longest [OF compile_and_link_dag(1), of "[program_file]"] g by simp
qed

section \<open>Readers and a topological order\<close>

lemma note_reader_apply:
  "note_reader i m (rs, ws) = (rs[m := rs ! m @ [i]], ws[i := ws ! i + 1])"
  by (simp add: note_reader_def)

lemma note_readers:
  assumes "distinct ms" "\<forall>m \<in> set ms. m < length rs" "i < length ws" "fold (note_reader i) ms (rs, ws) = (rs', ws')"
  shows "length rs' = length rs \<and> length ws' = length ws
    \<and> (\<forall>m < length rs. rs' ! m = rs ! m @ (if m \<in> set ms then [i] else []))
    \<and> (\<forall>j < length ws. ws' ! j = ws ! j + (if j = i then length ms else 0))"
  using assms
proof (induction ms arbitrary: rs ws)
  case (Cons m ms)
  have "fold (note_reader i) ms (rs[m := rs ! m @ [i]], ws[i := ws ! i + 1]) = (rs', ws')"
    using Cons.prems(4) by (simp add: note_reader_apply)
  from Cons.IH [OF _ _ _ this] Cons.prems show ?case by (auto simp: nth_list_update)
qed auto

definition readers_of :: "action list \<Rightarrow> (artifact \<rightharpoonup> nat) \<Rightarrow> nat \<Rightarrow> nat list" where
  "readers_of acts bo m = filter (\<lambda>i. m \<in> set (other_makers acts bo i)) [0..<length acts]"

lemma reader_lists_fold:
  assumes "\<And>v u. u \<in> set (other_makers acts bo v) \<Longrightarrow> u < n" "k \<le> n"
    and "fold (\<lambda>i. fold (note_reader i) (other_makers acts bo i)) [0..<k] (replicate n [], replicate n 0) = (rs, ws)"
  shows "length rs = n \<and> length ws = n
    \<and> (\<forall>m < n. rs ! m = filter (\<lambda>i. m \<in> set (other_makers acts bo i)) [0..<k])
    \<and> (\<forall>i < n. ws ! i = (if i < k then length (other_makers acts bo i) else 0))"
  using assms(2,3)
proof (induction k arbitrary: rs ws)
  case (Suc k)
  obtain rs0 ws0 where before:
    "fold (\<lambda>i. fold (note_reader i) (other_makers acts bo i)) [0..<k] (replicate n [], replicate n 0) = (rs0, ws0)"
    by (cases "fold (\<lambda>i. fold (note_reader i) (other_makers acts bo i)) [0..<k] (replicate n [], replicate n 0)")
  then have "fold (note_reader k) (other_makers acts bo k) (rs0, ws0) = (rs, ws)" using Suc.prems by simp
  from note_readers [OF other_makers_distinct _ _ this] Suc.IH [OF _ before] Suc.prems assms(1)
  show ?case by auto
qed auto

lemma reader_lists_spec:
  assumes "reader_lists acts (by_output acts) = (rs, ws)"
  shows "length rs = length acts" "length ws = length acts"
    "m < length acts \<Longrightarrow> rs ! m = readers_of acts (by_output acts) m"
    "i < length acts \<Longrightarrow> ws ! i = card (set (other_makers acts (by_output acts) i))"
proof -
  have range: "\<And>v u. u \<in> set (other_makers acts (by_output acts) v) \<Longrightarrow> u < length acts"
    using makers_range by (auto simp: other_makers_in)
  note spec = reader_lists_fold [OF range order_refl assms [unfolded reader_lists_def]]
  then show "length rs = length acts" "length ws = length acts"
    "m < length acts \<Longrightarrow> rs ! m = readers_of acts (by_output acts) m" by (simp_all add: readers_of_def)
  show "i < length acts \<Longrightarrow> ws ! i = card (set (other_makers acts (by_output acts) i))"
    using spec by (simp add: distinct_card [OF other_makers_distinct])
qed

lemma visit_readers_spec:
  assumes "distinct rs" "\<forall>r \<in> set rs. r < length ws \<and> 0 < ws ! r"
  shows "length (fst (visit_readers rs ws ord)) = length ws
    \<and> (\<forall>i < length ws. fst (visit_readers rs ws ord) ! i = ws ! i - (if i \<in> set rs then 1 else 0))
    \<and> snd (visit_readers rs ws ord) = ord @ filter (\<lambda>r. ws ! r = 1) rs"
  using assms
proof (induction rs arbitrary: ws ord)
  case (Cons r rs)
  let ?w = "ws[r := ws ! r - 1]"
  have eq: "filter (\<lambda>r. ?w ! r = 1) rs = filter (\<lambda>r. ws ! r = 1) rs"
    using Cons.prems by (intro filter_cong) (auto simp: nth_list_update)
  have "\<forall>q \<in> set rs. q < length ?w \<and> 0 < ?w ! q" using Cons.prems by (auto simp: nth_list_update)
  with Cons.IH [of ?w "if ?w ! r = 0 then ord @ [r] else ord"] Cons.prems eq
  show ?case by (auto simp: Let_def nth_list_update)
qed simp

lemma visit_readers_grows: "length ord \<le> length (snd (visit_readers rs ws ord))"
proof (induction rs ws ord rule: visit_readers.induct)
  case (2 r rs ws ord)
  let ?w = "ws[r := ws ! r - 1]"
  have "length (if ?w ! r = 0 then ord @ [r] else ord) \<le> length (snd (visit_readers (r # rs) ws ord))"
    using 2 [OF refl] by (simp add: Let_def)
  then show ?case by (simp split: if_splits)
qed simp

text \<open>
  The loop that orders the actions: those taken from the queue so far are the first \<open>nxt\<close> of it, the counts are of the
  makers not taken yet, the queue has exactly the actions whose count is zero, and the makers of each come
  before it.
\<close>

definition ordered_so_far :: "(nat \<Rightarrow> nat list) \<Rightarrow> nat \<Rightarrow> nat list \<Rightarrow> nat list \<Rightarrow> nat \<Rightarrow> bool" where
  "ordered_so_far om n ws ord nxt \<longleftrightarrow> length ws = n \<and> distinct ord \<and> set ord \<subseteq> {..<n}
     \<and> (\<forall>i < n. ws ! i = card (set (om i) - set (take nxt ord))) \<and> (\<forall>i < n. i \<in> set ord \<longleftrightarrow> ws ! i = 0)
     \<and> (\<forall>k < length ord. set (om (ord ! k)) \<subseteq> set (take k ord))"

lemma order_step:
  assumes ok: "ordered_so_far om n ws ord nxt" and nxt: "nxt < length ord"
    and rs: "distinct rs" "set rs = {i. i < n \<and> ord ! nxt \<in> set (om i)}"
    and eq: "visit_readers rs ws ord = (ws', ord')"
  shows "ordered_so_far om n ws' ord' (nxt + 1)"
proof -
  let ?v = "ord ! nxt" and ?T = "set (take nxt ord)"
  have len: "length ws = n" and dist: "distinct ord" "set ord \<subseteq> {..<n}"
    and count: "\<And>i. i < n \<Longrightarrow> ws ! i = card (set (om i) - ?T)"
    and queue: "\<And>i. i < n \<Longrightarrow> i \<in> set ord \<longleftrightarrow> ws ! i = 0"
    and before: "\<And>k. k < length ord \<Longrightarrow> set (om (ord ! k)) \<subseteq> set (take k ord)"
    using ok by (auto simp: ordered_so_far_def)
  have fresh: "?v \<notin> ?T" using dist nxt by (metis distinct_take in_set_conv_nth distinct_conv_nth length_take min_less_iff_conj nth_take less_irrefl)
  have pos: "0 < ws ! r" if "r \<in> set rs" for r
    using that count [of r] rs(2) fresh by (auto simp: card_gt_0_iff)
  have spec: "length ws' = n" "ord' = ord @ filter (\<lambda>r. ws ! r = 1) rs"
    "\<And>i. i < n \<Longrightarrow> ws' ! i = ws ! i - (if ?v \<in> set (om i) then 1 else 0)"
    using visit_readers_spec [OF rs(1), of ws ord] pos rs(2) len eq by auto
  have taken: "set (take (nxt + 1) ord') = insert ?v ?T"
    using nxt spec(2) by (simp add: take_Suc_conv_app_nth)
  have count': "ws' ! i = card (set (om i) - insert ?v ?T)" if "i < n" for i
  proof (cases "?v \<in> set (om i)")
    case True
    then have "set (om i) - insert ?v ?T = (set (om i) - ?T) - {?v}" by blast
    then show ?thesis using True that spec(3) count fresh by simp
  next
    case False
    then have "set (om i) - insert ?v ?T = set (om i) - ?T" by blast
    then show ?thesis using False that spec(3) count by simp
  qed
  have new: "r \<in> set ord' \<longleftrightarrow> ws' ! r = 0" if "r < n" for r
  proof (cases "?v \<in> set (om r)")
    case True
    then have "r \<in> set rs" using that rs(2) by blast
    then show ?thesis using pos [of r] that spec queue [of r] True by auto
  next
    case False
    then have "r \<notin> set rs" using rs(2) by blast
    then show ?thesis using that spec queue [of r] False by simp
  qed
  have "distinct ord'" using dist(1) rs pos spec(2) queue by fastforce
  moreover have "set ord' \<subseteq> {..<n}" using dist(2) rs(2) spec(2) by auto
  moreover have "set (om (ord' ! k)) \<subseteq> set (take k ord')" if k: "k < length ord'" for k
  proof (cases "k < length ord")
    case True
    then show ?thesis using before spec(2) by (simp add: nth_append)
  next
    case False
    have "ord' ! k \<in> set ord'" using k by simp
    moreover have "ord' ! k < n" using \<open>set ord' \<subseteq> {..<n}\<close> k nth_mem by blast
    ultimately have "set (om (ord' ! k)) \<subseteq> set (take (nxt + 1) ord')"
      using new count' taken by fastforce
    moreover have "set (take (nxt + 1) ord') \<subseteq> set (take k ord')"
      using False nxt by (intro set_take_subset_set_take) simp
    ultimately show ?thesis by blast
  qed
  ultimately show ?thesis using spec(1) count' new taken by (simp add: ordered_so_far_def)
qed

lemma order_loop_ends:
  assumes "ordered_so_far om n ws ord nxt" "nxt \<le> length ord"
    and "\<And>v. v < n \<Longrightarrow> distinct (readers ! v) \<and> set (readers ! v) = {i. i < n \<and> v \<in> set (om i)}"
  shows "\<exists>ws' ord'. order_loop readers ws ord nxt = Some ord' \<and> ordered_so_far om n ws' ord' (length ord')"
  using assms(1,2)
proof (induction "n - nxt" arbitrary: ws ord nxt rule: less_induct)
  case less
  show ?case
  proof (cases "nxt < length ord")
    case False
    then have "nxt = length ord" using less.prems by simp
    then show ?thesis using less.prems by (auto simp: order_loop.simps)
  next
    case True
    have ord: "set ord \<subseteq> {..<n}" "distinct ord" using less.prems by (auto simp: ordered_so_far_def)
    then have "length ord \<le> n" using card_mono [of "{..<n}" "set ord"] by (simp add: distinct_card)
    then have lt: "n - (nxt + 1) < n - nxt" using True by simp
    have "ord ! nxt < n" using ord True nth_mem by blast
    note rs = assms(3) [OF this]
    obtain ws1 ord1 where v: "visit_readers (readers ! (ord ! nxt)) ws ord = (ws1, ord1)"
      by (cases "visit_readers (readers ! (ord ! nxt)) ws ord")
    have ok: "ordered_so_far om n ws1 ord1 (nxt + 1)"
      by (rule order_step [OF less.prems(1) True _ _ v]) (use rs in auto)
    have "length ord \<le> length ord1"
      using visit_readers_grows [of ord "readers ! (ord ! nxt)" ws] v by simp
    then have "nxt + 1 \<le> length ord1" using True by simp
    from less.hyps [OF lt ok this] show ?thesis
      using True v by (subst order_loop.simps) simp
  qed
qed

lemma ordered_all:
  assumes "ordered_so_far om n ws ord (length ord)" "dag om n"
  shows "set ord = {..<n}"
proof
  show "{..<n} \<subseteq> set ord"
  proof
    fix v assume "v \<in> {..<n}"
    then have "v < n" by simp
    with assms(2) show "v \<in> set ord"
    proof (induction v rule: dag_induct)
      case (node v)
      then have "set (om v) - set (take (length ord) ord) = {}" by auto
      then show ?case using assms(1) node.hyps by (auto simp: ordered_so_far_def)
    qed
  qed
qed (use assms in \<open>simp add: ordered_so_far_def\<close>)

section \<open>A rank is the expected time of the longest chain of readers\<close>

lemma u64_max_value: "unat (- 1 :: u64) = 2 ^ 64 - 1"
  by (simp add: unsigned_minus_1_eq_mask mask_eq_exp_minus_1)

lemma u64_room: "unat (- 1 - b :: u64) = 2 ^ 64 - 1 - unat b"
  using unat_sub [of b "- 1"] by (simp add: u64_max_value)

lemma saturating_add_unat: "unat (saturating_add a b) = min (2 ^ 64 - 1) (unat a + unat b)"
proof -
  have "unat b < 2 ^ 64" "unat a < 2 ^ 64"
    using unsigned_less [of a, where 'a = nat] unsigned_less [of b, where 'a = nat] by simp_all
  then show ?thesis
    by (auto simp: saturating_add_def word_le_nat_alt u64_room u64_max_value unat_word_ariths min_def)
qed

lemma u64_max_unat: "unat (u64_max xs) = list_max (map unat xs)"
proof (induction xs)
  case (Cons x xs)
  then show ?case by (simp add: u64_max_def max_def word_le_nat_alt)
qed (simp add: u64_max_def)

lemma min_list_max: "min b (a + list_max (map (\<lambda>x. min b (f x)) xs)) = min b (a + list_max (map f xs))" for a b :: nat
proof -
  have "list_max (map (\<lambda>x. min b (f x)) xs) = min b (list_max (map f xs))"
    by (induction xs) auto
  then show ?thesis by simp
qed

lemma rank_fold_length: "length (fold (rank_of own rs) vs rks) = length rks"
  by (induction vs arbitrary: rks) (auto simp: rank_of_def)

text \<open>Filling in from the end of the order: once a suffix is done, its ranks are right.\<close>

lemma rank_fold_right:
  assumes ord: "ordered_so_far om n ws (pre @ suf) (length (pre @ suf))" "set (pre @ suf) = {..<n}"
    and rs: "\<And>v. v < n \<Longrightarrow> set (rs ! v) = {i. i < n \<and> v \<in> set (om i)}"
    and dag: "dag (\<lambda>v. rs ! v) n" and len: "length own = n" and v: "v \<in> set suf"
  shows "unat (fold (rank_of own rs) (rev suf) own ! v) =
    min (2 ^ 64 - 1) (longest (\<lambda>v. rs ! v) (\<lambda>v. unat (own ! v)) v)"
  using ord v
proof (induction suf arbitrary: pre v)
  case (Cons u suf)
  let ?L = "longest (\<lambda>v. rs ! v) (\<lambda>v. unat (own ! v))" and ?M = "2 ^ 64 - 1 :: nat"
  let ?r = "fold (rank_of own rs) (rev suf) own"
  have IH: "unat (?r ! w) = min ?M (?L w)" if "w \<in> set suf" for w
    using Cons.IH [of "pre @ [u]" w] Cons.prems(1,2) that by simp
  have u: "u < n" using Cons.prems(2) by auto
  have dist: "distinct (pre @ u # suf)" and before: "\<And>k. k < length (pre @ u # suf) \<Longrightarrow>
      set (om ((pre @ u # suf) ! k)) \<subseteq> set (take k (pre @ u # suf))"
    using Cons.prems(1) by (auto simp: ordered_so_far_def)
  have later: "w \<in> set suf" if "w \<in> set (rs ! u)" for w
  proof -
    have w: "w < n" "u \<in> set (om w)" using that rs [OF u] by auto
    then have "w \<in> set (pre @ u # suf)" using Cons.prems(2) by blast
    then obtain k where k: "k < length (pre @ u # suf)" "(pre @ u # suf) ! k = w" by (metis in_set_conv_nth)
    then have "u \<in> set (take k (pre @ u # suf))" using before w by blast
    then have "length pre < k" using dist by (cases "k \<le> length pre") (auto dest: in_set_takeD)
    then show ?thesis using k by (auto simp: nth_append nth_Cons')
  qed
  have "map (\<lambda>w. unat (?r ! w)) (rs ! u) = map (\<lambda>w. min ?M (?L w)) (rs ! u)"
    using IH later by simp
  then have "list_max (map (\<lambda>w. unat (?r ! w)) (rs ! u)) = list_max (map (\<lambda>w. min ?M (?L w)) (rs ! u))"
    by (rule arg_cong)
  then have now: "unat (saturating_add (own ! u) (u64_max (map (\<lambda>w. ?r ! w) (rs ! u)))) = min ?M (?L u)"
    unfolding saturating_add_unat u64_max_unat map_map comp_def longest_rec [OF dag u]
    by (simp only: min_list_max)
  show ?case
  proof (cases "v = u")
    case True
    then show ?thesis using now u len by (simp add: rank_of_def [of own rs u] rank_fold_length)
  next
    case False
    then show ?thesis using IH Cons.prems(3) by (simp add: rank_of_def [of own rs u])
  qed
qed simp

lemma ordered_start:
  assumes "length ws = n" "\<And>i. i < n \<Longrightarrow> ws ! i = card (set (om i))"
  shows "ordered_so_far om n ws (filter (\<lambda>i. ws ! i = 0) [0..<n]) 0"
proof -
  have "set (om (filter (\<lambda>i. ws ! i = 0) [0..<n] ! k)) = {}" if k: "k < length (filter (\<lambda>i. ws ! i = 0) [0..<n])" for k
  proof -
    have "filter (\<lambda>i. ws ! i = 0) [0..<n] ! k \<in> set (filter (\<lambda>i. ws ! i = 0) [0..<n])" using k by (rule nth_mem)
    then show ?thesis using assms by auto
  qed
  then show ?thesis using assms by (auto simp: ordered_so_far_def)
qed

lemma ranks_returns:
  "\<exists>rs order ws. ranks acts (by_output acts) c =
       Some (fold (rank_of (map (expected_us c) acts) rs) (rev order) (map (expected_us c) acts))
     \<and> ordered_so_far (other_makers acts (by_output acts)) (length acts) ws order (length order)
     \<and> (\<forall>v < length acts. rs ! v = readers_of acts (by_output acts) v)"
proof -
  obtain rs ws where lists: "reader_lists acts (by_output acts) = (rs, ws)"
    by (cases "reader_lists acts (by_output acts)")
  note spec = reader_lists_spec [OF lists]
  have rs: "distinct (rs ! v) \<and> set (rs ! v) = {i. i < length acts \<and> v \<in> set (other_makers acts (by_output acts) i)}"
    if "v < length acts" for v
    using spec(3) [OF that] by (auto simp: readers_of_def)
  show ?thesis
    using order_loop_ends [OF ordered_start [OF spec(2,4)] _ rs] lists spec(3)
    by (fastforce simp: ranks_def Let_def)
qed

text \<open>
  C29. Ranks are always computed, whatever reads what. When no action waits for itself through others, the rank of an action
  is the expected time of the longest chain of actions that starts at it and goes on with what reads its outputs,
  cut off at the greatest \<open>u64\<close>.
\<close>

theorem ranks_longest:
  assumes "dag (other_makers acts (by_output acts)) (length acts)"
  shows "\<exists>rks. ranks acts (by_output acts) c = Some rks \<and> length rks = length acts
    \<and> (\<forall>v < length acts. unat (rks ! v) = min (2 ^ 64 - 1)
         (longest (readers_of acts (by_output acts)) (\<lambda>v. unat (expected_us c (acts ! v))) v))"
proof -
  let ?om = "other_makers acts (by_output acts)" and ?n = "length acts" and ?own = "map (expected_us c) acts"
  obtain rs order ws where ret: "ranks acts (by_output acts) c = Some (fold (rank_of ?own rs) (rev order) ?own)"
    and ord: "ordered_so_far ?om ?n ws order (length order)"
    and rs: "\<forall>v < ?n. rs ! v = readers_of acts (by_output acts) v"
    using ranks_returns by blast
  have in_rs: "set (rs ! v) = {i. i < ?n \<and> v \<in> set (?om i)}" if "v < ?n" for v
    using that rs by (auto simp: readers_of_def)
  have dag: "dag (\<lambda>v. rs ! v) ?n" by (rule dag_converse [OF assms]) (use in_rs in auto)
  have "unat (fold (rank_of ?own rs) (rev order) ?own ! v) =
      min (2 ^ 64 - 1) (longest (\<lambda>v. rs ! v) (\<lambda>v. unat (?own ! v)) v)" if "v < ?n" for v
    by (rule rank_fold_right [where pre = "[]" and om = ?om and n = ?n and ws = ws])
      (use ord ordered_all [OF ord assms] in_rs dag that in auto)
  moreover have "longest (\<lambda>v. rs ! v) (\<lambda>v. unat (?own ! v)) v =
      longest (readers_of acts (by_output acts)) (\<lambda>v. unat (expected_us c (acts ! v))) v" if "v < ?n" for v
    by (rule longest_cong [OF dag that]) (use rs in auto)
  ultimately show ?thesis using ret by (auto simp: rank_fold_length)
qed

theorem ranks_longest_witness:
  "\<exists>rks. ranks compile_and_link (by_output compile_and_link) empty_cache = Some rks \<and> length rks = 2"
  using ranks_longest [OF compile_and_link_dag(2), of empty_cache] compile_and_link_graph(3) by auto

section \<open>An action that reads its own output\<close>

definition turns_for_ever :: "nat \<Rightarrow> (nat \<times> bool) list \<Rightarrow> nanos option list \<Rightarrow> bool" where
  "turns_for_ever v stack chain \<longleftrightarrow>
     chain ! v = None \<and> (\<exists>pre rest. stack = pre @ (v, False) # rest \<and> v \<notin> fst ` set pre)"

lemma turns_for_ever_push:
  assumes "chain ! v = None" "v \<in> set vs"
  shows "turns_for_ever v (map (\<lambda>m. (m, False)) vs @ st) chain"
proof -
  obtain us ws where "vs = us @ v # ws" "v \<notin> set us" using split_list_first [OF assms(2)] by blast
  then show ?thesis using assms(1) unfolding turns_for_ever_def
    by (intro conjI exI [of _ "map (\<lambda>m. (m, False)) us"] exI [of _ "map (\<lambda>m. (m, False)) ws @ st"]) auto
qed

lemma turns_for_ever_under:
  assumes "turns_for_ever v st chain" "u \<noteq> v"
  shows "turns_for_ever v (map (\<lambda>m. (m, False)) vs @ (u, True) # st) chain"
proof (cases "v \<in> set vs")
  case False
  obtain pre rest where "chain ! v = None" "st = pre @ (v, False) # rest" "v \<notin> fst ` set pre"
    using assms(1) by (auto simp: turns_for_ever_def)
  then show ?thesis using False assms(2) unfolding turns_for_ever_def
    by (intro conjI exI [of _ "map (\<lambda>m. (m, False)) vs @ (u, True) # pre"] exI [of _ rest]) auto
qed (use assms turns_for_ever_push in \<open>auto simp: turns_for_ever_def\<close>)

lemma turns_for_ever_pop:
  "turns_for_ever v ((u, b) # st) chain \<Longrightarrow> u \<noteq> v \<Longrightarrow> turns_for_ever v st chain"
  unfolding turns_for_ever_def by (fastforce simp: Cons_eq_append_conv)

lemma critical_loop_turns:
  assumes "v \<in> set (mk v)" "turns_for_ever v stack chain"
  shows "critical_loop own mk stack chain = None"
proof (rule ccontr)
  assume "critical_loop own mk stack chain \<noteq> None"
  then obtain y where y: "critical_loop own mk stack chain = Some y" by blast
  have "v \<in> set (mk v) \<longrightarrow> \<not> turns_for_ever v stack chain"
  proof (rule critical_loop.raw_induct
      [where P = "\<lambda>own mk stack chain y. v \<in> set (mk v) \<longrightarrow> \<not> turns_for_ever v stack chain", OF _ y], intro impI notI)
    fix loop own mk stack and chain :: "nanos option list" and y
    assume IH: "\<And>own mk stack chain y. loop own mk stack chain = Some y \<Longrightarrow>
        v \<in> set (mk v) \<longrightarrow> \<not> turns_for_ever v stack chain"
      and body: "(case stack of [] \<Rightarrow> Some chain
        | (i, visited) # rest \<Rightarrow>
            (if chain ! i \<noteq> None then loop own mk rest chain
             else if visited then loop own mk rest
               (chain[i := Some (own i + list_max (List.map_filter (\<lambda>m. chain ! m) (mk i)))])
             else loop own mk (rev (map (\<lambda>m. (m, False)) (filter (\<lambda>m. chain ! m = None) (mk i))) @ (i, True) # rest) chain))
        = Some y"
      and v: "v \<in> set (mk v)" and turns: "turns_for_ever v stack chain"
    obtain u b rest where st: "stack = (u, b) # rest"
      using turns by (cases stack) (auto simp: turns_for_ever_def)
    let ?new = "rev (filter (\<lambda>m. chain ! m = None) (mk u))"
    show False
    proof (cases "u = v")
      case True
      have none: "chain ! v = None" using turns by (simp add: turns_for_ever_def)
      moreover have "\<not> b" using turns st True by (auto simp: turns_for_ever_def Cons_eq_append_conv)
      ultimately have "loop own mk (map (\<lambda>m. (m, False)) ?new @ (u, True) # rest) chain = Some y"
        using body st True by (simp add: rev_map)
      from IH [OF this] turns_for_ever_push [OF none, of ?new "(u, True) # rest"] v none True show False by simp
    next
      case False
      note rest = turns_for_ever_pop [OF turns [unfolded st] False]
      consider "loop own mk rest chain = Some y"
        | d where "loop own mk rest (chain[u := d]) = Some y"
        | "loop own mk (map (\<lambda>m. (m, False)) ?new @ (u, True) # rest) chain = Some y"
        using body st by (auto simp: rev_map split: if_splits)
      then show False
      proof cases
        case (2 d)
        moreover have "turns_for_ever v rest (chain[u := d])" using rest False by (simp add: turns_for_ever_def)
        ultimately show False using IH v by blast
      qed (use IH v rest turns_for_ever_under [OF rest False, of ?new] in blast)+
    qed
  qed
  then show False using assms by blast
qed

text \<open>
  C40. An action that was asked for and reads its own output is not waited for by itself and runs, but the search for the critical
  path afterwards never ends.
\<close>

theorem critical_path_own_output_loops:
  assumes "v \<in> set (wanted (by_output acts) requested)" "v \<in> set (makers acts (by_output acts) v)"
  shows "v \<notin> set (other_makers acts (by_output acts) v)
    \<and> critical_path acts (by_output acts) (wanted (by_output acts) requested) durations cached = None"
proof -
  let ?roots = "wanted (by_output acts) requested"
  have "turns_for_ever v (map (\<lambda>r. (r, False)) (rev ?roots) @ []) (replicate (length acts) None)"
    by (rule turns_for_ever_push) (use assms wanted_range in auto)
  then show ?thesis
    using critical_loop_turns [of v "makers acts (by_output acts)"] assms(2)
    by (simp add: critical_path_def rev_map other_makers_in)
qed

definition reads_itself :: "action list" where
  "reads_itself = [example_action\<lparr>inputs := [object_file], outputs := [object_file]\<rparr>]"

theorem critical_path_own_output_loops_witness:
  "critical_path reads_itself (by_output reads_itself) (wanted (by_output reads_itself) [object_file]) [] [] = None"
proof -
  have "by_output reads_itself object_file = Some 0" by (simp add: by_output_def reads_itself_def)
  then show ?thesis
    using critical_path_own_output_loops [of 0 reads_itself "[object_file]" "[]" "[]"]
    by (simp add: wanted_def makers_def map_filter_simps) (simp add: reads_itself_def map_filter_simps)
qed

end
