(* ===== verification/Action_Run.thy ===== *)
theory Action_Run
  imports Slots Action_Graph Stateright
begin

text \<open>
  The scheduler of actions (\<open>crates/fjfj-exec/src/run.rs\<close>): \<open>execute\<close>, \<open>run\<close> and \<open>run_now\<close>. Every action that is asked for has one task, kept
  in a table so that it is asked for once. A task waits for the tasks of the actions that make its inputs, looks in the
  action cache, gets a slot if it runs a command, runs and says how it ended. The tasks run on several threads; a
  state has the phase of every task and what the tasks share, and a step is what one task does between two points where it waits or
  shares something. What the cache says of an action and how a command ends are not determined: there is a step for either.
  The slots are those of \<open>Slots\<close>, the order of waiting that of the ranks of \<open>Action_Graph\<close>.
\<close>

section \<open>State\<close>

text \<open>
  \<open>Spawned\<close>: the task is in the table and has not run. \<open>Deps\<close>: it waits for what it reads. \<open>Checked\<close>: that is made and
  nothing has stopped the build. \<open>Queued\<close>, \<open>Handed\<close> and \<open>Granted\<close>: it waits for a slot, has been sent one, has it.
  \<open>Running\<close>: its command or its own work runs. \<open>Finished\<close>: with whether it succeeded.
\<close>

datatype phase = Absent | Spawned | Deps | Checked | Queued | Handed | Granted | Running | Finished bool

record build =
  all_actions :: "action list"
  requested :: "artifact list"
  jobs :: nat
  keep_going :: bool
  history :: action_cache
  elapsed :: "nat \<Rightarrow> nanos"

record scheduler =
  phases :: "phase list"
  slots_of :: slots
  stopped :: bool
  ran :: nat
  cached :: nat
  failures :: "nat list"
  durations :: "(string \<times> nanos) list"
  cached_outputs :: "string list"

definition deps_of :: "build \<Rightarrow> nat \<Rightarrow> nat list" where
  "deps_of b i = other_makers (all_actions b) (by_output (all_actions b)) i"

definition roots_of :: "build \<Rightarrow> nat list" where
  "roots_of b = wanted (by_output (all_actions b)) (requested b)"

definition rank_in :: "build \<Rightarrow> nat \<Rightarrow> u64" where
  "rank_in b i = the (ranks (all_actions b) (by_output (all_actions b)) (history b)) ! i"

definition is_command :: "build \<Rightarrow> nat \<Rightarrow> bool" where
  "is_command b i = (case kind (all_actions b ! i) of Spawn _ _ _ _ \<Rightarrow> True | _ \<Rightarrow> False)"

definition is_test :: "build \<Rightarrow> nat \<Rightarrow> bool" where
  "is_test b i \<longleftrightarrow> mnemonic (all_actions b ! i) = ''TestRunner''"

definition count_of :: "build \<Rightarrow> nat \<Rightarrow> nat" where
  "count_of b i = (if counted (all_actions b ! i) then 1 else 0)"

text \<open>\<open>run\<close>: a task is made for an action that has none.\<close>

definition ask :: "nat \<Rightarrow> phase list \<Rightarrow> phase list" where
  "ask i ps = (if ps ! i = Absent then ps[i := Spawned] else ps)"

definition start :: "build \<Rightarrow> scheduler" where
  "start b = \<lparr>phases = fold ask (roots_of b) (replicate (length (all_actions b)) Absent),
     slots_of = slots_new (max (jobs b) 1), stopped = False, ran = 0, cached = 0, failures = [], durations = [], cached_outputs = []\<rparr>"

section \<open>What a task does\<close>

text \<open>The slot of a task is dropped: it goes to the task that \<open>release\<close> chooses, all of which still wait for it.\<close>

definition give_back :: "scheduler \<Rightarrow> scheduler" where
  "give_back s =
     (case release (\<lambda>_. True) (slots_of s) of
        (None, sl) \<Rightarrow> s\<lparr>slots_of := sl\<rparr>
      | (Some u, sl) \<Rightarrow> s\<lparr>slots_of := sl, phases := (phases s)[u := Handed]\<rparr>)"

definition set_phase :: "nat \<Rightarrow> phase \<Rightarrow> scheduler \<Rightarrow> scheduler" where
  "set_phase i p s = s\<lparr>phases := (phases s)[i := p]\<rparr>"

definition skips :: "build \<Rightarrow> scheduler \<Rightarrow> bool" where
  "skips b s \<longleftrightarrow> stopped s \<and> \<not> keep_going b"

definition succeeded :: "scheduler \<Rightarrow> nat \<Rightarrow> bool" where
  "succeeded s i \<longleftrightarrow> phases s ! i = Finished True"

definition over :: "scheduler \<Rightarrow> nat \<Rightarrow> bool" where
  "over s i \<longleftrightarrow> (case phases s ! i of Finished _ \<Rightarrow> True | _ \<Rightarrow> False)"

datatype move = Asks nat | Joins nat | Looks nat bool | Wakes nat | Begins nat | Ends nat bool

text \<open>The deps are all over: a failed one fails the task, and so does a build that has stopped.\<close>

definition joins :: "build \<Rightarrow> nat \<Rightarrow> scheduler \<Rightarrow> scheduler" where
  "joins b i s = set_phase i (if list_all (succeeded s) (deps_of b i) \<and> \<not> skips b s then Checked else Finished False) s"

text \<open>How long an action took is noted under its first output, for one that is current what the last run took.\<close>

definition note_duration :: "build \<Rightarrow> nat \<Rightarrow> nanos \<Rightarrow> scheduler \<Rightarrow> scheduler" where
  "note_duration b i took s =
     (case outputs (all_actions b ! i) of
        [] \<Rightarrow> s
      | first # _ \<Rightarrow> s\<lparr>durations := durations s @ [(exec_path first, took)]\<rparr>)"

definition note_cached :: "build \<Rightarrow> nat \<Rightarrow> scheduler \<Rightarrow> scheduler" where
  "note_cached b i s =
     (let took = (case duration (all_actions b ! i) (history b) of Some ms \<Rightarrow> unat ms * 1000000 | None \<Rightarrow> 0);
          t = note_duration b i took (s\<lparr>cached := cached s + count_of b i\<rparr>)
      in case outputs (all_actions b ! i) of
           [] \<Rightarrow> t
         | first # _ \<Rightarrow> t\<lparr>cached_outputs := cached_outputs t @ [exec_path first]\<rparr>)"

text \<open>The cache is asked; an action that is not current runs, once it has a slot if it is a command.\<close>

definition looks :: "build \<Rightarrow> nat \<Rightarrow> bool \<Rightarrow> scheduler \<Rightarrow> scheduler" where
  "looks b i current s =
     (if current then set_phase i (Finished True) (note_cached b i s)
      else if is_command b i then
        (let (at_once, sl) = acquire (rank_in b i) i (slots_of s)
         in set_phase i (if at_once then Granted else Queued) (s\<lparr>slots_of := sl\<rparr>))
      else set_phase i Running s)"

definition begins :: "build \<Rightarrow> nat \<Rightarrow> scheduler \<Rightarrow> scheduler" where
  "begins b i s = (if skips b s then give_back (set_phase i (Finished False) s) else set_phase i Running s)"

text \<open>The outcome is noted and the slot, if there is one, given back.\<close>

definition note_failure :: "build \<Rightarrow> nat \<Rightarrow> scheduler \<Rightarrow> scheduler" where
  "note_failure b i s =
     (let first = (is_test b i \<or> \<not> stopped s)
      in s\<lparr>stopped := (stopped s \<or> \<not> is_test b i),
           failures := (if first \<or> keep_going b then failures s @ [i] else failures s)\<rparr>)"

definition ends :: "build \<Rightarrow> nat \<Rightarrow> bool \<Rightarrow> scheduler \<Rightarrow> scheduler" where
  "ends b i ok s =
     (let u = note_duration b i (elapsed b i) s;
          t = set_phase i (Finished ok) (if ok then u\<lparr>ran := ran u + count_of b i\<rparr> else note_failure b i u)
      in if is_command b i then give_back t else t)"

definition moves_of :: "build \<Rightarrow> scheduler \<Rightarrow> nat \<Rightarrow> move list" where
  "moves_of b s i =
     (case phases s ! i of
        Spawned \<Rightarrow> [Asks i]
      | Deps \<Rightarrow> (if list_all (over s) (deps_of b i) then [Joins i] else [])
      | Checked \<Rightarrow> [Looks i True, Looks i False]
      | Handed \<Rightarrow> [Wakes i]
      | Granted \<Rightarrow> [Begins i]
      | Running \<Rightarrow> [Ends i True, Ends i False]
      | _ \<Rightarrow> [])"

definition moves :: "build \<Rightarrow> scheduler \<Rightarrow> move list" where
  "moves b s = concat (map (moves_of b s) [0..<length (all_actions b)])"

fun make_move :: "build \<Rightarrow> scheduler \<Rightarrow> move \<Rightarrow> scheduler option" where
  "make_move b s (Asks i) = Some (s\<lparr>phases := fold ask (deps_of b i) ((phases s)[i := Deps])\<rparr>)"
| "make_move b s (Joins i) = Some (joins b i s)"
| "make_move b s (Looks i current) = Some (looks b i current s)"
| "make_move b s (Wakes i) = Some (set_phase i Granted s)"
| "make_move b s (Begins i) = Some (begins b i s)"
| "make_move b s (Ends i ok) = Some (ends b i ok s)"

section \<open>The slots that tasks hold\<close>

definition holds :: "build \<Rightarrow> nat \<Rightarrow> phase \<Rightarrow> bool" where
  "holds b i p \<longleftrightarrow> p = Handed \<or> p = Granted \<or> p = Running \<and> is_command b i"

definition holders :: "build \<Rightarrow> scheduler \<Rightarrow> nat set" where
  "holders b s = {i. i < length (all_actions b) \<and> holds b i (phases s ! i)}"

text \<open>The slots are accounted for but for \<open>k\<close> that the running step has in its hands.\<close>

definition slots_but :: "nat \<Rightarrow> build \<Rightarrow> scheduler \<Rightarrow> bool" where
  "slots_but k b s \<longleftrightarrow> length (phases s) = length (all_actions b)
     \<and> free (slots_of s) + card (holders b s) + k = max (jobs b) 1
     \<and> (free (slots_of s) = 0 \<or> waiting (slots_of s) = [])
     \<and> distinct (map wake (waiting (slots_of s)))
     \<and> wake ` set (waiting (slots_of s)) = {i. i < length (all_actions b) \<and> phases s ! i = Queued}
     \<and> (\<forall>i < length (all_actions b). phases s ! i \<in> {Queued, Handed, Granted} \<longrightarrow> is_command b i)"

lemma holders_finite: "finite (holders b s)"
  by (simp add: holders_def)

lemma holders_set_phase:
  assumes "length (phases s) = length (all_actions b)" "i < length (all_actions b)"
  shows "holders b (set_phase i p s) = (if holds b i p then insert i (holders b s) else holders b s - {i})"
  using assms by (auto simp: holders_def set_phase_def nth_list_update)

lemma card_holders_set_phase:
  assumes "length (phases s) = length (all_actions b)" "i < length (all_actions b)"
  shows "card (holders b (set_phase i p s)) + (if holds b i (phases s ! i) then 1 else 0) =
    card (holders b s) + (if holds b i p then 1 else 0)"
proof -
  have "i \<in> holders b s \<longleftrightarrow> holds b i (phases s ! i)" using assms(2) by (simp add: holders_def)
  then show ?thesis using holders_finite [of b s] card_gt_0_iff [of "holders b s"]
    by (auto simp: holders_set_phase [OF assms] card_insert_if card_Diff_singleton)
qed

lemma set_phase_queued:
  assumes "length (phases s) = n" "i < n"
  shows "{j. j < n \<and> phases (set_phase i p s) ! j = Queued} =
    (if p = Queued then insert i else (\<lambda>x. x - {i})) {j. j < n \<and> phases s ! j = Queued}"
  using assms by (auto simp: set_phase_def nth_list_update)

text \<open>A task that is not queued moves on to a phase that is not \<open>Queued\<close> either.\<close>

lemma slots_set_phase:
  assumes ok: "slots_but k b s" and i: "i < length (all_actions b)" "phases s ! i \<noteq> Queued" "p \<noteq> Queued"
    and cmd: "p \<in> {Handed, Granted} \<longrightarrow> is_command b i"
    and k: "k' + (if holds b i p then 1 else 0) = k + (if holds b i (phases s ! i) then 1 else 0)"
  shows "slots_but k' b (set_phase i p s)"
proof -
  have len: "length (phases s) = length (all_actions b)" using ok by (simp add: slots_but_def)
  have "free (slots_of s) + card (holders b (set_phase i p s)) + k' = max (jobs b) 1"
    using ok k card_holders_set_phase [OF len i(1), of p] by (simp add: slots_but_def)
  moreover have "{j. j < length (all_actions b) \<and> phases (set_phase i p s) ! j = Queued}
      = {j. j < length (all_actions b) \<and> phases s ! j = Queued}"
    using set_phase_queued [OF len i(1), of p] i by auto
  moreover have "slots_of (set_phase i p s) = slots_of s" "length (phases (set_phase i p s)) = length (phases s)"
    by (simp_all add: set_phase_def)
  moreover have "\<forall>j < length (all_actions b). phases (set_phase i p s) ! j \<in> {Queued, Handed, Granted} \<longrightarrow> is_command b j"
    using ok i cmd by (auto simp: slots_but_def set_phase_def nth_list_update)
  ultimately show ?thesis using ok by (simp add: slots_but_def)
qed

lemma slots_give_back:
  assumes ok: "slots_but 1 b s"
  shows "slots_but 0 b (give_back s)"
proof -
  obtain u sl where rel: "release (\<lambda>_. True) (slots_of s) = (u, sl)" by (cases "release (\<lambda>_. True) (slots_of s)")
  let ?n = "length (all_actions b)"
  show ?thesis
  proof (cases u)
    case None
    then have "waiting (slots_of s) = []" "sl = (slots_of s)\<lparr>free := free (slots_of s) + 1, waiting := []\<rparr>"
      using release_None [of "\<lambda>_. True" "slots_of s" sl] rel by auto
    then show ?thesis using ok rel None by (simp add: slots_but_def give_back_def holders_def)
  next
    case (Some v)
    have P: "passed_to (\<lambda>_. True) (waiting (slots_of s)) v (waiting sl)" "sl = (slots_of s)\<lparr>waiting := waiting sl\<rparr>"
      using release_Some [of "\<lambda>_. True" "slots_of s" v sl] ok rel Some by (auto simp: slots_but_def)
    have free: "free sl = free (slots_of s)" by (subst P(2)) simp
    have all: "wake ` set (waiting (slots_of s)) = {j. j < ?n \<and> phases s ! j = Queued}"
      using ok by (simp add: slots_but_def)
    obtain w where w: "w \<in> set (waiting (slots_of s))" "wake w = v"
        "\<forall>x \<in> set (waiting (slots_of s)). x = w \<or> x \<in> set (waiting sl)"
      and sub: "v \<notin> wake ` set (waiting sl)" "set (waiting sl) \<subseteq> set (waiting (slots_of s))"
      and dist: "distinct (map wake (waiting sl))"
      using P(1) unfolding passed_to_def by blast
    have v: "v < ?n" "phases s ! v = Queued" using w(1,2) all by blast+
    have "wake ` set (waiting sl) = wake ` set (waiting (slots_of s)) - {v}"
    proof
      show "wake ` set (waiting sl) \<subseteq> wake ` set (waiting (slots_of s)) - {v}" using sub by (metis image_mono subset_Diff_insert Diff_empty)
      show "wake ` set (waiting (slots_of s)) - {v} \<subseteq> wake ` set (waiting sl)" using w by auto
    qed
    then have left: "wake ` set (waiting sl) = {j. j < ?n \<and> phases s ! j = Queued} - {v}" by (simp only: all)
    have len: "length (phases s) = ?n" using ok by (simp add: slots_but_def)
    have gb: "give_back s = (set_phase v Handed s)\<lparr>slots_of := sl\<rparr>"
      using rel Some by (simp add: give_back_def set_phase_def)
    have "card (holders b (set_phase v Handed s)) = card (holders b s) + 1"
      using card_holders_set_phase [OF len v(1), of Handed] v by (simp add: holds_def)
    moreover have "{j. j < ?n \<and> phases (set_phase v Handed s) ! j = Queued} = wake ` set (waiting sl)"
      using set_phase_queued [OF len v(1), of Handed] left by simp
    moreover have "\<forall>j < ?n. phases (set_phase v Handed s) ! j \<in> {Queued, Handed, Granted} \<longrightarrow> is_command b j"
      using ok v by (auto simp: slots_but_def set_phase_def nth_list_update)
    moreover have "free sl = 0 \<or> waiting sl = []"
      using ok P(1) free by (auto simp: slots_but_def passed_to_def)
    moreover have "holders b (give_back s) = holders b (set_phase v Handed s)" by (simp add: gb holders_def)
    ultimately show ?thesis using ok free dist by (simp add: slots_but_def gb set_phase_def)
  qed
qed

lemma slots_acquire:
  assumes ok: "slots_but 0 b s" and i: "i < length (all_actions b)" "phases s ! i = Checked" "is_command b i"
  shows "slots_but 0 b (looks b i False s)"
proof -
  let ?n = "length (all_actions b)"
  have len: "length (phases s) = ?n" using ok by (simp add: slots_but_def)
  show ?thesis
  proof (cases "0 < free (slots_of s) \<and> waiting (slots_of s) = []")
    case True
    let ?s = "s\<lparr>slots_of := (slots_of s)\<lparr>free := free (slots_of s) - 1\<rparr>\<rparr>"
    have "looks b i False s = set_phase i Granted ?s" using True i by (simp add: looks_def acquire_def)
    moreover have "slots_but 1 b ?s" using ok True by (simp add: slots_but_def holders_def)
    ultimately show ?thesis using i by (auto intro!: slots_set_phase [where k = 1] simp: holds_def)
  next
    case False
    let ?w = "\<lparr>rank = rank_in b i, arrival = next_arrival (slots_of s), wake = i\<rparr>"
    let ?sl = "(slots_of s)\<lparr>next_arrival := next_arrival (slots_of s) + 1, waiting := ?w # waiting (slots_of s)\<rparr>"
    have eq: "looks b i False s = (set_phase i Queued s)\<lparr>slots_of := ?sl\<rparr>"
      using False i by (auto simp: looks_def acquire_def set_phase_def)
    have "card (holders b (set_phase i Queued s)) = card (holders b s)"
      using card_holders_set_phase [OF len i(1), of Queued] i by (simp add: holds_def)
    moreover have "holders b (looks b i False s) = holders b (set_phase i Queued s)" by (simp add: eq holders_def)
    moreover have "wake ` set (waiting ?sl) = {j. j < ?n \<and> phases (set_phase i Queued s) ! j = Queued}"
      using ok set_phase_queued [OF len i(1), of Queued] by (simp add: slots_but_def)
    moreover have "distinct (map wake (waiting ?sl))" using ok i by (auto simp: slots_but_def)
    moreover have "free (slots_of s) = 0" using ok False by (auto simp: slots_but_def)
    moreover have "\<forall>j < ?n. phases (set_phase i Queued s) ! j \<in> {Queued, Handed, Granted} \<longrightarrow> is_command b j"
      using ok i by (auto simp: slots_but_def set_phase_def nth_list_update)
    ultimately show ?thesis using ok by (simp add: slots_but_def eq set_phase_def)
  qed
qed

lemma list_update_nth: "j < length xs \<Longrightarrow> xs[i := x] ! j = (if i = j then x else xs ! j)"
  by (cases "i < length xs") (auto simp: nth_list_update)

lemma fold_ask:
  "length (fold ask ds ps) = length ps"
  "j < length ps \<Longrightarrow> fold ask ds ps ! j = (if j \<in> set ds \<and> ps ! j = Absent then Spawned else ps ! j)"
  by (induction ds arbitrary: ps) (auto simp: ask_def list_update_nth)

text \<open>Phases in which a task has nothing to do with slots.\<close>

lemma slots_cong:
  assumes "slots_but k b s" "slots_of t = slots_of s" "length (phases t) = length (phases s)"
    and "\<And>j. j < length (all_actions b) \<Longrightarrow> phases t ! j = phases s ! j
      \<or> phases s ! j \<in> {Absent, Spawned} \<and> phases t ! j \<in> {Spawned, Deps}"
  shows "slots_but k b t"
proof -
  have "holds b j (phases t ! j) = holds b j (phases s ! j)"
    "phases t ! j = Queued \<longleftrightarrow> phases s ! j = Queued"
    "phases t ! j \<in> {Queued, Handed, Granted} \<longleftrightarrow> phases s ! j \<in> {Queued, Handed, Granted}"
    if "j < length (all_actions b)" for j
    using assms(4) [OF that] by (auto simp: holds_def)
  then have "holders b t = holders b s" "{j. j < length (all_actions b) \<and> phases t ! j = Queued} =
      {j. j < length (all_actions b) \<and> phases s ! j = Queued}"
    "\<forall>j < length (all_actions b). phases t ! j \<in> {Queued, Handed, Granted} \<longrightarrow> phases s ! j \<in> {Queued, Handed, Granted}"
    by (auto simp: holders_def)
  moreover from this(3) have "\<forall>j < length (all_actions b). phases t ! j \<in> {Queued, Handed, Granted} \<longrightarrow> is_command b j"
    using assms(1) unfolding slots_but_def by blast
  ultimately show ?thesis using assms(1-3) by (simp add: slots_but_def)
qed

lemma move_cases [consumes 1, case_names Asks Joins Looks Wakes Begins Ends]:
  assumes "m \<in> set (moves b s)"
  obtains (Asks) i where "m = Asks i" "i < length (all_actions b)" "phases s ! i = Spawned"
  | (Joins) i where "m = Joins i" "i < length (all_actions b)" "phases s ! i = Deps" "list_all (over s) (deps_of b i)"
  | (Looks) i c where "m = Looks i c" "i < length (all_actions b)" "phases s ! i = Checked"
  | (Wakes) i where "m = Wakes i" "i < length (all_actions b)" "phases s ! i = Handed"
  | (Begins) i where "m = Begins i" "i < length (all_actions b)" "phases s ! i = Granted"
  | (Ends) i ok where "m = Ends i ok" "i < length (all_actions b)" "phases s ! i = Running"
proof -
  obtain i where i: "i < length (all_actions b)" "m \<in> set (moves_of b s i)"
    using assms by (auto simp: moves_def)
  then show ?thesis
  proof (cases "phases s ! i")
    case Deps
    with i show ?thesis by (auto simp: moves_of_def split: if_splits intro: that(2))
  next
    case Checked
    with i have "m = Looks i True \<or> m = Looks i False" by (simp add: moves_of_def)
    then show ?thesis using that(3) i Checked by blast
  next
    case Running
    with i have "m = Ends i True \<or> m = Ends i False" by (simp add: moves_of_def)
    then show ?thesis using that(6) i Running by blast
  qed (simp_all add: moves_of_def that)
qed

lemma looks_True: "looks b i True s = set_phase i (Finished True) (note_cached b i s)"
  and looks_work: "\<not> is_command b i \<Longrightarrow> looks b i False s = set_phase i Running s"
  by (simp_all add: looks_def)

lemma slots_fields:
  "slots_but k b (s\<lparr>ran := x\<rparr>) = slots_but k b s"
  by (simp_all add: slots_but_def holders_def)

lemma note_duration_fields [simp]:
  "phases (note_duration b i x s) = phases s" "slots_of (note_duration b i x s) = slots_of s"
  "stopped (note_duration b i x s) = stopped s" "failures (note_duration b i x s) = failures s"
  by (simp_all add: note_duration_def split: list.split)

lemma note_cached_fields [simp]:
  "phases (note_cached b i s) = phases s" "slots_of (note_cached b i s) = slots_of s"
  "stopped (note_cached b i s) = stopped s" "failures (note_cached b i s) = failures s"
  by (simp_all add: note_cached_def Let_def split: list.split)

lemma slots_same:
  "phases t = phases s \<Longrightarrow> slots_of t = slots_of s \<Longrightarrow> slots_but k b t = slots_but k b s"
  by (simp add: slots_but_def holders_def)

lemma slots_notes:
  "slots_but k b (note_cached b i s) = slots_but k b s" "slots_but k b (note_duration b i x s) = slots_but k b s"
  by (rule slots_same; simp)+

lemma slots_note_failure: "slots_but k b (note_failure b i s) = slots_but k b s"
  by (simp add: note_failure_def Let_def slots_but_def holders_def)

lemma note_failure_phases [simp]: "phases (note_failure b i s) = phases s"
  by (simp add: note_failure_def Let_def)

text \<open>What a task leaves behind when its work has ended and its slot is still to be given back.\<close>

definition ended_with :: "build \<Rightarrow> nat \<Rightarrow> bool \<Rightarrow> scheduler \<Rightarrow> scheduler" where
  "ended_with b i ok s =
     (let u = note_duration b i (elapsed b i) s
      in set_phase i (Finished ok) (if ok then u\<lparr>ran := ran u + count_of b i\<rparr> else note_failure b i u))"

lemma ends_cases: "ends b i ok s = (if is_command b i then give_back (ended_with b i ok s) else ended_with b i ok s)"
  by (simp add: ends_def ended_with_def Let_def)

lemma slots_ended_with:
  assumes "slots_but 0 b s" "i < length (all_actions b)" "phases s ! i = Running"
  shows "slots_but (if is_command b i then 1 else 0) b (ended_with b i ok s)"
  unfolding ended_with_def Let_def
  by (rule slots_set_phase [where k = 0])
    (use assms in \<open>auto simp: slots_fields slots_notes slots_note_failure holds_def\<close>)

lemma slots_begins_skip:
  assumes "slots_but 0 b s" "i < length (all_actions b)" "phases s ! i = Granted"
  shows "slots_but 1 b (set_phase i (Finished False) s)"
  by (rule slots_set_phase [where k = 0]) (use assms in \<open>auto simp: holds_def\<close>)

lemma slots_step:
  assumes ok: "slots_but 0 b s" and m: "m \<in> set (moves b s)" and t: "make_move b s m = Some t"
  shows "slots_but 0 b t"
  using m
proof (cases rule: move_cases)
  case (Asks i)
  have len: "length (phases s) = length (all_actions b)" using ok by (simp add: slots_but_def)
  show ?thesis
    by (rule slots_cong [OF ok]) (use t Asks len in \<open>auto simp: fold_ask list_update_nth split: if_splits\<close>)
next
  case (Joins i)
  then have "t = joins b i s" using t by simp
  then show ?thesis unfolding joins_def
    by (simp only:) (rule slots_set_phase [OF ok]; use Joins in \<open>auto simp: holds_def\<close>)
next
  case (Looks i c)
  show ?thesis
  proof (cases "c \<or> \<not> is_command b i")
    case True
    then show ?thesis using Looks t ok
      by (cases c) (auto simp: looks_True looks_work slots_notes holds_def intro!: slots_set_phase [where k = 0])
  next
    case False
    then have "t = looks b i False s" "is_command b i" using Looks t by simp_all
    then show ?thesis using slots_acquire [OF ok Looks(2,3)] by simp
  qed
next
  case (Wakes i)
  then have "is_command b i" using ok by (simp add: slots_but_def)
  then show ?thesis using Wakes t ok by (auto simp: holds_def intro!: slots_set_phase [where k = 0])
next
  case (Begins i)
  then have "is_command b i" using ok by (simp add: slots_but_def)
  then show ?thesis using Begins t ok slots_give_back [OF slots_begins_skip [OF ok]]
    by (auto simp: begins_def holds_def intro!: slots_set_phase [where k = 0])
next
  case (Ends i ok')
  then have "t = ends b i ok' s" using t by simp
  then show ?thesis using slots_give_back [of b "ended_with b i ok' s"] slots_ended_with [OF ok Ends(2,3), of ok']
    by (cases "is_command b i") (simp_all add: ends_cases)
qed

lemma deps_range: "d \<in> set (deps_of b i) \<Longrightarrow> d < length (all_actions b)"
  using makers_range by (auto simp: deps_of_def other_makers_in)

lemma roots_range: "r \<in> set (roots_of b) \<Longrightarrow> r < length (all_actions b)"
  using wanted_range by (auto simp: roots_of_def)

lemma start_phase:
  "i < length (all_actions b) \<Longrightarrow> phases (start b) ! i = (if i \<in> set (roots_of b) then Spawned else Absent)"
  by (simp add: start_def fold_ask)

lemma slots_start: "slots_but 0 b (start b)"
proof -
  have len: "length (phases (start b)) = length (all_actions b)" by (simp add: start_def fold_ask)
  have "holders b (start b) = {}" by (auto simp: holders_def start_phase holds_def)
  moreover have "{i. i < length (all_actions b) \<and> phases (start b) ! i = Queued} = {}" by (auto simp: start_phase)
  moreover have "\<forall>i < length (all_actions b). phases (start b) ! i \<notin> {Queued, Handed, Granted}" by (auto simp: start_phase)
  ultimately show ?thesis using len by (auto simp: slots_but_def start_def slots_new_def)
qed

section \<open>How the phase of a task changes\<close>

text \<open>What one step can do to the phase of a task, with the reason for every failure.\<close>

definition goes :: "build \<Rightarrow> scheduler \<Rightarrow> scheduler \<Rightarrow> nat \<Rightarrow> bool" where
  "goes b s t j \<longleftrightarrow> (let p = phases s ! j; q = phases t ! j in
     q = p \<or> p = Absent \<and> q = Spawned
     \<or> p = Spawned \<and> q = Deps \<and> (\<forall>d \<in> set (deps_of b j). phases t ! d \<noteq> Absent)
     \<or> p = Deps \<and> q = Checked \<and> list_all (succeeded s) (deps_of b j)
     \<or> p = Deps \<and> q = Finished False \<and> list_all (over s) (deps_of b j) \<and> (\<not> list_all (succeeded s) (deps_of b j) \<or> stopped s)
     \<or> p = Checked \<and> q \<in> {Finished True, Running, Granted, Queued}
     \<or> p = Queued \<and> q = Handed \<or> p = Handed \<and> q = Granted \<or> p = Granted \<and> q = Running
     \<or> p = Granted \<and> q = Finished False \<and> stopped s
     \<or> p = Running \<and> q = Finished True \<or> p = Running \<and> q = Finished False \<and> (failures t \<noteq> [] \<or> stopped s))"

lemma give_back_phase:
  assumes "slots_but 1 b s" "j < length (all_actions b)"
  shows "phases (give_back s) ! j = phases s ! j \<or> phases s ! j = Queued \<and> phases (give_back s) ! j = Handed"
proof (cases "release (\<lambda>_. True) (slots_of s)")
  case (Pair u sl)
  show ?thesis
  proof (cases u)
    case (Some v)
    then have "passed_to (\<lambda>_. True) (waiting (slots_of s)) v (waiting sl)"
      using release_Some [of "\<lambda>_. True" "slots_of s" v sl] assms(1) Pair by (simp add: slots_but_def)
    then have "v \<in> wake ` set (waiting (slots_of s))" by (auto simp: passed_to_def)
    then have "phases s ! v = Queued" using assms(1) unfolding slots_but_def by blast
    then show ?thesis using Pair Some assms by (auto simp: give_back_def slots_but_def list_update_nth)
  qed (simp add: Pair give_back_def)
qed

lemma give_back_fields [simp]:
  "stopped (give_back s) = stopped s" "failures (give_back s) = failures s" "ran (give_back s) = ran s"
  "cached (give_back s) = cached s"
  by (simp_all add: give_back_def split: prod.split option.split)

lemma set_phase_fields [simp]:
  "stopped (set_phase i p s) = stopped s" "failures (set_phase i p s) = failures s" "ran (set_phase i p s) = ran s"
  "cached (set_phase i p s) = cached s" "length (phases (set_phase i p s)) = length (phases s)"
  by (simp_all add: set_phase_def)

lemma set_phase_nth: "j < length (phases s) \<Longrightarrow> phases (set_phase i p s) ! j = (if i = j then p else phases s ! j)"
  by (simp add: set_phase_def list_update_nth)

lemma note_failure_reason: "failures (note_failure b i s) \<noteq> [] \<or> stopped s"
  by (auto simp: note_failure_def Let_def)

lemma ended_with_failures: "failures (ended_with b i False s) = failures (note_failure b i s)"
  by (simp add: ended_with_def Let_def note_failure_def)

lemma ends_fields:
  "failures (ends b i ok s) = failures (ended_with b i ok s)" "stopped (ends b i ok s) = stopped (ended_with b i ok s)"
  by (cases "is_command b i"; simp add: ends_cases)+

lemma over_iff: "over s i \<longleftrightarrow> (\<exists>ok. phases s ! i = Finished ok)"
  by (simp add: over_def split: phase.split)

lemma looks_fields: "failures (looks b i c s) = failures s" "stopped (looks b i c s) = stopped s"
  by (simp_all add: looks_def split: prod.split)

lemma begins_fields: "failures (begins b i s) = failures s" "stopped (begins b i s) = stopped s"
  by (simp_all add: begins_def)

lemma ends_phase:
  assumes "slots_but 0 b s" "i < length (all_actions b)" "phases s ! i = Running" "j < length (all_actions b)"
  shows "phases (ends b i ok s) ! j = (if i = j then Finished ok else phases s ! j)
    \<or> phases s ! j = Queued \<and> phases (ends b i ok s) ! j = Handed"
proof -
  have len: "length (phases s) = length (all_actions b)" using assms(1) by (simp add: slots_but_def)
  have "phases (ended_with b i ok s) ! j = (if i = j then Finished ok else phases s ! j)"
    using assms(4) len by (simp add: ended_with_def Let_def set_phase_nth)
  moreover have "phases (give_back (ended_with b i ok s)) ! j = phases (ended_with b i ok s) ! j
    \<or> phases (ended_with b i ok s) ! j = Queued \<and> phases (give_back (ended_with b i ok s)) ! j = Handed"
    if "is_command b i"
    using give_back_phase [of b "ended_with b i ok s" j] slots_ended_with [OF assms(1-3), of ok] assms(4) that by simp
  ultimately show ?thesis using assms(3) by (cases "is_command b i") (auto simp: ends_cases split: if_splits)
qed

lemma begins_phase:
  assumes "slots_but 0 b s" "i < length (all_actions b)" "phases s ! i = Granted" "j < length (all_actions b)"
  shows "phases (begins b i s) ! j = (if i = j then if skips b s then Finished False else Running else phases s ! j)
    \<or> phases s ! j = Queued \<and> phases (begins b i s) ! j = Handed"
proof -
  have len: "length (phases s) = length (all_actions b)" using assms(1) by (simp add: slots_but_def)
  show ?thesis
    using give_back_phase [OF slots_begins_skip [OF assms(1-3)] assms(4)] assms(3,4) len
    by (auto simp: begins_def set_phase_nth split: if_splits)
qed

lemma looks_phase:
  assumes "j < length (phases s)"
  shows "phases (looks b i c s) ! j = phases s ! j
    \<or> i = j \<and> phases (looks b i c s) ! j \<in> (if c then {Finished True} else {Running, Granted, Queued})"
  using assms by (auto simp: looks_def set_phase_nth split: prod.splits)

lemma moves_go:
  assumes ok: "slots_but 0 b s" and m: "m \<in> set (moves b s)" and t: "make_move b s m = Some t"
    and j: "j < length (all_actions b)"
  shows "goes b s t j"
proof -
  have len: "length (phases s) = length (all_actions b)" using ok by (simp add: slots_but_def)
  show ?thesis using m
  proof (cases rule: move_cases)
    case (Asks i)
    then have t: "t = s\<lparr>phases := fold ask (deps_of b i) ((phases s)[i := Deps])\<rparr>" using t by simp
    have "phases t ! d \<noteq> Absent" if "d \<in> set (deps_of b i)" for d
      using that deps_range [OF that] len by (simp add: t fold_ask)
    then show ?thesis using Asks j len by (auto simp: goes_def Let_def t fold_ask list_update_nth)
  next
    case (Joins i)
    then have t: "t = joins b i s" using t by simp
    show ?thesis
    proof (cases "i = j")
      case True
      then have "phases t ! j = (if list_all (succeeded s) (deps_of b j) \<and> \<not> skips b s then Checked else Finished False)"
        using t j len by (simp add: joins_def set_phase_nth)
      then show ?thesis using Joins True unfolding goes_def Let_def skips_def by (auto split: if_splits)
    next
      case False
      then show ?thesis using t j len by (simp add: goes_def Let_def joins_def set_phase_nth)
    qed
  next
    case (Looks i c)
    then show ?thesis using t looks_phase [of j s b i c] j len by (auto simp: goes_def Let_def split: if_splits)
  next
    case (Wakes i)
    then have "phases t ! j = (if i = j then Granted else phases s ! j)" using t j len by (auto simp: set_phase_nth)
    then show ?thesis using Wakes by (cases "i = j") (simp_all add: goes_def Let_def)
  next
    case (Begins i)
    then show ?thesis using t begins_phase [OF ok Begins(2,3) j] by (auto simp: goes_def Let_def skips_def split: if_splits)
  next
    case (Ends i ok')
    have "failures (ends b i False s) \<noteq> [] \<or> stopped s"
      using note_failure_reason [of b i s] by (simp add: ends_cases ended_with_failures)
    then show ?thesis using t Ends ends_phase [OF ok Ends(2,3) j, of ok'] by (cases ok') (auto simp: goes_def Let_def split: if_splits)
  qed
qed

section \<open>The invariant of a build\<close>

text \<open>
  Every task past its first step has asked for what it reads; a task past waiting has all it reads made; the roots
  have been asked for.
\<close>

definition order_ok :: "build \<Rightarrow> scheduler \<Rightarrow> bool" where
  "order_ok b s \<longleftrightarrow>
     (\<forall>i < length (all_actions b). phases s ! i \<notin> {Absent, Spawned} \<longrightarrow> (\<forall>d \<in> set (deps_of b i). phases s ! d \<noteq> Absent))
     \<and> (\<forall>i < length (all_actions b). phases s ! i \<notin> {Absent, Spawned, Deps, Finished False} \<longrightarrow> list_all (succeeded s) (deps_of b i))
     \<and> (\<forall>r \<in> set (roots_of b). phases s ! r \<noteq> Absent)"

text \<open>
  What is reported: a failed task or a stopped build has a reported failure, what is reported has failed, each
  once, and unless the build keeps going one at most that is not of a test.
\<close>

definition report_ok :: "build \<Rightarrow> scheduler \<Rightarrow> bool" where
  "report_ok b s \<longleftrightarrow>
     (failures s = [] \<longrightarrow> \<not> stopped s \<and> (\<forall>i < length (all_actions b). phases s ! i \<noteq> Finished False))
     \<and> distinct (failures s) \<and> (\<forall>i \<in> set (failures s). i < length (all_actions b) \<and> phases s ! i = Finished False)
     \<and> (\<not> keep_going b \<longrightarrow> length (filter (\<lambda>i. \<not> is_test b i) (failures s)) \<le> (if stopped s then 1 else 0))"

definition build_ok :: "build \<Rightarrow> scheduler \<Rightarrow> bool" where
  "build_ok b s \<longleftrightarrow> slots_but 0 b s \<and> order_ok b s \<and> report_ok b s"

lemma goes_monotone:
  assumes "goes b s t j"
  shows "phases s ! j \<noteq> Absent \<Longrightarrow> phases t ! j \<noteq> Absent"
    and "phases s ! j = Finished ok \<Longrightarrow> phases t ! j = Finished ok"
  using assms by (auto simp: goes_def Let_def)

lemma build_order_step:
  assumes ok: "order_ok b s" and goes: "\<And>j. j < length (all_actions b) \<Longrightarrow> goes b s t j"
  shows "order_ok b t"
proof -
  let ?n = "length (all_actions b)"
  have asked: "phases t ! d \<noteq> Absent" if "d \<in> set (deps_of b i)" "phases s ! d \<noteq> Absent" for d i
    using goes_monotone(1) [OF goes] deps_range that by blast
  have made: "list_all (succeeded t) (deps_of b i)" if "list_all (succeeded s) (deps_of b i)" for i
    using that goes_monotone(2) [OF goes] deps_range by (fastforce simp: list_all_iff succeeded_def)
  have "\<forall>d \<in> set (deps_of b i). phases t ! d \<noteq> Absent" if i: "i < ?n" "phases t ! i \<notin> {Absent, Spawned}" for i
  proof (cases "phases s ! i \<in> {Absent, Spawned}")
    case True
    then show ?thesis using goes [OF i(1)] i(2) by (auto simp: goes_def Let_def)
  next
    case False
    then show ?thesis using ok i asked by (auto simp: order_ok_def)
  qed
  moreover have "list_all (succeeded t) (deps_of b i)"
    if i: "i < ?n" "phases t ! i \<notin> {Absent, Spawned, Deps, Finished False}" for i
  proof (cases "phases s ! i \<in> {Absent, Spawned, Deps, Finished False}")
    case True
    then have "list_all (succeeded s) (deps_of b i)" using goes [OF i(1)] i(2) by (auto simp: goes_def Let_def)
    then show ?thesis by (rule made)
  next
    case False
    then show ?thesis using ok i made by (auto simp: order_ok_def)
  qed
  moreover have "\<forall>r \<in> set (roots_of b). phases t ! r \<noteq> Absent"
    using ok goes_monotone(1) [OF goes] roots_range by (auto simp: order_ok_def)
  ultimately show ?thesis by (auto simp: order_ok_def)
qed

lemma failures_step:
  assumes "m \<in> set (moves b s)" "make_move b s m = Some t"
  shows "failures t = failures s \<and> stopped t = stopped s
    \<or> (\<exists>i < length (all_actions b). m = Ends i False \<and> phases s ! i = Running
        \<and> failures t = failures (note_failure b i s) \<and> stopped t = stopped (note_failure b i s))"
  using assms(1)
proof (cases rule: move_cases)
  case (Ends i ok)
  then have "failures t = failures (ended_with b i ok s)" "stopped t = stopped (ended_with b i ok s)"
    using assms(2) ends_fields [of b i ok s] by auto
  then show ?thesis using Ends by (cases ok) (simp_all add: ended_with_def Let_def note_failure_def)
qed (use assms(2) in \<open>auto simp: joins_def looks_fields begins_fields\<close>)

lemma report_step:
  assumes ok: "report_ok b s" and slots: "slots_but 0 b s" and m: "m \<in> set (moves b s)" and t: "make_move b s m = Some t"
  shows "report_ok b t"
proof -
  let ?n = "length (all_actions b)"
  note goes = moves_go [OF slots m t]
  have reported: "failures t \<noteq> []" if i: "i < ?n" "phases t ! i = Finished False" for i
  proof (rule ccontr)
    assume "\<not> failures t \<noteq> []"
    then have none: "failures t = []" by simp
    then have s: "failures s = []" using failures_step [OF m t] by (auto simp: note_failure_def Let_def split: if_splits)
    then have good: "\<not> stopped s" "\<And>j. j < ?n \<Longrightarrow> phases s ! j \<noteq> Finished False"
      using ok by (auto simp: report_ok_def)
    then have "list_all (over s) (deps_of b i)" "\<not> list_all (succeeded s) (deps_of b i)"
      using goes [OF i(1)] good(1) good(2) [OF i(1)] i none unfolding goes_def Let_def by auto
    then obtain d where "d \<in> set (deps_of b i)" "phases s ! d = Finished False"
      by (force simp: list_all_iff over_iff succeeded_def)
    then show False using good deps_range by blast
  qed
  have kept: "phases t ! i = Finished False" if "i \<in> set (failures s)" for i
    using ok that goes_monotone(2) [OF goes] by (auto simp: report_ok_def)
  consider "failures t = failures s" "stopped t = stopped s"
    | i where "i < ?n" "m = Ends i False" "phases s ! i = Running"
      "failures t = failures (note_failure b i s)" "stopped t = stopped (note_failure b i s)"
    using failures_step [OF m t] by blast
  then show ?thesis
  proof cases
    case 1
    then show ?thesis using ok reported kept by (auto simp: report_ok_def)
  next
    case (2 i)
    have new: "i \<notin> set (failures s)" using ok 2 by (auto simp: report_ok_def)
    have "phases t ! i = Finished False"
      using ends_phase [OF slots 2(1,3,1), of False] 2 t by auto
    then show ?thesis using ok reported kept new 2
      by (auto simp: report_ok_def note_failure_def Let_def)
  qed
qed

lemma build_start: "build_ok b (start b)"
proof -
  have "order_ok b (start b)" using roots_range by (auto simp: order_ok_def start_phase)
  moreover have "report_ok b (start b)" by (auto simp: report_ok_def start_phase) (simp_all add: start_def)
  ultimately show ?thesis using slots_start by (simp add: build_ok_def)
qed

lemma build_step: "build_ok b s \<Longrightarrow> m \<in> set (moves b s) \<Longrightarrow> make_move b s m = Some t \<Longrightarrow> build_ok b t"
  using slots_step build_order_step moves_go report_step unfolding build_ok_def by blast

section \<open>Every build ends\<close>

fun phase_rank :: "phase \<Rightarrow> nat" where
  "phase_rank Absent = 8"
| "phase_rank Spawned = 7"
| "phase_rank Deps = 6"
| "phase_rank Checked = 5"
| "phase_rank Queued = 4"
| "phase_rank Handed = 3"
| "phase_rank Granted = 2"
| "phase_rank Running = 1"
| "phase_rank (Finished ok) = 0"

definition build_rank :: "build \<Rightarrow> scheduler \<Rightarrow> nat" where
  "build_rank b s = (\<Sum>i < length (all_actions b). phase_rank (phases s ! i))"

lemma goes_rank: "goes b s t j \<Longrightarrow> phases t ! j = phases s ! j \<or> phase_rank (phases t ! j) < phase_rank (phases s ! j)"
  by (auto simp: goes_def Let_def)

lemma move_changes:
  assumes ok: "slots_but 0 b s" and m: "m \<in> set (moves b s)" and t: "make_move b s m = Some t"
  shows "\<exists>i < length (all_actions b). phases t ! i \<noteq> phases s ! i"
proof -
  have len: "length (phases s) = length (all_actions b)" using ok by (simp add: slots_but_def)
  show ?thesis using m
  proof (cases rule: move_cases)
    case (Asks i)
    then have "phases t ! i = Deps" using t len by (auto simp: fold_ask)
    then show ?thesis using Asks by force
  next
    case (Joins i)
    then have "phases t ! i \<noteq> Deps" using t len by (auto simp: joins_def set_phase_nth split: if_splits)
    then show ?thesis using Joins by force
  next
    case (Looks i c)
    then have "phases t ! i \<noteq> Checked" using t len by (auto simp: looks_def set_phase_nth split: prod.splits if_splits)
    then show ?thesis using Looks by force
  next
    case (Wakes i)
    then have "phases t ! i = Granted" using t len by (auto simp: set_phase_nth)
    then show ?thesis using Wakes by force
  next
    case (Begins i)
    then have "phases t ! i \<noteq> Granted" using begins_phase [OF ok Begins(2,3,2)] t by (auto split: if_splits)
    then show ?thesis using Begins by force
  next
    case (Ends i ok')
    then have "phases t ! i \<noteq> Running" using ends_phase [OF ok Ends(2,3,2), of ok'] t by auto
    then show ?thesis using Ends by force
  qed
qed

lemma build_rank_step:
  assumes ok: "slots_but 0 b s" and m: "m \<in> set (moves b s)" and t: "make_move b s m = Some t"
  shows "build_rank b t < build_rank b s"
proof -
  note goes = goes_rank [OF moves_go [OF ok m t]]
  obtain i where i: "i < length (all_actions b)" "phases t ! i \<noteq> phases s ! i" using move_changes [OF ok m t] by blast
  show ?thesis unfolding build_rank_def
  proof (rule sum_strict_mono_ex1)
    show "\<forall>j \<in> {..<length (all_actions b)}. phase_rank (phases t ! j) \<le> phase_rank (phases s ! j)"
      using goes by (metis lessThan_iff less_imp_le order_refl)
    show "\<exists>j \<in> {..<length (all_actions b)}. phase_rank (phases t ! j) < phase_rank (phases s ! j)"
      using goes i by blast
  qed simp
qed

interpretation tasks: ranked_model "[start b]" "moves b" "make_move b" "build_ok b" "build_rank b" for b
proof
  fix s m t
  assume ok: "build_ok b s" and m: "m \<in> set (moves b s)" and t: "make_move b s m = Some t"
  show "build_ok b t" by (rule build_step [OF ok m t])
  show "build_rank b t < build_rank b s"
    using ok by (intro build_rank_step [OF _ m t]) (simp add: build_ok_def)
next
  fix s assume "moves b s \<noteq> []"
  then obtain m where "m \<in> set (moves b s)" by (cases "moves b s") auto
  moreover have "make_move b s m \<noteq> None" by (cases m) simp_all
  ultimately show "\<exists>m \<in> set (moves b s). make_move b s m \<noteq> None" by blast
qed (simp add: build_start)

section \<open>What a build guarantees\<close>

lemma ready_of:
  assumes "build_ok b s" "i < length (all_actions b)" "phases s ! i = Running" "d \<in> set (deps_of b i)"
  shows "phases s ! d = Finished True"
proof -
  have "list_all (succeeded s) (deps_of b i)" using assms(1-3) by (simp add: build_ok_def order_ok_def)
  then show ?thesis using assms(4) by (simp add: list_all_iff succeeded_def)
qed

text \<open>
  C27. In every state a build can get to, no more commands run than there are jobs, whatever runs has everything it reads made,
  and unless the build keeps going at most one failure of an action that is no test is reported.
\<close>

theorem running_actions_are_ready:
  assumes "reach [start b] (moves b) (make_move b) s"
  shows "card {i. i < length (all_actions b) \<and> is_command b i \<and> phases s ! i = Running} \<le> max (jobs b) 1
    \<and> (\<forall>i < length (all_actions b). phases s ! i = Running \<longrightarrow> (\<forall>d \<in> set (deps_of b i). phases s ! d = Finished True))
    \<and> (\<not> keep_going b \<longrightarrow> length (filter (\<lambda>i. \<not> is_test b i) (failures s)) \<le> 1)"
proof -
  have ok: "build_ok b s" by (rule tasks.reach_inv [OF assms])
  have "{i. i < length (all_actions b) \<and> is_command b i \<and> phases s ! i = Running} \<subseteq> holders b s"
    by (auto simp: holders_def holds_def)
  from card_mono [OF holders_finite this] ok
  have "card {i. i < length (all_actions b) \<and> is_command b i \<and> phases s ! i = Running} \<le> max (jobs b) 1"
    by (simp add: build_ok_def slots_but_def)
  moreover have "\<forall>i < length (all_actions b). phases s ! i = Running \<longrightarrow> (\<forall>d \<in> set (deps_of b i). phases s ! d = Finished True)"
    using ready_of [OF ok] by blast
  moreover have "\<not> keep_going b \<longrightarrow> length (filter (\<lambda>i. \<not> is_test b i) (failures s)) \<le> 1"
    using ok by (fastforce simp: build_ok_def report_ok_def split: if_splits)
  ultimately show ?thesis by blast
qed

lemma some_holder_moves:
  assumes "i \<in> holders b s" shows "moves b s \<noteq> []"
proof -
  have "moves_of b s i \<noteq> []" "i < length (all_actions b)"
    using assms by (auto simp: holders_def holds_def moves_of_def)
  then show ?thesis by (auto simp: moves_def)
qed

lemma moves_none: "moves b s = [] \<Longrightarrow> i < length (all_actions b) \<Longrightarrow> moves_of b s i = []"
  by (simp add: moves_def)

lemma quiet_over:
  assumes ok: "build_ok b s" and quiet: "moves b s = []" and dag: "dag (deps_of b) (length (all_actions b))"
    and i: "i < length (all_actions b)"
  shows "phases s ! i \<noteq> Absent \<longrightarrow> over s i"
  using dag i
proof (induction i rule: dag_induct)
  case (node i)
  note none = moves_none [OF quiet node.hyps]
  have "phases s ! i \<noteq> Queued"
  proof
    assume "phases s ! i = Queued"
    then have "waiting (slots_of s) \<noteq> []" using ok node.hyps by (auto simp: build_ok_def slots_but_def)
    then have "card (holders b s) = max (jobs b) 1" using ok by (auto simp: build_ok_def slots_but_def)
    then have "holders b s \<noteq> {}" by auto
    then show False using some_holder_moves quiet by blast
  qed
  moreover have "phases s ! i \<noteq> Deps"
  proof
    assume deps: "phases s ! i = Deps"
    then have "\<forall>d \<in> set (deps_of b i). phases s ! d \<noteq> Absent" using ok node.hyps by (auto simp: build_ok_def order_ok_def)
    then have "list_all (over s) (deps_of b i)" using node.IH by (auto simp: list_all_iff)
    then show False using none deps by (simp add: moves_of_def)
  qed
  ultimately show ?case using none by (auto simp: moves_of_def over_def split: phase.splits)
qed

lemma quiet_needed:
  assumes ok: "build_ok b s" and quiet: "moves b s = []" and dag: "dag (deps_of b) (length (all_actions b))"
  shows "needed (all_actions b) (roots_of b) \<subseteq> {i. i < length (all_actions b) \<and> over s i}"
proof (rule needed_least)
  show "set (roots_of b) \<subseteq> {i. i < length (all_actions b) \<and> over s i}"
    using ok roots_range quiet_over [OF assms] by (auto simp: build_ok_def order_ok_def)
  fix v u assume v: "v \<in> {i. i < length (all_actions b) \<and> over s i}"
    and u: "u \<in> set (makers (all_actions b) (by_output (all_actions b)) v)"
  show "u \<in> {i. i < length (all_actions b) \<and> over s i}"
  proof (cases "u = v")
    case False
    then have "u \<in> set (deps_of b v)" using u by (simp add: deps_of_def other_makers_in)
    moreover have "phases s ! v \<notin> {Absent, Spawned}" using v by (auto simp: over_def)
    ultimately have "phases s ! u \<noteq> Absent" "u < length (all_actions b)"
      using ok v deps_range by (auto simp: build_ok_def order_ok_def)
    then show ?thesis using quiet_over [OF assms] by blast
  qed (use v in simp)
qed

text \<open>
  C26. When no action waits for itself through others, a build takes a bounded number of steps, from every state it can get to it can
  go on until nothing is left to do, and then every action that the request needs is over. If no failure is
  reported then all of them succeeded.
\<close>

theorem build_completes:
  assumes "dag (deps_of b) (length (all_actions b))" "reach [start b] (moves b) (make_move b) s"
  shows "(\<forall>ms t. run (moves b) (make_move b) s ms = Some t \<longrightarrow> length ms \<le> 8 * length (all_actions b))
    \<and> (\<exists>ms t. run (moves b) (make_move b) s ms = Some t \<and> moves b t = [])
    \<and> (moves b s = [] \<longrightarrow> (\<forall>i \<in> needed (all_actions b) (roots_of b).
         over s i \<and> (failures s = [] \<longrightarrow> phases s ! i = Finished True)))"
proof -
  have ok: "build_ok b s" by (rule tasks.reach_inv [OF assms(2)])
  have "phase_rank p \<le> 8" for p by (cases p) simp_all
  then have "build_rank b s \<le> of_nat (card {..<length (all_actions b)}) * 8"
    unfolding build_rank_def by (intro sum_bounded_above) simp
  then have "\<forall>ms t. run (moves b) (make_move b) s ms = Some t \<longrightarrow> length ms \<le> 8 * length (all_actions b)"
    using tasks.run_rank [OF ok] by (fastforce dest: le_trans add_leD1)
  moreover have "\<exists>ms t. run (moves b) (make_move b) s ms = Some t \<and> moves b t = []"
    using tasks.run_to_quiescence [OF ok] by blast
  moreover have "over s i \<and> (failures s = [] \<longrightarrow> phases s ! i = Finished True)"
    if "moves b s = []" "i \<in> needed (all_actions b) (roots_of b)" for i
  proof -
    have i: "i < length (all_actions b)" "over s i" using quiet_needed [OF ok that(1) assms(1)] that(2) by auto
    then obtain c where "phases s ! i = Finished c" by (auto simp: over_iff)
    then show ?thesis using i ok by (cases c) (auto simp: build_ok_def report_ok_def)
  qed
  ultimately show ?thesis by blast
qed

lemma stopped_step:
  assumes ok: "slots_but 0 b s" and m: "m \<in> set (moves b s)" and t: "make_move b s m = Some t"
    and "stopped s" "\<not> keep_going b" "i < length (all_actions b)" "is_command b i" "phases t ! i = Running"
  shows "phases s ! i = Running"
proof -
  have len: "length (phases s) = length (all_actions b)" using ok by (simp add: slots_but_def)
  show ?thesis using m
  proof (cases rule: move_cases)
    case (Asks j)
    then show ?thesis using t assms len by (auto simp: fold_ask list_update_nth split: if_splits)
  next
    case (Joins j)
    then show ?thesis using t assms len by (auto simp: joins_def set_phase_nth split: if_splits)
  next
    case (Looks j c)
    then show ?thesis using t assms len by (auto simp: looks_def set_phase_nth split: if_splits prod.splits)
  next
    case (Wakes j)
    then show ?thesis using t assms len by (auto simp: set_phase_nth split: if_splits)
  next
    case (Begins j)
    then show ?thesis using begins_phase [OF ok Begins(2,3) assms(6)] t assms by (auto simp: skips_def split: if_splits)
  next
    case (Ends j ok')
    then show ?thesis using ends_phase [OF ok Ends(2,3) assms(6), of ok'] t assms by (auto split: if_splits)
  qed
qed

text \<open>
  Once a failure has stopped a build that does not keep going, no further command begins: the ones that run later on
  were running then.
\<close>

theorem no_command_begins_after_stop:
  assumes "reach [start b] (moves b) (make_move b) s" "stopped s" "\<not> keep_going b"
    and "run (moves b) (make_move b) s ms = Some t" "i < length (all_actions b)" "is_command b i" "phases t ! i = Running"
  shows "phases s ! i = Running"
proof -
  have ok: "build_ok b s" by (rule tasks.reach_inv [OF assms(1)])
  show ?thesis using assms(4,7) ok assms(2)
  proof (induction ms arbitrary: s)
    case (Cons m ms)
    then obtain u where m: "m \<in> set (moves b s)" "make_move b s m = Some u" and u: "run (moves b) (make_move b) u ms = Some t"
      by (auto split: if_splits option.splits)
    have "build_ok b u" by (rule build_step [OF Cons.prems(3) m])
    moreover have "stopped u" using failures_step [OF m] Cons.prems(4) by (auto simp: note_failure_def Let_def)
    ultimately have "phases u ! i = Running" using Cons.IH [OF u] Cons.prems(2) by simp
    then show ?case using stopped_step [OF _ m Cons.prems(4) assms(3,5,6)] Cons.prems(3) by (simp add: build_ok_def)
  qed simp
qed

text \<open>A build of the two actions with one job, and one of two actions that do not read each other with two.\<close>

definition one_job :: build where
  "one_job = \<lparr>all_actions = compile_and_link, requested = [program_file], jobs = 1, keep_going = False, history = empty_cache, elapsed = \<lambda>_. 5\<rparr>"

definition two_jobs :: build where
  "two_jobs = \<lparr>all_actions = [example_action\<lparr>inputs := [], outputs := [object_file]\<rparr>, example_action\<lparr>inputs := [], outputs := [program_file]\<rparr>],
     requested = [object_file, program_file], jobs = 2, keep_going = False, history = empty_cache, elapsed = \<lambda>_. 5\<rparr>"

lemma one_job_graph:
  "deps_of one_job 0 = []" "deps_of one_job 1 = [0]" "deps_of one_job (Suc 0) = [0]" "roots_of one_job = [1]" "length (all_actions one_job) = 2"
  "is_command one_job 0" "is_command one_job 1"
  using compile_and_link_graph
  by (simp_all add: deps_of_def other_makers_def roots_of_def one_job_def is_command_def)
    (simp_all add: compile_and_link_def example_action_def)

lemma one_job_dag: "dag (deps_of one_job) (length (all_actions one_job))"
  by (rule dag_decreasing) (auto simp: one_job_graph less_2_cases_iff)

lemma one_job_start:
  "start one_job = \<lparr>phases = [Absent, Spawned], slots_of = \<lparr>free = 1, next_arrival = 0, waiting = []\<rparr>,
     stopped = False, ran = 0, cached = 0, failures = [], durations = [], cached_outputs = []\<rparr>"
  by (simp add: start_def one_job_graph ask_def slots_new_def) (simp add: one_job_def numeral_2_eq_2)

definition compiling :: scheduler where
  "compiling = \<lparr>phases = [Running, Deps], slots_of = \<lparr>free = 0, next_arrival = 0, waiting = []\<rparr>,
     stopped = False, ran = 0, cached = 0, failures = [], durations = [], cached_outputs = []\<rparr>"

lemmas move_defs = note_duration_def moves_def moves_of_def joins_def looks_def begins_def ends_def set_phase_def skips_def succeeded_def over_def
  give_back_def note_failure_def ask_def acquire_def release.simps heap_pop_def slots_new_def

lemma compiling_reached: "reach [start one_job] (moves one_job) (make_move one_job) compiling"
proof (rule reach_hd_runI)
  show "run (moves one_job) (make_move one_job) (hd [start one_job])
      [Asks 1, Asks 0, Joins 0, Looks 0 False, Begins 0] = Some compiling"
    by (simp add: one_job_start one_job_graph move_defs compiling_def numeral_2_eq_2 Let_def)
qed simp

theorem running_actions_are_ready_witness:
  "phases compiling ! 0 = Running \<and> length (filter (\<lambda>i. \<not> is_test one_job i) (failures compiling)) \<le> 1"
  using running_actions_are_ready [OF compiling_reached] by (simp add: compiling_def one_job_def)

theorem build_completes_witness:
  "\<exists>ms t. run (moves one_job) (make_move one_job) compiling ms = Some t \<and> moves one_job t = [] \<and> length ms \<le> 16"
  using build_completes [OF one_job_dag compiling_reached] by (fastforce simp: one_job_graph)

lemma two_jobs_graph:
  "deps_of two_jobs 0 = []" "deps_of two_jobs 1 = []" "deps_of two_jobs (Suc 0) = []" "roots_of two_jobs = [0, 1]"
  "length (all_actions two_jobs) = 2" "is_command two_jobs 0" "is_command two_jobs 1" "is_command two_jobs (Suc 0)"
  "\<not> is_test two_jobs 0" "max (jobs two_jobs) 1 = 2" "\<not> keep_going two_jobs"
  "outputs (all_actions two_jobs ! 0) = [object_file]" "elapsed two_jobs 0 = 5"
proof -
  have "object_file \<noteq> program_file"
    by (simp add: object_file_def program_file_def derived_artifact_def join_path_def)
  then have "by_output (all_actions two_jobs) object_file = Some 0" "by_output (all_actions two_jobs) program_file = Some 1"
    by (simp_all add: by_output_def two_jobs_def)
  then show "roots_of two_jobs = [0, 1]" by (simp add: roots_of_def wanted_def two_jobs_def map_filter_simps)
  show "deps_of two_jobs 0 = []" "deps_of two_jobs 1 = []" "deps_of two_jobs (Suc 0) = []"
    by (simp_all add: deps_of_def other_makers_def makers_def two_jobs_def map_filter_simps)
  show "length (all_actions two_jobs) = 2" "is_command two_jobs 0" "is_command two_jobs 1" "is_command two_jobs (Suc 0)"
    "\<not> is_test two_jobs 0" "max (jobs two_jobs) 1 = 2" "\<not> keep_going two_jobs"
    "outputs (all_actions two_jobs ! 0) = [object_file]" "elapsed two_jobs 0 = 5"
    by (simp_all add: two_jobs_def is_command_def is_test_def example_action_def)
qed

definition one_failed :: scheduler where
  "one_failed = \<lparr>phases = [Finished False, Running], slots_of = \<lparr>free = 1, next_arrival = 0, waiting = []\<rparr>,
     stopped = True, ran = 0, cached = 0, failures = [0],
     durations = [(exec_path object_file, 5)], cached_outputs = []\<rparr>"

lemma one_failed_reached: "reach [start two_jobs] (moves two_jobs) (make_move two_jobs) one_failed"
proof (rule reach_hd_runI)
  have "start two_jobs = \<lparr>phases = [Spawned, Spawned], slots_of = \<lparr>free = 2, next_arrival = 0, waiting = []\<rparr>,
     stopped = False, ran = 0, cached = 0, failures = [], durations = [], cached_outputs = []\<rparr>"
    using two_jobs_graph(10) by (simp add: start_def two_jobs_graph ask_def slots_new_def numeral_2_eq_2)
  then show "run (moves two_jobs) (make_move two_jobs) (hd [start two_jobs])
      [Asks 0, Asks 1, Joins 0, Joins 1, Looks 0 False, Looks 1 False, Begins 0, Begins 1, Ends 0 False] = Some one_failed"
    by (simp add: two_jobs_graph move_defs one_failed_def numeral_2_eq_2 Let_def)
qed simp

theorem no_command_begins_after_stop_witness:
  "stopped one_failed \<and> phases one_failed ! 1 = Running"
  using no_command_begins_after_stop [OF one_failed_reached, of "[]" one_failed 1]
  by (simp add: two_jobs_graph one_failed_def)

end
