(* ===== verification/Wait_Graph.thy ===== *)
theory Wait_Graph
  imports Rust_Base "HOL-Library.Transitive_Closure_Table"
begin

text \<open>
  The wait graph of the engine (\<open>crates/fjfj-engine/src/lib.rs\<close>, \<open>Inner::wait_on\<close>, \<open>reaches\<close> and the drop of
  a \<open>Waiting\<close>): which running computation waits on which, kept so that a request that would wait on
  itself is refused. A node is its number, and the text its key prints is a function of it.
\<close>

section \<open>Waiting\<close>

type_synonym node_id = nat

text \<open>The nodes each node waits on, in the order of the vector; a node that is not there waits on none.\<close>

type_synonym wait_map = "node_id \<Rightarrow> node_id list"

text \<open>
  The loop of \<open>reaches\<close> over the nodes that \<open>at\<close> waits on; a call of \<open>reaches\<close> on one of them is the test for
  the target and this loop. The result is whether the target was found, the path and the visited nodes.
\<close>

partial_function (option) reaches_loop ::
  "wait_map \<Rightarrow> node_id \<Rightarrow> node_id list \<Rightarrow> node_id list \<Rightarrow> node_id list \<Rightarrow> (bool \<times> node_id list \<times> node_id list) option" where
  [code]: "reaches_loop waits target nexts path seen =
     (case nexts of
        [] \<Rightarrow> Some (False, path, seen)
      | n # rest \<Rightarrow>
          if n \<in> set seen then reaches_loop waits target rest path seen
          else if n = target then Some (True, path @ [n], seen @ [n])
          else Option.bind (reaches_loop waits target (waits n) (path @ [n]) (seen @ [n])) (\<lambda>r.
            if fst r then Some r
            else reaches_loop waits target rest (butlast (fst (snd r))) (snd (snd r))))"

definition reaches :: "wait_map \<Rightarrow> node_id \<Rightarrow> node_id \<Rightarrow> node_id list \<Rightarrow> node_id list \<Rightarrow> (bool \<times> node_id list \<times> node_id list) option" where
  "reaches waits at target path seen =
     (if at = target then Some (True, path, seen) else reaches_loop waits target (waits at) path seen)"

datatype wait_error = Cycle "string list"

text \<open>What a request gets: nothing to remove for one from outside, or the edge.\<close>

type_synonym waiting = "(node_id \<times> node_id) option"

definition wait_on ::
  "(node_id \<Rightarrow> string) \<Rightarrow> node_id option \<Rightarrow> node_id \<Rightarrow> wait_map \<Rightarrow> ((wait_error, waiting) result \<times> wait_map) option" where
  "wait_on key_text from to waits =
     (case from of
        None \<Rightarrow> Some (Inr None, waits)
      | Some f \<Rightarrow>
          map_option (\<lambda>(found, path, _).
            if found \<or> to = f then (Inl (Cycle (key_text f # map key_text path)), waits)
            else (Inr (Some (f, to)), waits(f := waits f @ [to]))) (reaches waits to f [to] [to]))"

text \<open>\<open>Vec::swap_remove\<close>: the last element takes the place.\<close>

definition swap_remove :: "nat \<Rightarrow> 'a list \<Rightarrow> 'a list" where
  "swap_remove i xs = butlast (xs[i := last xs])"

fun position :: "'a \<Rightarrow> 'a list \<Rightarrow> nat option" where
  "position x [] = None"
| "position x (y # ys) = (if y = x then Some 0 else map_option Suc (position x ys))"

definition drop_waiting :: "node_id \<times> node_id \<Rightarrow> wait_map \<Rightarrow> wait_map" where
  "drop_waiting edge waits =
     (case position (snd edge) (waits (fst edge)) of
        Some i \<Rightarrow> waits(fst edge := swap_remove i (waits (fst edge)))
      | None \<Rightarrow> waits)"

section \<open>The search\<close>

definition waits_on :: "wait_map \<Rightarrow> node_id \<Rightarrow> node_id \<Rightarrow> bool" where
  "waits_on waits a b \<longleftrightarrow> b \<in> set (waits a)"

text \<open>A path along wait edges.\<close>

definition wait_path :: "wait_map \<Rightarrow> node_id list \<Rightarrow> bool" where
  "wait_path waits path \<longleftrightarrow> path \<noteq> [] \<and> successively (waits_on waits) path"

text \<open>
  What the search keeps: the visited nodes that are done, that is all but those on the path, have all that they wait on
  among the visited ones, and none of them is the target.
\<close>

definition closed_under :: "wait_map \<Rightarrow> node_id set \<Rightarrow> node_id set \<Rightarrow> bool" where
  "closed_under waits done seen \<longleftrightarrow> (\<forall>a b. a \<in> done \<longrightarrow> waits_on waits a b \<longrightarrow> b \<in> seen)"

lemma reaches_loop_Nil: "reaches_loop waits target [] path seen = Some (False, path, seen)"
  by (simp add: reaches_loop.simps)

lemma reaches_loop_Cons:
  "reaches_loop waits target (n # rest) path seen =
     (if n \<in> set seen then reaches_loop waits target rest path seen
      else if n = target then Some (True, path @ [n], seen @ [n])
      else Option.bind (reaches_loop waits target (waits n) (path @ [n]) (seen @ [n])) (\<lambda>r.
        if fst r then Some r
        else reaches_loop waits target rest (butlast (fst (snd r))) (snd (snd r))))"
  by (subst reaches_loop.simps) simp

text \<open>One search from \<open>at\<close>, the last node of the path, over some of the nodes it waits on.\<close>

definition search_ok ::
  "wait_map \<Rightarrow> node_id \<Rightarrow> node_id list \<Rightarrow> node_id list \<Rightarrow> node_id list \<Rightarrow> (bool \<times> node_id list \<times> node_id list) \<Rightarrow> bool" where
  "search_ok waits target nexts path seen r \<longleftrightarrow>
     (case r of (found, path', seen') \<Rightarrow> set seen \<subseteq> set seen'
       \<and> (found \<longrightarrow> wait_path waits path' \<and> hd path' = hd path \<and> last path' = target)
       \<and> (\<not> found \<longrightarrow> path' = path \<and> target \<notin> set seen' \<and> set nexts \<subseteq> set seen'
            \<and> closed_under waits (set seen' - set seen) (set seen')))"

lemma search_ok_step:
  assumes "search_ok waits target (waits n) (path @ [n]) (seen @ [n]) (False, path1, seen1)"
    and "search_ok waits target rest path seen1 r"
  shows "search_ok waits target (n # rest) path seen r"
proof -
  obtain found path2 seen2 where r: "r = (found, path2, seen2)" by (cases r)
  have one: "set (seen @ [n]) \<subseteq> set seen1" "set (waits n) \<subseteq> set seen1"
    "closed_under waits (set seen1 - set (seen @ [n])) (set seen1)"
    using assms(1) by (simp_all add: search_ok_def)
  have two: "set seen1 \<subseteq> set seen2" "\<not> found \<Longrightarrow> closed_under waits (set seen2 - set seen1) (set seen2)"
    using assms(2) by (simp_all add: search_ok_def r)
  have "closed_under waits (set seen2 - set seen) (set seen2)" if "\<not> found"
    unfolding closed_under_def
  proof (intro allI impI)
    fix a b
    assume a: "a \<in> set seen2 - set seen" and b: "waits_on waits a b"
    then consider "a \<in> set seen2 - set seen1" | "a = n" | "a \<in> set seen1 - set (seen @ [n])" using two(1) by auto
    then show "b \<in> set seen2"
    proof cases
      case 1
      then show ?thesis using two(2) [OF that] b by (auto simp: closed_under_def)
    next
      case 2
      then show ?thesis using one(2) two(1) b by (auto simp: waits_on_def)
    next
      case 3
      then show ?thesis using one(3) two(1) b unfolding closed_under_def by blast
    qed
  qed
  then show ?thesis using assms(2) one two by (auto simp: search_ok_def r)
qed

lemma search_ok_skip:
  "n \<in> set seen \<Longrightarrow> search_ok waits target rest path seen r \<Longrightarrow> search_ok waits target (n # rest) path seen r"
  by (cases r) (auto simp: search_ok_def)

lemma reaches_loop_ok:
  assumes "finite U" "\<And>a. set (waits a) \<subseteq> U" "target \<notin> set seen" "wait_path waits path" "set nexts \<subseteq> set (waits (last path))"
  shows "\<exists>r. reaches_loop waits target nexts path seen = Some r \<and> search_ok waits target nexts path seen r"
  using assms(3-5)
proof (induction "card (U - set seen)" arbitrary: seen path nexts rule: less_induct)
  case (less seen path nexts)
  note outer = less.hyps
  from less.prems show ?case
  proof (induction nexts)
    case Nil
    show ?case using Nil by (simp add: reaches_loop_Nil search_ok_def closed_under_def)
  next
    case (Cons n rest)
    have edge: "waits_on waits (last path) n" "n \<in> U" using Cons.prems(3) assms(2) by (auto simp: waits_on_def)
    then have path: "wait_path waits (path @ [n])"
      using Cons.prems(2) by (auto simp: wait_path_def successively_append_iff)
    show ?case
    proof (cases "n \<in> set seen")
      case True
      then show ?thesis using Cons search_ok_skip [OF True] by (auto simp: reaches_loop_Cons)
    next
      case new: False
      show ?thesis
      proof (cases "n = target")
        case True
        then show ?thesis using path Cons.prems(2) new
          by (auto simp: reaches_loop_Cons search_ok_def wait_path_def)
      next
        case other: False
        have small: "card (U - set (seen @ [n])) < card (U - set seen)"
          using assms(1) edge(2) new by (intro psubset_card_mono) auto
        obtain found path1 seen1 where r1: "reaches_loop waits target (waits n) (path @ [n]) (seen @ [n]) = Some (found, path1, seen1)"
          "search_ok waits target (waits n) (path @ [n]) (seen @ [n]) (found, path1, seen1)"
        proof -
          assume h: "\<And>found path1 seen1. reaches_loop waits target (waits n) (path @ [n]) (seen @ [n]) = Some (found, path1, seen1) \<Longrightarrow>
            search_ok waits target (waits n) (path @ [n]) (seen @ [n]) (found, path1, seen1) \<Longrightarrow> thesis"
          have "\<exists>r. reaches_loop waits target (waits n) (path @ [n]) (seen @ [n]) = Some r
              \<and> search_ok waits target (waits n) (path @ [n]) (seen @ [n]) r"
            using Cons.prems(1) other by (intro outer [OF small _ path]) simp_all
          then show thesis using h by auto
        qed
        show ?thesis
        proof (cases found)
          case True
          then show ?thesis using r1 new other Cons.prems(2)
            by (auto simp: reaches_loop_Cons search_ok_def wait_path_def)
        next
          case False
          then have seen1: "set (seen @ [n]) \<subseteq> set seen1" "target \<notin> set seen1" "path1 = path @ [n]"
            using r1(2) by (simp_all add: search_ok_def)
          have "card (U - set seen1) < card (U - set seen)"
            using small card_mono [of "U - set (seen @ [n])" "U - set seen1"] assms(1) seen1(1) by fastforce
          then obtain r2 where r2: "reaches_loop waits target rest path seen1 = Some r2" "search_ok waits target rest path seen1 r2"
            using outer [of seen1 path rest] seen1(2) Cons.prems(2,3) by auto
          then show ?thesis
            using r1 search_ok_step [of waits target n path seen path1 seen1 rest r2] False seen1(3) new other
            by (simp add: reaches_loop_Cons)
        qed
      qed
    qed
  qed
qed

definition few_waits :: "wait_map \<Rightarrow> bool" where
  "few_waits waits \<longleftrightarrow> finite {a. waits a \<noteq> []}"

lemma few_waits_targets:
  assumes "few_waits waits"
  shows "finite (\<Union>a. set (waits a))" "\<And>a. set (waits a) \<subseteq> (\<Union>a. set (waits a))"
proof -
  have "(\<Union>a. set (waits a)) \<subseteq> (\<Union>a \<in> {a. waits a \<noteq> []}. set (waits a))"
  proof
    fix b
    assume "b \<in> (\<Union>a. set (waits a))"
    then obtain a where "b \<in> set (waits a)" by auto
    moreover from this have "waits a \<noteq> []" by auto
    ultimately show "b \<in> (\<Union>a \<in> {a. waits a \<noteq> []}. set (waits a))" by blast
  qed
  moreover have "finite (\<Union>a \<in> {a. waits a \<noteq> []}. set (waits a))" using assms by (simp add: few_waits_def)
  ultimately show "finite (\<Union>a. set (waits a))" by (rule finite_subset)
qed blast

lemma closed_reach:
  assumes "closed_under waits S S" "a \<in> S" "(waits_on waits)\<^sup>*\<^sup>* a b"
  shows "b \<in> S"
  using assms(3,2) by (induction) (use assms(1) in \<open>auto simp: closed_under_def\<close>)

lemma reaches_exact:
  assumes "few_waits waits"
  shows "\<exists>found path seen. reaches waits to f [to] [to] = Some (found, path, seen)
    \<and> (found \<longleftrightarrow> (waits_on waits)\<^sup>*\<^sup>* to f)
    \<and> (found \<longrightarrow> wait_path waits path \<and> hd path = to \<and> last path = f)"
proof (cases "to = f")
  case True
  then show ?thesis by (intro exI [of _ True]) (simp add: reaches_def wait_path_def)
next
  case False
  have "\<exists>r. reaches_loop waits f (waits to) [to] [to] = Some r \<and> search_ok waits f (waits to) [to] [to] r"
    using False by (intro reaches_loop_ok [OF few_waits_targets [OF assms]]) (simp_all add: wait_path_def)
  then obtain found path seen where r: "reaches_loop waits f (waits to) [to] [to] = Some (found, path, seen)"
    "search_ok waits f (waits to) [to] [to] (found, path, seen)" by auto
  have "(waits_on waits)\<^sup>*\<^sup>* to f" if found
  proof -
    have "successively (waits_on waits) path" "hd path = to" "last path = f" "path \<noteq> []"
      using r(2) that by (auto simp: search_ok_def wait_path_def)
    then show ?thesis by (induction path arbitrary: to rule: induct_list012) (auto intro: converse_rtranclp_into_rtranclp)
  qed
  moreover have "\<not> (waits_on waits)\<^sup>*\<^sup>* to f" if "\<not> found"
  proof -
    have "set (waits to) \<subseteq> set seen" "closed_under waits (set seen - {to}) (set seen)" "f \<notin> set seen" "to \<in> set seen"
      using r(2) that by (simp_all add: search_ok_def)
    then have "closed_under waits (set seen) (set seen)" by (auto simp: closed_under_def waits_on_def)
    then show ?thesis using closed_reach \<open>to \<in> set seen\<close> \<open>f \<notin> set seen\<close> by blast
  qed
  ultimately show ?thesis using r False by (auto simp: reaches_def search_ok_def)
qed

section \<open>Acyclic waits\<close>

lemma waits_on_add: "waits_on (waits(f := waits f @ [to])) a b \<longleftrightarrow> waits_on waits a b \<or> a = f \<and> b = to"
  by (auto simp: waits_on_def)

lemma acyclic_add:
  assumes "acyclicP (waits_on waits)" "\<not> (waits_on waits)\<^sup>*\<^sup>* to f"
  shows "acyclicP (waits_on (waits(f := waits f @ [to])))"
proof -
  have "{(a, b). waits_on (waits(f := waits f @ [to])) a b} = insert (f, to) {(a, b). waits_on waits a b}"
    by (auto simp: waits_on_add)
  moreover have "(to, f) \<notin> {(a, b). waits_on waits a b}\<^sup>*" using assms(2) by (simp add: rtranclp_rtrancl_eq)
  ultimately show ?thesis using assms(1) by (simp add: acyclic_insert)
qed

lemma position_Some: "position x xs = Some i \<Longrightarrow> i < length xs \<and> xs ! i = x"
  by (induction xs arbitrary: i) (auto split: if_splits)

lemma set_swap_remove: "i < length xs \<Longrightarrow> set (swap_remove i xs) \<subseteq> set xs"
proof -
  assume "i < length xs"
  then have "last xs \<in> set xs" by (cases xs) auto
  then show ?thesis unfolding swap_remove_def
    using set_update_subset_insert [of xs i "last xs"] by (auto dest: in_set_butlastD)
qed

lemma drop_waiting_subset: "waits_on (drop_waiting edge waits) a b \<Longrightarrow> waits_on waits a b"
  using set_swap_remove [of _ "waits (fst edge)"] position_Some [of "snd edge" "waits (fst edge)"]
  by (cases "position (snd edge) (waits (fst edge))"; cases "a = fst edge") (auto simp: drop_waiting_def waits_on_def)

section \<open>Properties\<close>

text \<open>
  A request of one computation for another returns; it is refused exactly when it would close a
  cycle of waits, and the keys of the error are then those of a real cycle, each waiting on the next
  once the refused wait is counted.
\<close>

theorem wait_on_exact:
  assumes "few_waits waits"
  shows "\<exists>res waits'. wait_on key_text (Some f) to waits = Some (res, waits')
    \<and> (is_ok res \<longleftrightarrow> \<not> (waits_on waits)\<^sup>*\<^sup>* to f)
    \<and> (\<not> is_ok res \<longrightarrow> (\<exists>path. res = Inl (Cycle (map key_text path)) \<and> 2 \<le> length path \<and> hd path = f \<and> last path = f
          \<and> successively (\<lambda>a b. waits_on waits a b \<or> a = f \<and> b = to) path))"
proof -
  obtain found path seen where r: "reaches waits to f [to] [to] = Some (found, path, seen)"
    "found \<longleftrightarrow> (waits_on waits)\<^sup>*\<^sup>* to f" "found \<longrightarrow> wait_path waits path \<and> hd path = to \<and> last path = f"
    using reaches_exact [OF assms] by metis
  show ?thesis
  proof (cases found)
    case True
    have "successively (\<lambda>a b. waits_on waits a b \<or> a = f \<and> b = to) (f # path)"
      using r(3) True by (cases path) (auto simp: wait_path_def elim: successively_mono)
    then show ?thesis using r True
      by (intro exI [of _ "Inl (Cycle (map key_text (f # path)))"] exI [of _ waits])
        (auto simp: wait_on_def is_ok_def wait_path_def Suc_le_eq intro!: exI [of _ "f # path"])
  next
    case False
    then have "to \<noteq> f" using r(2) by auto
    then show ?thesis using r False by (auto simp: wait_on_def is_ok_def)
  qed
qed

text \<open>
  C2. The waits stay acyclic: a wait that is granted closes no cycle, and the end of a wait only removes
  an edge. So no set of computations ever waits in a circle.
\<close>

theorem waits_stay_acyclic:
  assumes "few_waits waits" and "acyclicP (waits_on waits)"
    and "wait_on key_text from to waits = Some (res, waits')"
  shows "acyclicP (waits_on waits') \<and> acyclicP (waits_on (drop_waiting edge waits')) \<and> few_waits waits'"
proof -
  have "acyclicP (waits_on waits') \<and> few_waits waits'"
  proof (cases "from")
    case (Some f)
    obtain found path seen where r: "reaches waits to f [to] [to] = Some (found, path, seen)"
      "found \<longleftrightarrow> (waits_on waits)\<^sup>*\<^sup>* to f" using reaches_exact [OF assms(1)] by metis
    have "finite (insert f {a. waits a \<noteq> []})" using assms(1) by (simp add: few_waits_def)
    then have "few_waits (waits(f := waits f @ [to]))"
      unfolding few_waits_def by (rule rev_finite_subset) auto
    then show ?thesis
      using assms Some r acyclic_add [OF assms(2), of to f] by (auto simp: wait_on_def split: if_splits)
  qed (use assms in \<open>simp add: wait_on_def\<close>)
  moreover have "acyclicP (waits_on (drop_waiting edge waits'))" if "acyclicP (waits_on waits')"
    by (rule acyclic_subset [OF that]) (auto dest: drop_waiting_subset)
  ultimately show ?thesis by blast
qed

definition example_waits :: wait_map where
  "example_waits = (\<lambda>_. [])(1 := [2, 3], 3 := [4])"

lemma example_waits_ok: "few_waits example_waits" "acyclicP (waits_on example_waits)"
proof -
  have "{a. example_waits a \<noteq> []} \<subseteq> {1, 3}" by (auto simp: example_waits_def split: if_splits)
  then show "few_waits example_waits" unfolding few_waits_def by (rule finite_subset) simp
  have "{(a, b). waits_on example_waits a b} \<subseteq> {(a, b). a < b}"
    by (auto simp: waits_on_def example_waits_def split: if_splits)
  then show "acyclicP (waits_on example_waits)" by (rule acyclic_subset [OF wf_acyclic [OF wf_less]])
qed

theorem wait_on_exact_witness:
  "wait_on (\<lambda>n. replicate n CHR ''k'') (Some 4) 1 example_waits =
     Some (Inl (Cycle [''kkkk'', ''k'', ''kkk'', ''kkkk'']), example_waits)
   \<and> (waits_on example_waits)\<^sup>*\<^sup>* 1 4"
proof -
  have "wait_on (\<lambda>n. replicate n CHR ''k'') (Some 4) 1 example_waits =
     Some (Inl (Cycle [''kkkk'', ''k'', ''kkk'', ''kkkk'']), example_waits)"
    by (simp add: wait_on_def reaches_def reaches_loop_Cons reaches_loop_Nil example_waits_def numeral_eq_Suc)
  with wait_on_exact [OF example_waits_ok(1), of "\<lambda>n. replicate n CHR ''k''" 4 1] show ?thesis by (auto simp: is_ok_def)
qed

theorem waits_stay_acyclic_witness:
  "acyclicP (waits_on (example_waits(2 := [4])))"
proof -
  have "wait_on (\<lambda>n. replicate n CHR ''k'') (Some 2) 4 example_waits = Some (Inr (Some (2, 4)), example_waits(2 := [4]))"
    by (simp add: wait_on_def reaches_def reaches_loop_Nil example_waits_def)
  from waits_stay_acyclic [OF example_waits_ok this] show ?thesis by blast
qed

end
