(* ===== verification/Engine.thy ===== *)
theory Engine
  imports Wait_Graph
begin

text \<open>
  The incremental engine (\<open>crates/fjfj-engine/src/lib.rs\<close>): a memoising graph of keys with versions and
  early cutoff. The model handles one request at a time: a request runs to its end, the computations
  in progress are the chain of those that wait on one another, and a node of the chain that is asked
  for again is what \<open>wait_on\<close> refuses. What is between the \<open>await\<close>s of concurrent requests, the sharing of a
  computation in flight and its being abandoned are not in it. A key's computation is a program that asks for
  keys and returns an outcome. Versions, \<open>u64\<close> in the source, are unbounded here: one is used up by every call that
  starts a version.
\<close>

section \<open>Data\<close>

text \<open>\<open>Result<AnyValue, Error>\<close>; the keys of a cycle are the keys themselves, not their text.\<close>

datatype ('k, 'v) outcome = Value 'v | Failed string | CycleOf "'k list"

text \<open>An \<open>async\<close> computation with its requests: it ends, or asks for a key and goes on with the outcome.\<close>

datatype ('k, 'v) computation =
    Return "('k, 'v) outcome"
  | Get 'k "('k, 'v) outcome \<Rightarrow> ('k, 'v) computation"

record ('k, 'v) evaluated =
  outcome :: "('k, 'v) outcome"
  changed_at :: nat
  verified_at :: nat
  deps :: "('k \<times> nat) list"

text \<open>A node that has no evaluation yet is empty, \<open>Some None\<close>.\<close>

record ('k, 'v) engine =
  version :: nat
  nodes :: "'k \<rightharpoonup> ('k, 'v) evaluated option"
  dirty :: "'k set"

definition new_engine :: "('k, 'v) engine" where
  "new_engine = \<lparr>version = 0, nodes = Map.empty, dirty = {}\<rparr>"

definition next_version :: "('k, 'v) engine \<Rightarrow> ('k, 'v) engine" where
  "next_version s = s\<lparr>version := version s + 1\<rparr>"

definition invalidate :: "'k \<Rightarrow> ('k, 'v) engine \<Rightarrow> bool \<times> ('k, 'v) engine" where
  "invalidate k s =
     (let s' = next_version s
      in case nodes s k of Some _ \<Rightarrow> (True, s'\<lparr>dirty := insert k (dirty s')\<rparr>) | None \<Rightarrow> (False, s'))"

definition node :: "'k \<Rightarrow> ('k, 'v) engine \<Rightarrow> ('k, 'v) engine" where
  "node k s = (case nodes s k of Some _ \<Rightarrow> s | None \<Rightarrow> s\<lparr>nodes := (nodes s)(k \<mapsto> None)\<rparr>)"

definition done_at :: "'k \<Rightarrow> ('k, 'v) engine \<Rightarrow> ('k, 'v) evaluated option" where
  "done_at k s = (case nodes s k of Some x \<Rightarrow> x | None \<Rightarrow> None)"

section \<open>Evaluation\<close>

text \<open>
  The result of a request: an error of \<open>wait_on\<close>, or what the node has. The requests of a
  computation go through \<open>ev\<close>, with the chain of the computations in progress.
\<close>

type_synonym ('k, 'v) evaluator =
  "'k list \<Rightarrow> 'k \<Rightarrow> ('k, 'v) engine \<Rightarrow> ((('k, 'v) outcome, ('k, 'v) evaluated) result \<times> ('k, 'v) engine) option"

text \<open>The keys of a refused wait: the one that asks, then the way from the one it asks for back to it.\<close>

definition refused :: "'k list \<Rightarrow> 'k \<Rightarrow> ('k, 'v) outcome" where
  "refused chain k = CycleOf (last chain # dropWhile (\<lambda>j. j \<noteq> k) chain)"

text \<open>The loop of \<open>run\<close> over the dependencies of the previous evaluation.\<close>

fun verify ::
  "('k, 'v) evaluator \<Rightarrow> 'k list \<Rightarrow> ('k \<times> nat) list \<Rightarrow> ('k, 'v) engine
     \<Rightarrow> ((('k, 'v) outcome, bool) result \<times> ('k, 'v) engine) option" where
  "verify ev chain [] s = Some (Inr True, s)"
| "verify ev chain ((d, observed) # ds) s =
     (if d \<in> set chain then Some (Inl (refused chain d), s)
      else case ev chain d s of
        None \<Rightarrow> None
      | Some (Inr e, s') \<Rightarrow> if changed_at e \<le> observed then verify ev chain ds s' else Some (Inr False, s')
      | Some (Inl _, s') \<Rightarrow> Some (Inr False, s'))"

text \<open>The computation of a key, with \<open>Ctx::get\<close>: the outcome, the dependencies and the engine.\<close>

primrec compute_with ::
  "('k, 'v) evaluator \<Rightarrow> 'k list \<Rightarrow> ('k, 'v) computation \<Rightarrow> ('k \<times> nat) list \<Rightarrow> ('k, 'v) engine
     \<Rightarrow> (('k, 'v) outcome \<times> ('k \<times> nat) list \<times> ('k, 'v) engine) option" where
  "compute_with ev chain (Return out) = (\<lambda>ds s. Some (out, ds, s))"
| "compute_with ev chain (Get k f) = (\<lambda>ds s.
     if k \<in> set chain then compute_with ev chain (f (refused chain k)) ds (node k s)
     else case ev chain k (node k s) of
       None \<Rightarrow> None
     | Some (Inr e, s') \<Rightarrow> compute_with ev chain (f (outcome e)) (ds @ [(k, changed_at e)]) s'
     | Some (Inl err, s') \<Rightarrow> compute_with ev chain (f err) ds s')"

definition finish :: "'k \<Rightarrow> ('k, 'v) evaluated \<Rightarrow> ('k, 'v) engine \<Rightarrow> ((('k, 'v) outcome, ('k, 'v) evaluated) result \<times> ('k, 'v) engine) option" where
  "finish k e s = Some (Inr e, s\<lparr>nodes := (nodes s)(k \<mapsto> Some e)\<rparr>)"

text \<open>The second half of \<open>run\<close>: compute, and keep the version of the last change when the outcome is the same.\<close>

definition recompute ::
  "('k, 'v) evaluator \<Rightarrow> 'k list \<Rightarrow> 'k \<Rightarrow> ('k, 'v) computation \<Rightarrow> ('k, 'v) evaluated option \<Rightarrow> ('k, 'v) engine
     \<Rightarrow> ((('k, 'v) outcome, ('k, 'v) evaluated) result \<times> ('k, 'v) engine) option" where
  "recompute ev chain k body previous s =
     (case compute_with ev chain body [] s of
        None \<Rightarrow> None
      | Some (out, ds, s') \<Rightarrow>
          finish k \<lparr>outcome = out,
            changed_at = (case previous of Some p \<Rightarrow> if outcome p = out then changed_at p else version s | None \<Rightarrow> version s),
            verified_at = version s, deps = ds\<rparr> s')"

text \<open>
  \<open>run\<close>, with the chain that ends in the node. An error of \<open>wait_on\<close> while verifying ends it, and the last waiter to go
  puts the node back to what it was.
\<close>

definition run_node ::
  "('k, 'v) evaluator \<Rightarrow> 'k list \<Rightarrow> 'k \<Rightarrow> ('k, 'v) computation \<Rightarrow> ('k, 'v) evaluated option \<Rightarrow> bool \<Rightarrow> ('k, 'v) engine
     \<Rightarrow> ((('k, 'v) outcome, ('k, 'v) evaluated) result \<times> ('k, 'v) engine) option" where
  "run_node ev chain k body previous was_dirty s =
     (case (previous, was_dirty) of
        (Some p, False) \<Rightarrow>
          (case verify ev chain (deps p) s of
             None \<Rightarrow> None
           | Some (Inl err, s') \<Rightarrow> Some (Inl err, s')
           | Some (Inr True, s') \<Rightarrow> finish k (p\<lparr>verified_at := version s\<rparr>) s'
           | Some (Inr False, s') \<Rightarrow> recompute ev chain k body previous s')
      | _ \<Rightarrow> recompute ev chain k body previous s)"

text \<open>
  \<open>evaluate_now\<close> at the current version. The fuel bounds the length of the chain.
\<close>

primrec evaluate :: "('k \<Rightarrow> ('k, 'v) computation) \<Rightarrow> nat \<Rightarrow> ('k, 'v) evaluator" where
  "evaluate c 0 = (\<lambda>chain k s. None)"
| "evaluate c (Suc n) = (\<lambda>chain k s.
     case done_at k s of
       Some e \<Rightarrow>
         if version s \<le> verified_at e \<and> k \<notin> dirty s then Some (Inr e, s)
         else run_node (evaluate c n) (chain @ [k]) k (c k) (Some e) (k \<in> dirty s) (s\<lparr>dirty := dirty s - {k}\<rparr>)
     | None \<Rightarrow> run_node (evaluate c n) (chain @ [k]) k (c k) None (k \<in> dirty s) (s\<lparr>dirty := dirty s - {k}\<rparr>))"

text \<open>\<open>Engine::get\<close>, a request from outside.\<close>

definition engine_get ::
  "('k \<Rightarrow> ('k, 'v) computation) \<Rightarrow> nat \<Rightarrow> 'k \<Rightarrow> ('k, 'v) engine \<Rightarrow> (('k, 'v) outcome \<times> ('k, 'v) engine) option" where
  "engine_get c n k s =
     (case evaluate c n [] k (node k s) of
        None \<Rightarrow> None
      | Some (Inr e, s') \<Rightarrow> Some (outcome e, s')
      | Some (Inl err, s') \<Rightarrow> Some (err, s'))"

section \<open>Evaluation from scratch\<close>

primrec scratch_with :: "('k \<Rightarrow> ('k, 'v) outcome option) \<Rightarrow> ('k, 'v) computation \<Rightarrow> ('k, 'v) outcome option" where
  "scratch_with ev (Return out) = Some out"
| "scratch_with ev (Get k f) = Option.bind (ev k) (\<lambda>out. scratch_with ev (f out))"

primrec scratch :: "('k \<Rightarrow> ('k, 'v) computation) \<Rightarrow> nat \<Rightarrow> 'k \<Rightarrow> ('k, 'v) outcome option" where
  "scratch c 0 = (\<lambda>k. None)"
| "scratch c (Suc n) = (\<lambda>k. scratch_with (scratch c n) (c k))"

text \<open>The outcome of a key when nothing is remembered; there is none for a key that depends on itself.\<close>

definition denotes :: "('k \<Rightarrow> ('k, 'v) computation) \<Rightarrow> 'k \<Rightarrow> ('k, 'v) outcome \<Rightarrow> bool" where
  "denotes c k out \<longleftrightarrow> (\<exists>n. scratch c n k = Some out)"

lemma scratch_with_mono:
  "(\<And>k out. ev k = Some out \<Longrightarrow> ev' k = Some out) \<Longrightarrow> scratch_with ev body = Some out \<Longrightarrow> scratch_with ev' body = Some out"
proof (induction body)
  case (Get k f)
  then show ?case by (auto simp: bind_eq_Some_conv)
qed simp

lemma scratch_Suc: "scratch c n k = Some out \<Longrightarrow> scratch c (Suc n) k = Some out"
proof (induction n arbitrary: k out)
  case (Suc n)
  then show ?case using scratch_with_mono [of "scratch c n" "scratch c (Suc n)"] by simp
qed simp

lemma scratch_mono: "n \<le> m \<Longrightarrow> scratch c n k = Some out \<Longrightarrow> scratch c m k = Some out"
  by (induction rule: dec_induct) (auto intro: scratch_Suc simp del: scratch.simps)

lemma denotes_unique: "denotes c k out \<Longrightarrow> denotes c k out' \<Longrightarrow> out = out'"
  unfolding denotes_def by (metis linear option.inject scratch_mono)

text \<open>A computation, along the keys it asks for.\<close>

inductive follows :: "('k \<Rightarrow> ('k, 'v) computation) \<Rightarrow> ('k, 'v) computation \<Rightarrow> 'k list \<Rightarrow> ('k, 'v) outcome \<Rightarrow> bool"
  for c where
  ret: "follows c (Return out) [] out"
| get: "denotes c k v \<Longrightarrow> follows c (f v) ks out \<Longrightarrow> follows c (Get k f) (k # ks) out"

inductive_cases follows_Return: "follows c (Return out) ks o'"
inductive_cases follows_Get: "follows c (Get k f) ks out"
inductive_cases follows_Nil: "follows c body [] out"
inductive_cases follows_Cons: "follows c body (k # ks) out"

lemma scratch_follows:
  "scratch_with (scratch c n) body = Some out \<Longrightarrow> \<exists>ks. follows c body ks out"
proof (induction body)
  case (Get k f)
  then obtain v where "scratch c n k = Some v" "scratch_with (scratch c n) (f v) = Some out"
    by (auto simp: bind_eq_Some_conv)
  then show ?case using Get.IH [OF rangeI] by (fastforce simp: denotes_def intro: follows.get)
qed (auto intro: follows.ret)

lemma follows_scratch: "follows c body ks out \<Longrightarrow> \<exists>n. scratch_with (scratch c n) body = Some out"
proof (induction rule: follows.induct)
  case (get k v f ks out)
  then obtain n m where nm: "scratch c n k = Some v" "scratch_with (scratch c m) (f v) = Some out" by (auto simp: denotes_def)
  have "scratch_with (scratch c (max n m)) (f v) = Some out"
    by (rule scratch_with_mono [OF _ nm(2)]) (rule scratch_mono [of m], simp_all)
  moreover have "scratch c (max n m) k = Some v" using scratch_mono [of n "max n m"] nm(1) by auto
  ultimately have "scratch_with (scratch c (max n m)) (Get k f) = Some out" by simp
  then show ?case by blast
qed simp

lemma follows_denotes: "follows c (c k) ks out \<Longrightarrow> denotes c k out"
  using follows_scratch [of c "c k" ks out] unfolding denotes_def by (metis scratch.simps(2))

section \<open>What the graph knows\<close>

text \<open>
  One evaluation, with the computations of every version so far: it is what the key denotes at the version it was
  last verified at, along its dependencies, and a dependency that has not changed since it was read denotes at
  that version what it holds.
\<close>

definition evaluated_ok ::
  "(nat \<Rightarrow> 'k \<Rightarrow> ('k, 'v) computation) \<Rightarrow> ('k, 'v) engine \<Rightarrow> 'k \<Rightarrow> ('k, 'v) evaluated \<Rightarrow> bool" where
  "evaluated_ok H s k e \<longleftrightarrow> changed_at e \<le> verified_at e \<and> verified_at e \<le> version s
     \<and> follows (H (verified_at e)) (H (verified_at e) k) (map fst (deps e)) (outcome e)
     \<and> (\<forall>d obs. (d, obs) \<in> set (deps e) \<longrightarrow> (\<exists>ed. done_at d s = Some ed \<and> obs \<le> verified_at ed
          \<and> (changed_at ed \<le> obs \<longrightarrow> denotes (H (verified_at e)) d (outcome ed))))"

text \<open>The whole graph; the keys of the chain are being brought up to date.\<close>

definition engine_ok ::
  "(nat \<Rightarrow> 'k \<Rightarrow> ('k, 'v) computation) \<Rightarrow> 'k list \<Rightarrow> ('k, 'v) engine \<Rightarrow> bool" where
  "engine_ok H chain s \<longleftrightarrow> (\<forall>k e. done_at k s = Some e \<longrightarrow> evaluated_ok H s k e
     \<and> (k \<notin> dirty s \<longrightarrow> k \<notin> set chain \<longrightarrow> H (version s) k = H (verified_at e) k)
     \<and> (k \<in> dirty s \<longrightarrow> verified_at e < version s))"

lemma engine_okD:
  assumes "engine_ok H chain s" "done_at k s = Some e"
  shows "evaluated_ok H s k e" "k \<notin> dirty s \<Longrightarrow> k \<notin> set chain \<Longrightarrow> H (version s) k = H (verified_at e) k"
    "k \<in> dirty s \<Longrightarrow> verified_at e < version s"
  using assms unfolding engine_ok_def by blast+

lemma evaluated_dep:
  "evaluated_ok H s k e \<Longrightarrow> (d, obs) \<in> set (deps e) \<Longrightarrow> done_at d s = Some ed \<Longrightarrow>
     obs \<le> verified_at ed \<and> (changed_at ed \<le> obs \<longrightarrow> denotes (H (verified_at e)) d (outcome ed))"
  unfolding evaluated_ok_def by (metis option.inject)

text \<open>
  What a request leaves as it is: the version, what is up to date, and the nodes of the chain. It only
  cleans dirty nodes.
\<close>

definition kept :: "'k list \<Rightarrow> ('k, 'v) engine \<Rightarrow> ('k, 'v) engine \<Rightarrow> bool" where
  "kept chain s s' \<longleftrightarrow> version s' = version s \<and> dirty s' \<subseteq> dirty s
     \<and> (\<forall>k e. done_at k s = Some e \<longrightarrow> verified_at e = version s \<longrightarrow> done_at k s' = Some e)
     \<and> (\<forall>k. k \<in> set chain \<longrightarrow> done_at k s' = done_at k s)"

lemma kept_refl [simp]: "kept chain s s"
  by (simp add: kept_def)

lemma kept_trans: "kept chain s t \<Longrightarrow> kept chain t u \<Longrightarrow> kept chain s u"
  unfolding kept_def by (metis (no_types, lifting) order_trans)

lemma kept_version: "kept chain s t \<Longrightarrow> version t = version s"
  by (simp add: kept_def)

text \<open>A dependency that is up to date.\<close>

definition current :: "(nat \<Rightarrow> 'k \<Rightarrow> ('k, 'v) computation) \<Rightarrow> ('k, 'v) engine \<Rightarrow> 'k \<Rightarrow> ('k, 'v) evaluated \<Rightarrow> bool" where
  "current H s d ed \<longleftrightarrow> done_at d s = Some ed \<and> verified_at ed = version s \<and> denotes (H (version s)) d (outcome ed)"

lemma current_kept: "kept chain s t \<Longrightarrow> current H s d ed \<Longrightarrow> current H t d ed"
  by (simp add: kept_def current_def)

text \<open>What \<open>evaluate\<close> promises for the keys that can be worked out with less than \<open>n\<close>, with \<open>n\<close> of fuel.\<close>

definition evaluator_ok :: "(nat \<Rightarrow> 'k \<Rightarrow> ('k, 'v) computation) \<Rightarrow> nat \<Rightarrow> 'k list \<Rightarrow> nat \<Rightarrow> ('k, 'v) evaluator \<Rightarrow> bool" where
  "evaluator_ok H V chain n ev \<longleftrightarrow> (\<forall>k out s. scratch (H V) n k = Some out \<longrightarrow> engine_ok H chain s \<longrightarrow> version s = V \<longrightarrow>
     (\<exists>e s'. ev chain k s = Some (Inr e, s') \<and> current H s' k e \<and> outcome e = out \<and> engine_ok H chain s' \<and> kept chain s s'))"

lemma evaluator_okD:
  assumes "evaluator_ok H V chain n ev" "scratch (H V) n k = Some out" "engine_ok H chain s" "version s = V"
  obtains e s' where "ev chain k s = Some (Inr e, s')" "current H s' k e" "outcome e = out" "engine_ok H chain s'" "kept chain s s'"
  using assms unfolding evaluator_ok_def by blast

lemma done_node [simp]: "done_at k (node j s) = done_at k s" "version (node j s) = version s" "dirty (node j s) = dirty s"
  by (auto simp: done_at_def node_def split: option.splits)

lemma engine_ok_cong:
  assumes "\<And>k. done_at k s = done_at k t" "version s = version t" "dirty s = dirty t"
  shows "engine_ok H chain s \<longleftrightarrow> engine_ok H chain t"
  unfolding engine_ok_def evaluated_ok_def using assms by simp

lemma node_ok [simp]: "engine_ok H chain (node j s) \<longleftrightarrow> engine_ok H chain s"
  by (rule engine_ok_cong) simp_all

lemma node_kept: "kept chain (node j s) t \<longleftrightarrow> kept chain s t"
  by (simp add: kept_def)

section \<open>Computing and verifying\<close>

text \<open>The dependencies that a computation has read.\<close>

definition deps_current ::
  "(nat \<Rightarrow> 'k \<Rightarrow> ('k, 'v) computation) \<Rightarrow> ('k, 'v) engine \<Rightarrow> ('k \<times> nat) list \<Rightarrow> bool" where
  "deps_current H s ds \<longleftrightarrow> (\<forall>d obs. (d, obs) \<in> set ds \<longrightarrow> (\<exists>ed. current H s d ed \<and> changed_at ed \<le> obs \<and> obs \<le> version s))"

lemma deps_current_kept: "kept chain s t \<Longrightarrow> deps_current H s ds \<Longrightarrow> deps_current H t ds"
  unfolding deps_current_def by (metis current_kept kept_version)

lemma compute_with_ok:
  assumes ev: "evaluator_ok H V chain n ev" and chain: "\<And>t. t \<in> set chain \<Longrightarrow> scratch (H V) n t = None"
    and "scratch_with (scratch (H V) n) body = Some out" "engine_ok H chain s" "version s = V" "deps_current H s ds"
  shows "\<exists>ds' s'. compute_with ev chain body ds s = Some (out, ds @ ds', s') \<and> follows (H V) body (map fst ds') out
    \<and> engine_ok H chain s' \<and> kept chain s s' \<and> deps_current H s' (ds @ ds')"
  using assms(3-6)
proof (induction body arbitrary: ds s)
  case (Return out')
  then show ?case by (auto intro: follows.ret)
next
  case (Get k f)
  then obtain v where v: "scratch (H V) n k = Some v" "scratch_with (scratch (H V) n) (f v) = Some out"
    by (auto simp: bind_eq_Some_conv)
  have k: "k \<notin> set chain" using chain v(1) by auto
  obtain e s1 where e: "ev chain k (node k s) = Some (Inr e, s1)" "current H s1 k e" "outcome e = v"
    "engine_ok H chain s1" "kept chain s s1"
    using evaluator_okD [OF ev v(1), of "node k s"] Get.prems by (auto simp: node_kept)
  have V: "version s1 = V" using kept_version [OF e(5)] Get.prems by simp
  have le: "changed_at e \<le> version s1"
    using engine_okD(1) [OF e(4)] e(2) by (fastforce simp: current_def evaluated_ok_def)
  have "deps_current H s1 (ds @ [(k, changed_at e)])"
    using deps_current_kept [OF e(5) Get.prems(4)] e(2) le by (auto simp: deps_current_def)
  then obtain ds' s2 where r: "compute_with ev chain (f v) (ds @ [(k, changed_at e)]) s1 = Some (out, (ds @ [(k, changed_at e)]) @ ds', s2)"
    "follows (H V) (f v) (map fst ds') out" "engine_ok H chain s2" "kept chain s1 s2"
    "deps_current H s2 ((ds @ [(k, changed_at e)]) @ ds')"
    using Get.IH [OF rangeI v(2) e(4) V] by metis
  have "denotes (H V) k v" using v(1) by (auto simp: denotes_def)
  then show ?case using r e(1,3,5) k kept_trans [OF e(5) r(4)]
    by (intro exI [of _ "(k, changed_at e) # ds'"] exI [of _ s2]) (auto intro: follows.get)
qed

lemma verify_ok:
  assumes ev: "evaluator_ok H V chain n ev" and chain: "\<And>t. t \<in> set chain \<Longrightarrow> scratch (H V) n t = None"
    and k: "k \<in> set chain"
    and "scratch_with (scratch (H V) n) body = Some out" "follows (H (verified_at e)) body (map fst ds) (outcome e)"
    "set ds \<subseteq> set (deps e)" "done_at k s = Some e" "engine_ok H chain s" "version s = V"
  shows "\<exists>b s'. verify ev chain ds s = Some (Inr b, s') \<and> engine_ok H chain s' \<and> kept chain s s'
    \<and> (b \<longrightarrow> outcome e = out \<and> follows (H V) body (map fst ds) out \<and> deps_current H s' ds)"
  using assms(4-9)
proof (induction ds arbitrary: body s)
  case Nil
  then have "body = Return (outcome e)" by (auto elim: follows_Nil)
  then show ?case using Nil by (auto simp: deps_current_def intro: follows.ret)
next
  case (Cons dep ds)
  obtain d obs where dep: "dep = (d, obs)" by (cases dep)
  obtain v f where body: "body = Get d f" and v: "denotes (H (verified_at e)) d v"
    "follows (H (verified_at e)) (f v) (map fst ds) (outcome e)"
    using Cons.prems(2) dep by (auto elim: follows_Cons)
  obtain w where w: "scratch (H V) n d = Some w" "scratch_with (scratch (H V) n) (f w) = Some out"
    using Cons.prems(1) body by (auto simp: bind_eq_Some_conv)
  have d: "d \<notin> set chain" using chain w(1) by auto
  obtain ed s1 where ed: "ev chain d s = Some (Inr ed, s1)" "current H s1 d ed" "outcome ed = w"
    "engine_ok H chain s1" "kept chain s s1"
    using evaluator_okD [OF ev w(1) Cons.prems(5,6)] by metis
  have V: "version s1 = V" using kept_version [OF ed(5)] Cons.prems(6) by simp
  have same: "done_at k s1 = Some e" using ed(5) k Cons.prems(4) by (simp add: kept_def)
  show ?case
  proof (cases "changed_at ed \<le> obs")
    case False
    then show ?thesis using ed d dep by auto
  next
    case True
    have "(d, obs) \<in> set (deps e)" "done_at d s1 = Some ed" using Cons.prems(3) dep ed(2) by (auto simp: current_def)
    from evaluated_dep [OF engine_okD(1) [OF ed(4) same] this]
    have dw: "denotes (H (verified_at e)) d w" and obs: "obs \<le> verified_at ed" using True ed(3) by blast+
    have vw: "v = w" by (rule denotes_unique [OF v(1) dw])
    have sub: "set ds \<subseteq> set (deps e)" using Cons.prems(3) by simp
    obtain b s2 where r: "verify ev chain ds s1 = Some (Inr b, s2)" "engine_ok H chain s2" "kept chain s1 s2"
      "b \<longrightarrow> outcome e = out \<and> follows (H V) (f w) (map fst ds) out \<and> deps_current H s2 ds"
      using Cons.IH [OF w(2) v(2) [unfolded vw] sub same ed(4) V] by blast
    have "denotes (H V) d w" using w(1) by (auto simp: denotes_def)
    moreover have "obs \<le> version s2" using obs ed(2) kept_version [OF r(3)] by (simp add: current_def)
    ultimately show ?thesis using r True ed d dep body kept_trans [OF ed(5) r(3)] current_kept [OF r(3) ed(2)]
      by (auto simp: deps_current_def intro: follows.get)
  qed
qed

section \<open>Storing an evaluation\<close>

lemma done_store: "done_at j (s\<lparr>nodes := (nodes s)(k \<mapsto> Some e)\<rparr>) = (if j = k then Some e else done_at j s)"
  by (simp add: done_at_def)

text \<open>A new evaluation of \<open>k\<close> that may be stored.\<close>

definition storable ::
  "(nat \<Rightarrow> 'k \<Rightarrow> ('k, 'v) computation) \<Rightarrow> ('k, 'v) engine \<Rightarrow> 'k \<Rightarrow> ('k, 'v) evaluated \<Rightarrow> bool" where
  "storable H s k e \<longleftrightarrow> verified_at e = version s \<and> changed_at e \<le> version s
     \<and> follows (H (version s)) (H (version s) k) (map fst (deps e)) (outcome e) \<and> deps_current H s (deps e)
     \<and> (\<forall>p. done_at k s = Some p \<longrightarrow> verified_at p < version s
          \<and> (changed_at e = changed_at p \<and> outcome e = outcome p \<or> changed_at e = version s))"

lemma store_self:
  assumes "storable H s k e"
  shows "evaluated_ok H (s\<lparr>nodes := (nodes s)(k \<mapsto> Some e)\<rparr>) k e"
    and "current H (s\<lparr>nodes := (nodes s)(k \<mapsto> Some e)\<rparr>) k e"
proof -
  have v: "verified_at e = version s" "changed_at e \<le> version s"
    "follows (H (version s)) (H (version s) k) (map fst (deps e)) (outcome e)" "deps_current H s (deps e)"
    using assms by (auto simp: storable_def)
  have "\<exists>ed. done_at d (s\<lparr>nodes := (nodes s)(k \<mapsto> Some e)\<rparr>) = Some ed \<and> obs \<le> verified_at ed \<and> denotes (H (version s)) d (outcome ed)"
    if d: "(d, obs) \<in> set (deps e)" for d obs
  proof -
    obtain ed where ed: "current H s d ed" "obs \<le> version s" using v(4) d by (auto simp: deps_current_def)
    then have "d \<noteq> k" using assms by (auto simp: storable_def current_def)
    then show ?thesis using ed by (simp add: done_store current_def)
  qed
  then show "evaluated_ok H (s\<lparr>nodes := (nodes s)(k \<mapsto> Some e)\<rparr>) k e"
    unfolding evaluated_ok_def using v by (fastforce simp: done_store)
  show "current H (s\<lparr>nodes := (nodes s)(k \<mapsto> Some e)\<rparr>) k e"
    using v follows_denotes [OF v(3)] by (simp add: current_def done_store)
qed

lemma store_other:
  assumes "storable H s k e" "evaluated_ok H s j ej"
  shows "evaluated_ok H (s\<lparr>nodes := (nodes s)(k \<mapsto> Some e)\<rparr>) j ej"
proof -
  have "\<exists>ed. done_at d (s\<lparr>nodes := (nodes s)(k \<mapsto> Some e)\<rparr>) = Some ed \<and> obs \<le> verified_at ed
      \<and> (changed_at ed \<le> obs \<longrightarrow> denotes (H (verified_at ej)) d (outcome ed))"
    if d: "(d, obs) \<in> set (deps ej)" for d obs
  proof -
    obtain p where p: "done_at d s = Some p" "obs \<le> verified_at p" "changed_at p \<le> obs \<longrightarrow> denotes (H (verified_at ej)) d (outcome p)"
      using assms(2) d unfolding evaluated_ok_def by blast
    show ?thesis
    proof (cases "d = k")
      case True
      then have "verified_at p < version s" "changed_at e = changed_at p \<and> outcome e = outcome p \<or> changed_at e = version s"
        "verified_at e = version s" using assms(1) p(1) by (auto simp: storable_def)
      then show ?thesis using True p by (auto simp: done_store)
    qed (use p in \<open>simp add: done_store\<close>)
  qed
  then show ?thesis using assms(2) unfolding evaluated_ok_def by simp
qed

lemma store_ok:
  assumes "engine_ok H (chain @ [k]) s" "storable H s k e" "k \<notin> dirty s"
  shows "engine_ok H chain (s\<lparr>nodes := (nodes s)(k \<mapsto> Some e)\<rparr>)"
proof -
  have "verified_at e = version s" using assms(2) by (simp add: storable_def)
  then show ?thesis
    using store_self(1) [OF assms(2)] store_other [OF assms(2)] engine_okD [OF assms(1)] assms(3)
    unfolding engine_ok_def by (auto simp: done_store)
qed

lemma store_kept:
  assumes "kept (chain @ [k]) s0 s" "storable H s k e" "k \<notin> set chain"
  shows "kept chain s0 (s\<lparr>nodes := (nodes s)(k \<mapsto> Some e)\<rparr>)"
proof -
  have "done_at k s = done_at k s0" "version s = version s0" using assms(1) by (simp_all add: kept_def)
  then have "j \<noteq> k" if "done_at j s0 = Some ej" "verified_at ej = version s0" for j ej
    using assms(2) that by (auto simp: storable_def)
  then show ?thesis using assms(1,3) unfolding kept_def by (auto simp: done_store)
qed

section \<open>Evaluating a node\<close>

lemma recompute_ok:
  assumes ev: "evaluator_ok H V (chain @ [k]) n ev" and chain: "\<And>t. t \<in> set (chain @ [k]) \<Longrightarrow> scratch (H V) n t = None"
    and body: "scratch_with (scratch (H V) n) (H V k) = Some out"
    and s: "engine_ok H (chain @ [k]) s" "version s = V" "k \<notin> dirty s" "k \<notin> set chain"
    and prev: "\<And>p. done_at k s = Some p \<Longrightarrow> verified_at p < V"
  shows "\<exists>e s'. recompute ev (chain @ [k]) k (H V k) (done_at k s) s = Some (Inr e, s') \<and> current H s' k e \<and> outcome e = out
    \<and> engine_ok H chain s' \<and> kept chain s s'"
proof -
  have "deps_current H s []" by (simp add: deps_current_def)
  from compute_with_ok [OF ev chain body s(1,2) this]
  obtain ds s1 where c: "compute_with ev (chain @ [k]) (H V k) [] s = Some (out, ds, s1)"
    "follows (H V) (H V k) (map fst ds) out" "engine_ok H (chain @ [k]) s1" "kept (chain @ [k]) s s1" "deps_current H s1 ds"
    by auto
  have same: "version s1 = V" "done_at k s1 = done_at k s" "k \<notin> dirty s1" using c(4) s by (auto simp: kept_def)
  define e where "e = \<lparr>outcome = out,
      changed_at = (case done_at k s of Some p \<Rightarrow> if outcome p = out then changed_at p else V | None \<Rightarrow> V),
      verified_at = V, deps = ds\<rparr>"
  have le: "changed_at p \<le> verified_at p" if "done_at k s = Some p" for p
    using engine_okD(1) [OF s(1) that] by (simp add: evaluated_ok_def)
  have "changed_at p \<le> V" if "done_at k s = Some p" for p using le [OF that] prev [OF that] by simp
  then have st: "storable H s1 k e" using c(2,5) same prev by (auto simp: storable_def e_def split: option.splits)
  have "recompute ev (chain @ [k]) k (H V k) (done_at k s) s = Some (Inr e, s1\<lparr>nodes := (nodes s1)(k \<mapsto> Some e)\<rparr>)"
    unfolding recompute_def c(1) finish_def e_def s(2) by simp
  moreover have "outcome e = out" by (simp add: e_def)
  ultimately show ?thesis using store_ok [OF c(3) st same(3)] store_self(2) [OF st] store_kept [OF c(4) st s(4)] by blast
qed

lemma run_node_ok:
  assumes ev: "evaluator_ok H V (chain @ [k]) n ev" and chain: "\<And>t. t \<in> set (chain @ [k]) \<Longrightarrow> scratch (H V) n t = None"
    and body: "scratch_with (scratch (H V) n) (H V k) = Some out"
    and s: "engine_ok H (chain @ [k]) s" "version s = V" "k \<notin> dirty s" "k \<notin> set chain"
    and prev: "\<And>p. done_at k s = Some p \<Longrightarrow> verified_at p < V \<and> (\<not> was_dirty \<longrightarrow> H V k = H (verified_at p) k)"
  shows "\<exists>e s'. run_node ev (chain @ [k]) k (H V k) (done_at k s) was_dirty s = Some (Inr e, s') \<and> current H s' k e \<and> outcome e = out
    \<and> engine_ok H chain s' \<and> kept chain s s'"
proof (cases "done_at k s = None \<or> was_dirty")
  case True
  then have "run_node ev (chain @ [k]) k (H V k) (done_at k s) was_dirty s = recompute ev (chain @ [k]) k (H V k) (done_at k s) s"
    by (auto simp: run_node_def split: option.splits)
  then show ?thesis using recompute_ok [OF ev chain body s] prev by simp
next
  case False
  then obtain p where p: "done_at k s = Some p" "\<not> was_dirty" by auto
  have same: "H V k = H (verified_at p) k" "verified_at p < V" using prev [OF p(1)] p(2) by simp_all
  have ok: "evaluated_ok H s k p" using engine_okD(1) [OF s(1) p(1)] .
  have f: "follows (H (verified_at p)) (H V k) (map fst (deps p)) (outcome p)"
    using ok unfolding same(1) evaluated_ok_def by blast
  obtain b s1 where v: "verify ev (chain @ [k]) (deps p) s = Some (Inr b, s1)" "engine_ok H (chain @ [k]) s1"
    "kept (chain @ [k]) s s1" "b \<longrightarrow> outcome p = out \<and> follows (H V) (H V k) (map fst (deps p)) out \<and> deps_current H s1 (deps p)"
    using verify_ok [OF ev chain _ body f _ p(1) s(1,2)] by auto
  have s1: "version s1 = V" "done_at k s1 = Some p" "k \<notin> dirty s1" using v(3) s p(1) by (auto simp: kept_def)
  show ?thesis
  proof (cases b)
    case True
    let ?e = "p\<lparr>verified_at := V\<rparr>"
    have "changed_at p \<le> V" using ok same(2) by (simp add: evaluated_ok_def)
    then have st: "storable H s1 k ?e" using v(4) True s1 same(2) by (simp add: storable_def)
    have "run_node ev (chain @ [k]) k (H V k) (done_at k s) was_dirty s = Some (Inr ?e, s1\<lparr>nodes := (nodes s1)(k \<mapsto> Some ?e)\<rparr>)"
      using p v(1) True s(2) by (simp add: run_node_def finish_def)
    moreover have "outcome ?e = out" using v(4) True by simp
    ultimately show ?thesis
      using store_ok [OF v(2) st s1(3)] store_self(2) [OF st] store_kept [OF v(3) st s(4)] by blast
  next
    case False
    have "verified_at q < V" if "done_at k s1 = Some q" for q using that s1(2) same(2) by simp
    from recompute_ok [OF ev chain body v(2) s1(1,3) s(4) this]
    obtain e s2 where r: "recompute ev (chain @ [k]) k (H V k) (Some p) s1 = Some (Inr e, s2)" "current H s2 k e" "outcome e = out"
      "engine_ok H chain s2" "kept chain s1 s2" using s1(2) by auto
    have "kept chain s s1" using v(3) by (auto simp: kept_def)
    then show ?thesis using r kept_trans p v(1) False by (fastforce simp: run_node_def)
  qed
qed

lemma engine_ok_start:
  assumes "engine_ok H chain s"
  shows "engine_ok H (chain @ [k]) (s\<lparr>dirty := dirty s - {k}\<rparr>)" "kept chain s (s\<lparr>dirty := dirty s - {k}\<rparr>)"
proof -
  have d: "done_at j (s\<lparr>dirty := dirty s - {k}\<rparr>) = done_at j s" for j by (simp add: done_at_def)
  have "evaluated_ok H (s\<lparr>dirty := dirty s - {k}\<rparr>) j e \<longleftrightarrow> evaluated_ok H s j e" for j e
    by (simp add: evaluated_ok_def d)
  then show "engine_ok H (chain @ [k]) (s\<lparr>dirty := dirty s - {k}\<rparr>)"
    using assms unfolding engine_ok_def d by auto
  show "kept chain s (s\<lparr>dirty := dirty s - {k}\<rparr>)" by (auto simp: kept_def d)
qed

text \<open>The least fuel that works out a key.\<close>

lemma scratch_least:
  assumes "scratch c n k = Some out"
  obtains p where "Suc p \<le> n" "scratch_with (scratch c p) (c k) = Some out" "scratch c p k = None"
proof -
  define q where "q = (LEAST i. scratch c i k \<noteq> None)"
  have q: "scratch c q k \<noteq> None" "\<And>i. i < q \<Longrightarrow> scratch c i k = None" "q \<le> n"
    unfolding q_def using assms by (metis (mono_tags, lifting) LeastI option.distinct(1), metis (mono_tags, lifting) not_less_Least,
      metis (mono_tags, lifting) Least_le option.distinct(1))
  then obtain p where p: "q = Suc p" by (cases q) auto
  have "scratch c q k = Some out" using q(1,3) assms scratch_mono [OF q(3)] by fastforce
  then show thesis using that [of p] q p by simp
qed

lemma evaluate_ok:
  assumes "scratch (H V) n k = Some out" "\<And>t. t \<in> set chain \<Longrightarrow> scratch (H V) n t = None" "engine_ok H chain s" "version s = V" "n \<le> m"
  shows "\<exists>e s'. evaluate (H V) m chain k s = Some (Inr e, s') \<and> current H s' k e \<and> outcome e = out \<and> engine_ok H chain s' \<and> kept chain s s'"
  using assms
proof (induction n arbitrary: k out chain s m rule: less_induct)
  case (less n)
  obtain p where p: "Suc p \<le> n" "scratch_with (scratch (H V) p) (H V k) = Some out" "scratch (H V) p k = None"
    using scratch_least [OF less.prems(1)] .
  obtain q where q: "m = Suc q" "p \<le> q" using p(1) less.prems(5) by (cases m) auto
  have kc: "k \<notin> set chain" using less.prems(1,2) by auto
  have below: "scratch (H V) p t = None" if "t \<in> set (chain @ [k])" for t
    using that p(1,3) less.prems(2) scratch_mono [of p n] by (metis Suc_leD not_None_eq set_append Un_iff empty_iff insert_iff list.set)
  have ev: "evaluator_ok H V (chain @ [k]) p (evaluate (H V) q)"
    unfolding evaluator_ok_def
  proof (intro allI impI)
    fix j v t
    assume h: "scratch (H V) p j = Some v" "engine_ok H (chain @ [k]) t" "version t = V"
    show "\<exists>e s'. evaluate (H V) q (chain @ [k]) j t = Some (Inr e, s') \<and> current H s' j e \<and> outcome e = v
        \<and> engine_ok H (chain @ [k]) s' \<and> kept (chain @ [k]) t s'"
      by (rule less.IH [OF _ h(1) below h(2,3) q(2)]) (use p(1) in simp)
  qed
  let ?s = "s\<lparr>dirty := dirty s - {k}\<rparr>"
  have d: "done_at k ?s = done_at k s" by (simp add: done_at_def)
  have run: "\<exists>e s'. run_node (evaluate (H V) q) (chain @ [k]) k (H V k) (done_at k s) (k \<in> dirty s) ?s = Some (Inr e, s') \<and> current H s' k e
      \<and> outcome e = out \<and> engine_ok H chain s' \<and> kept chain s s'"
    if old: "\<And>e. done_at k s = Some e \<Longrightarrow> verified_at e < V"
  proof -
    have "verified_at e < V \<and> (\<not> k \<in> dirty s \<longrightarrow> H V k = H (verified_at e) k)" if "done_at k ?s = Some e" for e
      using old engine_okD(2) [OF less.prems(3), of k e] less.prems(4) that kc d by auto
    from run_node_ok [OF ev below p(2) engine_ok_start(1) [OF less.prems(3)] _ _ kc this] show ?thesis
      using less.prems(4) kept_trans [OF engine_ok_start(2) [OF less.prems(3)]] d by fastforce
  qed
  show ?case
  proof (cases "done_at k s")
    case None
    then show ?thesis using run q(1) by simp
  next
    case (Some e)
    show ?thesis
    proof (cases "V \<le> verified_at e \<and> k \<notin> dirty s")
      case True
      have ok: "evaluated_ok H s k e" using engine_okD(1) [OF less.prems(3) Some] .
      then have v: "verified_at e = V" using True less.prems(4) by (simp add: evaluated_ok_def)
      then have den: "denotes (H V) k (outcome e)" using ok follows_denotes by (auto simp: evaluated_ok_def)
      have "denotes (H V) k out" using less.prems(1) by (auto simp: denotes_def)
      from denotes_unique [OF den this] den show ?thesis using True Some q(1) less.prems(3,4) v by (auto simp: current_def)
    next
      case False
      then have "verified_at e' < V" if "done_at k s = Some e'" for e'
        using engine_okD(3) [OF less.prems(3) Some] Some that less.prems(4) by auto
      then show ?thesis using run Some False q(1) less.prems(4) by simp
    qed
  qed
qed

section \<open>Runs\<close>

text \<open>
  A run: what the keys compute changes when what they read from outside changes, and then every key that has been worked
  out and computes something else is invalidated; a request is for a key that does not depend on itself.
\<close>

definition invalidate_all :: "'k list \<Rightarrow> ('k, 'v) engine \<Rightarrow> ('k, 'v) engine" where
  "invalidate_all ks s = fold (\<lambda>k s. snd (invalidate k s)) ks s"

inductive engine_run :: "('k \<Rightarrow> ('k, 'v) computation) \<Rightarrow> ('k, 'v) engine \<Rightarrow> bool" where
  start: "engine_run c new_engine"
| change: "engine_run c s \<Longrightarrow> ks \<noteq> [] \<Longrightarrow>
    (\<And>k e. done_at k s = Some e \<Longrightarrow> k \<notin> dirty s \<Longrightarrow> c' k \<noteq> c k \<Longrightarrow> k \<in> set ks) \<Longrightarrow> engine_run c' (invalidate_all ks s)"
| request: "engine_run c s \<Longrightarrow> scratch c n k = Some out \<Longrightarrow> engine_get c n k s = Some (res, s') \<Longrightarrow> engine_run c s'"

lemma invalidate_all_state:
  "version (invalidate_all ks s) = version s + length ks \<and> (\<forall>k. done_at k (invalidate_all ks s) = done_at k s)
     \<and> dirty s \<subseteq> dirty (invalidate_all ks s) \<and> dirty (invalidate_all ks s) \<subseteq> dirty s \<union> set ks
     \<and> (\<forall>k e. k \<in> set ks \<longrightarrow> done_at k s = Some e \<longrightarrow> k \<in> dirty (invalidate_all ks s))"
proof (induction ks arbitrary: s)
  case (Cons k ks)
  let ?t = "snd (invalidate k s)"
  have t: "version ?t = Suc (version s)" "\<And>j. done_at j ?t = done_at j s" "dirty s \<subseteq> dirty ?t" "dirty ?t \<subseteq> insert k (dirty s)"
    "\<And>e. done_at k s = Some e \<Longrightarrow> k \<in> dirty ?t"
    by (auto simp: invalidate_def next_version_def done_at_def Let_def split: option.splits)
  have all: "invalidate_all (k # ks) s = invalidate_all ks ?t" by (simp add: invalidate_all_def)
  show ?case unfolding all using Cons.IH [of ?t] t by auto
qed (simp add: invalidate_all_def)

lemma change_ok:
  assumes "engine_ok H [] s" "ks \<noteq> []"
    and inv: "\<And>k e. done_at k s = Some e \<Longrightarrow> k \<notin> dirty s \<Longrightarrow> c' k \<noteq> H (version s) k \<Longrightarrow> k \<in> set ks"
  shows "engine_ok (\<lambda>u. if u \<le> version s then H u else c') [] (invalidate_all ks s)"
proof -
  let ?s = "invalidate_all ks s" and ?H = "\<lambda>u. if u \<le> version s then H u else c'"
  note st = invalidate_all_state [of ks s]
  have new: "version s < version ?s" using st assms(2) by simp
  show ?thesis unfolding engine_ok_def
  proof (intro allI impI conjI)
    fix k e
    assume "done_at k ?s = Some e"
    then have e: "done_at k s = Some e" using st by simp
    note old = engine_okD [OF assms(1) e]
    have v: "verified_at e \<le> version s" using old(1) by (simp add: evaluated_ok_def)
    show "evaluated_ok ?H ?s k e" using old(1) st new v unfolding evaluated_ok_def by simp
    show "verified_at e < version ?s" using v new by simp
    assume k: "k \<notin> dirty ?s" "k \<notin> set []"
    then have "k \<notin> dirty s" "k \<notin> set ks" using st e by auto
    then have "c' k = H (version s) k" using inv [OF e] by blast
    then show "?H (version ?s) k = ?H (verified_at e) k" using old(2) [OF \<open>k \<notin> dirty s\<close>] v new by simp
  qed
qed

lemma get_ok:
  assumes "engine_ok H [] s" "scratch (H (version s)) n k = Some out" "n \<le> m"
  shows "\<exists>s'. engine_get (H (version s)) m k s = Some (out, s') \<and> engine_ok H [] s' \<and> version s' = version s"
proof -
  obtain e s' where "evaluate (H (version s)) m [] k (node k s) = Some (Inr e, s')" "outcome e = out" "engine_ok H [] s'"
    "kept [] (node k s) s'"
    using evaluate_ok [of H "version s" n k out "[]" "node k s" m] assms by auto
  then show ?thesis by (auto simp: engine_get_def kept_def)
qed

lemma run_ok: "engine_run c s \<Longrightarrow> \<exists>H. engine_ok H [] s \<and> H (version s) = c"
proof (induction rule: engine_run.induct)
  case (start c)
  have "engine_ok (\<lambda>_. c) [] new_engine" by (simp add: engine_ok_def done_at_def new_engine_def)
  then show ?case by blast
next
  case (change c s ks c')
  then obtain H where H: "engine_ok H [] s" "H (version s) = c" by blast
  have "engine_ok (\<lambda>u. if u \<le> version s then H u else c') [] (invalidate_all ks s)"
    using change(2,3) H by (intro change_ok) auto
  moreover have "version s < version (invalidate_all ks s)" using invalidate_all_state [of ks s] change(2) by simp
  ultimately show ?case by (intro exI [of _ "\<lambda>u. if u \<le> version s then H u else c'"]) simp
next
  case (request c s n k out res s')
  then obtain H where H: "engine_ok H [] s" "H (version s) = c" by blast
  from get_ok [OF H(1), of n k out n] request(2,3) H(2) show ?case by auto
qed

section \<open>Properties\<close>


text \<open>Key 0 is an input, key 1 reads it; the input changes from 5 to 6.\<close>

fun example_keys :: "nat \<Rightarrow> nat \<Rightarrow> (nat, nat) computation" where
  "example_keys input k = (if k = 0 then Return (Value input) else Get 0 (\<lambda>out. Return out))"

lemma example_denotes: "denotes (example_keys i) 1 (Value i)"
  unfolding denotes_def by (rule exI [of _ "Suc (Suc 0)"]) simp

definition example_engine :: "(nat, nat) engine" where
  "example_engine = invalidate_all [0] (snd (the (engine_get (example_keys 5) 2 1 new_engine)))"

lemma example_engine_run: "engine_run (example_keys 6) example_engine"
proof -
  have "map_option fst (engine_get (example_keys 5) 2 1 new_engine) = Some (Value 5)" by code_simp
  then have g: "engine_get (example_keys 5) 2 1 new_engine =
      Some (Value 5, snd (the (engine_get (example_keys 5) 2 1 new_engine)))" by auto
  have "scratch (example_keys 5) 2 1 = Some (Value 5)" by code_simp
  from engine_run.request [OF engine_run.start this g]
  have "engine_run (example_keys 5) (snd (the (engine_get (example_keys 5) 2 1 new_engine)))" .
  then show ?thesis unfolding example_engine_def by (rule engine_run.change) (auto split: if_splits)
qed


text \<open>Keys that read each other, until key 0 no longer does.\<close>

fun cyclic_keys :: "bool \<Rightarrow> nat \<Rightarrow> (nat, nat) computation" where
  "cyclic_keys cyclic k =
     (if k = 0 then if cyclic then Get 1 (\<lambda>out. Return out) else Return (Value 5) else Get 0 (\<lambda>out. Return out))"

definition cyclic_engine :: "(nat, nat) engine" where
  "cyclic_engine = invalidate_all [0] (snd (the (engine_get (cyclic_keys True) 2 0 new_engine)))"

text \<open>
  C25. The error of a cycle outlives the cycle. Keys 0 and 1 read each other; key 0 is asked for, so key 1 is refused
  its read of key 0, and its error is remembered with no dependency. When key 0 no longer reads key 1 and is
  invalidated, a request for key 1 still gives the error of the cycle, with any fuel, while evaluation from scratch gives
  a value.
\<close>

theorem cycle_error_sticks:
  "(\<exists>s'. engine_get (cyclic_keys False) (Suc m) 1 cyclic_engine = Some (CycleOf [1, 0, 1], s'))
   \<and> denotes (cyclic_keys False) 1 (Value 5)"
proof
  have "done_at 1 cyclic_engine = Some \<lparr>outcome = CycleOf [1, 0, 1], changed_at = 0, verified_at = 0, deps = []\<rparr>"
    and "version cyclic_engine = 1" "nodes cyclic_engine 1 \<noteq> None" by code_simp+
  moreover have "1 \<notin> dirty cyclic_engine" by code_simp
  ultimately show "\<exists>s'. engine_get (cyclic_keys False) (Suc m) 1 cyclic_engine = Some (CycleOf [1, 0, 1], s')"
    by (simp add: engine_get_def run_node_def finish_def)
  show "denotes (cyclic_keys False) 1 (Value 5)"
    unfolding denotes_def by (rule exI [of _ "Suc (Suc 0)"]) simp
qed

section \<open>The chain and the wait graph\<close>

text \<open>With one request at a time each computation in progress waits on the next one of the chain.\<close>

definition chain_waits :: "node_id list \<Rightarrow> wait_map" where
  "chain_waits chain a =
     (case position a chain of Some i \<Rightarrow> if Suc i < length chain then [chain ! Suc i] else [] | None \<Rightarrow> [])"

lemma position_nth: "distinct xs \<Longrightarrow> i < length xs \<Longrightarrow> position (xs ! i) xs = Some i"
proof (induction xs arbitrary: i)
  case (Cons x xs)
  then show ?case by (cases i) auto
qed simp

lemma position_None: "position x xs = None \<longleftrightarrow> x \<notin> set xs"
  by (induction xs) auto

text \<open>Then \<open>wait_on\<close> refuses exactly the nodes of the chain, which is the test of the model.\<close>

lemma chain_reach:
  assumes "distinct chain" "chain \<noteq> []"
  shows "(waits_on (chain_waits chain))\<^sup>*\<^sup>* to (last chain) \<longleftrightarrow> to \<in> set chain"
proof
  assume "to \<in> set chain"
  then obtain i where i: "i < length chain" "to = chain ! i" by (auto simp: in_set_conv_nth)
  have "(waits_on (chain_waits chain))\<^sup>*\<^sup>* (chain ! i) (last chain)" if "i < length chain" for i
    using that
  proof (induction "length chain - i" arbitrary: i)
    case (Suc n)
    show ?case
    proof (cases "Suc i < length chain")
      case True
      then have "waits_on (chain_waits chain) (chain ! i) (chain ! Suc i)"
        using position_nth [OF assms(1), of i] by (simp add: waits_on_def chain_waits_def)
      moreover have "(waits_on (chain_waits chain))\<^sup>*\<^sup>* (chain ! Suc i) (last chain)"
        using Suc.hyps(1) [of "Suc i"] Suc.hyps(2) True by simp
      ultimately show ?thesis by (rule converse_rtranclp_into_rtranclp)
    next
      case False
      then have "i = length chain - 1" using Suc.prems by simp
      then show ?thesis using assms(2) by (simp add: last_conv_nth)
    qed
  qed simp
  then show "(waits_on (chain_waits chain))\<^sup>*\<^sup>* to (last chain)" using i by simp
next
  assume "(waits_on (chain_waits chain))\<^sup>*\<^sup>* to (last chain)"
  then show "to \<in> set chain"
  proof (cases rule: converse_rtranclpE)
    case (step y)
    then show ?thesis using position_None [of to chain] by (auto simp: waits_on_def chain_waits_def split: option.splits)
  qed (use assms(2) in auto)
qed

lemma chain_wait_on:
  assumes "distinct chain" "chain \<noteq> []"
  shows "\<exists>res waits'. wait_on key_text (Some (last chain)) to (chain_waits chain) = Some (res, waits') \<and> (is_ok res \<longleftrightarrow> to \<notin> set chain)"
proof -
  have "chain_waits chain a = []" if "a \<notin> set chain" for a
    using that position_None [of a chain] by (simp add: chain_waits_def)
  then have "{a. chain_waits chain a \<noteq> []} \<subseteq> set chain" by blast
  then have "few_waits (chain_waits chain)" unfolding few_waits_def by (rule finite_subset) simp
  then obtain found path seen where r: "reaches (chain_waits chain) to (last chain) [to] [to] = Some (found, path, seen)"
    "found \<longleftrightarrow> to \<in> set chain"
    using reaches_exact [of "chain_waits chain" to "last chain"] unfolding chain_reach [OF assms] by metis
  have "to = last chain \<Longrightarrow> found" using r(2) assms(2) by simp
  then show ?thesis using r by (cases found) (auto simp: wait_on_def is_ok_def)
qed

end
