(* ===== verification/Query_Ast.thy ===== *)
theory Query_Ast
  imports Rust_Str
begin

text \<open>
  The syntax of query expressions (\<open>crates/fjfj-query/src/ast.rs\<close>): the expressions, the functions each
  command's dialect has with the shape of their arguments, and how an expression is printed.
\<close>

section \<open>Expressions\<close>

datatype op = Op_Union | Op_Intersect | Op_Except

datatype func =
    Fn_AllPaths | Fn_AllRDeps | Fn_Attr | Fn_BuildFiles | Fn_Config | Fn_Deps | Fn_Executables | Fn_Filter
  | Fn_Inputs | Fn_Kind | Fn_Labels | Fn_LoadFiles | Fn_Mnemonic | Fn_Outputs | Fn_RBuildFiles | Fn_RDeps
  | Fn_SamePkgDirectRDeps | Fn_Siblings | Fn_Some | Fn_SomePath | Fn_Tests | Fn_Visible

text \<open>
  A call holds expressions and an expression may be a call; the type of the expressions is a parameter
  of the two types below, so that a function on expressions recurs through the map of the type.
\<close>

datatype 'e arg = Arg_Expr 'e | Arg_Word string | Arg_Int i64

datatype 'e call = Call (call_function: func) (call_args: "'e arg list")

datatype expr =
    Expr_Word string
  | Expr_Variable string
  | Expr_Set "string list"
  | Expr_Binary op expr expr
  | Expr_Let string expr expr
  | Expr_Call "expr call"

datatype dialect = Dialect_Query | Dialect_Sky | Dialect_Cquery | Dialect_Aquery

datatype arg_kind = Kind_Expr | Kind_Word | Kind_Int

text \<open>\<open>collect_patterns\<close>, which appends to a vector; \<open>patterns\<close> starts it with the empty one.\<close>

definition call_patterns :: "string list call \<Rightarrow> string list" where
  "call_patterns c = concat (map (\<lambda>a. case a of Arg_Expr ps \<Rightarrow> ps | _ \<Rightarrow> []) (call_args c))"

primrec patterns :: "expr \<Rightarrow> string list" where
  "patterns (Expr_Word w) = [w]"
| "patterns (Expr_Variable v) = []"
| "patterns (Expr_Set ws) = ws"
| "patterns (Expr_Binary op l r) = patterns l @ patterns r"
| "patterns (Expr_Let n value body) = patterns value @ patterns body"
| "patterns (Expr_Call c) = call_patterns (map_call patterns c)"

section \<open>Functions\<close>

definition ALL_FUNCTIONS :: "func list" where
  "ALL_FUNCTIONS = [Fn_AllPaths, Fn_AllRDeps, Fn_Attr, Fn_BuildFiles, Fn_Config, Fn_Deps, Fn_Executables, Fn_Filter,
     Fn_Inputs, Fn_Kind, Fn_Labels, Fn_LoadFiles, Fn_Mnemonic, Fn_Outputs, Fn_RBuildFiles, Fn_RDeps,
     Fn_SamePkgDirectRDeps, Fn_Siblings, Fn_Some, Fn_SomePath, Fn_Tests, Fn_Visible]"

fun function_name :: "func \<Rightarrow> string" where
  "function_name Fn_AllPaths = ''allpaths''"
| "function_name Fn_AllRDeps = ''allrdeps''"
| "function_name Fn_Attr = ''attr''"
| "function_name Fn_BuildFiles = ''buildfiles''"
| "function_name Fn_Config = ''config''"
| "function_name Fn_Deps = ''deps''"
| "function_name Fn_Executables = ''executables''"
| "function_name Fn_Filter = ''filter''"
| "function_name Fn_Inputs = ''inputs''"
| "function_name Fn_Kind = ''kind''"
| "function_name Fn_Labels = ''labels''"
| "function_name Fn_LoadFiles = ''loadfiles''"
| "function_name Fn_Mnemonic = ''mnemonic''"
| "function_name Fn_Outputs = ''outputs''"
| "function_name Fn_RBuildFiles = ''rbuildfiles''"
| "function_name Fn_RDeps = ''rdeps''"
| "function_name Fn_SamePkgDirectRDeps = ''same_pkg_direct_rdeps''"
| "function_name Fn_Siblings = ''siblings''"
| "function_name Fn_Some = ''some''"
| "function_name Fn_SomePath = ''somepath''"
| "function_name Fn_Tests = ''tests''"
| "function_name Fn_Visible = ''visible''"

definition function_all :: "dialect \<Rightarrow> func list" where
  "function_all dialect = filter (\<lambda>f.
     if f \<in> {Fn_Inputs, Fn_Mnemonic, Fn_Outputs} then dialect = Dialect_Aquery
     else if f = Fn_Config then dialect = Dialect_Cquery
     else if f \<in> {Fn_AllRDeps, Fn_RBuildFiles} then dialect = Dialect_Sky
     else True) ALL_FUNCTIONS"

definition named :: "string \<Rightarrow> dialect \<Rightarrow> func option" where
  "named name dialect = List.find (\<lambda>f. function_name f = name) (function_all dialect)"

definition is_action_filter :: "func \<Rightarrow> bool" where
  "is_action_filter f \<longleftrightarrow> f \<in> {Fn_Inputs, Fn_Mnemonic, Fn_Outputs}"

text \<open>The arguments a function must have and those it may add.\<close>

fun signature :: "func \<Rightarrow> arg_kind list \<times> arg_kind list" where
  "signature Fn_AllPaths = ([Kind_Expr, Kind_Expr], [])"
| "signature Fn_SomePath = ([Kind_Expr, Kind_Expr], [])"
| "signature Fn_Attr = ([Kind_Word, Kind_Word, Kind_Expr], [])"
| "signature Fn_BuildFiles = ([Kind_Expr], [])"
| "signature Fn_Executables = ([Kind_Expr], [])"
| "signature Fn_LoadFiles = ([Kind_Expr], [])"
| "signature Fn_SamePkgDirectRDeps = ([Kind_Expr], [])"
| "signature Fn_Siblings = ([Kind_Expr], [])"
| "signature Fn_Some = ([Kind_Expr], [])"
| "signature Fn_Tests = ([Kind_Expr], [])"
| "signature Fn_Deps = ([Kind_Expr], [Kind_Int])"
| "signature Fn_AllRDeps = ([Kind_Expr], [Kind_Int])"
| "signature Fn_RBuildFiles = ([Kind_Word], replicate 31 Kind_Word)"
| "signature Fn_Filter = ([Kind_Word, Kind_Expr], [])"
| "signature Fn_Kind = ([Kind_Word, Kind_Expr], [])"
| "signature Fn_Labels = ([Kind_Word, Kind_Expr], [])"
| "signature Fn_Config = ([Kind_Expr, Kind_Word], [])"
| "signature Fn_Inputs = ([Kind_Word], [Kind_Expr])"
| "signature Fn_Mnemonic = ([Kind_Word], [Kind_Expr])"
| "signature Fn_Outputs = ([Kind_Word], [Kind_Expr])"
| "signature Fn_RDeps = ([Kind_Expr, Kind_Expr], [Kind_Int])"
| "signature Fn_Visible = ([Kind_Expr, Kind_Expr], [])"

section \<open>Printing\<close>

definition is_word_char :: "char \<Rightarrow> bool" where
  "is_word_char c \<longleftrightarrow> is_alphanumeric c \<or> c \<in> set ''*/@.-_:$~[]''"

definition quote_if_needed :: "string \<Rightarrow> string" where
  "quote_if_needed w =
     (if list_all (\<lambda>c. is_alphanumeric c \<or> c \<in> set ''*/@.-_:$~[]'') w \<and> w \<noteq> [] then w
      else [CHR 0x22] @ w @ [CHR 0x22])"

fun op_display :: "op \<Rightarrow> string" where
  "op_display Op_Union = ''+''"
| "op_display Op_Intersect = ''^''"
| "op_display Op_Except = ''-''"

fun arg_display :: "string arg \<Rightarrow> string" where
  "arg_display (Arg_Expr e) = e"
| "arg_display (Arg_Word w) = quote_if_needed w"
| "arg_display (Arg_Int n) = i64_display n"

text \<open>\<open>Display\<close>: the printed expressions of a call's arguments are what its map leaves.\<close>

definition call_display :: "string call \<Rightarrow> string" where
  "call_display c = function_name (call_function c) @ ''('' @ join '', '' (map arg_display (call_args c)) @ '')''"

primrec expr_display :: "expr \<Rightarrow> string" where
  "expr_display (Expr_Word w) = quote_if_needed w"
| "expr_display (Expr_Variable v) = ''$'' @ v"
| "expr_display (Expr_Set ws) = ''set('' @ join '' '' (map quote_if_needed ws) @ '')''"
| "expr_display (Expr_Binary op l r) = expr_display l @ '' '' @ op_display op @ '' '' @ expr_display r"
| "expr_display (Expr_Let n value body) =
     ''let '' @ n @ '' = '' @ expr_display value @ '' in '' @ expr_display body"
| "expr_display (Expr_Call c) = call_display (map_call expr_display c)"

definition canonical :: "expr \<Rightarrow> string" where
  "canonical e = (case e of Expr_Binary _ _ _ \<Rightarrow> ''('' @ expr_display e @ '')'' | _ \<Rightarrow> expr_display e)"

section \<open>Names\<close>

lemma function_name_inj: "function_name f = function_name g \<longleftrightarrow> f = g"
  by (cases f; cases g) simp_all

lemma named_function_name: "f \<in> set (function_all dialect) \<Longrightarrow> named (function_name f) dialect = Some f"
proof -
  have "List.find (\<lambda>g. function_name g = function_name f) fs = Some f" if "f \<in> set fs" for fs
    using that by (induction fs) (auto simp: function_name_inj)
  then show "f \<in> set (function_all dialect) \<Longrightarrow> ?thesis" by (simp add: named_def)
qed

lemma named_Some: "named name dialect = Some f \<longleftrightarrow> f \<in> set (function_all dialect) \<and> name = function_name f"
proof
  assume "named name dialect = Some f"
  then show "f \<in> set (function_all dialect) \<and> name = function_name f"
    unfolding named_def find_Some_iff by auto
qed (use named_function_name in auto)

end
