(* ===== verification/Query_Parse.thy ===== *)
theory Query_Parse
  imports Query_Ast
begin

text \<open>
  The lexer and the parser of query expressions (\<open>crates/fjfj-query/src/parse.rs\<close>). The text is a list of
  characters below code point 256. The parser's state is the list of the tokens it has not read: its
  position only grows, apart from the steps back over the token an error is about.
\<close>

section \<open>Tokens\<close>

datatype token =
    Token_Word string | Token_Int i64 | Token_Let | Token_In | Token_Set | Token_Equals | Token_Plus
  | Token_Caret | Token_Minus | Token_Open | Token_Close | Token_Comma

fun token_text :: "token \<Rightarrow> string" where
  "token_text (Token_Word w) = w"
| "token_text (Token_Int n) = i64_display n"
| "token_text Token_Let = ''let''"
| "token_text Token_In = ''in''"
| "token_text Token_Set = ''set''"
| "token_text Token_Equals = ''=''"
| "token_text Token_Plus = ''+''"
| "token_text Token_Caret = ''^''"
| "token_text Token_Minus = ''-''"
| "token_text Token_Open = ''(''"
| "token_text Token_Close = '')''"
| "token_text Token_Comma = '',''"

abbreviation ticked :: "string \<Rightarrow> string" where
  "ticked s \<equiv> [CHR 0x27] @ s @ [CHR 0x27]"

section \<open>The lexer\<close>

text \<open>The loop over a quoted word: the word and the text after the closing quote.\<close>

fun scan_quoted :: "char \<Rightarrow> string \<Rightarrow> string \<Rightarrow> (string \<times> string) option" where
  "scan_quoted q w [] = None"
| "scan_quoted q w (c # cs) =
     (if c = CHR 0x5C \<and> prefix [q] cs then scan_quoted q (w @ [q]) (tl cs)
      else if c = q then Some (w, cs)
      else scan_quoted q (w @ [c]) cs)"

text \<open>The loop over a plain word, with the part of it that is read.\<close>

fun scan_word :: "bool \<Rightarrow> string \<Rightarrow> string \<Rightarrow> string \<times> string" where
  "scan_word canon w [] = (w, [])"
| "scan_word canon w (c # cs) =
     (if is_word_char c \<or> c = CHR ''+'' \<and> canon \<and> \<not> sublist ''//'' w
      then scan_word canon (w @ [c]) cs else (w, c # cs))"

definition word_token :: "string \<Rightarrow> (string, token) result" where
  "word_token w =
     (if w = ''let'' then Inr Token_Let
      else if w = ''in'' then Inr Token_In
      else if w = ''set'' then Inr Token_Set
      else if w = ''union'' then Inr Token_Plus
      else if w = ''intersect'' then Inr Token_Caret
      else if w = ''except'' then Inr Token_Minus
      else if list_all is_ascii_digit w then
        (case parse_i64 w of
           Some n \<Rightarrow> Inr (Token_Int n)
         | None \<Rightarrow> Inl (''integer too large: '' @ ticked w))
      else Inr (Token_Word w))"

lemma scan_quoted_shorter: "scan_quoted q w cs = Some (v, rest) \<Longrightarrow> length rest < length cs"
  by (induction q w cs rule: scan_quoted.induct) (fastforce split: if_splits)+

lemma scan_word_shorter: "length (snd (scan_word canon w cs)) \<le> length cs"
  by (induction canon w cs rule: scan_word.induct) auto

lemma scan_word_rest: "(v, rest) = scan_word canon w cs \<Longrightarrow> length rest \<le> length cs"
  using scan_word_shorter [of canon w cs] by (metis snd_conv)

definition push_token :: "token \<Rightarrow> (string, token list) result \<Rightarrow> (string, token list) result" where
  "push_token t r = and_then r (\<lambda>ts. Inr (t # ts))"

function lex :: "string \<Rightarrow> (string, token list) result" where
  "lex [] = Inr []"
| "lex (c # cs) =
     (if is_whitespace c then lex cs
      else if c = CHR ''('' then push_token Token_Open (lex cs)
      else if c = CHR '')'' then push_token Token_Close (lex cs)
      else if c = CHR '','' then push_token Token_Comma (lex cs)
      else if c = CHR ''='' then push_token Token_Equals (lex cs)
      else if c = CHR ''+'' then push_token Token_Plus (lex cs)
      else if c = CHR ''^'' then push_token Token_Caret (lex cs)
      else if c = CHR ''-'' then push_token Token_Minus (lex cs)
      else if c = CHR 0x27 \<or> c = CHR 0x22 then
        (case scan_quoted c [] cs of
           None \<Rightarrow> Inl ''unclosed quotation''
         | Some (w, rest) \<Rightarrow> push_token (Token_Word w) (lex rest))
      else if is_word_char c then
        (case scan_word (prefix ''@@'' (c # cs)) [c] cs of
           (w, rest) \<Rightarrow> and_then (word_token w) (\<lambda>t. push_token t (lex rest)))
      else Inl (''syntax error at '' @ ticked [c]))"
  by pat_completeness auto
termination
proof (relation "measure length", goal_cases)
  case (10 c cs p w rest)
  then have "length rest < length cs" by (metis scan_quoted_shorter)
  then show ?case by simp
next
  case (11 c cs w rest t)
  then have "length rest \<le> length cs" by (metis scan_word_rest)
  then show ?case by simp
qed simp_all

section \<open>The parser\<close>

type_synonym 'a parsed = "('a \<times> token list) ending"

definition context_of :: "token list \<Rightarrow> string" where
  "context_of ts = join '' '' (map token_text (take 3 ts))"

definition premature :: string where
  "premature = ''premature end of input''"

definition syntax_error :: "token list \<Rightarrow> string" where
  "syntax_error ts = ''syntax error at '' @ ticked (context_of ts)"

definition expect :: "token \<Rightarrow> token list \<Rightarrow> unit parsed" where
  "expect want ts =
     (case ts of
        [] \<Rightarrow> Err premature
      | t # rest \<Rightarrow> if t = want then Ok ((), rest) else Err (syntax_error ts))"

fun operator :: "token list \<Rightarrow> op option" where
  "operator (Token_Plus # _) = Some Op_Union"
| "operator (Token_Caret # _) = Some Op_Intersect"
| "operator (Token_Minus # _) = Some Op_Except"
| "operator _ = None"

text \<open>The loop of \<open>expression\<close>, for any parser of the operands; the number bounds its turns.\<close>

primrec operands :: "(token list \<Rightarrow> expr parsed) \<Rightarrow> nat \<Rightarrow> expr \<Rightarrow> token list \<Rightarrow> expr parsed" where
  "operands prim 0 left ts = Loops"
| "operands prim (Suc n) left ts =
     (case operator ts of
        None \<Rightarrow> Ok (left, ts)
      | Some op \<Rightarrow> ok_then (prim (tl ts)) (\<lambda>(right, rest). operands prim n (Expr_Binary op left right) rest))"

fun word_next :: "token list \<Rightarrow> string parsed" where
  "word_next [] = Err premature"
| "word_next (Token_Word w # ts) = Ok (w, ts)"
| "word_next (t # ts) = Err (syntax_error (t # ts))"

fun set_words :: "string list \<Rightarrow> token list \<Rightarrow> string list parsed" where
  "set_words ws [] = Err premature"
| "set_words ws (Token_Close # ts) = Ok (ws, ts)"
| "set_words ws (Token_Word w # ts) = set_words (ws @ [w]) ts"
| "set_words ws (Token_Int n # ts) = set_words (ws @ [i64_display n]) ts"
| "set_words ws (t # ts) = Err (syntax_error (t # ts))"

definition argument :: "(token list \<Rightarrow> expr parsed) \<Rightarrow> arg_kind \<Rightarrow> token list \<Rightarrow> expr arg parsed" where
  "argument ex kind ts =
     (case kind of
        Kind_Expr \<Rightarrow> ok_then (ex ts) (\<lambda>(e, rest). Ok (Arg_Expr e, rest))
      | Kind_Word \<Rightarrow>
          (case ts of
             [] \<Rightarrow> Err premature
           | Token_Word w # rest \<Rightarrow> Ok (Arg_Word w, rest)
           | Token_Int n # rest \<Rightarrow> Ok (Arg_Word (i64_display n), rest)
           | _ \<Rightarrow> Err (syntax_error ts))
      | Kind_Int \<Rightarrow>
          (case ts of
             [] \<Rightarrow> Err premature
           | Token_Int n # rest \<Rightarrow> Ok (Arg_Int n, rest)
           | Token_Word w # rest \<Rightarrow> Err (''expected an integer literal: '' @ ticked w)
           | _ \<Rightarrow> Err (syntax_error ts)))"

text \<open>The loop over the arguments, with the kinds of those to come; reading past the last one would panic.\<close>

fun arguments ::
  "(token list \<Rightarrow> expr parsed) \<Rightarrow> string \<Rightarrow> arg_kind list \<Rightarrow> expr arg list \<Rightarrow> token list \<Rightarrow> expr arg list parsed" where
  "arguments ex name [] as ts = Panics"
| "arguments ex name (kind # kinds) as ts =
     ok_then (argument ex kind ts) (\<lambda>(a, rest).
       if \<not> prefix [Token_Comma] rest then Ok (as @ [a], rest)
       else if kinds = [] then Err (''too many arguments to function '' @ ticked name @ '' at '' @ ticked (context_of rest))
       else arguments ex name kinds (as @ [a]) (tl rest))"

definition call_in :: "dialect \<Rightarrow> (token list \<Rightarrow> expr parsed) \<Rightarrow> string \<Rightarrow> token list \<Rightarrow> expr parsed" where
  "call_in dialect ex name ts =
     (case named name dialect of
        None \<Rightarrow> Err (''unknown function '' @ ticked name @ '' at '' @ ticked (context_of ts) @ ''; expected one of [''
          @ join '', '' (map (\<lambda>f. ticked (function_name f)) (function_all dialect)) @ '']'')
      | Some f \<Rightarrow>
          (case signature f of (required, optional) \<Rightarrow>
             ok_then
               (if prefix [Token_Close] (drop 2 ts) then Ok ([], drop 2 ts)
                else arguments ex name (required @ optional) [] (drop 2 ts))
               (\<lambda>(as, rest).
                 if length as < length required \<and> prefix [Token_Close] rest
                 then Err (''too few arguments to function '' @ ticked name @ '' at '' @ ticked (context_of rest))
                 else ok_then (expect Token_Close rest) (\<lambda>(_, after). Ok (Expr_Call (Call f as), after)))))"

definition primary :: "dialect \<Rightarrow> (token list \<Rightarrow> expr parsed) \<Rightarrow> token list \<Rightarrow> expr parsed" where
  "primary dialect ex ts =
     (case ts of
        [] \<Rightarrow> Err premature
      | Token_Word w # rest \<Rightarrow>
          (if prefix [Token_Open] rest then call_in dialect ex w ts
           else Ok (case strip_prefix ''$'' w of
                      Some name \<Rightarrow> if name \<noteq> [] then Expr_Variable name else Expr_Word w
                    | None \<Rightarrow> Expr_Word w, rest))
      | Token_Int n # rest \<Rightarrow> Ok (Expr_Word (i64_display n), rest)
      | Token_Open # rest \<Rightarrow>
          ok_then (ex rest) (\<lambda>(inner, rest1).
          ok_then (expect Token_Close rest1) (\<lambda>(_, rest2). Ok (inner, rest2)))
      | Token_Let # rest \<Rightarrow>
          ok_then (word_next rest) (\<lambda>(name, rest1).
          ok_then (expect Token_Equals rest1) (\<lambda>(_, rest2).
          ok_then (ex rest2) (\<lambda>(value, rest3).
          ok_then (expect Token_In rest3) (\<lambda>(_, rest4).
          ok_then (ex rest4) (\<lambda>(body, rest5). Ok (Expr_Let name value body, rest5))))))
      | Token_Set # rest \<Rightarrow>
          ok_then (expect Token_Open rest) (\<lambda>(_, rest1).
          ok_then (set_words [] rest1) (\<lambda>(ws, rest2). Ok (Expr_Set ws, rest2)))
      | _ \<Rightarrow> Err (syntax_error ts))"

text \<open>
  \<open>expression\<close> and \<open>primary\<close> call each other. The number bounds the depth of the calls; every one
  has read a token more, so that one more than the tokens there are is enough.
\<close>

primrec expression :: "dialect \<Rightarrow> nat \<Rightarrow> token list \<Rightarrow> expr parsed" where
  "expression dialect 0 ts = Loops"
| "expression dialect (Suc n) ts =
     ok_then (primary dialect (expression dialect n) ts) (\<lambda>(left, rest).
       operands (primary dialect (expression dialect n)) (Suc (length rest)) left rest)"

definition parse_in :: "string \<Rightarrow> dialect \<Rightarrow> expr ending" where
  "parse_in input dialect =
     ok_then (ended (lex input)) (\<lambda>tokens.
     ok_then (expression dialect (Suc (length tokens)) tokens) (\<lambda>(e, rest).
       case rest of
         extra # _ \<Rightarrow> Err (''unexpected token '' @ ticked (token_text extra) @ '' after query expression ''
           @ ticked (expr_display e))
       | [] \<Rightarrow> Ok e))"

definition parse_query :: "string \<Rightarrow> expr ending" where
  "parse_query input = parse_in input Dialect_Query"

section \<open>What the parser returns\<close>

text \<open>
  A call is well formed when its function belongs to the dialect and its arguments are of the kinds
  of the signature: all that are required, and as many of the optional ones as there are.
\<close>

fun fits :: "arg_kind \<Rightarrow> 'e arg \<Rightarrow> bool" where
  "fits Kind_Expr (Arg_Expr _) \<longleftrightarrow> True"
| "fits Kind_Word (Arg_Word _) \<longleftrightarrow> True"
| "fits Kind_Int (Arg_Int _) \<longleftrightarrow> True"
| "fits _ _ \<longleftrightarrow> False"

definition call_ok :: "dialect \<Rightarrow> 'e call \<Rightarrow> bool" where
  "call_ok dialect c \<longleftrightarrow> call_function c \<in> set (function_all dialect)
     \<and> (case signature (call_function c) of (required, optional) \<Rightarrow>
          length required \<le> length (call_args c) \<and> length (call_args c) \<le> length (required @ optional)
          \<and> list_all2 fits (take (length (call_args c)) (required @ optional)) (call_args c))"

text \<open>A word is not a variable, and a variable has a name.\<close>

primrec well_formed :: "dialect \<Rightarrow> expr \<Rightarrow> bool" where
  "well_formed d (Expr_Word w) \<longleftrightarrow> \<not> (prefix ''$'' w \<and> w \<noteq> ''$'')"
| "well_formed d (Expr_Variable v) \<longleftrightarrow> v \<noteq> []"
| "well_formed d (Expr_Set ws) \<longleftrightarrow> True"
| "well_formed d (Expr_Binary op l r) \<longleftrightarrow> well_formed d l \<and> well_formed d r"
| "well_formed d (Expr_Let n value body) \<longleftrightarrow> well_formed d value \<and> well_formed d body"
| "well_formed d (Expr_Call c) \<longleftrightarrow> call_ok d c \<and> pred_call (\<lambda>ok. ok) (map_call (well_formed d) c)"

text \<open>The end of a parser that reads at least one of \<open>n\<close> tokens and whose value satisfies \<open>P\<close>.\<close>

definition reads :: "('a \<Rightarrow> bool) \<Rightarrow> nat \<Rightarrow> 'a parsed \<Rightarrow> bool" where
  "reads P n r \<longleftrightarrow> (case r of Ok (x, rest) \<Rightarrow> P x \<and> length rest < n | Err _ \<Rightarrow> True | _ \<Rightarrow> False)"

lemma reads_simps [simp]:
  "reads P n (Ok (x, rest)) \<longleftrightarrow> P x \<and> length rest < n" "reads P n (Err e)" "\<not> reads P n Panics" "\<not> reads P n Loops"
  by (simp_all add: reads_def)

lemma reads_then:
  assumes "reads P n r" and "\<And>x rest. P x \<Longrightarrow> length rest < n \<Longrightarrow> reads Q m (f (x, rest))"
  shows "reads Q m (ok_then r f)"
  using assms by (cases r) (auto simp: reads_def)

lemma reads_less: "reads P n r \<Longrightarrow> n \<le> m \<Longrightarrow> reads P m r"
  by (cases r) (auto simp: reads_def)

lemma reads_expect: "reads (\<lambda>_. True) (length ts) (expect t ts)"
  by (cases ts) (auto simp: expect_def)

lemma reads_word_next: "reads (\<lambda>_. True) (length ts) (word_next ts)"
  by (induction ts rule: word_next.induct) auto

lemma reads_set_words: "reads (\<lambda>_. True) (length ts) (set_words ws ts)"
  by (induction ws ts rule: set_words.induct) (auto intro: reads_less)

lemma reads_argument:
  assumes "reads P (length ts) (ex ts)"
  shows "reads (\<lambda>a. fits kind a \<and> pred_arg P a) (length ts) (argument ex kind ts)"
proof (cases kind)
  case Kind_Expr
  then show ?thesis using assms by (auto simp: argument_def intro: reads_then)
qed (auto simp: argument_def split: list.splits token.splits)

text \<open>The arguments read are those before and, of the kinds in order, one or more.\<close>

lemma reads_arguments:
  assumes "kinds \<noteq> []" and "\<And>us. length us \<le> length ts \<Longrightarrow> reads P (length us) (ex us)"
  shows "reads (\<lambda>bs. \<exists>new. bs = as @ new \<and> length new \<le> length kinds
           \<and> list_all2 fits (take (length new) kinds) new \<and> list_all (pred_arg P) new)
         (length ts) (arguments ex name kinds as ts)"
  using assms
proof (induction ex name kinds as ts rule: arguments.induct)
  case (2 ex name kind kinds as ts)
  have "reads (\<lambda>a. fits kind a \<and> pred_arg P a) (length ts) (argument ex kind ts)"
    using "2.prems" by (simp add: reads_argument)
  then show ?case unfolding arguments.simps
  proof (rule reads_then, goal_cases)
    case (1 a rest)
    have step: "reads (\<lambda>bs. \<exists>new. bs = (as @ [a]) @ new \<and> length new \<le> length kinds
           \<and> list_all2 fits (take (length new) kinds) new \<and> list_all (pred_arg P) new)
         (length (tl rest)) (arguments ex name kinds (as @ [a]) (tl rest))"
      if c: "prefix [Token_Comma] rest" and k: "kinds \<noteq> []"
      by (rule "2.IH") (use c k 1 "2.prems"(2) in auto)
    have "(\<exists>new. bs = as @ new \<and> length new \<le> length (kind # kinds)
           \<and> list_all2 fits (take (length new) (kind # kinds)) new \<and> list_all (pred_arg P) new)"
      if "bs = (as @ [a]) @ new" "length new \<le> length kinds" "list_all2 fits (take (length new) kinds) new"
        "list_all (pred_arg P) new" for bs new
      by (rule exI [of _ "a # new"]) (use 1 that in auto)
    then show ?case using 1 step
      by (auto simp: reads_def split: ending.splits)
  qed
qed simp

lemma pred_call_args: "pred_call P c \<longleftrightarrow> list_all (pred_arg P) (call_args c)"
  by (cases c) simp

lemma well_formed_call: "well_formed d (Expr_Call c) \<longleftrightarrow> call_ok d c \<and> list_all (pred_arg (well_formed d)) (call_args c)"
  using pred_call_args [of "well_formed d" c] by (simp add: call.pred_map comp_def)

lemma signature_ne: "fst (signature f) \<noteq> []"
  by (cases f) simp_all

lemma reads_call:
  assumes ex: "\<And>us. length us < length ts \<Longrightarrow> reads (well_formed d) (length us) (ex us)" and ts: "2 \<le> length ts"
  shows "reads (well_formed d) (length ts) (call_in d ex name ts)"
proof (cases "named name d")
  case None
  then show ?thesis by (simp add: call_in_def)
next
  case (Some f)
  obtain required optional where sig: "signature f = (required, optional)" by (cases "signature f")
  let ?start = "if prefix [Token_Close] (drop 2 ts) then Ok ([], drop 2 ts)
                else arguments ex name (required @ optional) [] (drop 2 ts)"
  have "reads (\<lambda>as. length as \<le> length (required @ optional)
          \<and> list_all2 fits (take (length as) (required @ optional)) as \<and> list_all (pred_arg (well_formed d)) as)
        (length ts) ?start" (is "reads ?good _ _")
  proof (cases "prefix [Token_Close] (drop 2 ts)")
    case True
    then show ?thesis using ts by auto
  next
    case False
    have "reads ?good (length (drop 2 ts)) (arguments ex name (required @ optional) [] (drop 2 ts))"
      using reads_arguments [of "required @ optional" "drop 2 ts" "well_formed d" ex "[]" name] ex ts
        signature_ne [of f] sig by auto
    then show ?thesis using False by (auto intro: reads_less)
  qed
  then have "reads (well_formed d) (length ts) (ok_then ?start (\<lambda>(as, rest).
      if length as < length required \<and> prefix [Token_Close] rest
      then Err (''too few arguments to function '' @ ticked name @ '' at '' @ ticked (context_of rest))
      else ok_then (expect Token_Close rest) (\<lambda>(_, after). Ok (Expr_Call (Call f as), after))))"
  proof (rule reads_then, goal_cases)
    case (1 as rest)
    have "f \<in> set (function_all d)" using Some by (simp add: named_Some)
    then show ?case
      using 1 sig by (auto simp: expect_def well_formed_call call_ok_def simp del: well_formed.simps split: list.splits)
  qed
  then show ?thesis using Some sig by (simp add: call_in_def)
qed

lemma reads_primary:
  assumes ex: "\<And>us. length us < length ts \<Longrightarrow> reads (well_formed d) (length us) (ex us)"
  shows "reads (well_formed d) (length ts) (primary d ex ts)"
proof (cases ts)
  case Nil
  then show ?thesis by (simp add: primary_def)
next
  case (Cons t rest)
  have later: "reads (well_formed d) (length us) (ex us)" if "length us \<le> length rest" for us
    using ex [of us] Cons that by simp
  have expected: "reads (\<lambda>_. True) n (expect want us)" if "length us \<le> n" for want us n
    using reads_less [OF reads_expect that] .
  show ?thesis
  proof (cases t)
    case (Token_Word w)
    show ?thesis
    proof (cases "prefix [Token_Open] rest")
      case True
      then have "2 \<le> length ts" using Cons by (cases rest) simp_all
      then have "reads (well_formed d) (length ts) (call_in d ex w ts)" using reads_call ex by blast
      then show ?thesis using Cons Token_Word True by (simp add: primary_def)
    next
      case False
      then show ?thesis using Cons Token_Word
        by (auto simp: primary_def strip_prefix_def prefix_def)
    qed
  next
    case (Token_Int n)
    then show ?thesis using Cons by (simp add: primary_def i64_display_no_dollar)
  next
    case Token_Let
    have "reads (well_formed d) (length ts)
        (ok_then (word_next rest) (\<lambda>(name, rest1).
          ok_then (expect Token_Equals rest1) (\<lambda>(_, rest2).
          ok_then (ex rest2) (\<lambda>(value, rest3).
          ok_then (expect Token_In rest3) (\<lambda>(_, rest4).
          ok_then (ex rest4) (\<lambda>(body, rest5). Ok (Expr_Let name value body, rest5)))))))"
      by (auto intro!: reads_then [OF reads_word_next] reads_then [OF expected [OF order_refl]] reads_then [OF later] simp: Cons)
    then show ?thesis using Cons Token_Let by (simp add: primary_def)
  next
    case Token_Set
    have "reads (well_formed d) (length ts)
        (ok_then (expect Token_Open rest) (\<lambda>(_, rest1).
          ok_then (set_words [] rest1) (\<lambda>(ws, rest2). Ok (Expr_Set ws, rest2))))"
      by (auto intro!: reads_then [OF reads_set_words] reads_then [OF expected [OF order_refl]] simp: Cons)
    then show ?thesis using Cons Token_Set by (simp add: primary_def)
  next
    case Token_Open
    have "reads (well_formed d) (length ts)
        (ok_then (ex rest) (\<lambda>(inner, rest1).
          ok_then (expect Token_Close rest1) (\<lambda>(_, rest2). Ok (inner, rest2))))"
      by (auto intro!: reads_then [OF later] reads_then [OF expected [OF order_refl]] simp: Cons)
    then show ?thesis using Cons Token_Open by (simp add: primary_def)
  qed (simp_all add: primary_def Cons)
qed

lemma operator_Some: "operator ts = Some op \<Longrightarrow> length (tl ts) < length ts"
  by (induction ts rule: operator.induct) simp_all

lemma reads_operands:
  assumes "\<And>us. length us < length ts \<Longrightarrow> reads (well_formed d) (length us) (prim us)"
    and "well_formed d left" and "length ts < n"
  shows "reads (well_formed d) (Suc (length ts)) (operands prim n left ts)"
  using assms
proof (induction n arbitrary: left ts)
  case (Suc n)
  show ?case
  proof (cases "operator ts")
    case (Some op)
    then have shorter: "length (tl ts) < length ts" by (rule operator_Some)
    then have "reads (well_formed d) (length (tl ts)) (prim (tl ts))" by (rule Suc.prems(1))
    then have "reads (well_formed d) (Suc (length ts))
        (ok_then (prim (tl ts)) (\<lambda>(right, rest). operands prim n (Expr_Binary op left right) rest))"
    proof (rule reads_then, goal_cases)
      case (1 right rest)
      have "reads (well_formed d) (Suc (length rest)) (operands prim n (Expr_Binary op left right) rest)"
        by (rule Suc.IH) (use 1 shorter Suc.prems in auto)
      then show ?case using 1 shorter by (auto intro: reads_less)
    qed
    then show ?thesis using Some by simp
  qed (use Suc.prems in simp)
qed simp

lemma reads_expression: "length ts < n \<Longrightarrow> reads (well_formed d) (length ts) (expression d n ts)"
proof (induction n arbitrary: ts)
  case (Suc n)
  have prim: "reads (well_formed d) (length us) (primary d (expression d n) us)" if "length us \<le> length ts" for us
    by (rule reads_primary) (use Suc that in auto)
  have "reads (well_formed d) (length ts)
      (ok_then (primary d (expression d n) ts) (\<lambda>(left, rest).
        operands (primary d (expression d n)) (Suc (length rest)) left rest))"
    using prim [OF order_refl]
  proof (rule reads_then, goal_cases)
    case (1 left rest)
    have "reads (well_formed d) (Suc (length rest)) (operands (primary d (expression d n)) (Suc (length rest)) left rest)"
      by (rule reads_operands) (use 1 prim in auto)
    then show ?case using 1 by (auto intro: reads_less)
  qed
  then show ?case by simp
qed simp

lemma parse_returns:
  "(\<exists>e. parse_in input d = Ok e \<and> well_formed d e) \<or> (\<exists>msg. parse_in input d = Err msg)"
proof (cases "lex input")
  case (Inr tokens)
  have "reads (well_formed d) (length tokens) (expression d (Suc (length tokens)) tokens)"
    by (rule reads_expression) simp
  then show ?thesis using Inr by (auto simp: parse_in_def reads_def split: ending.splits list.splits)
qed (simp add: parse_in_def)

text \<open>
  C13. Parsing always ends, without a panic, and what it returns is well formed: every call is of a function of the
  command's dialect, with arguments of the kinds and in the number its signature allows.
\<close>

theorem parse_well_formed:
  "(case parse_in input d of Ok e \<Rightarrow> well_formed d e | Err _ \<Rightarrow> True | _ \<Rightarrow> False)"
  using parse_returns [of input d] by auto

end
