(* ===== verification/Attr_Value.thy ===== *)
theory Attr_Value
  imports Labels
begin

text \<open>
  The values of a rule's attributes (\<open>crates/fjfj-graph/src/rule.rs\<close>): the kinds of value, \<open>select()\<close>s
  included, the labels a value names and how two values are joined.
\<close>

section \<open>Values\<close>

type_synonym i32 = "32 word"

text \<open>A \<open>select()\<close> holds values and a value may be a list of them; the values are a parameter of its type.\<close>

datatype 'v selector =
  Selector (branches: "(label \<times> 'v option) list") (no_match_error: string) (unconditional: bool)

datatype 'v selector_list = SelectorList (elements: "'v selector list") (pipe: bool)

datatype attr_value =
    Val_Bool bool
  | Val_Int i32
  | Val_String string
  | Val_Label label
  | Val_StringList "string list"
  | Val_IntList "i32 list"
  | Val_LabelList "label list"
  | Val_StringDict "(string \<times> string) list"
  | Val_StringListDict "(string \<times> string list) list"
  | Val_LabelKeyedStringDict "(label \<times> string) list"
  | Val_StringKeyedLabelDict "(string \<times> label) list"
  | Val_LabelListDict "(string \<times> label list) list"
  | Val_Select "attr_value selector_list"

definition default_condition :: label where
  "default_condition = Label [] ''conditions'' ''default''"

text \<open>The labels of the branches of a \<open>select()\<close>, given those of the values.\<close>

definition selector_labels :: "label list selector_list \<Rightarrow> label list" where
  "selector_labels sl = concat (map (\<lambda>s. concat (map (\<lambda>(condition, v).
     condition # (case v of Some ls \<Rightarrow> ls | None \<Rightarrow> [])) (branches s))) (elements sl))"

primrec value_labels :: "attr_value \<Rightarrow> label list" where
  "value_labels (Val_Bool b) = []"
| "value_labels (Val_Int i) = []"
| "value_labels (Val_String s) = []"
| "value_labels (Val_Label l) = [l]"
| "value_labels (Val_StringList ss) = []"
| "value_labels (Val_IntList is) = []"
| "value_labels (Val_LabelList ls) = ls"
| "value_labels (Val_StringDict d) = []"
| "value_labels (Val_StringListDict d) = []"
| "value_labels (Val_LabelKeyedStringDict d) = map fst d"
| "value_labels (Val_StringKeyedLabelDict d) = map snd d"
| "value_labels (Val_LabelListDict d) = concat (map snd d)"
| "value_labels (Val_Select sl) = selector_labels (map_selector_list value_labels sl)"

text \<open>The entries of two dicts: an entry of a key that is there replaces its value, in its place.\<close>

fun dict_put :: "('k \<times> 'v) list \<Rightarrow> 'k \<times> 'v \<Rightarrow> ('k \<times> 'v) list" where
  "dict_put [] kv = [kv]"
| "dict_put (e # es) kv = (if fst e = fst kv then (fst e, snd kv) # es else e # dict_put es kv)"

definition dict_union :: "('k \<times> 'v) list \<Rightarrow> ('k \<times> 'v) list \<Rightarrow> ('k \<times> 'v) list" where
  "dict_union a b = foldl dict_put a b"

definition value_concat :: "attr_value \<Rightarrow> attr_value \<Rightarrow> attr_value option" where
  "value_concat a b =
     (case a of
        Val_String x \<Rightarrow> (case b of Val_String y \<Rightarrow> Some (Val_String (x @ y)) | _ \<Rightarrow> None)
      | Val_Int x \<Rightarrow> (case b of Val_Int y \<Rightarrow> Some (Val_Int (x + y)) | _ \<Rightarrow> None)
      | Val_StringList x \<Rightarrow> (case b of Val_StringList y \<Rightarrow> Some (Val_StringList (x @ y)) | _ \<Rightarrow> None)
      | Val_IntList x \<Rightarrow> (case b of Val_IntList y \<Rightarrow> Some (Val_IntList (x @ y)) | _ \<Rightarrow> None)
      | Val_LabelList x \<Rightarrow> (case b of Val_LabelList y \<Rightarrow> Some (Val_LabelList (x @ y)) | _ \<Rightarrow> None)
      | Val_StringDict x \<Rightarrow> (case b of Val_StringDict y \<Rightarrow> Some (Val_StringDict (dict_union x y)) | _ \<Rightarrow> None)
      | Val_StringListDict x \<Rightarrow> (case b of Val_StringListDict y \<Rightarrow> Some (Val_StringListDict (dict_union x y)) | _ \<Rightarrow> None)
      | Val_LabelKeyedStringDict x \<Rightarrow> (case b of Val_LabelKeyedStringDict y \<Rightarrow> Some (Val_LabelKeyedStringDict (dict_union x y)) | _ \<Rightarrow> None)
      | Val_StringKeyedLabelDict x \<Rightarrow> (case b of Val_StringKeyedLabelDict y \<Rightarrow> Some (Val_StringKeyedLabelDict (dict_union x y)) | _ \<Rightarrow> None)
      | Val_LabelListDict x \<Rightarrow> (case b of Val_LabelListDict y \<Rightarrow> Some (Val_LabelListDict (dict_union x y)) | _ \<Rightarrow> None)
      | _ \<Rightarrow> None)"

text \<open>\<open>flatten\<close>: the joined elements of a list in which nothing depends on the configuration.\<close>

definition plain_element :: "attr_value selector \<Rightarrow> attr_value option" where
  "plain_element s = (case branches s of [(_, v)] \<Rightarrow> if unconditional s then v else None | _ \<Rightarrow> None)"

fun flatten_from :: "attr_value \<Rightarrow> attr_value selector list \<Rightarrow> attr_value option" where
  "flatten_from acc [] = Some acc"
| "flatten_from acc (s # ss) =
     Option.bind (plain_element s) (\<lambda>next. Option.bind (value_concat acc next) (\<lambda>acc'. flatten_from acc' ss))"

definition flatten :: "attr_value selector_list \<Rightarrow> attr_value option" where
  "flatten sl = (case elements sl of
     [] \<Rightarrow> None
   | s # ss \<Rightarrow> Option.bind (plain_element s) (\<lambda>v. flatten_from v ss))"

datatype attr_type =
    Type_Bool | Type_Int | Type_Tristate | Type_String | Type_StringList | Type_IntList | Type_Label
  | Type_LabelList | Type_StringDict | Type_StringListDict | Type_LabelKeyedStringDict
  | Type_StringKeyedLabelDict | Type_LabelListDict | Type_Output | Type_OutputList

section \<open>Joining\<close>

text \<open>A dict holds a key once; joining looks a key up in the right dict and then in the left one.\<close>

lemma dict_put_map: "map_of (dict_put es kv) = (map_of es)(fst kv \<mapsto> snd kv)"
  by (induction es) (auto simp: fun_eq_iff)

lemma dict_put_keys: "distinct (map fst es) \<Longrightarrow> distinct (map fst (dict_put es kv))"
proof (induction es)
  case (Cons e es)
  have "fst ` set (dict_put es kv) = insert (fst kv) (fst ` set es)" by (induction es) auto
  then show ?case using Cons by (auto simp del: set_map simp: set_map [symmetric])
qed simp

lemma dict_union_map: "map_of (dict_union a b) = map_of a ++ map_of (rev b)"
  unfolding dict_union_def
proof (induction b rule: rev_induct)
  case (snoc kv b)
  then show ?case by (cases kv) (simp add: dict_put_map map_add_def fun_eq_iff)
qed simp

lemma dict_union_keys: "distinct (map fst a) \<Longrightarrow> distinct (map fst (dict_union a b))"
  unfolding dict_union_def by (induction b rule: rev_induct) (simp_all add: dict_put_keys)

end
