(* ===== verification/Query_Graph.thy ===== *)
theory Query_Graph
  imports Attr_Value Rust_Collections
begin

text \<open>
  The graph a query runs over (\<open>crates/fjfj-query/src/graph.rs\<close>). The trait \<open>Graph\<close> is a record of
  functions: what the loading phase answers is a parameter of the evaluator, as it is in the source. Of a node,
  its attributes and its edges, the record types keep what the evaluator reads; the other fields of the
  source serve the output formats.
\<close>

section \<open>Nodes\<close>

datatype node_kind =
    Rule (rule_class: string) (rule_test: bool) (rule_executable: bool) (rule_native: bool)
  | SourceFile
  | GeneratedFile label
  | PackageGroup
  | EnvironmentGroup

fun description :: "node_kind \<Rightarrow> string" where
  "description (Rule cls _ _ _) = cls @ '' rule''"
| "description SourceFile = ''source file''"
| "description (GeneratedFile _) = ''generated file''"
| "description PackageGroup = ''package group''"
| "description EnvironmentGroup = ''environment group''"

definition is_rule :: "node_kind \<Rightarrow> bool" where
  "is_rule k \<longleftrightarrow> (case k of Rule _ _ _ _ \<Rightarrow> True | _ \<Rightarrow> False)"

record node_attr =
  attr_name :: string
  attr_text :: string
  attr_labels :: "label list"
  attr_value_of :: attr_value
  attr_unset :: bool

record edge =
  edge_to :: label
  edge_implicit :: bool
  edge_tool :: bool
  edge_nodep :: bool
  edge_aspect :: bool

record node =
  node_label :: label
  node_kind_of :: node_kind
  node_location :: string
  node_attrs :: "node_attr list"
  node_edges :: "edge list"

section \<open>The trait\<close>

record lenient =
  found_labels :: "label list"
  found_error :: "string option"
  found_said :: bool

record graph =
  graph_pattern :: "string \<Rightarrow> (string, label list) result"
  graph_pattern_lenient :: "string \<Rightarrow> lenient"
  graph_node :: "label \<Rightarrow> (string, node) result"
  graph_siblings :: "label \<Rightarrow> (string, label list) result"
  graph_build_files :: "label \<Rightarrow> (string, label list) result"
  graph_load_files :: "label \<Rightarrow> (string, label list) result"
  graph_visible :: "label \<Rightarrow> label \<Rightarrow> (string, bool) result"
  is_configuration :: "string \<Rightarrow> bool"
  in_configuration :: "label \<Rightarrow> string \<Rightarrow> bool"
  graph_display :: "label \<Rightarrow> string"

text \<open>The methods the trait provides itself, which an implementation may replace.\<close>

definition default_pattern_lenient :: "(string \<Rightarrow> (string, label list) result) \<Rightarrow> string \<Rightarrow> lenient" where
  "default_pattern_lenient pattern word =
     (case pattern word of
        Inr labels \<Rightarrow> \<lparr>found_labels = labels, found_error = None, found_said = False\<rparr>
      | Inl err \<Rightarrow> \<lparr>found_labels = [], found_error = Some err, found_said = False\<rparr>)"

definition default_display :: "label \<Rightarrow> string" where
  "default_display l =
     (if repo l = [] then ''//'' @ package l @ '':'' @ lname l
      else ''@'' @ repo l @ ''//'' @ package l @ '':'' @ lname l)"

end
