(* ===== verification/Query_Eval.thy ===== *)
theory Query_Eval
  imports Query_Parse Query_Graph Test_Suite
begin

text \<open>
  Evaluating a query expression (\<open>crates/fjfj-query/src/eval.rs\<close>). The evaluator's fields behind a \<open>Mutex\<close>
  change while it runs, so that every method takes the evaluator and returns it. A set is the sorted list
  of its labels. The regular expressions of the crate \<open>regex\<close> are a parameter: the function that compiles
  one, to its error or to the predicate \<open>is_match\<close>.
\<close>

section \<open>The evaluator\<close>

record query_options =
  implicit_deps :: bool
  tool_deps :: bool
  nodep_deps :: bool
  keep_going :: bool

definition default_options :: query_options where
  "default_options = \<lparr>implicit_deps = True, tool_deps = True, nodep_deps = True, keep_going = False\<rparr>"

type_synonym label_set = "label list"

record evaluator =
  ev_options :: query_options
  loaded :: "label \<rightharpoonup> node"
  listing :: "label list"
  skipped :: "string list"
  said_errors :: bool
  universe :: "label_set option"
  universe_packages :: "(string \<times> string) list"
  scope_errors :: "string list"
  scope_trees :: "string list"
  warnings :: "string list"

definition evaluator_new :: "query_options \<Rightarrow> evaluator" where
  "evaluator_new opts = \<lparr>ev_options = opts, loaded = Map.empty, listing = [], skipped = [], said_errors = False,
     universe = None, universe_packages = [], scope_errors = [], scope_trees = [], warnings = []\<rparr>"

type_synonym 'a ev = "evaluator \<Rightarrow> 'a ending \<times> evaluator"
type_synonym regex_crate = "string \<Rightarrow> (string, string \<Rightarrow> bool) result"
type_synonym env = "(string \<times> label_set) list"

definition ev_return :: "'a \<Rightarrow> 'a ev" where
  "ev_return x s = (Ok x, s)"

definition ev_fail :: "string \<Rightarrow> 'a ev" where
  "ev_fail e s = (Err e, s)"

definition ev_lift :: "(string, 'a) result \<Rightarrow> 'a ev" where
  "ev_lift r s = (ended r, s)"

definition ev_then :: "'a ev \<Rightarrow> ('a \<Rightarrow> 'b ev) \<Rightarrow> 'b ev" where
  "ev_then m f s =
     (case m s of
        (Ok x, s') \<Rightarrow> f x s'
      | (Err e, s') \<Rightarrow> (Err e, s')
      | (Panics, s') \<Rightarrow> (Panics, s')
      | (Loops, s') \<Rightarrow> (Loops, s'))"

text \<open>A \<open>for\<close> loop that an error leaves.\<close>

fun ev_fold :: "('b \<Rightarrow> 'a \<Rightarrow> 'a ev) \<Rightarrow> 'b list \<Rightarrow> 'a \<Rightarrow> 'a ev" where
  "ev_fold f [] x = ev_return x"
| "ev_fold f (y # ys) x = ev_then (f y x) (ev_fold f ys)"

text \<open>The loops that insert the labels for which a test holds, and all labels that a method answers.\<close>

definition ev_filter :: "(label \<Rightarrow> bool ev) \<Rightarrow> label_set \<Rightarrow> label_set ev" where
  "ev_filter test input =
     ev_fold (\<lambda>l out. ev_then (test l) (\<lambda>b. ev_return (if b then bset_insert l out else out))) input []"

definition ev_extend :: "(label \<Rightarrow> label list ev) \<Rightarrow> label_set \<Rightarrow> label_set ev" where
  "ev_extend f input =
     ev_fold (\<lambda>l out. ev_then (f l) (\<lambda>ls. ev_return (fold bset_insert ls out))) input []"

section \<open>Nodes and edges\<close>

definition node :: "graph \<Rightarrow> label \<Rightarrow> node ev" where
  "node G l s =
     (case loaded s l of
        Some n \<Rightarrow> (Ok n, s)
      | None \<Rightarrow>
          (case graph_node G l of
             Inl e \<Rightarrow> (Err e, s)
           | Inr n \<Rightarrow> (Ok n, s\<lparr>loaded := (loaded s)(l \<mapsto> n)\<rparr>)))"

text \<open>
  \<open>preload\<close> loads labels on several threads and drops the results. The graph answers a label the same
  whenever it is asked, so that the order of the threads does not show; the model loads in order.
\<close>

definition preload :: "graph \<Rightarrow> label list \<Rightarrow> evaluator \<Rightarrow> evaluator" where
  "preload G labels s =
     (let wanted = filter (\<lambda>l. loaded s l = None) labels
      in if length wanted < 2 then s else fold (\<lambda>l s. snd (node G l s)) wanted s)"

fun unrepeated :: "(label \<times> bool) list \<Rightarrow> edge list \<Rightarrow> edge list" where
  "unrepeated seen [] = []"
| "unrepeated seen (e # es) =
     (if (edge_to e, edge_aspect e) \<in> set seen then unrepeated seen es
      else e # unrepeated ((edge_to e, edge_aspect e) # seen) es)"

definition kept_edge :: "query_options \<Rightarrow> edge \<Rightarrow> bool" where
  "kept_edge opts e \<longleftrightarrow> (implicit_deps opts \<or> \<not> edge_implicit e) \<and> (tool_deps opts \<or> \<not> edge_tool e)
     \<and> (nodep_deps opts \<or> \<not> edge_nodep e)"

definition edges :: "query_options \<Rightarrow> node \<Rightarrow> edge list" where
  "edges opts n = unrepeated [] (filter (kept_edge opts) (node_edges n))"

section \<open>Closures\<close>

text \<open>The variables of the loop of \<open>deps_in\<close> over one level.\<close>

record closing =
  seen :: label_set
  next_level :: "label list"
  named_by :: "label \<rightharpoonup> label"
  failed :: bool

text \<open>The inner loop over the edges of a node: what is seen for the first time is in the next level.\<close>

fun follow_edges :: "label \<Rightarrow> edge list \<Rightarrow> closing \<Rightarrow> closing" where
  "follow_edges l [] c = c"
| "follow_edges l (e # es) c =
     follow_edges l es
       (if edge_to e \<in> set (seen c) then c
        else c\<lparr>seen := bset_insert (edge_to e) (seen c), named_by := (named_by c)(edge_to e \<mapsto> l),
               next_level := next_level c @ [edge_to e]\<rparr>)"

text \<open>
  A label whose node does not load, in the call written \<open>q\<close>: the error is said at the place of the rule that named
  it first, and \<open>--keep_going\<close> goes on without the label.
\<close>

definition report_unloaded :: "graph \<Rightarrow> string \<Rightarrow> label \<Rightarrow> string \<Rightarrow> closing \<Rightarrow> label \<Rightarrow> node \<Rightarrow> closing ev" where
  "report_unloaded G q l e c by_label n s =
     (let place = node_location n;
          said = (if prefix ''no such target '' e
                  then e @ '' and referenced by '' @ ticked (graph_display G by_label) else e);
          line = ''ERROR: '' @ place @ '': '' @ said
      in if \<not> keep_going (ev_options s)
         then (Err (place @ '': '' @ said @ [CHR 0x0A] @ ''ERROR: Evaluation of query '' @ [CHR 0x22] @ q @ [CHR 0x22]
           @ '' failed: preloading transitive closure failed: '' @ e), s)
         else (Ok (c\<lparr>failed := True, seen := filter (\<lambda>m. m \<noteq> l) (seen c)\<rparr>),
               s\<lparr>skipped := skipped s @ [line, line]\<rparr>))"

definition unloaded :: "graph \<Rightarrow> string option \<Rightarrow> label \<Rightarrow> string \<Rightarrow> closing \<Rightarrow> closing ev" where
  "unloaded G query l e c =
     (case (query, named_by c l) of
        (Some q, Some by_label) \<Rightarrow> ev_then (node G by_label) (report_unloaded G q l e c by_label)
      | _ \<Rightarrow> ev_fail e)"

definition follow :: "graph \<Rightarrow> string option \<Rightarrow> label \<Rightarrow> closing \<Rightarrow> closing ev" where
  "follow G query l c s =
     (case node G l s of
        (Ok n, s') \<Rightarrow> (Ok (follow_edges l (edges (ev_options s') n) c), s')
      | (Err e, s') \<Rightarrow> unloaded G query l e c s'
      | (Panics, s') \<Rightarrow> (Panics, s')
      | (Loops, s') \<Rightarrow> (Loops, s'))"

text \<open>The loop over the levels; \<open>None\<close> would be a loop that does not end.\<close>

partial_function (option) close_levels ::
  "graph \<Rightarrow> string option \<Rightarrow> nat option \<Rightarrow> nat \<Rightarrow> label list \<Rightarrow> closing \<Rightarrow> evaluator \<Rightarrow> (closing ending \<times> evaluator) option" where
  [code]: "close_levels G query depth level frontier c s =
     (if frontier = [] \<or> (case depth of Some d \<Rightarrow> d \<le> level | None \<Rightarrow> False) then Some (Ok c, s)
      else case ev_fold (follow G query) frontier (c\<lparr>next_level := []\<rparr>) (preload G frontier s) of
        (Ok c', s') \<Rightarrow> close_levels G query depth (Suc level) (next_level c') c' s'
      | (r, s') \<Rightarrow> Some (r, s'))"

definition or_loops :: "('a ending \<times> evaluator) option \<Rightarrow> 'a ev" where
  "or_loops r s = (case r of Some x \<Rightarrow> x | None \<Rightarrow> (Loops, s))"

definition deps_in :: "graph \<Rightarrow> label_set \<Rightarrow> nat option \<Rightarrow> string option \<Rightarrow> label_set ev" where
  "deps_in G roots depth query =
     ev_then
       (\<lambda>s. or_loops (close_levels G query depth 0 roots
          \<lparr>seen = roots, next_level = [], named_by = Map.empty, failed = False\<rparr> s) s)
       (\<lambda>c s. case (failed c, query) of
          (True, Some q) \<Rightarrow>
            (Ok (seen c), s\<lparr>skipped := skipped s @ [''ERROR: Evaluation of query '' @ [CHR 0x22] @ q @ [CHR 0x22]
               @ '' failed: errors were encountered while computing transitive closure'']\<rparr>)
        | _ \<Rightarrow> (Ok (seen c), s))"

definition deps :: "graph \<Rightarrow> label_set \<Rightarrow> nat option \<Rightarrow> label_set ev" where
  "deps G roots depth = deps_in G roots depth None"

text \<open>The map of \<open>reverse_closure\<close>: for each label the labels of the closure that have an edge to it, in order.\<close>

type_synonym reverse_map = "label \<Rightarrow> label list"

definition reverse_edges :: "graph \<Rightarrow> label_set \<Rightarrow> reverse_map ev" where
  "reverse_edges G closure =
     ev_fold (\<lambda>l rm. ev_then (node G l) (\<lambda>n s.
       (Ok (fold (\<lambda>e rm. rm(edge_to e := rm (edge_to e) @ [l])) (edges (ev_options s) n) rm), s)))
       closure (\<lambda>_. [])"

text \<open>One level of the search: the parents that are not seen, in order.\<close>

fun add_parents :: "label list \<Rightarrow> label_set \<times> label list \<Rightarrow> label_set \<times> label list" where
  "add_parents [] sn = sn"
| "add_parents (p # ps) (sn, nxt) =
     add_parents ps (if p \<in> set sn then (sn, nxt) else (bset_insert p sn, nxt @ [p]))"

partial_function (option) reverse_levels ::
  "reverse_map \<Rightarrow> nat option \<Rightarrow> nat \<Rightarrow> label list \<Rightarrow> label_set \<Rightarrow> label_set option" where
  [code]: "reverse_levels rm depth level frontier sn =
     (if frontier = [] \<or> (case depth of Some d \<Rightarrow> d \<le> level | None \<Rightarrow> False) then Some sn
      else case fold (\<lambda>l. add_parents (rm l)) frontier (sn, []) of
        (sn', nxt) \<Rightarrow> reverse_levels rm depth (Suc level) nxt sn')"

definition reverse_closure :: "graph \<Rightarrow> label_set \<Rightarrow> label_set \<Rightarrow> nat option \<Rightarrow> label_set ev" where
  "reverse_closure G closure targets depth =
     ev_then (reverse_edges G closure) (\<lambda>rm s.
       let start = filter (\<lambda>l. l \<in> set closure) targets
       in case reverse_levels rm depth 0 start start of
            Some sn \<Rightarrow> (Ok sn, s)
          | None \<Rightarrow> (Loops, s))"

definition rdeps :: "graph \<Rightarrow> label_set \<Rightarrow> label_set \<Rightarrow> nat option \<Rightarrow> label_set ev" where
  "rdeps G scope targets depth = ev_then (deps G scope None) (\<lambda>closure. reverse_closure G closure targets depth)"

text \<open>
  \<open>some_path\<close>: a breadth-first search whose queue is a list and whose parents are a map; a start has the
  parent \<open>None\<close>. The path is read back from the label that was found.
\<close>

type_synonym parents = "label \<rightharpoonup> label option"

fun enqueue_edges :: "label \<Rightarrow> edge list \<Rightarrow> parents \<times> label list \<Rightarrow> parents \<times> label list" where
  "enqueue_edges l [] pq = pq"
| "enqueue_edges l (e # es) (parent, queue) =
     enqueue_edges l es
       (if parent (edge_to e) = None then (parent(edge_to e \<mapsto> Some l), queue @ [edge_to e]) else (parent, queue))"

partial_function (option) path_back :: "parents \<Rightarrow> label option \<Rightarrow> label_set \<Rightarrow> label_set option" where
  [code]: "path_back parent at path =
     (case at of
        None \<Rightarrow> Some path
      | Some l \<Rightarrow> path_back parent (case parent l of Some p \<Rightarrow> p | None \<Rightarrow> None) (bset_insert l path))"

partial_function (option) search_path ::
  "graph \<Rightarrow> label_set \<Rightarrow> parents \<Rightarrow> label list \<Rightarrow> evaluator \<Rightarrow> (label_set ending \<times> evaluator) option" where
  [code]: "search_path G to_set parent queue s =
     (case queue of
        [] \<Rightarrow> Some (Ok [], s)
      | l # queue' \<Rightarrow>
          (if l \<in> set to_set then map_option (\<lambda>path. (Ok path, s)) (path_back parent (Some l) [])
           else case node G l s of
             (Ok n, s') \<Rightarrow>
               (case enqueue_edges l (edges (ev_options s') n) (parent, queue') of
                  (parent', queue'') \<Rightarrow> search_path G to_set parent' queue'' s')
           | (Err e, s') \<Rightarrow> Some (Err e, s')
           | (Panics, s') \<Rightarrow> Some (Panics, s')
           | (Loops, s') \<Rightarrow> Some (Loops, s')))"

definition some_path :: "graph \<Rightarrow> label_set \<Rightarrow> label_set \<Rightarrow> label_set ev" where
  "some_path G starts to_set s =
     or_loops (search_path G to_set (\<lambda>l. if l \<in> set starts then Some None else None) starts s) s"

section \<open>Patterns and the universe\<close>

definition trim_end_slashes :: "string \<Rightarrow> string" where
  "trim_end_slashes s = rev (dropWhile (\<lambda>c. c = CHR ''/'') (rev s))"

definition tree_of :: "string \<Rightarrow> string option" where
  "tree_of pattern = Option.bind (strip_prefix ''//'' pattern) (\<lambda>rest.
     map_option trim_end_slashes (strip_suffix ''...'' rest))"

text \<open>The roots of \<open>with_universe\<close>, with the patterns that do not load.\<close>

fun scope_roots :: "graph \<Rightarrow> string list \<Rightarrow> label_set \<Rightarrow> evaluator \<Rightarrow> label_set \<times> evaluator" where
  "scope_roots G [] roots s = (roots, s)"
| "scope_roots G (p # ps) roots s =
     (case graph_pattern G p of
        Inr labels \<Rightarrow> scope_roots G ps (fold bset_insert labels roots) s
      | Inl e \<Rightarrow>
          (let line = ''ERROR: Skipping '' @ ticked p @ '': '' @ e
           in scope_roots G ps roots
                (if keep_going (ev_options s) then s\<lparr>skipped := skipped s @ [line]\<rparr>
                 else s\<lparr>scope_errors := scope_errors s @ [line]\<rparr>)))"

definition with_universe :: "graph \<Rightarrow> string list \<Rightarrow> unit ev" where
  "with_universe G scope s =
     (case scope_roots G scope [] s of
        (roots, s1) \<Rightarrow>
          (let s2 = s1\<lparr>scope_trees := List.map_filter tree_of scope\<rparr>
           in ev_then (deps G roots None) (\<lambda>all s3.
                (Ok (), s3\<lparr>universe_packages := bset_from (map (\<lambda>l. (repo l, package l)) all), universe := Some all\<rparr>)) s2))"

definition with_listing :: "label list \<Rightarrow> evaluator \<Rightarrow> evaluator" where
  "with_listing ls s = s\<lparr>listing := ls\<rparr>"

definition listed_order :: "label_set \<Rightarrow> evaluator \<Rightarrow> label list" where
  "listed_order ls s =
     (let out = filter (\<lambda>l. l \<in> set ls) (listing s)
      in out @ filter (\<lambda>l. l \<notin> set out) ls)"

definition incomplete :: "evaluator \<Rightarrow> bool" where
  "incomplete s \<longleftrightarrow> skipped s \<noteq> [] \<or> said_errors s"

text \<open>The labels a pattern selects, leniently under \<open>--keep_going\<close>.\<close>

definition pattern_labels :: "graph \<Rightarrow> string \<Rightarrow> label list ev" where
  "pattern_labels G word s =
     (if keep_going (ev_options s) then
        (let found = graph_pattern_lenient G word
         in case found_error found of
              Some e \<Rightarrow>
                (if found_labels found = [] \<and> \<not> found_said found then (Err e, s)
                 else if found_said found then (Ok (found_labels found), s\<lparr>said_errors := True\<rparr>)
                 else (Ok (found_labels found), s\<lparr>skipped := skipped s @ [''ERROR: Skipping '' @ ticked word @ '': '' @ e]\<rparr>))
            | None \<Rightarrow> (Ok (found_labels found), s))
      else ev_lift (graph_pattern G word) s)"

definition outside_trees :: "string \<Rightarrow> evaluator \<Rightarrow> string option" where
  "outside_trees word s =
     (if universe s = None then None
      else Option.bind (tree_of word) (\<lambda>dir.
        if list_ex (\<lambda>t. t = [] \<or> dir = t \<or> prefix (t @ ''/'') dir) (scope_trees s) then None else Some dir))"

definition pattern_in :: "graph \<Rightarrow> string \<Rightarrow> label_set ev" where
  "pattern_in G word s =
     (case outside_trees word s of
        Some dir \<Rightarrow> (Err (''no targets found beneath '' @ ticked dir), s)
      | None \<Rightarrow>
          ev_then (pattern_labels G word) (\<lambda>labels s.
            if universe s = None \<or> labels = [] then (Ok (bset_from labels), s)
            else
              let inside = bset_from (filter (\<lambda>l. (repo l, package l) \<in> set (universe_packages s)) labels)
              in if inside \<noteq> [] then (Ok inside, s)
                 else case strip_suffix ''/...'' word of
                   Some dir \<Rightarrow>
                     (Err (''no targets found beneath ''
                        @ ticked (dropWhile (\<lambda>c. c = CHR ''@'') (dropWhile (\<lambda>c. c = CHR ''/'') dir))), s)
                 | None \<Rightarrow>
                     (Err (''no such package '' @ ticked (package (hd labels)) @ '': BUILD file not found on package path''), s)) s)"

definition within_universe :: "graph \<Rightarrow> label_set \<Rightarrow> bool \<Rightarrow> evaluator \<Rightarrow> (label_set \<times> label_set) \<times> evaluator" where
  "within_universe G targets warn s =
     (case universe s of
        None \<Rightarrow> ((targets, []), s)
      | Some u \<Rightarrow>
          (let inside = filter (\<lambda>l. l \<in> set u) targets; outside = filter (\<lambda>l. l \<notin> set u) targets
           in ((inside, outside),
               if warn \<and> outside \<noteq> []
               then s\<lparr>warnings := warnings s @ [''WARNING: Targets were missing from graph: [''
                       @ join '', '' (map (graph_display G) outside) @ '']'']\<rparr>
               else s)))"

definition bset_union :: "label_set \<Rightarrow> label_set \<Rightarrow> label_set" where
  "bset_union a b = fold bset_insert b a"

definition both_within_universe :: "graph \<Rightarrow> label_set \<Rightarrow> label_set \<Rightarrow> (label_set \<times> label_set) ev" where
  "both_within_universe G a b s =
     (case within_universe G (bset_union a b) True s of
        (_, s') \<Rightarrow>
          (let keep = filter (\<lambda>l. case universe s' of None \<Rightarrow> True | Some u \<Rightarrow> l \<in> set u)
           in (Ok (keep a, keep b), s')))"

text \<open>The packages of the universe, each with its first label, in order.\<close>

definition packages_of :: "label_set \<Rightarrow> ((string \<times> string) \<times> label) list" where
  "packages_of ls =
     fold (\<lambda>l m. if map_of m (repo l, package l) = None then btree_insert (repo l, package l) l m else m) ls []"

definition path_of :: "label \<Rightarrow> string" where
  "path_of l = (if package l = [] then lname l else package l @ ''/'' @ lname l)"

definition rbuildfiles :: "graph \<Rightarrow> string list \<Rightarrow> label_set ev" where
  "rbuildfiles G paths s =
     ev_fold (\<lambda>((r, p), l) out.
         ev_then (ev_lift (graph_build_files G l)) (\<lambda>files.
           ev_return
             (if \<not> list_ex (\<lambda>f. path_of f \<in> set paths) files then out
              else fold bset_insert (filter (\<lambda>f. repo f = r \<and> package f = p \<and> prefix ''BUILD'' (lname f)) files) out)))
       (packages_of (case universe s of Some u \<Rightarrow> u | None \<Rightarrow> [])) [] s"

section \<open>Tests\<close>

text \<open>\<open>QuerySuites\<close>: what the suite expansion asks, answered from the nodes that are loaded or the graph.\<close>

definition node_of :: "graph \<Rightarrow> evaluator \<Rightarrow> label \<Rightarrow> (string, node) result" where
  "node_of G s l = (case loaded s l of Some n \<Rightarrow> Inr n | None \<Rightarrow> graph_node G l)"

definition find_attr :: "node \<Rightarrow> string \<Rightarrow> node_attr option" where
  "find_attr n name = List.find (\<lambda>a. attr_name a = name) (node_attrs n)"

definition attr_strings :: "node \<Rightarrow> string \<Rightarrow> string list" where
  "attr_strings n name =
     (case map_option attr_value_of (find_attr n name) of Some (Val_StringList items) \<Rightarrow> items | _ \<Rightarrow> [])"

definition test_of :: "node \<Rightarrow> suite_test" where
  "test_of n =
     \<lparr>test_tags = attr_strings n ''tags'',
      test_size = (case map_option attr_value_of (find_attr n ''size'') of
        Some (Val_String sz) \<Rightarrow> if sz \<noteq> [] then sz else ''medium''
      | _ \<Rightarrow> ''medium'')\<rparr>"

definition member_of_node :: "node \<Rightarrow> suite_member" where
  "member_of_node n =
     (case node_kind_of n of
        Rule cls test _ _ \<Rightarrow>
          (if cls = ''test_suite'' then
             Suite (case find_attr n ''tests'' of Some a \<Rightarrow> attr_labels a | None \<Rightarrow> []) (attr_strings n ''tags'')
           else if test then Test (test_of n) else OtherMember)
      | _ \<Rightarrow> OtherMember)"

definition query_suites :: "graph \<Rightarrow> evaluator \<Rightarrow> suites" where
  "query_suites G s =
     \<lparr>suite_member_of = (\<lambda>l. case node_of G s l of Inl _ \<Rightarrow> Inr OtherMember | Inr n \<Rightarrow> Inr (member_of_node n)),
      package_tests = (\<lambda>l.
        and_then (graph_siblings G l) (\<lambda>sibs.
        and_then (collect_results (map (\<lambda>sib. and_then (node_of G s sib) (\<lambda>n. Inr (sib, n))) sibs)) (\<lambda>ns.
          Inr (map (\<lambda>(sib, n). (sib, test_of n))
            (filter (\<lambda>(_, n). case node_kind_of n of Rule _ test _ _ \<Rightarrow> test | _ \<Rightarrow> False) ns)))))\<rparr>"

definition tests_of :: "graph \<Rightarrow> label \<Rightarrow> label_set \<times> label_set \<Rightarrow> (label_set \<times> label_set) ev" where
  "tests_of G l so =
     (case so of (sn, out) \<Rightarrow>
        if l \<in> set sn then ev_return (sn, out)
        else ev_then (node G l) (\<lambda>n s.
          let sn' = bset_insert l sn
          in case node_kind_of n of
               Rule cls test _ _ \<Rightarrow>
                 (if cls = ''test_suite'' then
                    (case expand (query_suites G s) l False of
                       Some (Inr found) \<Rightarrow> (Ok (sn', fold bset_insert found out), s)
                     | Some (Inl _) \<Rightarrow> (Ok (sn', out), s)
                     | None \<Rightarrow> (Loops, s))
                  else if test then (Ok (sn', bset_insert l out), s)
                  else (Ok (sn', out), s))
             | _ \<Rightarrow> (Ok (sn', out), s)))"

section \<open>Expressions\<close>

text \<open>An argument of a call, whose expressions are the computations of their sets.\<close>

type_synonym evaluation = "env \<Rightarrow> label_set ev"

definition expr_arg :: "evaluation call \<Rightarrow> nat \<Rightarrow> env \<Rightarrow> label_set ev" where
  "expr_arg c at env s =
     (if length (call_args c) \<le> at then (Panics, s)
      else case call_args c ! at of
        Arg_Expr e \<Rightarrow> e env s
      | _ \<Rightarrow> (Err (function_name (call_function c) @ '': argument '' @ nat_display at @ '' is not an expression''), s))"

definition word_arg :: "'e call \<Rightarrow> nat \<Rightarrow> string ev" where
  "word_arg c at s =
     (if length (call_args c) \<le> at then (Panics, s)
      else case call_args c ! at of Arg_Word w \<Rightarrow> (Ok w, s) | _ \<Rightarrow> (Ok [], s))"

definition depth_arg :: "'e call \<Rightarrow> nat \<Rightarrow> nat option" where
  "depth_arg c at =
     (if length (call_args c) \<le> at then None
      else case call_args c ! at of Arg_Int n \<Rightarrow> Some (unat n) | _ \<Rightarrow> None)"

definition last_line :: "string \<Rightarrow> string" where
  "last_line s =
     (let ls = split_on (CHR 0x0A) s; ls' = (if last ls = [] then butlast ls else ls)
      in if ls' = [] then [] else last ls')"

definition trim :: "string \<Rightarrow> string" where
  "trim s = rev (dropWhile is_whitespace (rev (dropWhile is_whitespace s)))"

definition regex_in :: "regex_crate \<Rightarrow> string \<Rightarrow> string \<Rightarrow> (string \<Rightarrow> bool) ev" where
  "regex_in R name pattern =
     ev_lift (map_err (\<lambda>e. ''illegal '' @ ticked name @ '' pattern regexp '' @ ticked pattern @ '': '' @ trim (last_line e))
       (R pattern))"

section \<open>The functions of the language\<close>

definition call_deps :: "graph \<Rightarrow> expr call \<Rightarrow> evaluation call \<Rightarrow> env \<Rightarrow> label_set ev" where
  "call_deps G c cs env =
     ev_then (expr_arg cs 0 env) (\<lambda>roots s.
       case within_universe G roots True s of
         ((inside, outside), s') \<Rightarrow>
           ev_then (deps_in G inside (depth_arg c 1) (Some (expr_display (Expr_Call c)))) (\<lambda>out.
             ev_return (bset_union out outside)) s')"

definition call_rdeps :: "graph \<Rightarrow> expr call \<Rightarrow> evaluation call \<Rightarrow> env \<Rightarrow> label_set ev" where
  "call_rdeps G c cs env =
     ev_then (expr_arg cs 0 env) (\<lambda>scope.
     ev_then (expr_arg cs 1 env) (\<lambda>targets s.
       case within_universe G scope False s of
         ((inside, _), s') \<Rightarrow> rdeps G inside targets (depth_arg c 2) s'))"

definition call_allrdeps :: "graph \<Rightarrow> expr call \<Rightarrow> evaluation call \<Rightarrow> env \<Rightarrow> label_set ev" where
  "call_allrdeps G c cs env =
     ev_then (expr_arg cs 0 env) (\<lambda>targets s.
       case within_universe G targets False s of
         ((inside, outside), s') \<Rightarrow>
           ev_then (reverse_closure G (case universe s' of Some u \<Rightarrow> u | None \<Rightarrow> []) inside (depth_arg c 1)) (\<lambda>out.
             ev_return (bset_union out outside)) s')"

definition call_rbuildfiles :: "graph \<Rightarrow> expr call \<Rightarrow> label_set ev" where
  "call_rbuildfiles G c =
     ev_then (ev_fold (\<lambda>i ws. ev_then (word_arg c i) (\<lambda>w. ev_return (ws @ [w]))) [0..<length (call_args c)] [])
       (rbuildfiles G)"

definition call_somepath :: "graph \<Rightarrow> evaluation call \<Rightarrow> env \<Rightarrow> label_set ev" where
  "call_somepath G cs env =
     ev_then (expr_arg cs 0 env) (\<lambda>a.
     ev_then (expr_arg cs 1 env) (\<lambda>b.
     ev_then (both_within_universe G a b) (\<lambda>(a, b). some_path G a b)))"

definition call_allpaths :: "graph \<Rightarrow> evaluation call \<Rightarrow> env \<Rightarrow> label_set ev" where
  "call_allpaths G cs env =
     ev_then (expr_arg cs 0 env) (\<lambda>a.
     ev_then (expr_arg cs 1 env) (\<lambda>b.
     ev_then (both_within_universe G a b) (\<lambda>(a, b).
     ev_then (deps G a None) (\<lambda>reach.
     ev_then (rdeps G reach b None) (\<lambda>there.
       ev_return (filter (\<lambda>l. l \<in> set there) reach))))))"

definition call_action_filter :: "expr call \<Rightarrow> evaluation call \<Rightarrow> env \<Rightarrow> label_set ev" where
  "call_action_filter c cs env =
     (if length (call_args c) \<noteq> 2 then
        ev_then (word_arg c 0) (\<lambda>w.
          ev_fail (''Evaluation of query '' @ [CHR 0x22] @ function_name (call_function c) @ ''('' @ ticked w @ '')'' @ [CHR 0x22]
            @ '' failed: aquery filter functions (inputs, outputs, mnemonics) must have exactly 2 arguments,except when --skyframe_state is used.''))
      else expr_arg cs 1 env)"

definition unknown_configuration :: "string \<Rightarrow> string" where
  "unknown_configuration name =
     (let nl = [CHR 0x0A]
      in ''Evaluation failed: Unknown configuration ID '' @ ticked name @ ''.'' @ nl
         @ ''config()'' @ [CHR 0x27] @ ''s second argument must identify a unique configuration.'' @ nl @ nl
         @ ''Valid values:'' @ nl @ '' '' @ ticked ''target'' @ '' for the default configuration'' @ nl
         @ '' '' @ ticked ''null'' @ '' for source files (which have no configuration)'' @ nl
         @ '' an arbitrary configuration'' @ [CHR 0x27] @ ''s full or short ID'' @ nl @ nl
         @ ''A short ID is any prefix of a full ID. cquery shows short IDs. '' @ ticked ''bazel config'' @ '' shows full IDs.'' @ nl @ nl
         @ ''For more help, see https://bazel.build/docs/cquery.'')"

definition call_config :: "graph \<Rightarrow> expr call \<Rightarrow> evaluation call \<Rightarrow> env \<Rightarrow> label_set ev" where
  "call_config G c cs env =
     ev_then (word_arg c 1) (\<lambda>name.
       if name = ''host'' then
         ev_fail (''Evaluation failed: '' @ ticked ''host'' @ '' configuration no longer exists. Use a specific configuration hash instead'')
       else if \<not> is_configuration G name then ev_fail (unknown_configuration name)
       else ev_then (expr_arg cs 0 env) (\<lambda>input s.
         let out = filter (\<lambda>l. in_configuration G l name) input
         in if out = [] then
              (case call_args c ! 0 of
                 Arg_Expr e \<Rightarrow>
                   (Err (''Evaluation failed: No target (in) '' @ canonical e @ '' could be found in ''
                     @ (if name = ''target'' \<or> name = ''null'' then ''the '' @ ticked name @ '' configuration''
                        else ''the configuration with checksum '' @ ticked name)), s)
               | _ \<Rightarrow> (Panics, s))
            else (Ok out, s)))"

definition call_kind :: "graph \<Rightarrow> regex_crate \<Rightarrow> expr call \<Rightarrow> evaluation call \<Rightarrow> env \<Rightarrow> label_set ev" where
  "call_kind G R c cs env =
     ev_then (word_arg c 0) (\<lambda>w.
     ev_then (regex_in R ''kind'' w) (\<lambda>is_match.
     ev_then (expr_arg cs 1 env)
       (ev_filter (\<lambda>l. ev_then (node G l) (\<lambda>n. ev_return (is_match (description (node_kind_of n))))))))"

definition call_filter :: "graph \<Rightarrow> regex_crate \<Rightarrow> expr call \<Rightarrow> evaluation call \<Rightarrow> env \<Rightarrow> label_set ev" where
  "call_filter G R c cs env =
     ev_then (word_arg c 0) (\<lambda>w.
     ev_then (regex_in R ''filter'' w) (\<lambda>is_match.
     ev_then (expr_arg cs 1 env) (\<lambda>input. ev_return (filter (\<lambda>l. is_match (graph_display G l)) input))))"

definition attr_matches :: "string \<Rightarrow> (string \<Rightarrow> bool) \<Rightarrow> node \<Rightarrow> bool" where
  "attr_matches name is_match n \<longleftrightarrow> is_rule (node_kind_of n)
     \<and> list_ex (\<lambda>a. attr_name a = name \<and> \<not> attr_unset a \<and> \<not> prefix ''_'' (attr_name a) \<and> \<not> prefix ''$'' (attr_name a)
          \<and> is_match (attr_text a)) (node_attrs n)"

definition call_attr :: "graph \<Rightarrow> regex_crate \<Rightarrow> expr call \<Rightarrow> evaluation call \<Rightarrow> env \<Rightarrow> label_set ev" where
  "call_attr G R c cs env =
     ev_then (word_arg c 0) (\<lambda>name.
     ev_then (word_arg c 1) (\<lambda>w.
     ev_then (regex_in R ''attr'' w) (\<lambda>is_match.
     ev_then (expr_arg cs 2 env)
       (ev_filter (\<lambda>l. ev_then (node G l) (\<lambda>n. ev_return (attr_matches name is_match n)))))))"

definition call_labels :: "graph \<Rightarrow> expr call \<Rightarrow> evaluation call \<Rightarrow> env \<Rightarrow> label_set ev" where
  "call_labels G c cs env =
     ev_then (word_arg c 0) (\<lambda>name.
     ev_then (expr_arg cs 1 env)
       (ev_extend (\<lambda>l. ev_then (node G l) (\<lambda>n.
          ev_return (case find_attr n name of Some a \<Rightarrow> attr_labels a | None \<Rightarrow> [])))))"

definition call_tests :: "graph \<Rightarrow> evaluation call \<Rightarrow> env \<Rightarrow> label_set ev" where
  "call_tests G cs env =
     ev_then (expr_arg cs 0 env) (\<lambda>input.
     ev_then (ev_fold (tests_of G) input ([], [])) (\<lambda>(sn, out). ev_return out))"

definition call_some :: "evaluation call \<Rightarrow> env \<Rightarrow> label_set ev" where
  "call_some cs env =
     ev_then (expr_arg cs 0 env) (\<lambda>input.
       case input of l # _ \<Rightarrow> ev_return [l] | [] \<Rightarrow> ev_fail ''argument set is empty'')"

definition call_siblings :: "graph \<Rightarrow> evaluation call \<Rightarrow> env \<Rightarrow> label_set ev" where
  "call_siblings G cs env = ev_then (expr_arg cs 0 env) (ev_extend (\<lambda>l. ev_lift (graph_siblings G l)))"

definition call_same_pkg_direct_rdeps :: "graph \<Rightarrow> evaluation call \<Rightarrow> env \<Rightarrow> label_set ev" where
  "call_same_pkg_direct_rdeps G cs env =
     ev_then (expr_arg cs 0 env) (\<lambda>input.
       ev_fold (\<lambda>l out.
         ev_then (ev_lift (graph_siblings G l)) (\<lambda>sibs.
         ev_fold (\<lambda>sib out.
           ev_then (node G sib) (\<lambda>n s.
             (Ok (if list_ex (\<lambda>e. edge_to e = l) (edges (ev_options s) n) then bset_insert sib out else out), s)))
           sibs out)) input [])"

definition call_buildfiles :: "graph \<Rightarrow> evaluation call \<Rightarrow> env \<Rightarrow> label_set ev" where
  "call_buildfiles G cs env = ev_then (expr_arg cs 0 env) (ev_extend (\<lambda>l. ev_lift (graph_build_files G l)))"

definition call_loadfiles :: "graph \<Rightarrow> evaluation call \<Rightarrow> env \<Rightarrow> label_set ev" where
  "call_loadfiles G cs env = ev_then (expr_arg cs 0 env) (ev_extend (\<lambda>l. ev_lift (graph_load_files G l)))"

definition call_executables :: "graph \<Rightarrow> evaluation call \<Rightarrow> env \<Rightarrow> label_set ev" where
  "call_executables G cs env =
     ev_then (expr_arg cs 0 env)
       (ev_filter (\<lambda>l. ev_then (node G l) (\<lambda>n.
          ev_return (case node_kind_of n of Rule _ _ executable _ \<Rightarrow> executable | _ \<Rightarrow> False))))"

text \<open>A target is left out at the first of the labels that may not see it.\<close>

fun seen_by_all :: "graph \<Rightarrow> label list \<Rightarrow> label \<Rightarrow> bool ev" where
  "seen_by_all G [] l = ev_return True"
| "seen_by_all G (p # ps) l =
     ev_then (ev_lift (graph_visible G p l)) (\<lambda>v. if v then seen_by_all G ps l else ev_return False)"

definition call_visible :: "graph \<Rightarrow> evaluation call \<Rightarrow> env \<Rightarrow> label_set ev" where
  "call_visible G cs env =
     ev_then (expr_arg cs 0 env) (\<lambda>preds.
     ev_then (expr_arg cs 1 env) (ev_filter (seen_by_all G preds)))"

definition eval_call :: "graph \<Rightarrow> regex_crate \<Rightarrow> expr call \<Rightarrow> evaluation call \<Rightarrow> env \<Rightarrow> label_set ev" where
  "eval_call G R c cs env =
     (case call_function c of
        Fn_Deps \<Rightarrow> call_deps G c cs env
      | Fn_RDeps \<Rightarrow> call_rdeps G c cs env
      | Fn_AllRDeps \<Rightarrow> call_allrdeps G c cs env
      | Fn_RBuildFiles \<Rightarrow> call_rbuildfiles G c
      | Fn_SomePath \<Rightarrow> call_somepath G cs env
      | Fn_AllPaths \<Rightarrow> call_allpaths G cs env
      | Fn_Inputs \<Rightarrow> call_action_filter c cs env
      | Fn_Mnemonic \<Rightarrow> call_action_filter c cs env
      | Fn_Outputs \<Rightarrow> call_action_filter c cs env
      | Fn_Config \<Rightarrow> call_config G c cs env
      | Fn_Kind \<Rightarrow> call_kind G R c cs env
      | Fn_Filter \<Rightarrow> call_filter G R c cs env
      | Fn_Attr \<Rightarrow> call_attr G R c cs env
      | Fn_Labels \<Rightarrow> call_labels G c cs env
      | Fn_Tests \<Rightarrow> call_tests G cs env
      | Fn_Some \<Rightarrow> call_some cs env
      | Fn_Siblings \<Rightarrow> call_siblings G cs env
      | Fn_SamePkgDirectRDeps \<Rightarrow> call_same_pkg_direct_rdeps G cs env
      | Fn_BuildFiles \<Rightarrow> call_buildfiles G cs env
      | Fn_LoadFiles \<Rightarrow> call_loadfiles G cs env
      | Fn_Executables \<Rightarrow> call_executables G cs env
      | Fn_Visible \<Rightarrow> call_visible G cs env)"

section \<open>Evaluation\<close>

definition subquery :: "string \<Rightarrow> string" where
  "subquery word = ''Evaluation of subquery '' @ [CHR 0x22] @ word @ [CHR 0x22] @ '' failed (did you want to use --keep_going?): ''"

definition eval_word :: "graph \<Rightarrow> string \<Rightarrow> label_set ev" where
  "eval_word G word s =
     (case pattern_in G word s of
        (Err e, s') \<Rightarrow>
          (if keep_going (ev_options s') then
             (Ok [], s'\<lparr>skipped := skipped s' @
               [if universe s' \<noteq> None
                then ''ERROR: Evaluation of query '' @ [CHR 0x22] @ word @ [CHR 0x22] @ '' failed: '' @ e
                else ''ERROR: Skipping '' @ ticked word @ '': '' @ e]\<rparr>)
           else if universe s' \<noteq> None then (Err (subquery word @ e), s')
           else (Err e, s'))
      | r \<Rightarrow> r)"

definition eval_variable :: "string \<Rightarrow> env \<Rightarrow> label_set ev" where
  "eval_variable name env =
     (case map_of (rev env) name of
        Some v \<Rightarrow> ev_return v
      | None \<Rightarrow> ev_fail (subquery (CHR ''$'' # name) @ ''undefined variable '' @ ticked name))"

definition eval_set :: "graph \<Rightarrow> string list \<Rightarrow> label_set ev" where
  "eval_set G ws =
     ev_fold (\<lambda>word out s.
       case pattern_in G word s of
         (Ok ls, s') \<Rightarrow> (Ok (bset_union out ls), s')
       | (Err e, s') \<Rightarrow> (Err (if universe s' \<noteq> None then subquery word @ e else e), s')
       | r \<Rightarrow> r) ws []"

fun combine :: "op \<Rightarrow> label_set \<Rightarrow> label_set \<Rightarrow> label_set" where
  "combine Op_Union a b = bset_union a b"
| "combine Op_Intersect a b = filter (\<lambda>l. l \<in> set b) a"
| "combine Op_Except a b = filter (\<lambda>l. l \<notin> set b) a"

text \<open>Both operands are evaluated; the error of the right one is reported before that of the left one.\<close>

definition eval_binary :: "op \<Rightarrow> label_set ev \<Rightarrow> label_set ev \<Rightarrow> label_set ev" where
  "eval_binary op l r s =
     (case l s of
        (Panics, s1) \<Rightarrow> (Panics, s1)
      | (Loops, s1) \<Rightarrow> (Loops, s1)
      | (left, s1) \<Rightarrow>
          (case r s1 of
             (Ok b, s2) \<Rightarrow> (ok_then left (\<lambda>a. Ok (combine op a b)), s2)
           | res \<Rightarrow> res))"

primrec eval_in :: "graph \<Rightarrow> regex_crate \<Rightarrow> expr \<Rightarrow> evaluation" where
  "eval_in G R (Expr_Word w) env = eval_word G w"
| "eval_in G R (Expr_Variable v) env = eval_variable v env"
| "eval_in G R (Expr_Set ws) env = eval_set G ws"
| "eval_in G R (Expr_Binary op l r) env = eval_binary op (eval_in G R l env) (eval_in G R r env)"
| "eval_in G R (Expr_Let n value body) env =
     ev_then (eval_in G R value env) (\<lambda>v. eval_in G R body (env @ [(n, v)]))"
| "eval_in G R (Expr_Call c) env = eval_call G R c (map_call (eval_in G R) c) env"

definition eval :: "graph \<Rightarrow> regex_crate \<Rightarrow> expr \<Rightarrow> label_set ev" where
  "eval G R e s =
     (case (e, eval_in G R e [] s) of
        (Expr_Word word, (Err msg, s')) \<Rightarrow>
          (if universe s' \<noteq> None then
             (Err (case strip_prefix (subquery word) msg of
                Some rest \<Rightarrow> ''Evaluation of query '' @ [CHR 0x22] @ word @ [CHR 0x22] @ '' failed: '' @ rest
              | None \<Rightarrow> msg), s')
           else (Err msg, s'))
      | (_, out) \<Rightarrow> out)"

text \<open>The closure \<open>push\<close> keeps the first of equal labels.\<close>

fun remdups_first :: "label list \<Rightarrow> label list" where
  "remdups_first [] = []"
| "remdups_first (l # ls) = l # filter (\<lambda>m. m \<noteq> l) (remdups_first ls)"

text \<open>\<open>eval_ordered\<close>: the labels it pushes, of which the repeated ones are dropped.\<close>

primrec ordered :: "graph \<Rightarrow> regex_crate \<Rightarrow> expr \<Rightarrow> label list ev" where
  "ordered G R (Expr_Word w) = ev_then (ev_lift (graph_pattern G w)) (\<lambda>ls. ev_return (bset_from ls))"
| "ordered G R (Expr_Set ws) =
     ev_then (ev_fold (\<lambda>w out. ev_then (ev_lift (graph_pattern G w)) (\<lambda>ls. ev_return (out @ bset_from ls))) ws [])
       (\<lambda>ls. ev_return (remdups_first ls))"
| "ordered G R (Expr_Binary op l r) =
     (case op of
        Op_Union \<Rightarrow>
          ev_then (ordered G R l) (\<lambda>a. ev_then (ordered G R r) (\<lambda>b. ev_return (remdups_first (a @ b))))
      | _ \<Rightarrow>
          ev_then (eval G R r) (\<lambda>b. ev_then (ordered G R l) (\<lambda>a.
            ev_return (filter (\<lambda>x. (x \<in> set b) = (op = Op_Intersect)) a))))"
| "ordered G R (Expr_Variable v) = eval G R (Expr_Variable v)"
| "ordered G R (Expr_Let n value body) = eval G R (Expr_Let n value body)"
| "ordered G R (Expr_Call c) = eval G R (Expr_Call c)"

end
