(* ===== verification/Graph_Search.thy ===== *)
theory Graph_Search
  imports Main
begin

text \<open>
  Searching a graph breadth first, for any relation: the nodes within a number of steps, which a search by levels
  finds, and the distance of a node, which a search with a queue respects.
\<close>

section \<open>Levels\<close>

definition near :: "('a \<Rightarrow> 'a \<Rightarrow> bool) \<Rightarrow> 'a set \<Rightarrow> nat \<Rightarrow> 'a set" where
  "near R A k = {m. \<exists>l \<in> A. \<exists>j \<le> k. (R ^^ j) l m}"

definition reached :: "('a \<Rightarrow> 'a \<Rightarrow> bool) \<Rightarrow> 'a set \<Rightarrow> 'a set" where
  "reached R A = {m. \<exists>l \<in> A. R\<^sup>*\<^sup>* l m}"

text \<open>What is reached within a bound, if there is one.\<close>

definition within :: "('a \<Rightarrow> 'a \<Rightarrow> bool) \<Rightarrow> 'a set \<Rightarrow> nat option \<Rightarrow> 'a set" where
  "within R A depth = (case depth of Some d \<Rightarrow> near R A d | None \<Rightarrow> reached R A)"

definition level :: "('a \<Rightarrow> 'a \<Rightarrow> bool) \<Rightarrow> 'a set \<Rightarrow> nat \<Rightarrow> 'a set" where
  "level R A k = (case k of 0 \<Rightarrow> A | Suc j \<Rightarrow> near R A k - near R A j)"

lemma near_0: "near R A 0 = A"
  by (auto simp: near_def)

lemma near_Suc: "near R A (Suc k) = near R A k \<union> {m. \<exists>l \<in> near R A k. R l m}"
proof -
  have "(\<exists>j \<le> Suc k. (R ^^ j) l m) \<longleftrightarrow> (\<exists>j \<le> k. (R ^^ j) l m) \<or> (\<exists>j \<le> k. \<exists>n. (R ^^ j) l n \<and> R n m)" for l m
  proof
    assume "\<exists>j \<le> Suc k. (R ^^ j) l m"
    then obtain j where j: "j \<le> Suc k" "(R ^^ j) l m" by blast
    then show "(\<exists>j \<le> k. (R ^^ j) l m) \<or> (\<exists>j \<le> k. \<exists>n. (R ^^ j) l n \<and> R n m)"
      by (cases j) (auto simp: OO_def)
  next
    assume "(\<exists>j \<le> k. (R ^^ j) l m) \<or> (\<exists>j \<le> k. \<exists>n. (R ^^ j) l n \<and> R n m)"
    then show "\<exists>j \<le> Suc k. (R ^^ j) l m"
    proof
      assume "\<exists>j \<le> k. (R ^^ j) l m"
      then show ?thesis using le_SucI by blast
    next
      assume "\<exists>j \<le> k. \<exists>n. (R ^^ j) l n \<and> R n m"
      then obtain j n where "j \<le> k" "(R ^^ j) l n" "R n m" by blast
      then show ?thesis by (intro exI [of _ "Suc j"]) (auto simp: OO_def)
    qed
  qed
  then show ?thesis unfolding near_def by blast
qed

lemma near_mono: "j \<le> k \<Longrightarrow> near R A j \<subseteq> near R A k"
  by (auto simp: near_def) (meson order_trans)

lemma near_reached: "near R A k \<subseteq> reached R A"
  by (auto simp: near_def reached_def dest: relpowp_imp_rtranclp)

lemma level_near: "level R A k \<subseteq> near R A k"
  by (cases k) (auto simp: level_def near_0)

lemma near_Suc_level: "near R A (Suc k) = near R A k \<union> {m. \<exists>l \<in> level R A k. R l m}"
proof (cases k)
  case 0
  then show ?thesis by (simp add: near_Suc level_def near_0)
next
  case (Suc j)
  have "m \<in> near R A k" if "l \<in> near R A j" "R l m" for l m
    using that unfolding Suc near_Suc by blast
  then have "near R A k \<union> {m. \<exists>l \<in> near R A k. R l m} = near R A k \<union> {m. \<exists>l \<in> near R A k - near R A j. R l m}"
    by blast
  then show ?thesis unfolding near_Suc [of R A k] by (simp only: Suc level_def nat.case)
qed

lemma level_Suc: "level R A (Suc k) = {m. \<exists>l \<in> level R A k. R l m} - near R A k"
  using near_Suc_level [of R A k] by (auto simp: level_def)

lemma level_empty:
  assumes "level R A k = {}"
  shows "near R A (k + i) = near R A k" "reached R A = near R A k"
proof -
  have closed: "m \<in> near R A k" if "l \<in> near R A k" "R l m" for l m
    using that near_Suc_level [of R A k] assms near_Suc [of R A k] by blast
  show "near R A (k + i) = near R A k"
    by (induction i) (use closed in \<open>auto simp: near_Suc\<close>)
  have "m \<in> near R A k" if "R\<^sup>*\<^sup>* l m" "l \<in> A" for l m
    using that(1)
  proof (induction rule: rtranclp_induct)
    case base
    show ?case using that(2) near_mono [of 0 k R A] by (auto simp: near_0)
  qed (rule closed)
  then show "reached R A = near R A k" using near_reached [of R A k] by (auto simp: reached_def)
qed

text \<open>Where a search by levels stops: at the bound, or at an empty level before it.\<close>

lemma within_bound: "within R A (Some d) = near R A d"
  by (simp add: within_def)

lemma within_empty_level:
  assumes "level R A k = {}" "case depth of Some d \<Rightarrow> k \<le> d | None \<Rightarrow> True"
  shows "within R A depth = near R A k"
proof (cases depth)
  case (Some d)
  then obtain i where "d = k + i" using assms(2) le_Suc_ex by auto
  then show ?thesis using level_empty(1) [OF assms(1)] Some by (simp add: within_def)
qed (use level_empty(2) [OF assms(1)] in \<open>simp add: within_def\<close>)

lemma reached_idem: "reached R (reached R A) = reached R A"
  unfolding reached_def by (auto intro: rtranclp_trans)

lemma level_progress:
  assumes "finite (reached R A)" "level R A (Suc k) \<noteq> {}"
  shows "card (reached R A - near R A (Suc k)) < card (reached R A - near R A k)"
proof -
  obtain x where "x \<in> near R A (Suc k)" "x \<notin> near R A k" using assms(2) by (auto simp: level_def)
  then have "reached R A - near R A (Suc k) \<subset> reached R A - near R A k"
    using near_reached [of R A "Suc k"] near_mono [of k "Suc k" R A] by auto
  then show ?thesis using assms(1) by (simp add: psubset_card_mono)
qed

text \<open>
  A loop over levels: it stops at an empty level or at the bound, and otherwise a turn either ends the search early or goes on
  with the successors of the level that were not seen. Whatever its state is, the loop returns, and unless it ended early its
  result is the set of what is within the bound.
\<close>

locale level_loop =
  fixes R :: "'a \<Rightarrow> 'a \<Rightarrow> bool"
    and depth :: "nat option"
    and loop :: "nat \<Rightarrow> 'a list \<Rightarrow> 's \<Rightarrow> 'r option"
    and state_ok :: "'s \<Rightarrow> 'a set \<Rightarrow> bool"
    and result_ok :: "'r \<Rightarrow> 'a set \<Rightarrow> bool"
    and early :: "'r \<Rightarrow> bool"
  assumes stop: "ls = [] \<or> (case depth of Some d \<Rightarrow> d \<le> k | None \<Rightarrow> False) \<Longrightarrow> state_ok s S \<Longrightarrow>
      \<exists>r. loop k ls s = Some r \<and> result_ok r S"
    and step: "ls \<noteq> [] \<Longrightarrow> (case depth of Some d \<Rightarrow> k < d | None \<Rightarrow> True) \<Longrightarrow> state_ok s S \<Longrightarrow>
      (\<exists>r. loop k ls s = Some r \<and> early r)
      \<or> (\<exists>nxt t. loop k ls s = loop (Suc k) nxt t \<and> state_ok t (S \<union> {m. \<exists>l \<in> set ls. R l m})
          \<and> set nxt = {m. \<exists>l \<in> set ls. R l m} - S)"
begin

lemma loop_within:
  assumes "finite (reached R A)" "state_ok s (near R A k)" "set ls = level R A k"
    and "case depth of Some d \<Rightarrow> k \<le> d | None \<Rightarrow> True"
  shows "\<exists>r. loop k ls s = Some r \<and> (early r \<or> result_ok r (within R A depth))"
  using assms(2-4)
proof (induction "card (reached R A - near R A k)" arbitrary: k ls s rule: less_induct)
  case less
  show ?case
  proof (cases "ls = [] \<or> (case depth of Some d \<Rightarrow> d \<le> k | None \<Rightarrow> False)")
    case True
    have "within R A depth = near R A k"
    proof (cases "ls = []")
      case True
      then show ?thesis using less.prems by (intro within_empty_level) simp_all
    next
      case False
      then obtain d where "depth = Some d" "d = k" using True less.prems(3) by (auto split: option.splits)
      then show ?thesis by (simp add: within_bound)
    qed
    then show ?thesis using stop [OF True less.prems(1)] by auto
  next
    case False
    then have go: "ls \<noteq> []" "case depth of Some d \<Rightarrow> k < d | None \<Rightarrow> True" by (auto split: option.splits)
    from step [OF go less.prems(1)] show ?thesis
    proof
      assume "\<exists>nxt t. loop k ls s = loop (Suc k) nxt t \<and> state_ok t (near R A k \<union> {m. \<exists>l \<in> set ls. R l m})
          \<and> set nxt = {m. \<exists>l \<in> set ls. R l m} - near R A k"
      then obtain nxt t where t: "loop k ls s = loop (Suc k) nxt t" "state_ok t (near R A (Suc k))"
          "set nxt = level R A (Suc k)"
        using less.prems(2) by (auto simp: near_Suc_level level_Suc)
      have bound: "case depth of Some d \<Rightarrow> Suc k \<le> d | None \<Rightarrow> True" using go(2) by (auto split: option.splits)
      show ?thesis
      proof (cases "nxt = []")
        case True
        then have "within R A depth = near R A (Suc k)" using t(3) bound by (intro within_empty_level) simp_all
        then show ?thesis using stop [OF disjI1 [OF True] t(2)] t(1) by auto
      next
        case False
        then have "card (reached R A - near R A (Suc k)) < card (reached R A - near R A k)"
          using t(3) by (intro level_progress [OF assms(1)]) auto
        from less.hyps [OF this t(2,3) bound] show ?thesis using t(1) by simp
      qed
    qed auto
  qed
qed

lemma loop_from_start:
  assumes "finite (reached R A)" "state_ok s A" "set ls = A"
  shows "\<exists>r. loop 0 ls s = Some r \<and> (early r \<or> result_ok r (within R A depth))"
  by (rule loop_within [OF assms(1)]) (use assms in \<open>simp_all add: near_0 level_def split: option.splits\<close>)

end

section \<open>Distance\<close>

definition dist :: "('a \<Rightarrow> 'a \<Rightarrow> bool) \<Rightarrow> 'a set \<Rightarrow> 'a \<Rightarrow> nat" where
  "dist R A m = (LEAST k. m \<in> near R A k)"

lemma reached_near: "m \<in> reached R A \<longleftrightarrow> (\<exists>k. m \<in> near R A k)"
proof
  assume "m \<in> reached R A"
  then obtain l k where "l \<in> A" "(R ^^ k) l m" by (auto simp: reached_def dest: rtranclp_imp_relpowp)
  then show "\<exists>k. m \<in> near R A k" unfolding near_def by blast
qed (use near_reached in fast)

lemma dist_near: "m \<in> reached R A \<Longrightarrow> m \<in> near R A (dist R A m)"
  unfolding dist_def reached_near by (rule LeastI_ex)

lemma dist_le: "m \<in> near R A k \<Longrightarrow> dist R A m \<le> k"
  unfolding dist_def by (rule Least_le)

lemma dist_iff: "m \<in> reached R A \<Longrightarrow> m \<in> near R A k \<longleftrightarrow> dist R A m \<le> k"
  using dist_near [of m R A] dist_le [of m R A k] near_mono [of "dist R A m" k R A] by blast

lemma dist_step:
  assumes "l \<in> reached R A" "R l m"
  shows "m \<in> reached R A" "dist R A m \<le> Suc (dist R A l)"
proof -
  have m: "m \<in> near R A (Suc (dist R A l))" using dist_near [OF assms(1)] assms(2) unfolding near_Suc by blast
  then show "m \<in> reached R A" using near_reached by fast
  show "dist R A m \<le> Suc (dist R A l)" using m by (rule dist_le)
qed

lemma dist_0: "m \<in> reached R A \<Longrightarrow> dist R A m = 0 \<longleftrightarrow> m \<in> A"
  using dist_iff [of m R A 0] by (simp add: near_0)

lemma dist_pred:
  assumes "m \<in> reached R A" "dist R A m = Suc k"
  shows "\<exists>l. l \<in> reached R A \<and> R l m \<and> dist R A l = k"
proof -
  have "m \<in> near R A (Suc k)" "m \<notin> near R A k" using assms dist_iff [OF assms(1)] by simp_all
  then obtain l where l: "l \<in> near R A k" "R l m" unfolding near_Suc by blast
  have r: "l \<in> reached R A" using l(1) near_reached by fast
  have "dist R A l \<le> k" using l(1) by (rule dist_le)
  moreover have "Suc k \<le> Suc (dist R A l)" using dist_step [of l R A m] r l(2) assms(2) by simp
  ultimately show ?thesis using r l(2) by auto
qed

text \<open>A path as the list of its nodes, and the shortest ones between two sets.\<close>

definition path_between :: "('a \<Rightarrow> 'a \<Rightarrow> bool) \<Rightarrow> 'a set \<Rightarrow> 'a set \<Rightarrow> 'a list \<Rightarrow> bool" where
  "path_between R A B ps \<longleftrightarrow> ps \<noteq> [] \<and> successively R ps \<and> hd ps \<in> A \<and> last ps \<in> B"

definition shortest_path :: "('a \<Rightarrow> 'a \<Rightarrow> bool) \<Rightarrow> 'a set \<Rightarrow> 'a set \<Rightarrow> 'a list \<Rightarrow> bool" where
  "shortest_path R A B ps \<longleftrightarrow> path_between R A B ps \<and> (\<forall>qs. path_between R A B qs \<longrightarrow> length ps \<le> length qs)"

lemma path_dist:
  assumes "successively R ps" "ps \<noteq> []" "hd ps \<in> A"
  shows "last ps \<in> reached R A \<and> dist R A (last ps) < length ps"
  using assms
proof (induction ps rule: rev_induct)
  case (snoc p ps)
  show ?case
  proof (cases "ps = []")
    case True
    have "p \<in> reached R A" using snoc.prems(3) True by (auto simp: reached_def)
    moreover have "p \<in> near R A 0" using snoc.prems(3) True by (simp add: near_0)
    then have "dist R A p \<le> 0" by (rule dist_le)
    ultimately show ?thesis using True by simp
  next
    case False
    have ih: "last ps \<in> reached R A" "dist R A (last ps) < length ps"
      using snoc False by (auto simp: successively_append_iff)
    have "R (last ps) p" using snoc.prems(1) False by (auto simp: successively_append_iff)
    then show ?thesis using dist_step [OF ih(1)] ih(2) by fastforce
  qed
qed simp

lemma shortest_pathI:
  assumes "path_between R A B ps" "length ps = Suc (dist R A (last ps))"
    and "\<And>m. m \<in> B \<Longrightarrow> m \<in> reached R A \<Longrightarrow> dist R A (last ps) \<le> dist R A m"
  shows "shortest_path R A B ps"
  unfolding shortest_path_def
proof (intro conjI allI impI)
  fix qs
  assume "path_between R A B qs"
  then have "last qs \<in> B" "last qs \<in> reached R A \<and> dist R A (last qs) < length qs"
    using path_dist [of R qs A] by (auto simp: path_between_def)
  then show "length ps \<le> length qs" using assms(2,3) by fastforce
qed (rule assms(1))

section \<open>Breadth-first search with a queue\<close>

text \<open>
  The state of a search from \<open>A\<close> for \<open>B\<close>: every label that was met has a parent, which is one step closer, or is a start. The
  queue is in the order of the distances, which differ by one at most, and what was met and is not in the queue is not in
  \<open>B\<close> and has its successors met.
\<close>

definition parent_ok :: "('a \<Rightarrow> 'a \<Rightarrow> bool) \<Rightarrow> 'a set \<Rightarrow> ('a \<rightharpoonup> 'a option) \<Rightarrow> bool" where
  "parent_ok R A parent \<longleftrightarrow> A \<subseteq> dom parent \<and> dom parent \<subseteq> reached R A
     \<and> (\<forall>l. parent l = Some None \<longrightarrow> l \<in> A)
     \<and> (\<forall>l p. parent l = Some (Some p) \<longrightarrow> p \<in> dom parent \<and> R p l \<and> dist R A l = Suc (dist R A p))"

definition queue_ok :: "('a \<Rightarrow> 'a \<Rightarrow> bool) \<Rightarrow> 'a set \<Rightarrow> 'a set \<Rightarrow> 'a list \<Rightarrow> bool" where
  "queue_ok R A D queue \<longleftrightarrow> set queue \<subseteq> D \<and> sorted (map (dist R A) queue)
     \<and> (queue \<noteq> [] \<longrightarrow> (\<forall>m \<in> set queue. dist R A m \<le> Suc (dist R A (hd queue)))
          \<and> (\<forall>m \<in> reached R A. dist R A m \<le> dist R A (hd queue) \<longrightarrow> m \<in> D))"

definition visited_ok :: "('a \<Rightarrow> 'a \<Rightarrow> bool) \<Rightarrow> 'a set \<Rightarrow> 'a set \<Rightarrow> 'a list \<Rightarrow> bool" where
  "visited_ok R B D queue \<longleftrightarrow> (\<forall>l \<in> D - set queue. l \<notin> B \<and> {m. R l m} \<subseteq> D)"

definition bfs_ok :: "('a \<Rightarrow> 'a \<Rightarrow> bool) \<Rightarrow> 'a set \<Rightarrow> 'a set \<Rightarrow> ('a \<rightharpoonup> 'a option) \<Rightarrow> 'a list \<Rightarrow> bool" where
  "bfs_ok R A B parent queue \<longleftrightarrow>
     parent_ok R A parent \<and> queue_ok R A (dom parent) queue \<and> visited_ok R B (dom parent) queue"

lemma bfs_start:
  assumes "set queue = A"
  shows "bfs_ok R A B (\<lambda>l. if l \<in> A then Some None else None) queue"
proof -
  have dom: "dom (\<lambda>l. if l \<in> A then Some None else None) = A" by (auto split: if_splits)
  have r: "l \<in> reached R A" if "l \<in> A" for l using that by (auto simp: reached_def)
  then have d: "dist R A l = 0" if "l \<in> A" for l using that dist_0 [of l R A] by blast
  have "map (dist R A) queue = replicate (length queue) 0"
    using d assms by (auto simp: map_replicate_const [symmetric] intro!: map_cong)
  then have "sorted (map (dist R A) queue)" by simp
  moreover have "m \<in> A" if "m \<in> reached R A" "dist R A m \<le> dist R A (hd queue)" "queue \<noteq> []" for m
  proof -
    have "hd queue \<in> A" using that(3) assms by (metis list.set_sel(1))
    then have "dist R A m = 0" using that(2) d by simp
    then show ?thesis using dist_0 [OF that(1)] by simp
  qed
  ultimately show ?thesis using r d assms
    by (auto simp: bfs_ok_def parent_ok_def queue_ok_def visited_ok_def dom split: if_splits)
qed

lemma bfs_exhausted:
  assumes "bfs_ok R A B parent []"
  shows "reached R A \<inter> B = {}"
proof -
  have "m \<in> dom parent" if "R\<^sup>*\<^sup>* l m" "l \<in> A" for l m
    using that
  proof (induction rule: rtranclp_induct)
    case base
    then show ?case using assms by (auto simp: bfs_ok_def parent_ok_def)
  next
    case (step y z)
    then show ?case using assms by (auto simp: bfs_ok_def visited_ok_def)
  qed
  then show ?thesis using assms unfolding reached_def bfs_ok_def visited_ok_def by auto
qed

lemma bfs_nearest:
  assumes "bfs_ok R A B parent (h # queue)" "m \<in> B" "m \<in> reached R A"
  shows "dist R A h \<le> dist R A m"
proof (rule ccontr)
  assume less: "\<not> dist R A h \<le> dist R A m"
  then have "m \<in> dom parent" using assms by (auto simp: bfs_ok_def queue_ok_def)
  moreover have "m \<notin> set (h # queue)" using less assms(1) by (auto simp: bfs_ok_def queue_ok_def)
  ultimately show False using assms(1,2) by (auto simp: bfs_ok_def visited_ok_def)
qed

text \<open>The labels a step meets are one step farther than the head of the queue.\<close>

lemma bfs_new_dist:
  assumes "bfs_ok R A B parent (h # queue)" "R h m" "m \<notin> dom parent"
  shows "m \<in> reached R A" "dist R A m = Suc (dist R A h)"
proof -
  have h: "h \<in> reached R A" using assms(1) by (auto simp: bfs_ok_def parent_ok_def queue_ok_def)
  show m: "m \<in> reached R A" using dist_step [OF h assms(2)] by simp
  have "\<not> dist R A m \<le> dist R A h" using assms(1,3) m by (auto simp: bfs_ok_def queue_ok_def)
  then show "dist R A m = Suc (dist R A h)" using dist_step [OF h assms(2)] by simp
qed

lemma bfs_step_queue:
  assumes ok: "bfs_ok R A B parent (h # queue)" and new: "set new = {m. R h m} - dom parent"
    and dom: "D = dom parent \<union> set new"
  shows "queue_ok R A D (queue @ new)"
proof -
  have q: "set (h # queue) \<subseteq> dom parent" "sorted (map (dist R A) (h # queue))"
      "\<And>m. m \<in> set queue \<Longrightarrow> dist R A h \<le> dist R A m \<and> dist R A m \<le> Suc (dist R A h)"
      "\<And>m. m \<in> reached R A \<Longrightarrow> dist R A m \<le> dist R A h \<Longrightarrow> m \<in> dom parent"
    using ok by (auto simp: bfs_ok_def queue_ok_def)
  have d: "dist R A m = Suc (dist R A h)" if "m \<in> set new" for m
    using that new bfs_new_dist [OF ok] by auto
  have sorted: "sorted (map (dist R A) (queue @ new))"
  proof -
    have "map (dist R A) new = replicate (length new) (Suc (dist R A h))"
      using d by (auto simp: map_replicate_const [symmetric] intro!: map_cong)
    then show ?thesis using q(2,3) by (auto simp: sorted_append)
  qed
  have all: "dist R A h \<le> dist R A m \<and> dist R A m \<le> Suc (dist R A h)" if "m \<in> set (queue @ new)" for m
    using that q(3) d by fastforce
  have met: "m \<in> D" if m: "m \<in> reached R A" "dist R A m \<le> dist R A (hd (queue @ new))" and ne: "queue @ new \<noteq> []" for m
  proof (cases "dist R A m \<le> dist R A h")
    case True
    then show ?thesis using q(4) m(1) dom by blast
  next
    case False
    have "dist R A (hd (queue @ new)) \<le> Suc (dist R A h)" using all [of "hd (queue @ new)"] ne by (metis list.set_sel(1))
    then have far: "dist R A m = Suc (dist R A h)" "dist R A (hd (queue @ new)) = Suc (dist R A h)" using False m(2) by simp_all
    then obtain p where p: "p \<in> reached R A" "R p m" "dist R A p = dist R A h" using dist_pred [OF m(1)] by blast
    have "p \<in> dom parent" using q(4) p(1,3) by simp
    have "p \<notin> set queue"
    proof
      assume "p \<in> set queue"
      then have "dist R A (hd queue) \<le> dist R A p" "queue \<noteq> []" using q(2) by (cases queue; auto)+
      then show False using far(2) p(3) by simp
    qed
    then show ?thesis
      using \<open>p \<in> dom parent\<close> p(2) ok new dom by (cases "p = h") (auto simp: bfs_ok_def visited_ok_def)
  qed
  have "dist R A h \<le> dist R A (hd (queue @ new))" if "queue @ new \<noteq> []" using all that by (metis list.set_sel(1))
  then show ?thesis unfolding queue_ok_def using sorted all met q(1) dom by fastforce
qed

lemma bfs_step:
  assumes ok: "bfs_ok R A B parent (h # queue)" and h: "h \<notin> B" and new: "set new = {m. R h m} - dom parent"
    and parent': "\<And>m. parent' m = (if m \<in> set new then Some (Some h) else parent m)"
  shows "bfs_ok R A B parent' (queue @ new)"
proof -
  have dom: "dom parent' = dom parent \<union> set new" by (auto simp: parent' dom_def)
  have "queue_ok R A (dom parent') (queue @ new)" by (rule bfs_step_queue [OF ok new dom])
  moreover have "visited_ok R B (dom parent') (queue @ new)"
    using ok h new unfolding bfs_ok_def visited_ok_def dom by auto
  moreover have "m \<in> reached R A" if "R h m" for m
    using ok dist_step(1) [of h R A m] that by (auto simp: bfs_ok_def parent_ok_def queue_ok_def)
  then have "parent_ok R A parent'"
    using ok new bfs_new_dist [OF ok] unfolding parent_ok_def dom
    by (auto simp: bfs_ok_def parent_ok_def queue_ok_def parent' split: if_splits)
  ultimately show ?thesis by (simp add: bfs_ok_def)
qed

end
