(* ===== verification/Query_Logic.thy ===== *)
theory Query_Logic
  imports Query_Eval Graph_Search
begin

text \<open>
  What the evaluator's methods ensure: a logic of total correctness for the computations of \<open>Query_Eval\<close>, and with it
  what its loops over sets and its three searches compute, for an evaluator that stops at errors and has no universe.
\<close>

section \<open>What a computation ensures\<close>

definition cache_ok :: "graph \<Rightarrow> evaluator \<Rightarrow> bool" where
  "cache_ok G s \<longleftrightarrow> (\<forall>l n. loaded s l = Some n \<longrightarrow> graph_node G l = Inr n)"

definition plain :: "graph \<Rightarrow> query_options \<Rightarrow> evaluator \<Rightarrow> bool" where
  "plain G opts s \<longleftrightarrow> cache_ok G s \<and> ev_options s = opts \<and> \<not> keep_going opts \<and> universe s = None"

text \<open>From a plain evaluator the computation ends, with an error or a value that satisfies \<open>P\<close>, in a plain one.\<close>

fun allows :: "('a \<Rightarrow> bool) \<Rightarrow> 'a ending \<Rightarrow> bool" where
  "allows P (Ok x) \<longleftrightarrow> P x"
| "allows P (Err _) \<longleftrightarrow> True"
| "allows P Panics \<longleftrightarrow> False"
| "allows P Loops \<longleftrightarrow> False"

definition ensures :: "graph \<Rightarrow> query_options \<Rightarrow> 'a ev \<Rightarrow> ('a \<Rightarrow> bool) \<Rightarrow> bool" where
  "ensures G opts m P \<longleftrightarrow> (\<forall>s. plain G opts s \<longrightarrow> allows P (fst (m s)) \<and> plain G opts (snd (m s)))"

named_theorems ensures_rules

lemma ensuresI:
  "(\<And>s. plain G opts s \<Longrightarrow> allows P (fst (m s)) \<and> plain G opts (snd (m s))) \<Longrightarrow> ensures G opts m P"
  by (simp add: ensures_def)

lemma ensuresD: "ensures G opts m P \<Longrightarrow> plain G opts s \<Longrightarrow> allows P (fst (m s)) \<and> plain G opts (snd (m s))"
  by (simp add: ensures_def)

lemma allows_mono: "allows P r \<Longrightarrow> (\<And>x. P x \<Longrightarrow> Q x) \<Longrightarrow> allows Q r"
  by (cases r) simp_all

lemma ensures_return [ensures_rules]: "P x \<Longrightarrow> ensures G opts (ev_return x) P"
  by (simp add: ensures_def ev_return_def)

lemma ensures_fail [ensures_rules]: "ensures G opts (ev_fail e) P"
  by (simp add: ensures_def ev_fail_def)

lemma ensures_lift [ensures_rules]: "(\<And>x. r = Inr x \<Longrightarrow> P x) \<Longrightarrow> ensures G opts (ev_lift r) P"
  by (cases r) (simp_all add: ensures_def ev_lift_def)

lemma ensures_then:
  assumes "ensures G opts m P" "\<And>x. P x \<Longrightarrow> ensures G opts (f x) Q"
  shows "ensures G opts (ev_then m f) Q"
proof (rule ensuresI)
  fix s
  assume "plain G opts s"
  with assms(1) have m: "allows P (fst (m s))" "plain G opts (snd (m s))" by (simp_all add: ensuresD)
  obtain r s' where rs: "m s = (r, s')" by (cases "m s")
  show "allows Q (fst (ev_then m f s)) \<and> plain G opts (snd (ev_then m f s))"
  proof (cases r)
    case (Ok x)
    then show ?thesis using m rs ensuresD [OF assms(2)] by (simp add: ev_then_def)
  qed (use m rs in \<open>simp_all add: ev_then_def\<close>)
qed

lemma ensures_if:
  "(b \<Longrightarrow> ensures G opts f P) \<Longrightarrow> (\<not> b \<Longrightarrow> ensures G opts g P) \<Longrightarrow> ensures G opts (if b then f else g) P"
  by simp

lemma ensures_conseq: "ensures G opts m P \<Longrightarrow> (\<And>x. P x \<Longrightarrow> Q x) \<Longrightarrow> ensures G opts m Q"
  unfolding ensures_def using allows_mono by blast

lemma ensures_state: "ensures G opts g P \<Longrightarrow> (\<And>s. plain G opts s \<Longrightarrow> f s = g s) \<Longrightarrow> ensures G opts f P"
  unfolding ensures_def by simp

lemma ensures_fold:
  assumes "I [] x" "\<And>before y x. y \<in> set ys \<Longrightarrow> set before \<subseteq> set ys \<Longrightarrow> I before x \<Longrightarrow> ensures G opts (f y x) (I (before @ [y]))"
  shows "ensures G opts (ev_fold f ys x) (I ys)"
proof -
  have "ensures G opts (ev_fold f zs x) (I ys)" if "ys = before @ zs" "I before x" for before zs x
    using that
  proof (induction zs arbitrary: before x)
    case Nil
    then show ?case by (simp add: ensures_return)
  next
    case (Cons z zs)
    have "ensures G opts (f z x) (I (before @ [z]))" by (rule assms(2)) (use Cons.prems in auto)
    then show ?case unfolding ev_fold.simps
      by (rule ensures_then) (use Cons.IH [of "before @ [z]"] Cons.prems(1) in simp)
  qed
  from this [of "[]" ys x] show ?thesis using assms(1) by simp
qed

section \<open>Sets and the loops over them\<close>

definition is_set :: "'a :: linorder list \<Rightarrow> 'a set \<Rightarrow> bool" where
  "is_set xs A \<longleftrightarrow> sorted_wrt (<) xs \<and> set xs = A"

lemma is_set_Nil [simp]: "is_set [] {}"
  by (simp add: is_set_def)

lemma is_set_insert: "is_set xs A \<Longrightarrow> is_set (bset_insert x xs) (insert x A)"
  by (simp add: is_set_def sorted_bset_insert)

lemma is_set_fold: "is_set xs A \<Longrightarrow> is_set (fold bset_insert ys xs) (A \<union> set ys)"
proof (induction ys arbitrary: xs A)
  case (Cons y ys)
  then show ?case using Cons.IH [OF is_set_insert [OF Cons.prems, of y]] by simp
qed simp

lemma is_set_from: "is_set (bset_from xs) (set xs)"
  using is_set_fold [of "[]" "{}" xs] by (simp add: bset_from_def)

lemma is_set_filter: "is_set xs A \<Longrightarrow> is_set (filter P xs) {x \<in> A. P x}"
  by (simp add: is_set_def sorted_wrt_filter)

lemma is_set_union: "is_set a A \<Longrightarrow> is_set b B \<Longrightarrow> is_set (bset_union a b) (A \<union> B)"
  using is_set_fold [of a A b] by (simp add: bset_union_def is_set_def)

lemma is_set_same: "is_set xs A \<Longrightarrow> A = B \<Longrightarrow> is_set xs B"
  by simp

lemma ensures_filter:
  assumes "\<And>l. l \<in> set input \<Longrightarrow> ensures G opts (test l) (\<lambda>b. b \<longleftrightarrow> Q l)"
  shows "ensures G opts (ev_filter test input) (\<lambda>out. is_set out {l \<in> set input. Q l})"
  unfolding ev_filter_def
proof (rule ensures_fold [where I = "\<lambda>before out. is_set out {l \<in> set before. Q l}"], simp, goal_cases)
  case (1 before l out)
  then show ?case
    by (auto intro!: ensures_then [OF assms] ensures_return is_set_same [OF is_set_insert] elim: is_set_same)
qed

lemma ensures_extend:
  assumes "\<And>l. l \<in> set input \<Longrightarrow> ensures G opts (f l) (\<lambda>ls. set ls = F l)"
  shows "ensures G opts (ev_extend f input) (\<lambda>out. is_set out (\<Union> (F ` set input)))"
  unfolding ev_extend_def
proof (rule ensures_fold [where I = "\<lambda>before out. is_set out (\<Union> (F ` set before))"], simp, goal_cases)
  case (1 before l out)
  then show ?case
    by (auto intro!: ensures_then [OF assms] ensures_return is_set_same [OF is_set_fold])
qed

section \<open>Nodes and edges\<close>

lemma ensures_node [ensures_rules]: "ensures G opts (node G l) (\<lambda>n. graph_node G l = Inr n)"
  by (auto simp: ensures_def node_def plain_def cache_ok_def split: option.splits sum.splits)

lemma node_plain:
  "plain G opts s \<Longrightarrow> plain G opts (snd (node G l s))"
  using ensures_node [of G opts l] by (simp add: ensures_def)

lemma preload_plain: "plain G opts s \<Longrightarrow> plain G opts (preload G ls s)"
proof -
  assume s: "plain G opts s"
  have "plain G opts (fold (\<lambda>l s. snd (node G l s)) ls s)" for ls
    using s by (induction ls arbitrary: s) (simp_all add: node_plain)
  then show ?thesis using s by (simp add: preload_def Let_def)
qed

text \<open>The dependencies the options keep.\<close>

definition dep :: "graph \<Rightarrow> query_options \<Rightarrow> label \<Rightarrow> label \<Rightarrow> bool" where
  "dep G opts l m \<longleftrightarrow> (\<exists>n e. graph_node G l = Inr n \<and> e \<in> set (node_edges n) \<and> kept_edge opts e \<and> edge_to e = m)"

lemma unrepeated_targets:
  "edge_to ` set (unrepeated sn es) \<union> fst ` set sn = edge_to ` set es \<union> fst ` set sn"
proof (induction sn es rule: unrepeated.induct)
  case (2 sn e es)
  then show ?case by (cases "(edge_to e, edge_aspect e) \<in> set sn") (force, auto)
qed simp

lemma edges_targets: "graph_node G l = Inr n \<Longrightarrow> edge_to ` set (edges opts n) = {m. dep G opts l m}"
  using unrepeated_targets [of "[]" "filter (kept_edge opts) (node_edges n)"]
  by (auto simp: edges_def dep_def)

definition finite_graph :: "graph \<Rightarrow> bool" where
  "finite_graph G \<longleftrightarrow> finite {l. is_ok (graph_node G l)}"

lemma finite_reached:
  assumes "finite_graph G" "finite A"
  shows "finite (reached (dep G opts) A)"
proof -
  have "finite {m. dep G opts l m}" for l
  proof (cases "graph_node G l")
    case (Inr n)
    then show ?thesis using edges_targets [OF Inr, of opts] finite_imageI [OF finite_set] by metis
  qed (simp add: dep_def)
  then have "finite (\<Union>l \<in> {l. is_ok (graph_node G l)}. {m. dep G opts l m})"
    using assms(1) by (simp add: finite_graph_def)
  moreover have "m \<in> A \<or> (\<exists>l. is_ok (graph_node G l) \<and> dep G opts l m)" if "(dep G opts)\<^sup>*\<^sup>* a m" "a \<in> A" for a m
    using that by (cases rule: rtranclp.cases) (auto simp: is_ok_def dep_def)
  then have "reached (dep G opts) A \<subseteq> A \<union> (\<Union>l \<in> {l. is_ok (graph_node G l)}. {m. dep G opts l m})"
    by (auto simp: reached_def)
  ultimately show ?thesis using assms(2) finite_subset by blast
qed

section \<open>The closure of dependencies\<close>

lemma follow_edges_state:
  assumes "is_set (seen c) A" "set (next_level c) = N"
  shows "is_set (seen (follow_edges l es c)) (A \<union> edge_to ` set es)"
    "set (next_level (follow_edges l es c)) = N \<union> (edge_to ` set es - A)"
    "failed (follow_edges l es c) = failed c"
proof -
  have "is_set (seen (follow_edges l es c)) (A \<union> edge_to ` set es)
    \<and> set (next_level (follow_edges l es c)) = N \<union> (edge_to ` set es - A) \<and> failed (follow_edges l es c) = failed c"
    using assms
  proof (induction l es c arbitrary: A N rule: follow_edges.induct)
    case (2 l e es c)
    have A: "set (seen c) = A" using "2.prems"(1) by (simp add: is_set_def)
    show ?case
    proof (cases "edge_to e \<in> A")
      case True
      then show ?thesis using "2.IH" [of A N] "2.prems" A by (auto intro: is_set_same)
    next
      case False
      let ?c = "c\<lparr>seen := bset_insert (edge_to e) (seen c), named_by := (named_by c)(edge_to e \<mapsto> l),
               next_level := next_level c @ [edge_to e]\<rparr>"
      have "is_set (seen ?c) (insert (edge_to e) A)" using "2.prems"(1) by (simp add: is_set_insert)
      moreover have "set (next_level ?c) = insert (edge_to e) N" using "2.prems"(2) by simp
      ultimately show ?thesis
        using "2.IH" [of "insert (edge_to e) A" "insert (edge_to e) N"] A False by (auto intro: is_set_same)
    qed
  qed simp
  then show "is_set (seen (follow_edges l es c)) (A \<union> edge_to ` set es)"
    "set (next_level (follow_edges l es c)) = N \<union> (edge_to ` set es - A)"
    "failed (follow_edges l es c) = failed c" by simp_all
qed

lemma ensures_unloaded:
  assumes "\<not> keep_going opts"
  shows "ensures G opts (unloaded G query l e c) (\<lambda>_. False)"
proof (cases "query = None \<or> named_by c l = None")
  case True
  then show ?thesis by (auto simp: unloaded_def intro: ensures_fail split: option.splits)
next
  case False
  then obtain q b where "query = Some q" "named_by c l = Some b" by auto
  moreover have "ensures G opts (report_unloaded G q l e c b n) (\<lambda>_. False)" for n
    using assms by (intro ensuresI) (simp add: report_unloaded_def Let_def plain_def)
  ultimately show ?thesis by (simp add: unloaded_def ensures_then [OF ensures_node])
qed

lemma ensures_follow:
  assumes "\<not> keep_going opts"
  shows "ensures G opts (follow G query l c)
    (\<lambda>c'. \<exists>n. graph_node G l = Inr n \<and> c' = follow_edges l (edges opts n) c)"
proof (rule ensuresI)
  fix s
  assume s: "plain G opts s"
  obtain r s' where rs: "node G l s = (r, s')" by (cases "node G l s")
  have n: "allows (\<lambda>n. graph_node G l = Inr n) r" "plain G opts s'" using ensuresD [OF ensures_node s, of l] rs by simp_all
  have o: "ev_options s' = opts" using n(2) by (simp add: plain_def)
  have u: "allows P (fst (unloaded G query l e c s'))" "plain G opts (snd (unloaded G query l e c s'))" for P e
    using ensuresD [OF ensures_conseq [OF ensures_unloaded [OF assms]] n(2), of P] by blast+
  show "allows (\<lambda>c'. \<exists>n. graph_node G l = Inr n \<and> c' = follow_edges l (edges opts n) c) (fst (follow G query l c s))
      \<and> plain G opts (snd (follow G query l c s))"
    using n rs u o by (cases r) (simp_all add: follow_def)
qed

text \<open>One level: what its labels depend on is seen, and the next level is what was not seen before.\<close>

lemma ensures_level:
  assumes "\<not> keep_going opts" "is_set (seen c) A"
  shows "ensures G opts (ev_fold (follow G query) ls (c\<lparr>next_level := []\<rparr>)) (\<lambda>c'.
      is_set (seen c') (A \<union> {m. \<exists>l \<in> set ls. dep G opts l m})
      \<and> set (next_level c') = {m. \<exists>l \<in> set ls. dep G opts l m} - A
      \<and> failed c' = failed c \<and> (\<forall>l \<in> set ls. is_ok (graph_node G l)))"
proof (rule ensures_fold [where I = "\<lambda>before c'. is_set (seen c') (A \<union> {m. \<exists>l \<in> set before. dep G opts l m})
      \<and> set (next_level c') = {m. \<exists>l \<in> set before. dep G opts l m} - A
      \<and> failed c' = failed c \<and> (\<forall>l \<in> set before. is_ok (graph_node G l))"], goal_cases)
  case 1
  then show ?case using assms(2) by simp
next
  case (2 before l c')
  then have seen: "is_set (seen c') (A \<union> {m. \<exists>l \<in> set before. dep G opts l m})"
    and nxt: "set (next_level c') = {m. \<exists>l \<in> set before. dep G opts l m} - A" by simp_all
  show ?case
  proof (rule ensures_conseq [OF ensures_follow [OF assms(1)]], elim exE conjE, goal_cases)
    case (1 c2 n)
    then show ?case
      using 2 follow_edges_state [OF seen nxt, of l "edges opts n"] edges_targets [OF 1(1), of opts]
      by (auto simp: is_ok_def intro: is_set_same)
  qed
qed

text \<open>The loop over the levels is a search by levels; it ends early with the error of a label that does not load.\<close>

lemma close_levels_stop:
  "ls = [] \<or> (case depth of Some d \<Rightarrow> d \<le> k | None \<Rightarrow> False) \<Longrightarrow> close_levels G query depth k ls c s = Some (Ok c, s)"
  by (simp add: close_levels.simps)

lemma close_levels_step:
  assumes "ls \<noteq> []" "case depth of Some d \<Rightarrow> k < d | None \<Rightarrow> True"
    and "ev_fold (follow G query) ls (c\<lparr>next_level := []\<rparr>) (preload G ls s) = (r, s')"
  shows "close_levels G query depth k ls c s =
    (case r of Ok c' \<Rightarrow> close_levels G query depth (Suc k) (next_level c') c' s' | Err e \<Rightarrow> Some (Err e, s')
     | Panics \<Rightarrow> Some (Panics, s') | Loops \<Rightarrow> Some (Loops, s'))"
  using assms by (subst close_levels.simps) (auto split: option.splits ending.splits)

definition closing_ok :: "graph \<Rightarrow> query_options \<Rightarrow> closing \<times> evaluator \<Rightarrow> label set \<Rightarrow> bool" where
  "closing_ok G opts cs A \<longleftrightarrow> plain G opts (snd cs) \<and> is_set (seen (fst cs)) A \<and> \<not> failed (fst cs)"

definition closed_ok :: "graph \<Rightarrow> query_options \<Rightarrow> closing ending \<times> evaluator \<Rightarrow> label set \<Rightarrow> bool" where
  "closed_ok G opts rs A \<longleftrightarrow> plain G opts (snd rs) \<and> (\<exists>c. fst rs = Ok c \<and> is_set (seen c) A \<and> \<not> failed c)"

definition closed_early :: "graph \<Rightarrow> query_options \<Rightarrow> closing ending \<times> evaluator \<Rightarrow> bool" where
  "closed_early G opts rs \<longleftrightarrow> plain G opts (snd rs) \<and> (\<exists>e. fst rs = Err e)"

interpretation deps_levels: level_loop "dep G opts" depth "\<lambda>k ls cs. close_levels G query depth k ls (fst cs) (snd cs)"
    "closing_ok G opts" "closed_ok G opts" "closed_early G opts" for G opts depth query
proof (unfold_locales, goal_cases)
  case (1 ls k cs A)
  then show ?case by (auto simp: close_levels_stop closing_ok_def closed_ok_def)
next
  case (2 ls k cs A)
  obtain c s where cs: "cs = (c, s)" by (cases cs)
  have ok: "plain G opts s" "is_set (seen c) A" "\<not> failed c" using 2(3) cs by (simp_all add: closing_ok_def)
  then have kg: "\<not> keep_going opts" by (simp add: plain_def)
  obtain r s' where m: "ev_fold (follow G query) ls (c\<lparr>next_level := []\<rparr>) (preload G ls s) = (r, s')" by fastforce
  note eq = close_levels_step [OF 2(1,2) m]
  have "allows (\<lambda>c'. is_set (seen c') (A \<union> {m. \<exists>l \<in> set ls. dep G opts l m})
        \<and> set (next_level c') = {m. \<exists>l \<in> set ls. dep G opts l m} - A \<and> \<not> failed c') r" "plain G opts s'"
    using ensuresD [OF ensures_level [OF kg ok(2), of G query ls] preload_plain [OF ok(1), of ls]] m ok(3)
    by (auto elim!: allows_mono)
  note turn = this
  show ?case
  proof (cases r)
    case (Ok c')
    then show ?thesis using turn eq cs
      by (intro disjI2 exI [of _ "next_level c'"] exI [of _ "(c', s')"]) (simp add: closing_ok_def)
  qed (use turn eq cs in \<open>simp_all add: closed_early_def\<close>)
qed

lemma ensures_deps_in:
  assumes "finite_graph G" "is_set roots A"
  shows "ensures G opts (deps_in G roots depth query) (\<lambda>out. is_set out (within (dep G opts) A depth))"
  unfolding deps_in_def
proof (rule ensures_then [where P = "\<lambda>c. is_set (seen c) (within (dep G opts) A depth) \<and> \<not> failed c"])
  let ?c = "\<lparr>seen = roots, next_level = [], named_by = Map.empty, failed = False\<rparr>"
  have A: "finite A" "set roots = A" using assms(2) by (auto simp: is_set_def)
  have "\<exists>r. close_levels G query depth 0 roots ?c s = Some r
      \<and> (closed_early G opts r \<or> closed_ok G opts r (within (dep G opts) A depth))" if "plain G opts s" for s
    using deps_levels.loop_from_start [OF finite_reached [OF assms(1) A(1)], where s = "(?c, s)" and ls = roots]
      that A assms(2) by (simp add: closing_ok_def)
  then show "ensures G opts (\<lambda>s. or_loops (close_levels G query depth 0 roots ?c s) s)
      (\<lambda>c. is_set (seen c) (within (dep G opts) A depth) \<and> \<not> failed c)"
    by (intro ensuresI) (fastforce simp: or_loops_def closed_early_def closed_ok_def)
qed (auto intro!: ensuresI)

lemma ensures_deps:
  assumes "finite_graph G" "is_set roots A"
  shows "ensures G opts (deps G roots depth) (\<lambda>out. is_set out (within (dep G opts) A depth))"
  unfolding deps_def by (rule ensures_deps_in [OF assms])

section \<open>The closure of reverse dependencies\<close>

text \<open>The labels of \<open>C\<close> that depend on a label.\<close>

definition rdep :: "graph \<Rightarrow> query_options \<Rightarrow> label set \<Rightarrow> label \<Rightarrow> label \<Rightarrow> bool" where
  "rdep G opts C m p \<longleftrightarrow> p \<in> C \<and> dep G opts p m"

lemma reverse_fold:
  "set (fold (\<lambda>e rm. rm(edge_to e := rm (edge_to e) @ [l])) es rm m) =
     set (rm m) \<union> (if m \<in> edge_to ` set es then {l} else {})"
  by (induction es arbitrary: rm) auto

lemma ensures_reverse_edges:
  "ensures G opts (reverse_edges G closure) (\<lambda>rm. \<forall>m. set (rm m) = {p. rdep G opts (set closure) m p})"
  unfolding reverse_edges_def
proof (rule ensures_fold [where I = "\<lambda>before rm. \<forall>m. set (rm m) = {p. rdep G opts (set before) m p}"], goal_cases)
  case (2 before l rm)
  show ?case
  proof (rule ensures_then [OF ensures_node], rule ensuresI, goal_cases)
    case (1 n s)
    have o: "ev_options s = opts" using 1(2) by (simp add: plain_def)
    show ?case
      using 1 2 edges_targets [OF 1(1), of opts] by (auto simp: o reverse_fold rdep_def simp del: fold.simps)
  qed
qed (simp add: rdep_def)

lemma add_parents_state:
  assumes "is_set sn A" "set nxt = N" "add_parents ps (sn, nxt) = (sn', nxt')"
  shows "is_set sn' (A \<union> set ps)" "set nxt' = N \<union> (set ps - A)"
proof -
  have "is_set sn' (A \<union> set ps) \<and> set nxt' = N \<union> (set ps - A)"
    using assms
  proof (induction ps arbitrary: sn nxt A N)
    case (Cons p ps)
    have A: "set sn = A" using Cons.prems(1) by (simp add: is_set_def)
    show ?case
    proof (cases "p \<in> A")
      case True
      then show ?thesis using Cons.IH [OF Cons.prems(1,2)] Cons.prems(3) A by (auto intro: is_set_same)
    next
      case False
      have "set (nxt @ [p]) = insert p N" using Cons.prems(2) by simp
      from Cons.IH [OF is_set_insert [OF Cons.prems(1), of p] this] show ?thesis
        using Cons.prems(3) A False by (auto intro: is_set_same)
    qed
  qed auto
  then show "is_set sn' (A \<union> set ps)" "set nxt' = N \<union> (set ps - A)" by simp_all
qed

lemma reverse_level_state:
  assumes "is_set sn A" "fold (\<lambda>l. add_parents (rm l)) ls (sn, nxt) = (sn', nxt')" "set nxt = N"
  shows "is_set sn' (A \<union> (\<Union>l \<in> set ls. set (rm l))) \<and> set nxt' = N \<union> ((\<Union>l \<in> set ls. set (rm l)) - A)"
  using assms
proof (induction ls arbitrary: sn nxt A N)
  case (Cons l ls)
  obtain sn1 nxt1 where one: "add_parents (rm l) (sn, nxt) = (sn1, nxt1)" by (cases "add_parents (rm l) (sn, nxt)")
  note st = add_parents_state [OF Cons.prems(1) Cons.prems(3) one]
  have "fold (\<lambda>l. add_parents (rm l)) ls (sn1, nxt1) = (sn', nxt')" using Cons.prems(2) one by simp
  from Cons.IH [OF st(1) this st(2)] show ?case by (auto intro: is_set_same)
qed simp

lemma reverse_levels_stop:
  "ls = [] \<or> (case depth of Some d \<Rightarrow> d \<le> k | None \<Rightarrow> False) \<Longrightarrow> reverse_levels rm depth k ls sn = Some sn"
  by (simp add: reverse_levels.simps)

lemma reverse_levels_step:
  assumes "ls \<noteq> []" "case depth of Some d \<Rightarrow> k < d | None \<Rightarrow> True"
    and "fold (\<lambda>l. add_parents (rm l)) ls (sn, []) = (sn', nxt)"
  shows "reverse_levels rm depth k ls sn = reverse_levels rm depth (Suc k) nxt sn'"
  using assms by (subst reverse_levels.simps) (auto split: option.splits)

interpretation rdeps_levels: level_loop "\<lambda>m p. p \<in> set (rm m)" depth "reverse_levels rm depth"
    is_set is_set "\<lambda>_. False" for rm depth
proof (unfold_locales, goal_cases)
  case (1 ls k sn A)
  then show ?case by (simp add: reverse_levels_stop)
next
  case (2 ls k sn A)
  obtain sn' nxt where f: "fold (\<lambda>l. add_parents (rm l)) ls (sn, []) = (sn', nxt)" by fastforce
  have u: "{m. \<exists>l \<in> set ls. m \<in> set (rm l)} = (\<Union>l \<in> set ls. set (rm l))" by blast
  show ?case unfolding u
    using reverse_level_state [OF 2(3) f refl] reverse_levels_step [OF 2(1,2) f] by auto
qed

lemma ensures_reverse_closure:
  assumes "is_set targets T"
  shows "ensures G opts (reverse_closure G closure targets depth)
    (\<lambda>out. is_set out (within (rdep G opts (set closure)) (T \<inter> set closure) depth))"
  unfolding reverse_closure_def
proof (rule ensures_then [OF ensures_reverse_edges], goal_cases)
  case (1 rm)
  let ?C = "set closure" and ?start = "filter (\<lambda>l. l \<in> set closure) targets"
  have R: "(\<lambda>m p. p \<in> set (rm m)) = rdep G opts ?C" using 1 by (auto simp: fun_eq_iff)
  have "is_set ?start {x \<in> T. x \<in> ?C}" using assms by (rule is_set_filter)
  then have start: "is_set ?start (T \<inter> ?C)" by (rule is_set_same) blast
  have "reached (rdep G opts ?C) (T \<inter> ?C) \<subseteq> ?C"
    unfolding reached_def by (auto elim: rtranclp.cases simp: rdep_def)
  then have "finite (reached (rdep G opts ?C) (T \<inter> ?C))" using finite_subset by blast
  then obtain sn where "reverse_levels rm depth 0 ?start ?start = Some sn"
      "is_set sn (within (rdep G opts ?C) (T \<inter> ?C) depth)"
    using rdeps_levels.loop_from_start [of rm "T \<inter> ?C" ?start ?start depth] start by (auto simp: R is_set_def)
  then show ?case by (intro ensuresI) (simp add: Let_def)
qed

text \<open>Within a closed set, the reverse dependencies are the labels of the set from which a target is reached.\<close>

lemma rdep_steps:
  assumes "\<And>l m. l \<in> C \<Longrightarrow> dep G opts l m \<Longrightarrow> m \<in> C"
  shows "t \<in> C \<Longrightarrow> (rdep G opts C ^^ j) t m \<longleftrightarrow> m \<in> C \<and> (dep G opts ^^ j) m t"
proof (induction j arbitrary: m)
  case (Suc j)
  have "(rdep G opts C ^^ Suc j) t m \<longleftrightarrow> (\<exists>n. n \<in> C \<and> (dep G opts ^^ j) n t \<and> m \<in> C \<and> dep G opts m n)"
    using Suc.IH [OF Suc.prems] by (auto simp: OO_def rdep_def [of G opts C _ m])
  also have "\<dots> \<longleftrightarrow> m \<in> C \<and> (dep G opts ^^ Suc j) m t"
    using assms by (auto simp: relpowp_Suc_right simp del: relpowp.simps intro: relpowp_Suc_I2 elim!: relpowp_Suc_E2)
  finally show ?case .
qed auto


lemma within_rdep:
  assumes "\<And>l m. l \<in> C \<Longrightarrow> dep G opts l m \<Longrightarrow> m \<in> C"
  shows "within (rdep G opts C) (T \<inter> C) depth = {m \<in> C. T \<inter> within (dep G opts) {m} depth \<noteq> {}}"
proof -
  have closed: "t \<in> C" if "(dep G opts ^^ j) m t" "m \<in> C" for j m t
    using that assms by (induction j arbitrary: t) auto
  have "near (rdep G opts C) (T \<inter> C) k = {m \<in> C. T \<inter> near (dep G opts) {m} k \<noteq> {}}" for k
    using closed rdep_steps [OF assms] by (auto simp: near_def)
  moreover have "reached (rdep G opts C) (T \<inter> C) = {m \<in> C. T \<inter> reached (dep G opts) {m} \<noteq> {}}"
    using closed rdep_steps [OF assms] by (auto simp: reached_def rtranclp_power)
  ultimately show ?thesis by (simp add: within_def split: option.splits)
qed

text \<open>The labels that depend on a target within the depth, of those reached from \<open>U\<close>.\<close>

definition depending :: "graph \<Rightarrow> query_options \<Rightarrow> label set \<Rightarrow> label set \<Rightarrow> nat option \<Rightarrow> label set" where
  "depending G opts U T depth = {m \<in> reached (dep G opts) U. T \<inter> within (dep G opts) {m} depth \<noteq> {}}"

lemma ensures_rdeps:
  assumes "finite_graph G" "is_set scope U" "is_set targets T"
  shows "ensures G opts (rdeps G scope targets depth) (\<lambda>out. is_set out (depending G opts U T depth))"
  unfolding rdeps_def
proof (rule ensures_then [OF ensures_deps [OF assms(1,2)]], goal_cases)
  case (1 closure)
  then have C: "set closure = reached (dep G opts) U" by (simp add: is_set_def within_def)
  have "m \<in> set closure" if "l \<in> set closure" "dep G opts l m" for l m
    using that unfolding C reached_def by (auto intro: rtranclp.rtrancl_into_rtrancl)
  from within_rdep [of "set closure" G opts, OF this] show ?case
    using ensures_reverse_closure [OF assms(3), of G opts closure depth] by (simp add: C depending_def)
qed

section \<open>A shortest path\<close>

lemma enqueue_edges_state:
  "\<exists>new. enqueue_edges l es (parent, queue) = (\<lambda>m. if m \<in> set new then Some (Some l) else parent m, queue @ new)
     \<and> set new = edge_to ` set es - dom parent \<and> distinct new"
proof (induction es arbitrary: parent queue)
  case (Cons e es)
  show ?case
  proof (cases "parent (edge_to e) = None")
    case True
    obtain new where "enqueue_edges l es (parent(edge_to e \<mapsto> Some l), queue @ [edge_to e])
        = (\<lambda>m. if m \<in> set new then Some (Some l) else (parent(edge_to e \<mapsto> Some l)) m, (queue @ [edge_to e]) @ new)"
      "set new = edge_to ` set es - dom (parent(edge_to e \<mapsto> Some l))" "distinct new"
      using Cons.IH by blast
    then show ?thesis using True
      by (intro exI [of _ "edge_to e # new"]) (auto simp: fun_eq_iff)
  next
    case False
    obtain new where "enqueue_edges l es (parent, queue) = (\<lambda>m. if m \<in> set new then Some (Some l) else parent m, queue @ new)"
      "set new = edge_to ` set es - dom parent" "distinct new"
      using Cons.IH by blast
    then show ?thesis using False by (intro exI [of _ new]) (auto simp: fun_eq_iff)
  qed
qed (auto intro: exI [of _ "[]"])

text \<open>Reading the path back from the parents gives the labels of a path as long as the distance.\<close>

lemma path_back_path:
  assumes "parent_ok R A parent" "l \<in> dom parent" "is_set path P"
  shows "\<exists>ps out. path_back parent (Some l) path = Some out \<and> is_set out (P \<union> set ps)
    \<and> successively R ps \<and> ps \<noteq> [] \<and> hd ps \<in> A \<and> last ps = l \<and> length ps = Suc (dist R A l)"
  using assms(2,3)
proof (induction "dist R A l" arbitrary: l path P)
  case 0
  have "l \<in> A" using 0 assms(1) dist_0 [of l R A] by (auto simp: parent_ok_def)
  moreover have "parent l = Some None" using 0 assms(1) by (cases "the (parent l)") (force simp: parent_ok_def)+
  then have "path_back parent (Some l) path = Some (bset_insert l path)" by (simp add: path_back.simps)
  ultimately show ?case using 0 is_set_insert [OF 0(3), of l]
    by (intro exI [of _ "[l]"] exI [of _ "bset_insert l path"]) simp
next
  case (Suc k)
  then obtain p where p: "parent l = Some (Some p)"
    using assms(1) dist_0 [of l R A] by (fastforce simp: parent_ok_def dom_def)
  then have q: "p \<in> dom parent" "R p l" "k = dist R A p" using assms(1) Suc.hyps(2) by (auto simp: parent_ok_def)
  obtain ps out where ps: "path_back parent (Some p) (bset_insert l path) = Some out" "is_set out (insert l P \<union> set ps)"
      "successively R ps" "ps \<noteq> []" "hd ps \<in> A" "last ps = p" "length ps = Suc (dist R A p)"
    using Suc.hyps(1) [OF q(3,1) is_set_insert [OF Suc.prems(2), of l]] by blast
  have "path_back parent (Some l) path = Some out" using p ps(1) by (subst path_back.simps) simp
  then show ?case using ps q Suc.hyps(2)
    by (intro exI [of _ "ps @ [l]"] exI [of _ out]) (auto simp: successively_append_iff)
qed

definition path_answer :: "graph \<Rightarrow> query_options \<Rightarrow> label set \<Rightarrow> label set \<Rightarrow> label set \<Rightarrow> bool" where
  "path_answer G opts A B P \<longleftrightarrow> (\<exists>ps. shortest_path (dep G opts) A B ps \<and> P = set ps)
     \<or> P = {} \<and> reached (dep G opts) A \<inter> B = {}"

definition some_answer :: "graph \<Rightarrow> query_options \<Rightarrow> label set \<Rightarrow> label set \<Rightarrow> label_set \<Rightarrow> bool" where
  "some_answer G opts A B out \<longleftrightarrow> (\<exists>P. is_set out P \<and> path_answer G opts A B P)"

lemma search_path_Nil: "search_path G B parent [] s = Some (Ok [], s)"
  by (simp add: search_path.simps)

lemma search_path_found:
  "h \<in> set B \<Longrightarrow> search_path G B parent (h # queue) s = map_option (\<lambda>path. (Ok path, s)) (path_back parent (Some h) [])"
  by (simp add: search_path.simps)

lemma search_path_Cons:
  assumes "h \<notin> set B" "node G h s = (r, s')"
  shows "search_path G B parent (h # queue) s =
    (case r of
       Ok n \<Rightarrow> (case enqueue_edges h (edges (ev_options s') n) (parent, queue) of (parent', queue') \<Rightarrow> search_path G B parent' queue' s')
     | Err e \<Rightarrow> Some (Err e, s') | Panics \<Rightarrow> Some (Panics, s') | Loops \<Rightarrow> Some (Loops, s'))"
  using assms by (subst search_path.simps) (simp split: ending.splits)

lemma search_path_answers:
  assumes "finite_graph G" "finite A" "bfs_ok (dep G opts) A (set B) parent queue" "plain G opts s"
  shows "\<exists>r s'. search_path G B parent queue s = Some (r, s') \<and> plain G opts s' \<and> allows (some_answer G opts A (set B)) r"
  using assms(3,4)
proof (induction "2 * card (reached (dep G opts) A - dom parent) + length queue" arbitrary: parent queue s rule: less_induct)
  case less
  let ?R = "dep G opts"
  show ?case
  proof (cases queue)
    case Nil
    then show ?thesis using less.prems bfs_exhausted [of ?R A "set B" parent]
      by (auto simp: search_path_Nil some_answer_def path_answer_def intro!: exI [of _ "{}"])
  next
    case (Cons h rest)
    note ok = less.prems(1) [unfolded Cons]
    have parents: "parent_ok ?R A parent" "h \<in> dom parent" using ok by (auto simp: bfs_ok_def queue_ok_def)
    show ?thesis
    proof (cases "h \<in> set B")
      case True
      obtain ps out where ps: "path_back parent (Some h) [] = Some out" "is_set out (set ps)" "successively ?R ps"
          "ps \<noteq> []" "hd ps \<in> A" "last ps = h" "length ps = Suc (dist ?R A h)"
        using path_back_path [OF parents is_set_Nil] by auto
      have "shortest_path ?R A (set B) ps"
        by (rule shortest_pathI) (use ps True bfs_nearest [OF ok] in \<open>auto simp: path_between_def\<close>)
      then show ?thesis using True Cons ps less.prems(2)
        by (auto simp: search_path_found some_answer_def path_answer_def)
    next
      case False
      obtain r s' where n: "node G h s = (r, s')" by fastforce
      note answer = search_path_Cons [OF False n, of parent rest]
      have r: "allows (\<lambda>n. graph_node G h = Inr n) r" "plain G opts s'" using ensuresD [OF ensures_node less.prems(2), of h] n by simp_all
      show ?thesis
      proof (cases r)
        case (Ok n)
        have o: "ev_options s' = opts" using r(2) by (simp add: plain_def)
        have e: "edge_to ` set (edges opts n) = {m. ?R h m}" using r(1) Ok by (simp add: edges_targets)
        obtain new where new: "enqueue_edges h (edges opts n) (parent, rest)
              = (\<lambda>m. if m \<in> set new then Some (Some h) else parent m, rest @ new)"
            "set new = {m. ?R h m} - dom parent" "distinct new"
          using enqueue_edges_state [of h "edges opts n" parent rest] e by auto
        let ?parent = "\<lambda>m. if m \<in> set new then Some (Some h) else parent m"
        have step: "bfs_ok ?R A (set B) ?parent (rest @ new)"
          by (rule bfs_step [OF ok False new(2)]) simp
        have sub: "dom ?parent \<subseteq> reached ?R A" using step by (simp add: bfs_ok_def parent_ok_def)
        have "card (reached ?R A - dom parent) = card (reached ?R A - dom ?parent) + length new"
        proof -
          have "reached ?R A - dom parent = (reached ?R A - dom ?parent) \<union> set new" "set new \<inter> (reached ?R A - dom ?parent) = {}"
            using sub new(2) by (auto simp: dom_def split: if_splits)
          then show ?thesis using finite_reached [OF assms(1,2), of opts] new(3)
            by (simp add: card_Un_disjoint inf_commute distinct_card)
        qed
        then have "2 * card (reached ?R A - dom ?parent) + length (rest @ new) < 2 * card (reached ?R A - dom parent) + length queue"
          by (simp add: Cons)
        from less.hyps [OF this step r(2)] show ?thesis using answer Ok o new(1) Cons by simp
      qed (use r answer Cons in simp_all)
    qed
  qed
qed

lemma ensures_some_path:
  assumes "finite_graph G" "is_set starts A" "is_set to_set B"
  shows "ensures G opts (some_path G starts to_set) (some_answer G opts A B)"
proof (rule ensuresI)
  fix s
  assume s: "plain G opts s"
  have A: "set starts = A" "finite A" "set to_set = B" using assms by (auto simp: is_set_def)
  have "bfs_ok (dep G opts) A (set to_set) (\<lambda>l. if l \<in> set starts then Some None else None) starts"
    using bfs_start [OF A(1), of "dep G opts" "set to_set"] A(1) by simp
  from search_path_answers [OF assms(1) A(2) this s]
  show "allows (some_answer G opts A B) (fst (some_path G starts to_set s)) \<and> plain G opts (snd (some_path G starts to_set s))"
    using A(3) by (auto simp: some_path_def or_loops_def)
qed

end
