(* ===== verification/Query_Print.thy ===== *)
theory Query_Print
  imports Query_Parse
begin

text \<open>
  Printing and parsing query expressions: an expression whose operators need no parentheses and whose
  words the lexer can read back is printed as text that parses to it.
\<close>

section \<open>Expressions that can be read back\<close>

text \<open>A word that is printed as it is, and one that is printed in quotation marks.\<close>

definition plain_word :: "string \<Rightarrow> bool" where
  "plain_word w \<longleftrightarrow> w \<noteq> [] \<and> list_all is_word_char w \<and> hd w \<noteq> CHR ''-'' \<and> \<not> list_all is_ascii_digit w
     \<and> w \<notin> {''let'', ''in'', ''set'', ''union'', ''intersect'', ''except''}"

definition quotable :: "string \<Rightarrow> bool" where
  "quotable w \<longleftrightarrow> \<not> (list_all is_word_char w \<and> w \<noteq> []) \<and> CHR 0x22 \<notin> set w \<and> \<not> suffix [CHR 0x5C] w"

definition word_ok :: "string \<Rightarrow> bool" where
  "word_ok w \<longleftrightarrow> plain_word w \<or> quotable w"

fun is_binary :: "expr \<Rightarrow> bool" where
  "is_binary (Expr_Binary _ _ _) \<longleftrightarrow> True"
| "is_binary _ \<longleftrightarrow> False"

fun ends_in_let :: "expr \<Rightarrow> bool" where
  "ends_in_let (Expr_Let _ _ _) \<longleftrightarrow> True"
| "ends_in_let (Expr_Binary _ _ r) \<longleftrightarrow> ends_in_let r"
| "ends_in_let _ \<longleftrightarrow> False"

fun arg_ok :: "'e arg \<Rightarrow> bool" where
  "arg_ok (Arg_Word w) \<longleftrightarrow> word_ok w"
| "arg_ok (Arg_Int n) \<longleftrightarrow> 0 \<le> sint n"
| "arg_ok (Arg_Expr _) \<longleftrightarrow> True"

primrec printable :: "dialect \<Rightarrow> expr \<Rightarrow> bool" where
  "printable d (Expr_Word w) \<longleftrightarrow> word_ok w \<and> \<not> (prefix ''$'' w \<and> w \<noteq> ''$'')"
| "printable d (Expr_Variable v) \<longleftrightarrow> v \<noteq> [] \<and> list_all is_word_char v"
| "printable d (Expr_Set ws) \<longleftrightarrow> list_all word_ok ws"
| "printable d (Expr_Binary op l r) \<longleftrightarrow> printable d l \<and> \<not> ends_in_let l \<and> printable d r \<and> \<not> is_binary r"
| "printable d (Expr_Let n value body) \<longleftrightarrow> plain_word n \<and> printable d value \<and> printable d body"
| "printable d (Expr_Call c) \<longleftrightarrow>
     call_ok d c \<and> list_all arg_ok (call_args c) \<and> pred_call (\<lambda>ok. ok) (map_call (printable d) c)"

lemma printable_call:
  "printable d (Expr_Call c) \<longleftrightarrow>
     call_ok d c \<and> list_all arg_ok (call_args c) \<and> list_all (pred_arg (printable d)) (call_args c)"
  using pred_call_args [of "printable d" c] by (simp add: call.pred_map comp_def)

text \<open>The tokens of the printed expression.\<close>

fun op_token :: "op \<Rightarrow> token" where
  "op_token Op_Union = Token_Plus"
| "op_token Op_Intersect = Token_Caret"
| "op_token Op_Except = Token_Minus"

fun arg_tokens :: "token list arg \<Rightarrow> token list" where
  "arg_tokens (Arg_Expr ts) = ts"
| "arg_tokens (Arg_Word w) = [Token_Word w]"
| "arg_tokens (Arg_Int n) = [Token_Int n]"

fun commas :: "token list list \<Rightarrow> token list" where
  "commas [] = []"
| "commas [ts] = ts"
| "commas (ts # us # tss) = ts @ Token_Comma # commas (us # tss)"

primrec tokens_of :: "expr \<Rightarrow> token list" where
  "tokens_of (Expr_Word w) = [Token_Word w]"
| "tokens_of (Expr_Variable v) = [Token_Word (CHR ''$'' # v)]"
| "tokens_of (Expr_Set ws) = Token_Set # Token_Open # map Token_Word ws @ [Token_Close]"
| "tokens_of (Expr_Binary op l r) = tokens_of l @ op_token op # tokens_of r"
| "tokens_of (Expr_Let n value body) =
     Token_Let # Token_Word n # Token_Equals # tokens_of value @ Token_In # tokens_of body"
| "tokens_of (Expr_Call c) =
     Token_Word (function_name (call_function c)) # Token_Open
       # commas (map arg_tokens (call_args (map_call tokens_of c))) @ [Token_Close]"

section \<open>Lexing what is printed\<close>

definition push_tokens :: "token list \<Rightarrow> (string, token list) result \<Rightarrow> (string, token list) result" where
  "push_tokens ts r = and_then r (\<lambda>us. Inr (ts @ us))"

declare lex.simps(2) [simp del]

lemma push_tokens_simps [simp]:
  "push_tokens [] r = r" "push_token t (push_tokens ts r) = push_tokens (t # ts) r"
  "push_tokens ts (push_tokens us r) = push_tokens (ts @ us) r"
  by (cases r; simp add: push_token_def push_tokens_def)+

lemma push_token_tokens: "push_token t r = push_tokens [t] r"
  by (cases r) (simp_all add: push_token_def push_tokens_def)

text \<open>A text that ends the word before it.\<close>

definition delimits :: "string \<Rightarrow> bool" where
  "delimits s \<longleftrightarrow> (case s of [] \<Rightarrow> True | c # _ \<Rightarrow> c \<in> set '' ),'')"

lemma word_char_class:
  assumes "is_word_char c"
  shows "\<not> is_whitespace c" "c \<notin> set ''(),=+^'' \<union> {CHR 0x27, CHR 0x22}"
  using assms
  by (auto simp: is_word_char_def is_alphanumeric_def is_whitespace_def char_classes less_eq_char_def)

lemma scan_word_all:
  "list_all is_word_char w \<Longrightarrow> delimits rest \<Longrightarrow> scan_word canon v (w @ rest) = (v @ w, rest)"
proof (induction w arbitrary: v)
  case Nil
  then show ?case
    by (cases rest) (auto simp: delimits_def is_word_char_def is_alphanumeric_def char_classes less_eq_char_def)
qed simp

lemma lex_word:
  assumes "w \<noteq> []" "list_all is_word_char w" "hd w \<noteq> CHR ''-''" "delimits rest"
  shows "lex (w @ rest) = and_then (word_token w) (\<lambda>t. push_tokens [t] (lex rest))"
proof -
  obtain c cs where w: "w = c # cs" using assms(1) by (cases w) auto
  have "is_word_char c" using assms(2) w by simp
  note c = word_char_class [OF this] this
  have "scan_word canon [c] (cs @ rest) = (w, rest)" for canon
    using scan_word_all [of cs rest canon "[c]"] assms(2,4) w by simp
  then show ?thesis using c assms(3) w by (simp add: lex.simps(2) push_token_tokens)
qed

lemma scan_quoted_all:
  "q \<notin> set w \<Longrightarrow> \<not> suffix [CHR 0x5C] w \<Longrightarrow> scan_quoted q v (w @ q # rest) = Some (v @ w, rest)"
  if "q \<noteq> CHR 0x5C"
proof (induction w arbitrary: v)
  case (Cons c w)
  show ?case
  proof (cases "c = CHR 0x5C")
    case True
    then have "w \<noteq> []" using Cons.prems by auto
    then obtain b u where "w = b # u" by (cases w) auto
    then show ?thesis using Cons by (auto simp: suffix_Cons)
  qed (use Cons in \<open>auto simp: suffix_Cons\<close>)
qed (use that in simp)

lemma lex_word_ok:
  assumes "word_ok w" "delimits rest"
  shows "lex (quote_if_needed w @ rest) = push_tokens [Token_Word w] (lex rest)"
proof (cases "list_all is_word_char w \<and> w \<noteq> []")
  case True
  then have "plain_word w" using assms(1) by (simp add: word_ok_def quotable_def)
  then show ?thesis
    using lex_word [of w rest] True assms(2)
    by (auto simp: plain_word_def word_token_def quote_if_needed_def is_word_char_def [abs_def])
next
  case False
  then have "quotable w" using assms(1) by (auto simp: word_ok_def plain_word_def)
  then show ?thesis
    using scan_quoted_all [of "CHR 0x22" w "[]" rest] False
    by (auto simp: quotable_def quote_if_needed_def is_word_char_def [abs_def] is_whitespace_def push_token_tokens
        lex.simps(2) [of "CHR 0x22"])
qed

lemma lex_marks [simp]:
  "lex (CHR '' '' # s) = lex s"
  "lex (CHR ''('' # s) = push_tokens [Token_Open] (lex s)"
  "lex (CHR '')'' # s) = push_tokens [Token_Close] (lex s)"
  "lex (CHR '','' # s) = push_tokens [Token_Comma] (lex s)"
  "lex (CHR ''='' # s) = push_tokens [Token_Equals] (lex s)"
  by (simp_all add: lex.simps(2) is_whitespace_def push_token_tokens)

lemma lex_op [simp]: "lex (op_display op @ s) = push_tokens [op_token op] (lex s)"
  by (cases op) (simp_all add: lex.simps(2) is_whitespace_def push_token_tokens)

lemma delimits_simps [simp]:
  "delimits []" "delimits (CHR '' '' # s)" "delimits (CHR '')'' # s)" "delimits (CHR '','' # s)"
  by (simp_all add: delimits_def)

lemma word_chars [simp]: "is_ascii_alphanumeric c \<Longrightarrow> is_word_char c" "is_word_char CHR ''_''" "is_word_char CHR ''$''"
  by (simp_all add: is_word_char_def is_alphanumeric_def)

lemma lex_keyword:
  "delimits s \<Longrightarrow> lex (''let'' @ s) = push_tokens [Token_Let] (lex s)"
  "delimits s \<Longrightarrow> lex (''in'' @ s) = push_tokens [Token_In] (lex s)"
  using lex_word [of "''let''" s] lex_word [of "''in''" s]
  by (simp_all add: word_token_def char_classes less_eq_char_def)

lemma word_before_open:
  assumes "w \<noteq> []" "list_all is_word_char w" "hd w \<noteq> CHR ''-''"
  shows "lex (w @ CHR ''('' # s) = and_then (word_token w) (\<lambda>t. push_tokens [t, Token_Open] (lex s))"
proof -
  obtain c cs where w: "w = c # cs" using assms(1) by (cases w) auto
  have "is_word_char c" using assms(2) w by simp
  note c = word_char_class [OF this] this
  have "scan_word canon v (u @ CHR ''('' # s) = (v @ u, CHR ''('' # s)" if "list_all is_word_char u" for canon u v
    using that by (induction u arbitrary: v)
      (auto simp: is_word_char_def is_alphanumeric_def char_classes less_eq_char_def)
  then have "scan_word canon [c] (cs @ CHR ''('' # s) = (w, CHR ''('' # s)" for canon
    using assms(2) w by simp
  then show ?thesis using c assms(3) w by (simp add: lex.simps(2) [of c] push_token_tokens)
qed

lemma lex_set: "lex (''set('' @ s) = push_tokens [Token_Set, Token_Open] (lex s)"
  using word_before_open [of "''set''" s] by (simp add: word_token_def char_classes less_eq_char_def)

lemma lex_function_name:
  "lex (function_name f @ CHR ''('' # s) = push_tokens [Token_Word (function_name f), Token_Open] (lex s)"
proof -
  have "list_all is_word_char (function_name f)" "function_name f \<noteq> []" "hd (function_name f) \<noteq> CHR ''-''"
    "word_token (function_name f) = Inr (Token_Word (function_name f))"
    by (cases f; simp add: word_token_def char_classes less_eq_char_def)+
  then show ?thesis using word_before_open [of "function_name f" s] by simp
qed

lemma lex_int:
  assumes "0 \<le> sint n" "delimits s"
  shows "lex (i64_display n @ s) = push_tokens [Token_Int n] (lex s)"
proof -
  let ?w = "nat_display (nat (sint n))"
  have digits: "list_all is_ascii_digit ?w" "?w \<noteq> []" by (rule nat_display_digits)+
  then have "list_all is_word_char ?w" by (auto simp: list_all_iff is_ascii_alphanumeric_def)
  moreover have "hd ?w \<noteq> CHR ''-''" using digits by (cases ?w) (auto simp: is_ascii_digit_def less_eq_char_def)
  moreover have "word_token ?w = Inr (Token_Int n)"
  proof -
    have "?w \<notin> {''let'', ''in'', ''set'', ''union'', ''intersect'', ''except''}"
      using digits by (auto simp: is_ascii_digit_def less_eq_char_def)
    moreover have "sint n < 2 ^ 63" using sint_lt [of n] by simp
    ultimately show ?thesis using digits assms(1) by (simp add: word_token_def parse_i64_def decimal_display)
  qed
  ultimately show ?thesis using lex_word [of ?w s] digits assms by (simp add: i64_display_def)
qed

lemma lex_words:
  "list_all word_ok ws \<Longrightarrow>
    lex (join '' '' (map quote_if_needed ws) @ CHR '')'' # s) = push_tokens (map Token_Word ws @ [Token_Close]) (lex s)"
proof (induction ws rule: induct_list012)
  case (3 v w ws)
  then show ?case by (simp add: lex_word_ok)
qed (simp_all add: lex_word_ok)

lemma lex_args:
  assumes "\<And>a s. a \<in> set as \<Longrightarrow> delimits s \<Longrightarrow>
      lex (arg_display (map_arg f a) @ s) = push_tokens (arg_tokens (map_arg g a)) (lex s)"
  shows "lex (join '', '' (map (arg_display \<circ> map_arg f) as) @ CHR '')'' # s)
    = push_tokens (commas (map (arg_tokens \<circ> map_arg g) as) @ [Token_Close]) (lex s)"
  using assms
proof (induction as rule: induct_list012)
  case (3 a b as)
  then show ?case by simp
qed simp_all

lemma lex_display:
  "printable d e \<Longrightarrow> delimits s \<Longrightarrow> lex (expr_display e @ s) = push_tokens (tokens_of e) (lex s)"
proof (induction e arbitrary: s)
  case (Expr_Word w)
  then show ?case by (simp add: lex_word_ok)
next
  case (Expr_Variable v)
  then have "word_token (CHR ''$'' # v) = Inr (Token_Word (CHR ''$'' # v))"
    by (simp add: word_token_def is_ascii_digit_def less_eq_char_def)
  then show ?case using Expr_Variable lex_word [of "CHR ''$'' # v" s] by simp
next
  case (Expr_Set ws)
  then show ?case using lex_set [of "join '' '' (map quote_if_needed ws) @ CHR '')'' # s"] lex_words [of ws s] by simp
next
  case (Expr_Binary op l r)
  then show ?case by simp
next
  case (Expr_Let n val body)
  have "lex (n @ t) = push_tokens [Token_Word n] (lex t)" if "delimits t" for t
    using Expr_Let.prems(1) lex_word [of n t] that by (auto simp: plain_word_def word_token_def)
  then show ?case using Expr_Let
      lex_keyword(1) [of "CHR '' '' # n @ '' = '' @ expr_display val @ '' in '' @ expr_display body @ s"]
      lex_keyword(2) [of "CHR '' '' # expr_display body @ s"] by simp
next
  case (Expr_Call c)
  have args: "arg_ok a" "pred_arg (printable d) a" if "a \<in> set (call_args c)" for a
    using Expr_Call.prems(1) that by (simp_all add: printable_call list_all_iff del: printable.simps)
  have "lex (arg_display (map_arg expr_display a) @ t) = push_tokens (arg_tokens (map_arg tokens_of a)) (lex t)"
    if a: "a \<in> set (call_args c)" and t: "delimits t" for a t
  proof (cases a)
    case (Arg_Expr e)
    have "e \<in> set_call c" using a Arg_Expr by (cases c) (auto intro: arg.set_intros bexI [of _ a])
    then show ?thesis using Expr_Call.IH [of e t] args [OF a] t Arg_Expr by simp
  next
    case (Arg_Word w)
    then show ?thesis using args [OF a] t by (simp add: lex_word_ok)
  next
    case (Arg_Int n)
    then show ?thesis using args [OF a] t by (simp add: lex_int)
  qed
  from lex_args [OF this, where s = s] show ?case
    by (simp add: call_display_def lex_function_name call.map_sel)
qed

section \<open>Parsing the tokens of what is printed\<close>

text \<open>What may follow the tokens of an expression, so that it is read as it was printed.\<close>

definition follows :: "expr \<Rightarrow> token list \<Rightarrow> bool" where
  "follows e rest \<longleftrightarrow> \<not> prefix [Token_Open] rest \<and> (ends_in_let e \<longrightarrow> operator rest = None)"

text \<open>
  An expression is read back: as an operand when it is no operator, and as the left side the loop over the operators
  starts from.
\<close>

definition operand_back :: "dialect \<Rightarrow> expr \<Rightarrow> bool" where
  "operand_back d e \<longleftrightarrow> (\<forall>n rest. length (tokens_of e) \<le> n \<longrightarrow> follows e rest \<longrightarrow>
     primary d (expression d n) (tokens_of e @ rest) = Ok (e, rest))"

definition read_back :: "dialect \<Rightarrow> expr \<Rightarrow> bool" where
  "read_back d e \<longleftrightarrow> (\<forall>n rest. length (tokens_of e) \<le> n \<longrightarrow> follows e rest \<longrightarrow>
     (\<exists>k > length rest. expression d (Suc n) (tokens_of e @ rest)
        = operands (primary d (expression d n)) k e rest))"

lemma operand_read_back: "operand_back d e \<Longrightarrow> read_back d e"
  by (fastforce simp: operand_back_def read_back_def)

lemma operator_op_token [simp]: "operator (op_token op # ts) = Some op" "op_token op \<noteq> Token_Open" "Token_Open \<noteq> op_token op"
  by (cases op; simp)+

lemma operands_Ok: "length rest < k \<Longrightarrow> operator rest = None \<Longrightarrow> operands prim k e rest = Ok (e, rest)"
  by (cases k) auto

lemma read_back_Ok:
  assumes "read_back d e" "length (tokens_of e) < n" "operator rest = None" "\<not> prefix [Token_Open] rest"
  shows "expression d n (tokens_of e @ rest) = Ok (e, rest)"
proof -
  obtain m where "n = Suc m" "length (tokens_of e) \<le> m" using assms(2) by (cases n) auto
  moreover have "follows e rest" using assms(3,4) by (simp add: follows_def)
  ultimately obtain k where "length rest < k"
      "expression d n (tokens_of e @ rest) = operands (primary d (expression d m)) k e rest"
    using assms(1) unfolding read_back_def by blast
  then show ?thesis using assms(3) by (simp add: operands_Ok)
qed

lemma read_back_binary:
  assumes "read_back d l" "\<not> ends_in_let l" "operand_back d r"
  shows "read_back d (Expr_Binary op l r)"
  unfolding read_back_def
proof (intro allI impI)
  fix n rest
  assume n: "length (tokens_of (Expr_Binary op l r)) \<le> n" and f: "follows (Expr_Binary op l r) rest"
  let ?prim = "primary d (expression d n)" and ?rest = "op_token op # tokens_of r @ rest"
  have "length (tokens_of l) \<le> n" "follows l ?rest" using n assms(2) by (simp_all add: follows_def)
  then obtain k where k: "length ?rest < k" "expression d (Suc n) (tokens_of l @ ?rest) = operands ?prim k l ?rest"
    using assms(1) unfolding read_back_def by blast
  have "?prim (tokens_of r @ rest) = Ok (r, rest)"
    using assms(3) n f unfolding operand_back_def follows_def by simp
  moreover obtain j where "k = Suc j" using k(1) by (cases k) auto
  ultimately have "expression d (Suc n) (tokens_of (Expr_Binary op l r) @ rest) = operands ?prim j (Expr_Binary op l r) rest"
    using k(2) by simp
  then show "\<exists>k > length rest. expression d (Suc n) (tokens_of (Expr_Binary op l r) @ rest)
      = operands ?prim k (Expr_Binary op l r) rest"
    using k(1) \<open>k = Suc j\<close> by (intro exI [of _ j]) simp
qed

lemma expect_Cons [simp]: "expect t (t # ts) = Ok ((), ts)"
  by (simp add: expect_def)

lemma operand_back_let:
  assumes "read_back d v" "read_back d b"
  shows "operand_back d (Expr_Let n v b)"
  unfolding operand_back_def
proof (intro allI impI)
  fix m rest
  assume m: "length (tokens_of (Expr_Let n v b)) \<le> m" and f: "follows (Expr_Let n v b) rest"
  have "expression d m (tokens_of v @ Token_In # tokens_of b @ rest) = Ok (v, Token_In # tokens_of b @ rest)"
    using read_back_Ok [OF assms(1)] m by simp
  moreover have "expression d m (tokens_of b @ rest) = Ok (b, rest)"
    using read_back_Ok [OF assms(2)] m f by (simp add: follows_def)
  ultimately show "primary d (expression d m) (tokens_of (Expr_Let n v b) @ rest) = Ok (Expr_Let n v b, rest)"
    by (simp add: primary_def)
qed

lemma set_words_map: "set_words vs (map Token_Word ws @ Token_Close # rest) = Ok (vs @ ws, rest)"
  by (induction ws arbitrary: vs) simp_all

lemma argument_back:
  assumes "fits kind a" "\<And>e. a = Arg_Expr e \<Longrightarrow> ex (tokens_of e @ rest) = Ok (e, rest)"
  shows "argument ex kind (arg_tokens (map_arg tokens_of a) @ rest) = Ok (a, rest)"
  using assms by (cases a; cases kind) (auto simp: argument_def)

lemma arguments_back:
  assumes "as \<noteq> []" "length as \<le> length kinds" "list_all2 fits (take (length as) kinds) as"
    and "\<And>e us. Arg_Expr e \<in> set as \<Longrightarrow> prefix [Token_Comma] us \<or> prefix [Token_Close] us \<Longrightarrow>
        ex (tokens_of e @ us) = Ok (e, us)"
  shows "arguments ex name kinds bs (commas (map (arg_tokens \<circ> map_arg tokens_of) as) @ Token_Close # rest)
    = Ok (bs @ as, Token_Close # rest)"
  using assms
proof (induction as arbitrary: kinds bs)
  case (Cons a as)
  obtain kind ks where kinds: "kinds = kind # ks" using Cons.prems(2) by (cases kinds) auto
  show ?case
  proof (cases as)
    case Nil
    then show ?thesis using Cons.prems(3,4) kinds argument_back [of kind a ex "Token_Close # rest"] by simp
  next
    case (Cons b bs')
    let ?after = "commas (map (arg_tokens \<circ> map_arg tokens_of) as) @ Token_Close # rest"
    have "argument ex kind (arg_tokens (map_arg tokens_of a) @ Token_Comma # ?after) = Ok (a, Token_Comma # ?after)"
      by (rule argument_back) (use Cons.prems(3,4) kinds in auto)
    moreover have "arguments ex name ks (bs @ [a]) ?after = Ok ((bs @ [a]) @ as, Token_Close # rest)"
      by (rule Cons.IH) (use Cons.prems kinds Cons in auto)
    moreover have "commas (map (arg_tokens \<circ> map_arg tokens_of) (a # as)) @ Token_Close # rest
        = arg_tokens (map_arg tokens_of a) @ Token_Comma # ?after"
      using Cons by simp
    moreover have "ks \<noteq> []" using Cons Cons.prems(2) kinds by auto
    ultimately show ?thesis by (simp only: kinds arguments.simps ok_then.simps prod.case) simp
  qed
qed simp

lemma length_commas: "ts \<in> set tss \<Longrightarrow> length ts \<le> length (commas tss)"
  by (induction tss rule: commas.induct) auto

lemma tokens_of_first: "tokens_of e \<noteq> []" "hd (tokens_of e) \<noteq> Token_Close"
  by (induction e) simp_all

lemma commas_first:
  "as \<noteq> [] \<Longrightarrow> hd (commas (map (arg_tokens \<circ> map_arg tokens_of) as) @ ts) \<noteq> Token_Close"
proof (induction as rule: induct_list012)
  case (2 a)
  then show ?case using tokens_of_first by (cases a) simp_all
next
  case (3 a b as)
  then show ?case using tokens_of_first by (cases a) simp_all
qed simp

lemma operand_back_call:
  assumes ok: "call_ok d c" and each: "\<And>e. e \<in> set_call c \<Longrightarrow> read_back d e"
  shows "operand_back d (Expr_Call c)"
  unfolding operand_back_def
proof (intro allI impI)
  fix n rest
  assume n: "length (tokens_of (Expr_Call c)) \<le> n"
  obtain f as where c: "c = Call f as" by (cases c)
  obtain required optional where sig: "signature f = (required, optional)" by (cases "signature f")
  have as: "as \<noteq> []" "length required \<le> length as" "length as \<le> length (required @ optional)"
      "list_all2 fits (take (length as) (required @ optional)) as" "named (function_name f) d = Some f"
    using ok signature_ne [of f] by (auto simp: call_ok_def c sig named_function_name)
  let ?ex = "expression d n"
  let ?tokens = "commas (map (arg_tokens \<circ> map_arg tokens_of) as) @ Token_Close # rest"
  have "?ex (tokens_of e @ us) = Ok (e, us)"
    if e: "Arg_Expr e \<in> set as" and us: "prefix [Token_Comma] us \<or> prefix [Token_Close] us" for e us
  proof (rule read_back_Ok)
    show "read_back d e" using e c by (auto intro!: each bexI [OF _ e])
    have "tokens_of e \<in> set (map (arg_tokens \<circ> map_arg tokens_of) as)" using e by force
    then have "length (tokens_of e) \<le> length (commas (map (arg_tokens \<circ> map_arg tokens_of) as))" by (rule length_commas)
    then show "length (tokens_of e) < n" using n c by simp
  qed (use us in \<open>auto simp: prefix_def\<close>)
  then have args: "arguments ?ex (function_name f) (required @ optional) [] ?tokens = Ok (as, Token_Close # rest)"
    using arguments_back [OF as(1,3,4), of ?ex "function_name f" "[]" rest] by simp
  have "\<not> prefix [Token_Close] ?tokens"
    using as(1) commas_first [of as "Token_Close # rest"] by (auto simp: prefix_def)
  then show "primary d ?ex (tokens_of (Expr_Call c) @ rest) = Ok (Expr_Call c, rest)"
    using args as(2,5) sig by (simp add: c primary_def call_in_def)
qed

lemma operand_back_word: "word_ok w \<Longrightarrow> \<not> (prefix ''$'' w \<and> w \<noteq> ''$'') \<Longrightarrow> operand_back d (Expr_Word w)"
  by (auto simp: operand_back_def follows_def primary_def strip_prefix_def prefix_def)

lemma printed_back:
  "printable d e \<Longrightarrow> read_back d e \<and> (\<not> is_binary e \<longrightarrow> operand_back d e)"
proof (induction e)
  case (Expr_Word w)
  then show ?case using operand_back_word operand_read_back by auto
next
  case (Expr_Variable v)
  then have "operand_back d (Expr_Variable v)"
    by (auto simp: operand_back_def follows_def primary_def strip_prefix_def)
  then show ?case using operand_read_back by simp
next
  case (Expr_Set ws)
  have "operand_back d (Expr_Set ws)" by (simp add: operand_back_def primary_def set_words_map)
  then show ?case using operand_read_back by simp
next
  case (Expr_Binary op l r)
  then show ?case using read_back_binary [of d l r op] by simp
next
  case (Expr_Let n val body)
  then have "operand_back d (Expr_Let n val body)" using operand_back_let by simp
  then show ?case using operand_read_back by simp
next
  case (Expr_Call c)
  have ok: "call_ok d c" using Expr_Call.prems by simp
  have "read_back d e" if "e \<in> set_call c" for e
    using Expr_Call that by (simp add: call.set_map [abs_def] call.pred_set)
  then have "operand_back d (Expr_Call c)" using ok operand_back_call by blast
  then show ?case using operand_read_back by simp
qed

text \<open>
  C12. Printing and parsing round-trip: an expression of a dialect whose operators associate as the parser reads them,
  and whose words can be written with or without quotation marks, is printed as text that parses to it.
\<close>

theorem query_display_parse:
  assumes "printable d e"
  shows "parse_in (expr_display e) d = Ok e"
proof -
  have "lex (expr_display e) = Inr (tokens_of e)"
    using lex_display [OF assms, of "[]"] by (simp add: push_tokens_def)
  moreover have "expression d (Suc (length (tokens_of e))) (tokens_of e) = Ok (e, [])"
    using printed_back [OF assms] read_back_Ok [of d e "Suc (length (tokens_of e))" "[]"] by (simp del: expression.simps)
  ultimately show ?thesis by (simp add: parse_in_def)
qed

definition example_query :: expr where
  "example_query = Expr_Let ''x'' (Expr_Call (Call Fn_Deps [Arg_Expr (Expr_Word ''//a:lib''), Arg_Int 2]))
     (Expr_Binary Op_Except (Expr_Variable ''x'')
       (Expr_Call (Call Fn_Kind [Arg_Word ''cc .* rule'', Arg_Expr (Expr_Set [''//b:b''])])))"

theorem query_display_parse_witness:
  "parse_in (expr_display example_query) Dialect_Query = Ok example_query"
proof (rule query_display_parse)
  show "printable Dialect_Query example_query"
    by (simp add: example_query_def word_ok_def plain_word_def quotable_def is_word_char_def is_alphanumeric_def
        char_classes less_eq_char_def call_ok_def function_all_def ALL_FUNCTIONS_def suffix_def [of "[_]"] snoc_eq_iff_butlast)
qed

text \<open>
  Printing drops the parentheses of an operator's right operand: two expressions that were read from different
  texts, and mean different sets, are written the same in an error.
\<close>

theorem canonical_ambiguous:
  "\<exists>e f. parse_query ''a - (b - c)'' = Ok e \<and> parse_query ''a - b - c'' = Ok f \<and> e \<noteq> f \<and> canonical e = canonical f"
proof -
  have lexed: "lex ''a - (b - c)'' = Inr [Token_Word ''a'', Token_Minus, Token_Open, Token_Word ''b'', Token_Minus, Token_Word ''c'', Token_Close]"
      "lex ''a - b - c'' = Inr [Token_Word ''a'', Token_Minus, Token_Word ''b'', Token_Minus, Token_Word ''c'']"
    by (simp_all add: lex.simps(2) is_whitespace_def is_word_char_def is_alphanumeric_def char_classes less_eq_char_def
        word_token_def push_token_def)
  show ?thesis
    by (simp add: parse_query_def parse_in_def lexed primary_def strip_prefix_def canonical_def)
qed

text \<open>A word of digits is not kept as written: it is read as a number and printed without its leading zeros.\<close>

theorem digits_rewritten: "parse_query ''007'' = Ok (Expr_Word ''7'') \<and> parse_query ''set(007)'' = Ok (Expr_Set [''7''])"
proof -
  have "lex ''007'' = Inr [Token_Int 7]" "lex ''set(007)'' = Inr [Token_Set, Token_Open, Token_Int 7, Token_Close]"
    by (simp_all add: lex.simps(2) is_whitespace_def is_word_char_def is_alphanumeric_def char_classes less_eq_char_def
        word_token_def push_token_def parse_i64_def decimal_def digit_value_def)
  moreover have "i64_display 7 = ''7''" 
    using char_of_char [of "CHR ''7''", where 'a = nat] by (simp add: i64_display_def nat_display.simps)
  ultimately show ?thesis by (simp add: parse_query_def parse_in_def primary_def)
qed

end
