(* ===== verification/Query_Correct.thy ===== *)
theory Query_Correct
  imports Query_Logic Query_Print
begin

text \<open>
  The meaning of query expressions as sets of labels, and that the evaluator computes it: for any text that parses and any
  graph with finitely many targets, evaluation ends, and gives an error or a set that the expression means.
\<close>

section \<open>The meaning of an expression\<close>

type_synonym meaning = "(string \<rightharpoonup> label set) \<Rightarrow> label set \<Rightarrow> bool"

definition arg_means :: "meaning call \<Rightarrow> nat \<Rightarrow> meaning" where
  "arg_means ms i \<rho> A \<longleftrightarrow> (\<exists>m. call_args ms ! i = Arg_Expr m \<and> m \<rho> A)"

definition arg_word :: "'e call \<Rightarrow> nat \<Rightarrow> string" where
  "arg_word c i = (case call_args c ! i of Arg_Word w \<Rightarrow> w | _ \<Rightarrow> [])"

definition graph_suites :: "graph \<Rightarrow> suites" where
  "graph_suites G = query_suites G (evaluator_new default_options)"

text \<open>The tests a target stands for: itself if it is one, and those of a suite that can be expanded.\<close>

definition tests_meant :: "graph \<Rightarrow> label \<Rightarrow> label set" where
  "tests_meant G l =
     (case graph_node G l of
        Inr n \<Rightarrow>
          (case node_kind_of n of
             Rule cls test _ _ \<Rightarrow>
               (if cls = ''test_suite'' then
                  (case expand (graph_suites G) l False of Some (Inr found) \<Rightarrow> set found | _ \<Rightarrow> {})
                else if test then {l} else {})
           | _ \<Rightarrow> {})
      | Inl _ \<Rightarrow> {})"

text \<open>The labels of \<open>A\<close> whose node has a property, and what a method of the graph answers for all labels of \<open>A\<close>.\<close>

definition nodes_with :: "graph \<Rightarrow> (node \<Rightarrow> bool) \<Rightarrow> label set \<Rightarrow> label set" where
  "nodes_with G P A = {l \<in> A. \<exists>n. graph_node G l = Inr n \<and> P n}"

definition answered :: "(label \<Rightarrow> (string, label list) result) \<Rightarrow> label set \<Rightarrow> label set" where
  "answered f A = {m. \<exists>l \<in> A. \<exists>ls. f l = Inr ls \<and> m \<in> set ls}"

definition paths_between :: "graph \<Rightarrow> query_options \<Rightarrow> label set \<Rightarrow> label set \<Rightarrow> label set" where
  "paths_between G opts A B = {m. \<exists>a \<in> A. \<exists>b \<in> B. (dep G opts)\<^sup>*\<^sup>* a m \<and> (dep G opts)\<^sup>*\<^sup>* m b}"

definition call_means :: "graph \<Rightarrow> query_options \<Rightarrow> regex_crate \<Rightarrow> expr call \<Rightarrow> meaning call \<Rightarrow> meaning" where
  "call_means G opts R c ms \<rho> S \<longleftrightarrow>
     (case call_function c of
        Fn_Deps \<Rightarrow> (\<exists>A. arg_means ms 0 \<rho> A \<and> S = within (dep G opts) A (depth_arg c 1))
      | Fn_RDeps \<Rightarrow> (\<exists>U T. arg_means ms 0 \<rho> U \<and> arg_means ms 1 \<rho> T \<and> S = depending G opts U T (depth_arg c 2))
      | Fn_SomePath \<Rightarrow> (\<exists>A B. arg_means ms 0 \<rho> A \<and> arg_means ms 1 \<rho> B \<and> path_answer G opts A B S)
      | Fn_AllPaths \<Rightarrow> (\<exists>A B. arg_means ms 0 \<rho> A \<and> arg_means ms 1 \<rho> B \<and> S = paths_between G opts A B)
      | Fn_Inputs \<Rightarrow> arg_means ms 1 \<rho> S
      | Fn_Mnemonic \<Rightarrow> arg_means ms 1 \<rho> S
      | Fn_Outputs \<Rightarrow> arg_means ms 1 \<rho> S
      | Fn_Config \<Rightarrow> (\<exists>A. arg_means ms 0 \<rho> A \<and> S = {l \<in> A. in_configuration G l (arg_word c 1)} \<and> S \<noteq> {})
      | Fn_Kind \<Rightarrow> (\<exists>A p. arg_means ms 1 \<rho> A \<and> R (arg_word c 0) = Inr p
          \<and> S = nodes_with G (\<lambda>n. p (description (node_kind_of n))) A)
      | Fn_Filter \<Rightarrow> (\<exists>A p. arg_means ms 1 \<rho> A \<and> R (arg_word c 0) = Inr p \<and> S = {l \<in> A. p (graph_display G l)})
      | Fn_Attr \<Rightarrow> (\<exists>A p. arg_means ms 2 \<rho> A \<and> R (arg_word c 1) = Inr p
          \<and> S = nodes_with G (attr_matches (arg_word c 0) p) A)
      | Fn_Labels \<Rightarrow> (\<exists>A. arg_means ms 1 \<rho> A \<and> S = {m. \<exists>l \<in> A. \<exists>n a. graph_node G l = Inr n
          \<and> find_attr n (arg_word c 0) = Some a \<and> m \<in> set (attr_labels a)})
      | Fn_Tests \<Rightarrow> (\<exists>A. arg_means ms 0 \<rho> A \<and> S = \<Union> (tests_meant G ` A))
      | Fn_Some \<Rightarrow> (\<exists>A. arg_means ms 0 \<rho> A \<and> A \<noteq> {} \<and> S = {Min A})
      | Fn_Siblings \<Rightarrow> (\<exists>A. arg_means ms 0 \<rho> A \<and> S = answered (graph_siblings G) A)
      | Fn_SamePkgDirectRDeps \<Rightarrow> (\<exists>A. arg_means ms 0 \<rho> A
          \<and> S = {m. \<exists>l \<in> A. m \<in> answered (graph_siblings G) {l} \<and> dep G opts m l})
      | Fn_BuildFiles \<Rightarrow> (\<exists>A. arg_means ms 0 \<rho> A \<and> S = answered (graph_build_files G) A)
      | Fn_LoadFiles \<Rightarrow> (\<exists>A. arg_means ms 0 \<rho> A \<and> S = answered (graph_load_files G) A)
      | Fn_Executables \<Rightarrow> (\<exists>A. arg_means ms 0 \<rho> A
          \<and> S = nodes_with G (\<lambda>n. case node_kind_of n of Rule _ _ x _ \<Rightarrow> x | _ \<Rightarrow> False) A)
      | Fn_Visible \<Rightarrow> (\<exists>A B. arg_means ms 0 \<rho> A \<and> arg_means ms 1 \<rho> B
          \<and> S = {l \<in> B. \<forall>p \<in> A. graph_visible G p l = Inr True})
      | _ \<Rightarrow> False)"

fun op_means :: "op \<Rightarrow> label set \<Rightarrow> label set \<Rightarrow> label set" where
  "op_means Op_Union A B = A \<union> B"
| "op_means Op_Intersect A B = A \<inter> B"
| "op_means Op_Except A B = A - B"

primrec means :: "graph \<Rightarrow> query_options \<Rightarrow> regex_crate \<Rightarrow> expr \<Rightarrow> meaning" where
  "means G opts R (Expr_Word w) \<rho> S \<longleftrightarrow> (\<exists>ls. graph_pattern G w = Inr ls \<and> S = set ls)"
| "means G opts R (Expr_Variable v) \<rho> S \<longleftrightarrow> \<rho> v = Some S"
| "means G opts R (Expr_Set ws) \<rho> S \<longleftrightarrow>
     (\<forall>w \<in> set ws. is_ok (graph_pattern G w)) \<and> S = {m. \<exists>w \<in> set ws. \<exists>ls. graph_pattern G w = Inr ls \<and> m \<in> set ls}"
| "means G opts R (Expr_Binary op l r) \<rho> S \<longleftrightarrow>
     (\<exists>A B. means G opts R l \<rho> A \<and> means G opts R r \<rho> B \<and> S = op_means op A B)"
| "means G opts R (Expr_Let n v b) \<rho> S \<longleftrightarrow> (\<exists>A. means G opts R v \<rho> A \<and> means G opts R b (\<rho>(n \<mapsto> A)) S)"
| "means G opts R (Expr_Call c) \<rho> S \<longleftrightarrow> call_means G opts R c (map_call (means G opts R) c) \<rho> S"

section \<open>Arguments\<close>

text \<open>An environment holds the sets of the variables.\<close>

definition env_ok :: "env \<Rightarrow> (string \<rightharpoonup> label set) \<Rightarrow> bool" where
  "env_ok env \<rho> \<longleftrightarrow> (\<forall>v. case map_of (rev env) v of None \<Rightarrow> \<rho> v = None | Some xs \<Rightarrow> \<exists>A. \<rho> v = Some A \<and> is_set xs A)"

definition computes :: "graph \<Rightarrow> query_options \<Rightarrow> evaluation \<Rightarrow> meaning \<Rightarrow> bool" where
  "computes G opts ev m \<longleftrightarrow>
     (\<forall>env \<rho>. env_ok env \<rho> \<longrightarrow> ensures G opts (ev env) (\<lambda>out. \<exists>S. is_set out S \<and> m \<rho> S))"

lemma computesD:
  "computes G opts ev m \<Longrightarrow> env_ok env \<rho> \<Longrightarrow> ensures G opts (ev env) (\<lambda>out. \<exists>S. is_set out S \<and> m \<rho> S)"
  by (simp add: computes_def)

lemma env_ok_Nil: "env_ok [] Map.empty"
  by (simp add: env_ok_def)

lemma env_ok_push:
  assumes "env_ok env \<rho>" "is_set xs A"
  shows "env_ok (env @ [(n, xs)]) (\<rho>(n \<mapsto> A))"
  unfolding env_ok_def
proof
  fix v
  show "case map_of (rev (env @ [(n, xs)])) v of None \<Rightarrow> (\<rho>(n \<mapsto> A)) v = None
    | Some xs \<Rightarrow> \<exists>B. (\<rho>(n \<mapsto> A)) v = Some B \<and> is_set xs B"
    using assms(1) [unfolded env_ok_def, THEN spec, of v] assms(2) by (cases "v = n") (auto split: option.splits)
qed

lemma call_ok_fits:
  assumes "call_ok d c" "i < length (fst (signature (call_function c)))"
  shows "i < length (call_args c)" "fits (fst (signature (call_function c)) ! i) (call_args c ! i)"
proof -
  obtain required optional where sig: "signature (call_function c) = (required, optional)" by fastforce
  have c: "length required \<le> length (call_args c)"
      "list_all2 fits (take (length (call_args c)) (required @ optional)) (call_args c)"
    using assms(1) sig unfolding call_ok_def by (simp_all del: take_append)
  show i: "i < length (call_args c)" using assms(2) c(1) sig by simp
  have "fits (take (length (call_args c)) (required @ optional) ! i) (call_args c ! i)"
    using c(2) i by (auto simp: list_all2_conv_all_nth simp del: take_append)
  then show "fits (fst (signature (call_function c)) ! i) (call_args c ! i)"
    using assms(2) sig i by (simp add: nth_append del: take_append)
qed

lemma fits_cases:
  "fits Kind_Expr a \<longleftrightarrow> (\<exists>e. a = Arg_Expr e)" "fits Kind_Word a \<longleftrightarrow> (\<exists>w. a = Arg_Word w)"
  by (cases a; simp)+

lemma set_call_arg: "i < length (call_args c) \<Longrightarrow> call_args c ! i = Arg_Expr e \<Longrightarrow> e \<in> set_call c"
  by (cases c) (force dest: nth_mem)

text \<open>An argument that is an expression is evaluated to what it means.\<close>

lemma ensures_expr_arg:
  assumes "i < length (call_args c)" "fits Kind_Expr (call_args c ! i)" "env_ok env \<rho>"
    and "\<And>e. e \<in> set_call c \<Longrightarrow> computes G opts (ev e) (m e)"
  shows "ensures G opts (expr_arg (map_call ev c) i env) (\<lambda>out. \<exists>A. is_set out A \<and> arg_means (map_call m c) i \<rho> A)"
proof -
  obtain e where e: "call_args c ! i = Arg_Expr e" using assms(2) by (auto simp: fits_cases)
  have "ensures G opts (ev e env) (\<lambda>out. \<exists>A. is_set out A \<and> m e \<rho> A)"
    using assms(4) [OF set_call_arg [OF assms(1) e]] assms(3) by (rule computesD)
  then show ?thesis
    using assms(1) e by (intro ensuresI) (auto simp: expr_arg_def call.map_sel arg_means_def dest!: ensuresD)
qed

lemma ensures_word_arg:
  assumes "i < length (call_args c)"
  shows "ensures G opts (word_arg c i) (\<lambda>w. w = arg_word c i)"
  using assms by (intro ensuresI) (auto simp: word_arg_def arg_word_def split: arg.splits)

lemma ensures_regex: "ensures G opts (regex_in R name w) (\<lambda>p. R w = Inr p)"
  unfolding regex_in_def by (rule ensures_lift) (simp add: map_err_Inr)

section \<open>The functions\<close>

text \<open>What the evaluation of a call may rely on: the call is well formed, and its arguments are evaluated to what they mean.\<close>

definition call_ready ::
  "graph \<Rightarrow> query_options \<Rightarrow> expr call \<Rightarrow> (expr \<Rightarrow> evaluation) \<Rightarrow> (expr \<Rightarrow> meaning) \<Rightarrow> env \<Rightarrow> (string \<rightharpoonup> label set) \<Rightarrow> bool" where
  "call_ready G opts c ev m env \<rho> \<longleftrightarrow> finite_graph G \<and> env_ok env \<rho>
     \<and> (\<exists>d. d \<noteq> Dialect_Sky \<and> call_ok d c) \<and> (\<forall>e \<in> set_call c. computes G opts (ev e) (m e))"

lemma ready_arg:
  assumes "call_ready G opts c ev m env \<rho>" "signature (call_function c) = (required, optional)"
    and "i < length required" "required ! i = Kind_Expr"
  shows "ensures G opts (expr_arg (map_call ev c) i env) (\<lambda>out. \<exists>A. is_set out A \<and> arg_means (map_call m c) i \<rho> A)"
proof -
  obtain d where d: "call_ok d c" using assms(1) by (auto simp: call_ready_def)
  show ?thesis
    by (rule ensures_expr_arg) (use assms call_ok_fits [OF d, of i] in \<open>auto simp: call_ready_def\<close>)
qed

lemma ready_word:
  assumes "call_ready G opts c ev m env \<rho>" "signature (call_function c) = (required, optional)" "i < length required"
  shows "ensures G opts (word_arg c i) (\<lambda>w. w = arg_word c i)"
  using assms by (intro ensures_word_arg) (auto simp: call_ready_def dest: call_ok_fits(1))

lemma within_universe_plain: "plain G opts s \<Longrightarrow> within_universe G A warn s = ((A, []), s)"
  by (simp add: within_universe_def plain_def)

lemma bset_union_Nil [simp]: "bset_union a [] = a"
  by (simp add: bset_union_def)

lemma ensures_both_within: "ensures G opts (both_within_universe G a b) (\<lambda>ab. ab = (a, b))"
  by (intro ensuresI) (auto simp: both_within_universe_def within_universe_plain plain_def)

lemma ready_deps:
  assumes r: "call_ready G opts c ev m env \<rho>" and f: "call_function c = Fn_Deps"
  shows "ensures G opts (call_deps G c (map_call ev c) env)
    (\<lambda>out. \<exists>S. is_set out S \<and> call_means G opts R c (map_call m c) \<rho> S)"
proof -
  note arg = ready_arg [OF r, unfolded f, OF signature.simps(11), of 0]
  have G: "finite_graph G" using r by (simp add: call_ready_def)
  show ?thesis unfolding call_deps_def
  proof (rule ensures_then [OF arg], simp, simp, elim exE conjE, goal_cases)
    case (1 roots A)
    have "ensures G opts (deps_in G roots (depth_arg c 1) q) (\<lambda>out. \<exists>S. is_set out S \<and> call_means G opts R c (map_call m c) \<rho> S)" for q
      by (rule ensures_conseq [OF ensures_deps_in [OF G 1(1)]]) (use 1(2) in \<open>auto simp: call_means_def f\<close>)
    then have "ensures G opts (ev_then (deps_in G roots (depth_arg c 1) q) (\<lambda>out. ev_return (bset_union out [])))
        (\<lambda>out. \<exists>S. is_set out S \<and> call_means G opts R c (map_call m c) \<rho> S)" for q
      by (rule ensures_then) (auto intro: ensures_return)
    then show ?case by (rule ensures_state) (simp add: within_universe_plain)
  qed
qed

lemma ready_rdeps:
  assumes r: "call_ready G opts c ev m env \<rho>" and f: "call_function c = Fn_RDeps"
  shows "ensures G opts (call_rdeps G c (map_call ev c) env)
    (\<lambda>out. \<exists>S. is_set out S \<and> call_means G opts R c (map_call m c) \<rho> S)"
proof -
  note arg = ready_arg [OF r, unfolded f, OF signature.simps(21)]
  have G: "finite_graph G" using r by (simp add: call_ready_def)
  show ?thesis unfolding call_rdeps_def
  proof (rule ensures_then [OF arg], simp, simp, rule ensures_then [OF arg], simp, simp, elim exE conjE, goal_cases)
    case (1 scope targets U T)
    have "ensures G opts (rdeps G scope targets (depth_arg c 2)) (\<lambda>out. \<exists>S. is_set out S \<and> call_means G opts R c (map_call m c) \<rho> S)"
      by (rule ensures_conseq [OF ensures_rdeps [OF G 1(1,3)]]) (use 1(2,4) in \<open>auto simp: call_means_def f\<close>)
    then show ?case by (rule ensures_state) (simp add: within_universe_plain)
  qed
qed

lemma ready_somepath:
  assumes r: "call_ready G opts c ev m env \<rho>" and f: "call_function c = Fn_SomePath"
  shows "ensures G opts (call_somepath G (map_call ev c) env)
    (\<lambda>out. \<exists>S. is_set out S \<and> call_means G opts R c (map_call m c) \<rho> S)"
proof -
  note arg = ready_arg [OF r, unfolded f, OF signature.simps(2)]
  have G: "finite_graph G" using r by (simp add: call_ready_def)
  show ?thesis unfolding call_somepath_def
  proof (rule ensures_then [OF arg], simp, simp, rule ensures_then [OF arg], simp, simp,
      rule ensures_then [OF ensures_both_within], elim exE conjE, goal_cases)
    case (1 a b ab A B)
    have "ensures G opts (some_path G a b) (\<lambda>out. \<exists>S. is_set out S \<and> call_means G opts R c (map_call m c) \<rho> S)"
      by (rule ensures_conseq [OF ensures_some_path [OF G 1(2,4)]])
        (use 1(3,5) in \<open>auto simp: call_means_def f some_answer_def\<close>)
    then show ?case using 1(1) by simp
  qed
qed

lemma ready_allpaths:
  assumes r: "call_ready G opts c ev m env \<rho>" and f: "call_function c = Fn_AllPaths"
  shows "ensures G opts (call_allpaths G (map_call ev c) env)
    (\<lambda>out. \<exists>S. is_set out S \<and> call_means G opts R c (map_call m c) \<rho> S)"
proof -
  note arg = ready_arg [OF r, unfolded f, OF signature.simps(1)]
  have G: "finite_graph G" using r by (simp add: call_ready_def)
  show ?thesis unfolding call_allpaths_def
  proof (rule ensures_then [OF arg], simp, simp, rule ensures_then [OF arg], simp, simp,
      rule ensures_then [OF ensures_both_within], elim exE conjE, goal_cases)
    case (1 a b ab A B)
    have "ensures G opts (ev_then (deps G a None) (\<lambda>reach. ev_then (rdeps G reach b None) (\<lambda>there.
          ev_return (filter (\<lambda>l. l \<in> set there) reach)))) (\<lambda>out. \<exists>S. is_set out S \<and> call_means G opts R c (map_call m c) \<rho> S)"
    proof (rule ensures_then [OF ensures_deps [OF G 1(2)]], rule ensures_then [OF ensures_rdeps [OF G _ 1(4)]], assumption,
        rule ensures_return, goal_cases)
      case (1 reach there)
      have "is_set (filter (\<lambda>l. l \<in> set there) reach) (paths_between G opts A B)"
      proof (rule is_set_same [OF is_set_filter [OF 1(1)]])
        show "{l \<in> within (dep G opts) A None. l \<in> set there} = paths_between G opts A B"
          using 1(2) unfolding paths_between_def
          by (auto simp: is_set_def depending_def within_def reached_idem) (auto simp: reached_def)
      qed
      then show ?case using \<open>arg_means (map_call m c) 0 \<rho> A\<close> \<open>arg_means (map_call m c) 1 \<rho> B\<close>
        by (auto simp: call_means_def f)
    qed
    then show ?case using 1(1) by simp
  qed
qed

text \<open>The functions that keep the labels whose node has a property.\<close>

lemma ensures_nodes_with:
  assumes "is_set input A"
  shows "ensures G opts (ev_filter (\<lambda>l. ev_then (node G l) (\<lambda>n. ev_return (P n))) input) (\<lambda>out. is_set out (nodes_with G P A))"
proof (rule ensures_conseq [OF ensures_filter [where Q = "\<lambda>l. \<exists>n. graph_node G l = Inr n \<and> P n"]])
  fix l
  show "ensures G opts (ev_then (node G l) (\<lambda>n. ev_return (P n))) (\<lambda>b. b \<longleftrightarrow> (\<exists>n. graph_node G l = Inr n \<and> P n))"
    by (rule ensures_then [OF ensures_node], rule ensures_return) simp
qed (use assms in \<open>simp add: nodes_with_def is_set_def\<close>)

lemma ready_executables:
  assumes r: "call_ready G opts c ev m env \<rho>" and f: "call_function c = Fn_Executables"
  shows "ensures G opts (call_executables G (map_call ev c) env)
    (\<lambda>out. \<exists>S. is_set out S \<and> call_means G opts R c (map_call m c) \<rho> S)"
  unfolding call_executables_def
proof (rule ensures_then [OF ready_arg [OF r, unfolded f, OF signature.simps(5)]], simp, simp, elim exE conjE, goal_cases)
  case (1 input A)
  show ?case by (rule ensures_conseq [OF ensures_nodes_with [OF 1(1)]]) (use 1(2) in \<open>auto simp: call_means_def f\<close>)
qed

lemma ready_kind:
  assumes r: "call_ready G opts c ev m env \<rho>" and f: "call_function c = Fn_Kind"
  shows "ensures G opts (call_kind G R c (map_call ev c) env)
    (\<lambda>out. \<exists>S. is_set out S \<and> call_means G opts R c (map_call m c) \<rho> S)"
  unfolding call_kind_def
proof (rule ensures_then [OF ready_word [OF r, unfolded f, OF signature.simps(15)]], simp, rule ensures_then [OF ensures_regex],
    rule ensures_then [OF ready_arg [OF r, unfolded f, OF signature.simps(15)]], simp, simp, elim exE conjE, goal_cases)
  case (1 w p input A)
  show ?case by (rule ensures_conseq [OF ensures_nodes_with [OF 1(3)]]) (use 1 in \<open>auto simp: call_means_def f\<close>)
qed

lemma ready_attr:
  assumes r: "call_ready G opts c ev m env \<rho>" and f: "call_function c = Fn_Attr"
  shows "ensures G opts (call_attr G R c (map_call ev c) env)
    (\<lambda>out. \<exists>S. is_set out S \<and> call_means G opts R c (map_call m c) \<rho> S)"
  unfolding call_attr_def
proof (rule ensures_then [OF ready_word [OF r, unfolded f, OF signature.simps(3)]], simp,
    rule ensures_then [OF ready_word [OF r, unfolded f, OF signature.simps(3)]], simp, rule ensures_then [OF ensures_regex],
    rule ensures_then [OF ready_arg [OF r, unfolded f, OF signature.simps(3)]], simp, simp, elim exE conjE, goal_cases)
  case (1 name w p input A)
  show ?case by (rule ensures_conseq [OF ensures_nodes_with [OF 1(4)]]) (use 1 in \<open>auto simp: call_means_def f\<close>)
qed

lemma ready_filter:
  assumes r: "call_ready G opts c ev m env \<rho>" and f: "call_function c = Fn_Filter"
  shows "ensures G opts (call_filter G R c (map_call ev c) env)
    (\<lambda>out. \<exists>S. is_set out S \<and> call_means G opts R c (map_call m c) \<rho> S)"
  unfolding call_filter_def
proof (rule ensures_then [OF ready_word [OF r, unfolded f, OF signature.simps(14)]], simp, rule ensures_then [OF ensures_regex],
    rule ensures_then [OF ready_arg [OF r, unfolded f, OF signature.simps(14)]], simp, simp, elim exE conjE, rule ensures_return,
    goal_cases)
  case (1 w p input A)
  then show ?case using is_set_filter [OF 1(3)] by (auto simp: call_means_def f)
qed

text \<open>The functions that collect what the graph or a node answers for the labels.\<close>

lemma ensures_answered:
  assumes "is_set input A"
  shows "ensures G opts (ev_extend (\<lambda>l. ev_lift (g l)) input) (\<lambda>out. is_set out (answered g A))"
proof (rule ensures_conseq [OF ensures_extend [where F = "\<lambda>l. answered g {l}"]])
  fix l
  show "ensures G opts (ev_lift (g l)) (\<lambda>ls. set ls = answered g {l})" by (rule ensures_lift) (auto simp: answered_def)
qed (use assms in \<open>auto simp: answered_def is_set_def\<close>)

lemma ready_siblings:
  assumes r: "call_ready G opts c ev m env \<rho>" and f: "call_function c = Fn_Siblings"
  shows "ensures G opts (call_siblings G (map_call ev c) env)
    (\<lambda>out. \<exists>S. is_set out S \<and> call_means G opts R c (map_call m c) \<rho> S)"
  unfolding call_siblings_def
proof (rule ensures_then [OF ready_arg [OF r, unfolded f, OF signature.simps(8)]], simp, simp, elim exE conjE, goal_cases)
  case (1 input A)
  show ?case by (rule ensures_conseq [OF ensures_answered [OF 1(1)]]) (use 1(2) in \<open>auto simp: call_means_def f\<close>)
qed

lemma ready_buildfiles:
  assumes r: "call_ready G opts c ev m env \<rho>" and f: "call_function c = Fn_BuildFiles"
  shows "ensures G opts (call_buildfiles G (map_call ev c) env)
    (\<lambda>out. \<exists>S. is_set out S \<and> call_means G opts R c (map_call m c) \<rho> S)"
  unfolding call_buildfiles_def
proof (rule ensures_then [OF ready_arg [OF r, unfolded f, OF signature.simps(4)]], simp, simp, elim exE conjE, goal_cases)
  case (1 input A)
  show ?case by (rule ensures_conseq [OF ensures_answered [OF 1(1)]]) (use 1(2) in \<open>auto simp: call_means_def f\<close>)
qed

lemma ready_loadfiles:
  assumes r: "call_ready G opts c ev m env \<rho>" and f: "call_function c = Fn_LoadFiles"
  shows "ensures G opts (call_loadfiles G (map_call ev c) env)
    (\<lambda>out. \<exists>S. is_set out S \<and> call_means G opts R c (map_call m c) \<rho> S)"
  unfolding call_loadfiles_def
proof (rule ensures_then [OF ready_arg [OF r, unfolded f, OF signature.simps(6)]], simp, simp, elim exE conjE, goal_cases)
  case (1 input A)
  show ?case by (rule ensures_conseq [OF ensures_answered [OF 1(1)]]) (use 1(2) in \<open>auto simp: call_means_def f\<close>)
qed

lemma ready_labels:
  assumes r: "call_ready G opts c ev m env \<rho>" and f: "call_function c = Fn_Labels"
  shows "ensures G opts (call_labels G c (map_call ev c) env)
    (\<lambda>out. \<exists>S. is_set out S \<and> call_means G opts R c (map_call m c) \<rho> S)"
  unfolding call_labels_def
proof (rule ensures_then [OF ready_word [OF r, unfolded f, OF signature.simps(16)]], simp,
    rule ensures_then [OF ready_arg [OF r, unfolded f, OF signature.simps(16)]], simp, simp, elim exE conjE, goal_cases)
  case (1 name input A)
  let ?F = "\<lambda>l. {m. \<exists>n a. graph_node G l = Inr n \<and> find_attr n name = Some a \<and> m \<in> set (attr_labels a)}"
  have "ensures G opts (ev_then (node G l) (\<lambda>n. ev_return (case find_attr n name of Some a \<Rightarrow> attr_labels a | None \<Rightarrow> [])))
      (\<lambda>ls. set ls = ?F l)" for l
    by (rule ensures_then [OF ensures_node], rule ensures_return) (auto split: option.splits dest: sym)
  from ensures_extend [of input, OF this] show ?case
  proof (rule ensures_conseq, goal_cases)
    case (1 out)
    have "is_set out {m. \<exists>l \<in> A. \<exists>n a. graph_node G l = Inr n \<and> find_attr n name = Some a \<and> m \<in> set (attr_labels a)}"
      by (rule is_set_same [OF 1]) (use \<open>is_set input A\<close> in \<open>auto simp: is_set_def\<close>)
    then show ?case using \<open>arg_means _ 1 \<rho> A\<close> \<open>name = _\<close> by (auto simp: call_means_def f)
  qed
qed

lemma ready_some:
  assumes r: "call_ready G opts c ev m env \<rho>" and f: "call_function c = Fn_Some"
  shows "ensures G opts (call_some (map_call ev c) env)
    (\<lambda>out. \<exists>S. is_set out S \<and> call_means G opts R c (map_call m c) \<rho> S)"
  unfolding call_some_def
proof (rule ensures_then [OF ready_arg [OF r, unfolded f, OF signature.simps(9)]], simp, simp, elim exE conjE, goal_cases)
  case (1 input A)
  show ?case
  proof (cases input)
    case (Cons l ls)
    have "Min A = l" using 1(1) Cons by (auto simp: is_set_def intro!: Min_eqI dest: less_imp_le)
    moreover have "A \<noteq> {}" using 1(1) Cons by (auto simp: is_set_def)
    ultimately show ?thesis using 1(2) Cons
      by (auto simp: call_means_def f is_set_def intro!: ensures_return)
  qed (simp add: ensures_fail)
qed

lemma ready_visible:
  assumes r: "call_ready G opts c ev m env \<rho>" and f: "call_function c = Fn_Visible"
  shows "ensures G opts (call_visible G (map_call ev c) env)
    (\<lambda>out. \<exists>S. is_set out S \<and> call_means G opts R c (map_call m c) \<rho> S)"
  unfolding call_visible_def
proof (rule ensures_then [OF ready_arg [OF r, unfolded f, OF signature.simps(22)]], simp, simp,
    rule ensures_then [OF ready_arg [OF r, unfolded f, OF signature.simps(22)]], simp, simp, elim exE conjE, goal_cases)
  case (1 preds input A B)
  have "ensures G opts (seen_by_all G ps l) (\<lambda>b. b \<longleftrightarrow> (\<forall>p \<in> set ps. graph_visible G p l = Inr True))" for ps l
  proof (induction ps)
    case (Cons p ps)
    show ?case unfolding seen_by_all.simps
    proof (rule ensures_then [OF ensures_lift [where P = "\<lambda>v. graph_visible G p l = Inr v"]], simp, goal_cases)
      case (1 v)
      then show ?case using Cons by (cases v) (auto intro: ensures_return elim: ensures_conseq)
    qed
  qed (simp add: ensures_return)
  from ensures_filter [of input G opts "seen_by_all G preds", OF this] show ?case
  proof (rule ensures_conseq, goal_cases)
    case (1 out)
    have "is_set out {l \<in> B. \<forall>p \<in> A. graph_visible G p l = Inr True}"
      by (rule is_set_same [OF 1]) (use \<open>is_set input B\<close> \<open>is_set preds A\<close> in \<open>auto simp: is_set_def\<close>)
    then show ?case using \<open>arg_means _ 0 \<rho> A\<close> \<open>arg_means _ 1 \<rho> B\<close> by (auto simp: call_means_def f)
  qed
qed

lemma ready_same_pkg_direct_rdeps:
  assumes r: "call_ready G opts c ev m env \<rho>" and f: "call_function c = Fn_SamePkgDirectRDeps"
  shows "ensures G opts (call_same_pkg_direct_rdeps G (map_call ev c) env)
    (\<lambda>out. \<exists>S. is_set out S \<and> call_means G opts R c (map_call m c) \<rho> S)"
  unfolding call_same_pkg_direct_rdeps_def
proof (rule ensures_then [OF ready_arg [OF r, unfolded f, OF signature.simps(7)]], simp, simp, elim exE conjE, goal_cases)
  case (1 input A)
  let ?S = "\<lambda>ls. {m. \<exists>l \<in> set ls. m \<in> answered (graph_siblings G) {l} \<and> dep G opts m l}"
  have inner: "ensures G opts (ev_fold (\<lambda>sib out. ev_then (node G sib) (\<lambda>n s.
        (Ok (if list_ex (\<lambda>e. edge_to e = l) (edges (ev_options s) n) then bset_insert sib out else out), s))) sibs out)
      (\<lambda>out'. is_set out' (B \<union> {m \<in> set sibs. dep G opts m l}))" if B: "is_set out B" for l sibs out B
  proof (rule ensures_fold [where I = "\<lambda>before out'. is_set out' (B \<union> {m \<in> set before. dep G opts m l})"], simp add: B,
      rule ensures_then [OF ensures_node], rule ensuresI, goal_cases)
    case (1 before sib out' n s)
    have "list_ex (\<lambda>e. edge_to e = l) (edges (ev_options s) n) \<longleftrightarrow> dep G opts sib l"
    proof -
      have "list_ex (\<lambda>e. edge_to e = l) (edges opts n) \<longleftrightarrow> l \<in> edge_to ` set (edges opts n)" by (auto simp: list_ex_iff)
      then show ?thesis using edges_targets [OF 1(4), of opts] 1(5) by (simp add: plain_def)
    qed
    then show ?case using 1(3,5) is_set_insert [OF 1(3), of sib] by (auto elim: is_set_same)
  qed
  have "ensures G opts (ev_fold (\<lambda>l out. ev_then (ev_lift (graph_siblings G l)) (\<lambda>sibs. ev_fold (\<lambda>sib out.
        ev_then (node G sib) (\<lambda>n s.
          (Ok (if list_ex (\<lambda>e. edge_to e = l) (edges (ev_options s) n) then bset_insert sib out else out), s))) sibs out)) input [])
      (\<lambda>out. is_set out (?S input))"
  proof (rule ensures_fold [where I = "\<lambda>before out. is_set out (?S before)"], simp,
      rule ensures_then [OF ensures_lift [where P = "\<lambda>sibs. graph_siblings G _ = Inr sibs"]], assumption, goal_cases)
    case (1 before l out sibs)
    show ?case by (rule ensures_conseq [OF inner [OF 1(3)]]) (use 1(4) in \<open>auto simp: answered_def elim!: is_set_same\<close>)
  qed
  then show ?case
  proof (rule ensures_conseq, goal_cases)
    case (1 out)
    have "?S input = {m. \<exists>l \<in> A. m \<in> answered (graph_siblings G) {l} \<and> dep G opts m l}"
      using \<open>is_set input A\<close> by (simp add: is_set_def)
    then show ?case using 1 \<open>arg_means _ 0 \<rho> A\<close> by (auto simp: call_means_def f)
  qed
qed

text \<open>A cache that agrees with the graph does not show in what the suite expansion is told.\<close>

lemma query_suites_plain: "plain G opts s \<Longrightarrow> query_suites G s = graph_suites G"
proof -
  assume "plain G opts s"
  then have "node_of G s l = graph_node G l" for l
    by (auto simp: node_of_def plain_def cache_ok_def split: option.splits)
  moreover have "node_of G (evaluator_new default_options) l = graph_node G l" for l
    by (simp add: node_of_def evaluator_new_def)
  ultimately show ?thesis by (simp add: graph_suites_def query_suites_def)
qed

lemma finite_suites: "finite_graph G \<Longrightarrow> finite (suites_of (graph_suites G))"
proof -
  have "is_ok (graph_node G l)" if "l \<in> suites_of (graph_suites G)" for l
    using that by (cases "graph_node G l")
      (simp_all add: suites_of_def graph_suites_def query_suites_def node_of_def evaluator_new_def is_ok_def)
  then have "suites_of (graph_suites G) \<subseteq> {l. is_ok (graph_node G l)}" by blast
  then show "finite_graph G \<Longrightarrow> ?thesis" unfolding finite_graph_def by (rule finite_subset)
qed

lemma ensures_tests_of:
  assumes G: "finite_graph G" and out: "is_set out (\<Union> (tests_meant G ` set sn))"
  shows "ensures G opts (tests_of G l (sn, out))
    (\<lambda>(sn', out'). set sn' = insert l (set sn) \<and> is_set out' (\<Union> (tests_meant G ` insert l (set sn))))"
proof (cases "l \<in> set sn")
  case True
  then show ?thesis using out by (auto simp: tests_of_def insert_absorb intro!: ensures_return)
next
  case False
  obtain found where found: "expand (graph_suites G) l False = Some found"
    using walk_returns [OF finite_suites [OF G]] by (fastforce simp: expand_def)
  have more: "is_set (fold bset_insert ts out) (\<Union> (tests_meant G ` insert l (set sn)))" if "tests_meant G l = set ts" for ts
    using is_set_fold [OF out, of ts] that by (simp add: Un_commute)
  let ?Q = "\<lambda>(sn', out'). set sn' = insert l (set sn) \<and> is_set out' (\<Union> (tests_meant G ` insert l (set sn)))"
  have "ensures G opts (ev_then (node G l) (\<lambda>n s.
      let sn' = bset_insert l sn
      in case node_kind_of n of
           Rule cls test _ _ \<Rightarrow>
             (if cls = ''test_suite'' then
                (case expand (query_suites G s) l False of
                   Some (Inr found) \<Rightarrow> (Ok (sn', fold bset_insert found out), s)
                 | Some (Inl _) \<Rightarrow> (Ok (sn', out), s)
                 | None \<Rightarrow> (Loops, s))
              else if test then (Ok (sn', bset_insert l out), s)
              else (Ok (sn', out), s))
         | _ \<Rightarrow> (Ok (sn', out), s))) ?Q"
  proof (rule ensures_then [OF ensures_node], rule ensuresI, goal_cases)
    case (1 n s)
    note suites = query_suites_plain [OF 1(2)]
    show ?case
    proof (cases "node_kind_of n")
      case (Rule cls test x y)
      then show ?thesis
        using 1 found more [of "[]"] more [of "[l]"] more [of "case found of Inr ts \<Rightarrow> ts | _ \<Rightarrow> []"]
        by (auto simp: suites tests_meant_def Let_def split: sum.splits if_splits)
    qed (use 1 more [of "[]"] in \<open>auto simp: tests_meant_def Let_def\<close>)
  qed
  then show ?thesis using False by (simp add: tests_of_def)
qed

lemma ready_tests:
  assumes r: "call_ready G opts c ev m env \<rho>" and f: "call_function c = Fn_Tests"
  shows "ensures G opts (call_tests G (map_call ev c) env)
    (\<lambda>out. \<exists>S. is_set out S \<and> call_means G opts R c (map_call m c) \<rho> S)"
  unfolding call_tests_def
proof (rule ensures_then [OF ready_arg [OF r, unfolded f, OF signature.simps(10)]], simp, simp, elim exE conjE, goal_cases)
  case (1 input A)
  let ?I = "\<lambda>before (sn, out). set sn = set before \<and> is_set out (\<Union> (tests_meant G ` set before))"
  have "ensures G opts (ev_fold (tests_of G) input ([], [])) (?I input)"
  proof (rule ensures_fold, simp, goal_cases)
    case (1 before l so)
    obtain sn out where so: "so = (sn, out)" by fastforce
    have "is_set out (\<Union> (tests_meant G ` set sn))" "set sn = set before" using 1(3) so by auto
    with ensures_tests_of [OF _ this(1), where l = l and opts = opts] show ?case
      using r so by (auto simp: call_ready_def elim!: ensures_conseq)
  qed
  then show ?case
    by (rule ensures_then) (use 1 in \<open>auto simp: call_means_def f is_set_def intro!: ensures_return\<close>)
qed

lemma ready_config:
  assumes r: "call_ready G opts c ev m env \<rho>" and f: "call_function c = Fn_Config"
  shows "ensures G opts (call_config G c (map_call ev c) env)
    (\<lambda>out. \<exists>S. is_set out S \<and> call_means G opts R c (map_call m c) \<rho> S)"
  unfolding call_config_def
proof (rule ensures_then [OF ready_word [OF r, unfolded f, OF signature.simps(17)]], simp, goal_cases)
  case (1 name)
  obtain d where d: "call_ok d c" using r by (auto simp: call_ready_def)
  obtain e where e: "call_args c ! 0 = Arg_Expr e" using call_ok_fits(2) [OF d, of 0] f by (auto simp: fits_cases)
  have inner: "ensures G opts (ev_then (expr_arg (map_call ev c) 0 env) (\<lambda>input s.
         let out = filter (\<lambda>l. in_configuration G l name) input
         in if out = [] then
              (case call_args c ! 0 of
                 Arg_Expr e \<Rightarrow>
                   (Err (''Evaluation failed: No target (in) '' @ canonical e @ '' could be found in ''
                     @ (if name = ''target'' \<or> name = ''null'' then ''the '' @ ticked name @ '' configuration''
                        else ''the configuration with checksum '' @ ticked name)), s)
               | _ \<Rightarrow> (Panics, s))
            else (Ok out, s))) (\<lambda>out. \<exists>S. is_set out S \<and> call_means G opts R c (map_call m c) \<rho> S)"
  proof (rule ensures_then [OF ready_arg [OF r, unfolded f, OF signature.simps(17)]], simp, simp, elim exE conjE, goal_cases)
    case (1 input A)
    have "is_set (filter (\<lambda>l. in_configuration G l name) input) {l \<in> A. in_configuration G l name}"
      using 1(1) by (rule is_set_filter)
    moreover from this have "filter (\<lambda>l. in_configuration G l name) input = [] \<longleftrightarrow> {l \<in> A. in_configuration G l name} = {}"
      unfolding is_set_def by (metis set_empty)
    ultimately show ?case using 1(2) \<open>name = _\<close> e
      by (intro ensuresI) (auto simp: Let_def call_means_def f)
  qed
  show ?case by (rule ensures_if, rule ensures_fail, rule ensures_if, rule ensures_fail, rule inner)
qed

lemma ready_action_filter:
  assumes r: "call_ready G opts c ev m env \<rho>" and f: "is_action_filter (call_function c)"
  shows "ensures G opts (call_action_filter c (map_call ev c) env)
    (\<lambda>out. \<exists>S. is_set out S \<and> call_means G opts R c (map_call m c) \<rho> S)"
proof -
  obtain d where d: "call_ok d c" using r by (auto simp: call_ready_def)
  have sig: "signature (call_function c) = ([Kind_Word], [Kind_Expr])" using f by (auto simp: is_action_filter_def)
  then have args: "1 \<le> length (call_args c)" using d by (simp add: call_ok_def)
  show ?thesis
  proof (cases "length (call_args c) = 2")
    case True
    then have "list_all2 fits [Kind_Word, Kind_Expr] (call_args c)" using d sig by (simp add: call_ok_def)
    then have "fits Kind_Expr (call_args c ! 1)" by (auto simp: list_all2_conv_all_nth)
    from ensures_expr_arg [OF _ this, of env \<rho> G opts ev m] True r
    have "ensures G opts (expr_arg (map_call ev c) 1 env) (\<lambda>out. \<exists>A. is_set out A \<and> arg_means (map_call m c) 1 \<rho> A)"
      by (simp add: call_ready_def)
    then show ?thesis using True f
      by (auto simp: call_action_filter_def call_means_def is_action_filter_def)
  next
    case False
    then show ?thesis using args
      by (auto simp: call_action_filter_def intro!: ensures_then [OF ensures_word_arg] ensures_fail)
  qed
qed

lemma computes_call:
  assumes "finite_graph G" "d \<noteq> Dialect_Sky" "call_ok d c" "\<And>e. e \<in> set_call c \<Longrightarrow> computes G opts (ev e) (m e)"
  shows "computes G opts (eval_call G R c (map_call ev c)) (call_means G opts R c (map_call m c))"
  unfolding computes_def
proof (intro allI impI)
  fix env \<rho>
  assume "env_ok env \<rho>"
  with assms have r: "call_ready G opts c ev m env \<rho>" by (auto simp: call_ready_def)
  have sky: "call_function c \<notin> {Fn_AllRDeps, Fn_RBuildFiles}"
    using assms(2,3) by (auto simp: call_ok_def function_all_def)
  show "ensures G opts (eval_call G R c (map_call ev c) env)
      (\<lambda>out. \<exists>S. is_set out S \<and> call_means G opts R c (map_call m c) \<rho> S)"
  proof (cases "is_action_filter (call_function c)")
    case True
    then show ?thesis using ready_action_filter [OF r True]
      by (auto simp: eval_call_def is_action_filter_def)
  next
    case False
    then show ?thesis
      using sky ready_deps [OF r] ready_rdeps [OF r] ready_somepath [OF r] ready_allpaths [OF r] ready_executables [OF r]
        ready_kind [OF r] ready_attr [OF r] ready_filter [OF r] ready_siblings [OF r] ready_buildfiles [OF r]
        ready_loadfiles [OF r] ready_labels [OF r] ready_some [OF r] ready_visible [OF r]
        ready_same_pkg_direct_rdeps [OF r] ready_tests [OF r] ready_config [OF r]
      by (cases "call_function c") (simp_all add: eval_call_def is_action_filter_def)
  qed
qed

section \<open>Evaluation\<close>

lemma pattern_plain:
  assumes "plain G opts s"
  shows "pattern_in G w s = (ok_then (ended (graph_pattern G w)) (\<lambda>ls. Ok (bset_from ls)), s)"
  using assms by (cases "graph_pattern G w")
    (simp_all add: pattern_in_def outside_trees_def plain_def ev_then_def pattern_labels_def ev_lift_def)

lemma computes_word: "computes G opts (eval_in G R (Expr_Word w)) (means G opts R (Expr_Word w))"
  unfolding computes_def
proof (intro allI impI ensuresI, goal_cases)
  case (1 env \<rho> s)
  have "\<not> keep_going (ev_options s)" "universe s = None" using 1(2) by (auto simp: plain_def)
  then show ?case
    using 1(2) is_set_from [where 'a = label] by (cases "graph_pattern G w") (auto simp: eval_word_def pattern_plain [OF 1(2)])
qed

lemma computes_variable: "computes G opts (eval_in G R (Expr_Variable v)) (means G opts R (Expr_Variable v))"
  unfolding computes_def
proof (intro allI impI, goal_cases)
  case (1 env \<rho>)
  then show ?case unfolding env_ok_def
    by (auto simp: eval_variable_def split: option.splits intro!: ensures_return ensures_fail dest: spec [of _ v])
qed

lemma computes_set: "computes G opts (eval_in G R (Expr_Set ws)) (means G opts R (Expr_Set ws))"
  unfolding computes_def
proof (intro allI impI, goal_cases)
  case (1 env \<rho>)
  let ?S = "\<lambda>ws. {m. \<exists>w \<in> set ws. \<exists>ls. graph_pattern G w = Inr ls \<and> m \<in> set ls}"
  let ?I = "\<lambda>before out. is_set out (?S before) \<and> (\<forall>w \<in> set before. is_ok (graph_pattern G w))"
  have "ensures G opts (eval_set G ws) (?I ws)"
    unfolding eval_set_def
  proof (rule ensures_fold, simp, rule ensuresI, goal_cases)
    case (1 before w out s)
    show ?case
    proof (cases "graph_pattern G w")
      case (Inr ls)
      have "is_set (bset_union out (bset_from ls)) (?S (before @ [w]))"
        by (rule is_set_same [OF is_set_union [OF _ is_set_from]]) (use 1(3) Inr in auto)
      then show ?thesis using 1(3,4) Inr by (auto simp: pattern_plain is_ok_def)
    qed (use 1(4) in \<open>simp add: pattern_plain\<close>)
  qed
  then show ?case unfolding eval_in.simps by (rule ensures_conseq) auto
qed

lemma combine_means: "is_set a A \<Longrightarrow> is_set b B \<Longrightarrow> is_set (combine op a b) (op_means op A B)"
  using is_set_filter [of a A "\<lambda>l. l \<in> set b"] is_set_filter [of a A "\<lambda>l. l \<notin> set b"] is_set_union [of a A b B]
  by (cases op) (auto simp: is_set_def)

lemma computes_binary:
  assumes l: "computes G opts ev_l m_l" and r: "computes G opts ev_r m_r"
  shows "computes G opts (\<lambda>env. eval_binary op (ev_l env) (ev_r env)) (\<lambda>\<rho> S. \<exists>A B. m_l \<rho> A \<and> m_r \<rho> B \<and> S = op_means op A B)"
  unfolding computes_def
proof (intro allI impI ensuresI, goal_cases)
  case (1 env \<rho> s)
  obtain x s1 where x: "ev_l env s = (x, s1)" by fastforce
  have lx: "allows (\<lambda>out. \<exists>S. is_set out S \<and> m_l \<rho> S) x" "plain G opts s1"
    using ensuresD [OF computesD [OF l 1(1)] 1(2)] x by auto
  obtain y s2 where y: "ev_r env s1 = (y, s2)" by fastforce
  have ry: "allows (\<lambda>out. \<exists>S. is_set out S \<and> m_r \<rho> S) y" "plain G opts s2"
    using ensuresD [OF computesD [OF r 1(1)] lx(2)] y by auto
  show ?case using x y lx ry
    by (cases x; cases y) (auto simp: eval_binary_def intro: combine_means)
qed

lemma computes_let:
  assumes v: "computes G opts ev_v m_v" and b: "computes G opts ev_b m_b"
  shows "computes G opts (\<lambda>env. ev_then (ev_v env) (\<lambda>x. ev_b (env @ [(n, x)]))) (\<lambda>\<rho> S. \<exists>A. m_v \<rho> A \<and> m_b (\<rho>(n \<mapsto> A)) S)"
  unfolding computes_def
proof (intro allI impI, goal_cases)
  case (1 env \<rho>)
  show ?case
  proof (rule ensures_then [OF computesD [OF v 1]], elim exE conjE, goal_cases)
    case (1 x A)
    show ?case
      by (rule ensures_conseq [OF computesD [OF b env_ok_push [OF \<open>env_ok env \<rho>\<close> 1(1)]]]) (use 1(2) in auto)
  qed
qed

lemma computes_expr:
  assumes "finite_graph G" "d \<noteq> Dialect_Sky"
  shows "well_formed d e \<Longrightarrow> computes G opts (eval_in G R e) (means G opts R e)"
proof (induction e)
  case (Expr_Word w)
  show ?case by (rule computes_word)
next
  case (Expr_Variable v)
  show ?case by (rule computes_variable)
next
  case (Expr_Set ws)
  show ?case by (rule computes_set)
next
  case (Expr_Binary op l r)
  then show ?case using computes_binary [of G opts "eval_in G R l" "means G opts R l"]
    by (simp add: computes_def)
next
  case (Expr_Let n v b)
  then show ?case using computes_let [of G opts "eval_in G R v" "means G opts R v" "eval_in G R b" "means G opts R b" n]
    by (simp add: computes_def)
next
  case (Expr_Call c)
  have "call_ok d c" using Expr_Call.prems by simp
  moreover have "computes G opts (eval_in G R e) (means G opts R e)" if "e \<in> set_call c" for e
    using Expr_Call that by (simp add: call.set_map [abs_def] call.pred_set)
  ultimately show ?case using computes_call [OF assms, of c opts "eval_in G R" "means G opts R" R]
    by (simp add: computes_def)
qed

text \<open>
  C3. Evaluating a query that parses, over a graph with finitely many targets and without \<open>--keep_going\<close> or a universe, ends
  without a panic: in an error, or in a sorted list without repetitions of exactly the labels of a set the expression means.
\<close>

theorem query_eval_means:
  assumes "parse_in input d = Ok e" and "d \<noteq> Dialect_Sky" and "finite_graph G" and "\<not> keep_going opts"
  shows "(\<exists>msg. fst (eval G R e (evaluator_new opts)) = Err msg)
    \<or> (\<exists>out. fst (eval G R e (evaluator_new opts)) = Ok out \<and> sorted_wrt (<) out \<and> means G opts R e Map.empty (set out))"
proof -
  have "well_formed d e" using parse_returns [of input d] assms(1) by auto
  then have c: "computes G opts (eval_in G R e) (means G opts R e)" by (rule computes_expr [OF assms(3,2)])
  have p: "plain G opts (evaluator_new opts)" using assms(4) by (simp add: plain_def cache_ok_def evaluator_new_def)
  obtain r s where rs: "eval_in G R e [] (evaluator_new opts) = (r, s)" by fastforce
  have r: "allows (\<lambda>out. \<exists>S. is_set out S \<and> means G opts R e Map.empty S) r" "plain G opts s"
    using ensuresD [OF computesD [OF c env_ok_Nil] p] rs by simp_all
  have "fst (eval G R e (evaluator_new opts)) = r"
    using rs r(2) by (cases r) (auto simp: eval_def plain_def split: expr.splits)
  then show ?thesis using r(1) by (cases r) (auto simp: is_set_def)
qed

text \<open>A graph of three targets: \<open>//:a\<close> depends on \<open>//:b\<close>, which depends on \<open>//:c\<close>.\<close>

definition example_edge :: "string \<Rightarrow> edge" where
  "example_edge n = \<lparr>edge_to = Label [] [] n, edge_implicit = False, edge_tool = False, edge_nodep = False, edge_aspect = False\<rparr>"

definition example_node :: "string \<Rightarrow> string list \<Rightarrow> node" where
  "example_node n ds = \<lparr>node_label = Label [] [] n, node_kind_of = SourceFile, node_location = ''BUILD'', node_attrs = [],
     node_edges = map example_edge ds\<rparr>"

definition example_query_graph :: graph where
  "example_query_graph =
     \<lparr>graph_pattern = (\<lambda>w. Inr [Label [] [] w]),
      graph_pattern_lenient = (\<lambda>w. \<lparr>found_labels = [Label [] [] w], found_error = None, found_said = False\<rparr>),
      graph_node = (\<lambda>l.
        if l = Label [] [] ''a'' then Inr (example_node ''a'' [''b''])
        else if l = Label [] [] ''b'' then Inr (example_node ''b'' [''c''])
        else if l = Label [] [] ''c'' then Inr (example_node ''c'' [])
        else Inl ''no such target''),
      graph_siblings = (\<lambda>_. Inr []), graph_build_files = (\<lambda>_. Inr []), graph_load_files = (\<lambda>_. Inr []),
      graph_visible = (\<lambda>_ _. Inr True), is_configuration = (\<lambda>_. False), in_configuration = (\<lambda>_ _. False),
      graph_display = default_display\<rparr>"

lemma example_finite: "finite_graph example_query_graph"
proof -
  have "{l. is_ok (graph_node example_query_graph l)} \<subseteq> {Label [] [] ''a'', Label [] [] ''b'', Label [] [] ''c''}"
    by (auto simp: example_query_graph_def is_ok_def split: if_splits)
  then show ?thesis unfolding finite_graph_def by (rule finite_subset) simp
qed

theorem query_eval_means_witness:
  "parse_in ''deps(a, 1) - a'' Dialect_Query = Ok (Expr_Binary Op_Except
      (Expr_Call (Call Fn_Deps [Arg_Expr (Expr_Word ''a''), Arg_Int 1])) (Expr_Word ''a''))
   \<and> means example_query_graph default_options (\<lambda>_. Inl []) (Expr_Binary Op_Except
      (Expr_Call (Call Fn_Deps [Arg_Expr (Expr_Word ''a''), Arg_Int 1])) (Expr_Word ''a'')) Map.empty {Label [] [] ''b''}"
proof -
  let ?e = "Expr_Binary Op_Except (Expr_Call (Call Fn_Deps [Arg_Expr (Expr_Word ''a''), Arg_Int 1])) (Expr_Word ''a'')"
  have p: "parse_in ''deps(a, 1) - a'' Dialect_Query = Ok ?e" by code_simp
  have v: "fst (eval example_query_graph (\<lambda>_. Inl []) ?e (evaluator_new default_options)) = Ok [Label [] [] ''b'']"
    by code_simp
  have "\<not> keep_going default_options" by (simp add: default_options_def)
  from query_eval_means [OF p _ example_finite this, of "\<lambda>_. Inl []"] v p show ?thesis by simp
qed

section \<open>The order of a listing\<close>

lemma remdups_first: "set (remdups_first ls) = set ls" "distinct (remdups_first ls)"
  by (induction ls) auto

lemma ensures_eval:
  assumes "finite_graph G" "d \<noteq> Dialect_Sky" "well_formed d e"
  shows "ensures G opts (eval G R e) (\<lambda>out. \<exists>S. is_set out S \<and> means G opts R e Map.empty S)"
proof (rule ensures_state [OF computesD [OF computes_expr [OF assms] env_ok_Nil]])
  fix s
  assume s: "plain G opts s"
  obtain r s' where rs: "eval_in G R e [] s = (r, s')" by fastforce
  have "plain G opts s'"
    using ensuresD [OF computesD [OF computes_expr [OF assms] env_ok_Nil] s, of R] rs by simp
  then show "eval G R e s = eval_in G R e [] s"
    using rs by (cases r) (auto simp: eval_def plain_def split: expr.splits)
qed

lemma ensures_ordered:
  assumes G: "finite_graph G" and d: "d \<noteq> Dialect_Sky"
  shows "well_formed d e \<Longrightarrow> ensures G opts (ordered G R e) (\<lambda>out. distinct out \<and> means G opts R e Map.empty (set out))"
proof (induction e)
  case (Expr_Word w)
  have "distinct (bset_from ls)" for ls :: "label list" using sorted_bset_from strict_sorted_iff by blast
  then show ?case by (auto intro!: ensures_then [OF ensures_lift [where P = "\<lambda>ls. graph_pattern G w = Inr ls"]] ensures_return)
next
  case (Expr_Set ws)
  let ?S = "\<lambda>ws. {m. \<exists>w \<in> set ws. \<exists>ls. graph_pattern G w = Inr ls \<and> m \<in> set ls}"
  have "ensures G opts (ev_fold (\<lambda>w out. ev_then (ev_lift (graph_pattern G w)) (\<lambda>ls. ev_return (out @ bset_from ls))) ws [])
      (\<lambda>out. set out = ?S ws \<and> (\<forall>w \<in> set ws. is_ok (graph_pattern G w)))"
  proof (rule ensures_fold [where I = "\<lambda>ws out. set out = ?S ws \<and> (\<forall>w \<in> set ws. is_ok (graph_pattern G w))"], simp, goal_cases)
    case (1 before w out)
    show ?case
      by (rule ensures_then [OF ensures_lift [where P = "\<lambda>ls. graph_pattern G w = Inr ls"]], assumption, rule ensures_return)
        (use 1 in \<open>auto simp: is_ok_def\<close>)
  qed
  then show ?case unfolding ordered.simps
    by (rule ensures_then) (simp add: ensures_return remdups_first)
next
  case (Expr_Binary op l r)
  then have l: "ensures G opts (ordered G R l) (\<lambda>out. distinct out \<and> means G opts R l Map.empty (set out))"
    and r: "ensures G opts (ordered G R r) (\<lambda>out. distinct out \<and> means G opts R r Map.empty (set out))" by simp_all
  have e: "ensures G opts (eval G R r) (\<lambda>out. \<exists>S. is_set out S \<and> means G opts R r Map.empty S)"
    using ensures_eval [OF G d] Expr_Binary.prems by simp
  show ?case
  proof (cases "op = Op_Union")
    case True
    have "ensures G opts (ev_then (ordered G R l) (\<lambda>a. ev_then (ordered G R r) (\<lambda>b. ev_return (remdups_first (a @ b)))))
        (\<lambda>out. distinct out \<and> means G opts R (Expr_Binary op l r) Map.empty (set out))"
      by (rule ensures_then [OF l], rule ensures_then [OF r], rule ensures_return) (auto simp: remdups_first True)
    then show ?thesis using True by simp
  next
    case False
    have "ensures G opts (ev_then (eval G R r) (\<lambda>b. ev_then (ordered G R l) (\<lambda>a.
            ev_return (filter (\<lambda>x. (x \<in> set b) = (op = Op_Intersect)) a))))
        (\<lambda>out. distinct out \<and> means G opts R (Expr_Binary op l r) Map.empty (set out))"
    proof (rule ensures_then [OF e], rule ensures_then [OF l], rule ensures_return, elim exE conjE, goal_cases)
      case (1 b a B)
      have "set (filter (\<lambda>x. (x \<in> set b) = (op = Op_Intersect)) a) = op_means op (set a) B"
        using 1(3) False by (cases op) (auto simp: is_set_def)
      then show ?case using 1 by auto
    qed
    then show ?thesis using False by (cases op) simp_all
  qed
next
  case (Expr_Variable v)
  then show ?case using ensures_eval [OF G d Expr_Variable, of opts R]
    by (auto simp: is_set_def strict_sorted_iff elim!: ensures_conseq simp del: means.simps)
next
  case (Expr_Let n v b)
  then show ?case using ensures_eval [OF G d Expr_Let.prems, of opts R]
    by (auto simp: is_set_def strict_sorted_iff elim!: ensures_conseq simp del: means.simps)
next
  case (Expr_Call c)
  then show ?case using ensures_eval [OF G d Expr_Call.prems, of opts R]
    by (auto simp: is_set_def strict_sorted_iff elim!: ensures_conseq simp del: means.simps)
qed

text \<open>
  Listing a query in the order it was written ends as well, and lists each label once: those of a set the expression means.
\<close>

theorem query_ordered_means:
  assumes "parse_in input d = Ok e" and "d \<noteq> Dialect_Sky" and "finite_graph G" and "\<not> keep_going opts"
  shows "(\<exists>msg. fst (ordered G R e (evaluator_new opts)) = Err msg)
    \<or> (\<exists>out. fst (ordered G R e (evaluator_new opts)) = Ok out \<and> distinct out \<and> means G opts R e Map.empty (set out))"
proof -
  have "well_formed d e" using parse_returns [of input d] assms(1) by auto
  moreover have "plain G opts (evaluator_new opts)" using assms(4) by (simp add: plain_def cache_ok_def evaluator_new_def)
  ultimately have "allows (\<lambda>out. distinct out \<and> means G opts R e Map.empty (set out)) (fst (ordered G R e (evaluator_new opts)))"
    using ensuresD [OF ensures_ordered [OF assms(3,2)]] by blast
  then show ?thesis by (cases "fst (ordered G R e (evaluator_new opts))") auto
qed

theorem query_ordered_means_witness:
  "means example_query_graph default_options (\<lambda>_. Inl []) (Expr_Set [''b'', ''a'']) Map.empty {Label [] [] ''a'', Label [] [] ''b''}
   \<and> fst (ordered example_query_graph (\<lambda>_. Inl []) (Expr_Set [''b'', ''a'']) (evaluator_new default_options))
     = Ok [Label [] [] ''b'', Label [] [] ''a'']"
proof -
  have p: "parse_in ''set(b a)'' Dialect_Query = Ok (Expr_Set [''b'', ''a''])" by code_simp
  have v: "fst (ordered example_query_graph (\<lambda>_. Inl []) (Expr_Set [''b'', ''a'']) (evaluator_new default_options))
      = Ok [Label [] [] ''b'', Label [] [] ''a'']" by code_simp
  have "\<not> keep_going default_options" by (simp add: default_options_def)
  from query_ordered_means [OF p _ example_finite this, of "\<lambda>_. Inl []"] v show ?thesis by (simp add: insert_commute)
qed

end
