(* ===== verification/Rust_Text.thy ===== *)
theory Rust_Text
  imports Rust_Str
begin

text \<open>
  More of Rust's functions on text: numbers with a sign, trimming, splitting at white space and into lines. A character is a code
  point below 256.
\<close>

section \<open>Numbers, words and lines\<close>

text \<open>\<open>str::parse::<usize>\<close> and \<open>u32::from_str_radix (_, 8)\<close>: an optional sign and at least one digit.\<close>

definition strip_plus :: "string \<Rightarrow> string" where
  "strip_plus s = (case s of CHR ''+'' # r \<Rightarrow> r | _ \<Rightarrow> s)"

definition parse_usize :: "string \<Rightarrow> nat option" where
  "parse_usize s =
     (let d = strip_plus s
      in if d \<noteq> [] \<and> list_all is_ascii_digit d \<and> int (decimal d) < 2 ^ 64 then Some (decimal d) else None)"

definition parse_octal :: "string \<Rightarrow> nat option" where
  "parse_octal s =
     (let d = strip_plus s; v = foldl (\<lambda>n c. 8 * n + digit_value c) 0 d
      in if d \<noteq> [] \<and> list_all (\<lambda>c. CHR ''0'' \<le> c \<and> c \<le> CHR ''7'') d \<and> int v < 2 ^ 32 then Some v else None)"

definition trim_end :: "string \<Rightarrow> string" where
  "trim_end s = rev (dropWhile is_whitespace (rev s))"

definition trim_both :: "string \<Rightarrow> string" where
  "trim_both s = dropWhile is_whitespace (trim_end s)"

fun split_ws :: "string \<Rightarrow> string list" where
  "split_ws [] = [[]]"
| "split_ws (c # s) = (if is_whitespace c then [] # split_ws s else (case split_ws s of w # ws \<Rightarrow> (c # w) # ws | [] \<Rightarrow> [[c]]))"

definition split_whitespace :: "string \<Rightarrow> string list" where
  "split_whitespace s = filter (\<lambda>w. w \<noteq> []) (split_ws s)"

definition newline :: char where
  "newline = CHR 0x0A"

definition without_cr :: "string \<Rightarrow> string" where
  "without_cr l = (case strip_suffix [CHR 0x0D] l of Some r \<Rightarrow> r | None \<Rightarrow> l)"

text \<open>\<open>str::lines\<close>: what ends in a newline or at the end of the text, without the newline and a carriage return before it. A
  carriage return at the end of a text without a newline is kept.\<close>

definition str_lines :: "string \<Rightarrow> string list" where
  "str_lines s = (let parts = split_on newline s in map without_cr (butlast parts) @ (if last parts = [] then [] else [last parts]))"

section \<open>Laws\<close>

lemma digit_not_space: "is_ascii_digit c \<Longrightarrow> \<not> is_whitespace c"
  by (auto simp: is_ascii_digit_def is_whitespace_def less_eq_char_def)

lemma parse_usize_display: "n < 2 ^ 64 \<Longrightarrow> parse_usize (nat_display n) = Some n"
proof -
  assume n: "n < 2 ^ 64"
  obtain c r where d: "nat_display n = c # r" using nat_display_digits(1) [of n] by (cases "nat_display n") auto
  have "is_ascii_digit c" using nat_display_digits(2) [of n] d by simp
  then have "c \<noteq> CHR ''+''" by (auto simp: is_ascii_digit_def less_eq_char_def)
  then have "strip_plus (nat_display n) = nat_display n" by (simp add: strip_plus_def d split: char.split bool.split)
  then show ?thesis using n nat_display_digits [of n] decimal_display by (simp add: parse_usize_def)
qed

lemma no_digit_in_display: "\<not> is_ascii_digit c \<Longrightarrow> c \<notin> set (nat_display n)"
  using nat_display_digits(2) [of n] by (auto simp: list_all_iff)

lemma split_ws_word: "list_all (\<lambda>c. \<not> is_whitespace c) w \<Longrightarrow> split_ws w = [w]"
  by (induction w) auto

lemma split_ws_append: "list_all (\<lambda>c. \<not> is_whitespace c) w \<Longrightarrow> is_whitespace c \<Longrightarrow> split_ws (w @ c # s) = w # split_ws s"
  by (induction w) auto

text \<open>Lines that are put together are taken apart again.\<close>

definition unlines :: "string list \<Rightarrow> string" where
  "unlines ls = concat (map (\<lambda>l. l @ [newline]) ls)"

definition plain_line :: "string \<Rightarrow> bool" where
  "plain_line l \<longleftrightarrow> newline \<notin> set l \<and> \<not> suffix [CHR 0x0D] l"

lemma split_unlines: "\<forall>l \<in> set ls. newline \<notin> set l \<Longrightarrow> split_on newline (unlines ls) = ls @ [[]]"
proof (induction ls)
  case (Cons l ls)
  have "unlines (l # ls) = l @ newline # unlines ls" by (simp add: unlines_def)
  then show ?case using Cons by (simp add: split_on_append)
qed (simp add: unlines_def)

lemma without_cr_plain: "\<not> suffix [CHR 0x0D] l \<Longrightarrow> without_cr l = l"
  by (cases "strip_suffix [CHR 0x0D] l") (auto simp: without_cr_def strip_suffix_Some suffix_def)

lemma lines_unlines: "list_all plain_line ls \<Longrightarrow> str_lines (unlines ls) = ls"
proof -
  assume plain: "list_all plain_line ls"
  then have "split_on newline (unlines ls) = ls @ [[]]" by (intro split_unlines) (auto simp: list_all_iff plain_line_def)
  moreover have "map without_cr ls = ls" using plain by (auto simp: list_all_iff plain_line_def without_cr_plain intro: map_idI)
  ultimately show ?thesis by (simp add: str_lines_def)
qed

end
