(* ===== verification/Patch.thy ===== *)
theory Patch
  imports Rust_Text
begin

text \<open>
  Patches (\<open>crates/fjfj-archive/src/patch.rs\<close>): reading a unified diff, plain or from \<open>git diff\<close>, and applying its hunks to the lines of a
  file. A \<open>usize\<close> is a natural number, of which parsing accepts those below \<open>2 ^ 64\<close>.
\<close>

section \<open>Reading a patch\<close>

record hunk =
  old_start :: nat
  old_lines :: "string list"
  new_lines :: "string list"

record file_patch =
  header_line :: nat
  old_header :: string
  old_name :: "string option"
  new_name :: "string option"
  from_git :: bool
  rename_from :: "string option"
  rename_to :: "string option"
  new_mode :: "nat option"
  hunks :: "hunk list"

definition no_file :: file_patch where
  "no_file = \<lparr>header_line = 0, old_header = [], old_name = None, new_name = None, from_git = False,
     rename_from = None, rename_to = None, new_mode = None, hunks = []\<rparr>"

definition header_name :: "string \<Rightarrow> string" where
  "header_name t = trim_end (hd (split_on (CHR 0x09) t))"

definition parse_range :: "string \<Rightarrow> (nat \<times> nat) option" where
  "parse_range t =
     (let u = dropWhile (\<lambda>c. c = CHR ''-'' \<or> c = CHR ''+'') t
      in case split_once (CHR '','') u of
           Some (s, c) \<Rightarrow> (case (parse_usize s, parse_usize c) of (Some a, Some b) \<Rightarrow> Some (a, b) | _ \<Rightarrow> None)
         | None \<Rightarrow> map_option (\<lambda>a. (a, 1)) (parse_usize u))"

definition on_last :: "('a \<Rightarrow> 'a) \<Rightarrow> 'a list \<Rightarrow> 'a list" where
  "on_last f xs = (if xs = [] then [] else butlast xs @ [f (last xs)])"

definition expecting :: "nat \<Rightarrow> string" where
  "expecting i = ''Expecting more chunk line at line '' @ nat_display (i + 1)"

text \<open>The lines of a hunk, from line \<open>i\<close> on; what is left of the lines comes with the hunk.\<close>

definition hunk_line :: "string \<Rightarrow> (char \<times> string) option" where
  "hunk_line l =
     (case l of
        [] \<Rightarrow> Some (CHR '' '', [])
      | c # t \<Rightarrow> if c = CHR '' '' \<or> c = CHR ''-'' \<or> c = CHR ''+'' then Some (c, t) else None)"

fun hunk_body :: "nat \<Rightarrow> nat \<Rightarrow> nat \<Rightarrow> string list \<Rightarrow> hunk \<Rightarrow> (string, hunk \<times> nat \<times> string list) result" where
  "hunk_body i 0 0 ls h = Inr (h, i, ls)"
| "hunk_body i a b [] h = Inl (expecting i)"
| "hunk_body i a b (l # ls) h =
     (case hunk_line l of
        None \<Rightarrow> Inl (expecting i)
      | Some (kind, t) \<Rightarrow>
          (if kind = CHR '' '' \<and> 0 < a \<and> 0 < b
             then hunk_body (i + 1) (a - 1) (b - 1) ls (h\<lparr>old_lines := old_lines h @ [t], new_lines := new_lines h @ [t]\<rparr>)
           else if kind = CHR ''-'' \<and> 0 < a
             then hunk_body (i + 1) (a - 1) b ls (h\<lparr>old_lines := old_lines h @ [t]\<rparr>)
           else if kind = CHR ''+'' \<and> 0 < b
             then hunk_body (i + 1) a (b - 1) ls (h\<lparr>new_lines := new_lines h @ [t]\<rparr>)
           else Inl (expecting i)))"

definition hunk_ranges :: "string \<Rightarrow> (nat \<times> nat \<times> nat) option" where
  "hunk_ranges l =
     (case split_whitespace l of
        _ # r1 # r2 # _ \<Rightarrow>
          (case (parse_range r1, parse_range r2) of (Some (s, c), Some (_, n)) \<Rightarrow> Some (s, c, n) | _ \<Rightarrow> None)
      | _ \<Rightarrow> None)"

definition git_header :: "nat \<Rightarrow> string \<Rightarrow> file_patch" where
  "git_header i rest =
     (let f = no_file\<lparr>header_line := i + 1, from_git := True\<rparr>
      in case split_once (CHR '' '') rest of
           Some (a, b) \<Rightarrow> f\<lparr>old_name := Some a, new_name := Some b\<rparr>
         | None \<Rightarrow> f)"

text \<open>The two lines \<open>---\<close> and \<open>+++\<close>: they belong to the entry that a git header has just made, or make a new one, which
  replaces the last one unless that came from git.\<close>

definition in_git :: "file_patch list \<Rightarrow> bool" where
  "in_git files \<longleftrightarrow> files \<noteq> [] \<and> hunks (last files) = [] \<and> old_header (last files) = [] \<and> old_name (last files) \<noteq> None"

definition name_lines :: "nat \<Rightarrow> string \<Rightarrow> string \<Rightarrow> string \<Rightarrow> file_patch list \<Rightarrow> file_patch list" where
  "name_lines i line old_part new_part files =
     (let fs = (if in_git files then files
                else (if files \<noteq> [] \<and> \<not> from_git (last files) then butlast files else files)
                     @ [no_file\<lparr>header_line := i + 1\<rparr>])
      in on_last (\<lambda>f. f\<lparr>old_header := line, old_name := Some (header_name old_part), new_name := Some (header_name new_part)\<rparr>) fs)"

lemma hunk_body_rest: "hunk_body i a b ls h = Inr (h', j, rest) \<Longrightarrow> length rest \<le> length ls"
  by (induction i a b ls h arbitrary: h' j rest rule: hunk_body.induct)
    (auto split: option.splits prod.splits if_splits intro: le_SucI)

function parse_lines :: "nat \<Rightarrow> string list \<Rightarrow> file_patch list \<Rightarrow> (string, file_patch list) result" where
  "parse_lines i [] files = Inr files"
| "parse_lines i (l # ls) files =
     (case strip_prefix ''diff --git '' l of
        Some rest \<Rightarrow> parse_lines (i + 1) ls (files @ [git_header i rest])
      | None \<Rightarrow>
     (case strip_prefix ''rename from '' l of
        Some name \<Rightarrow> parse_lines (i + 1) ls (on_last (\<lambda>f. f\<lparr>rename_from := Some name\<rparr>) files)
      | None \<Rightarrow>
     (case strip_prefix ''rename to '' l of
        Some name \<Rightarrow> parse_lines (i + 1) ls (on_last (\<lambda>f. f\<lparr>rename_to := Some name\<rparr>) files)
      | None \<Rightarrow>
     (case (case strip_prefix ''new file mode '' l of Some m \<Rightarrow> Some m | None \<Rightarrow> strip_prefix ''new mode '' l) of
        Some m \<Rightarrow> parse_lines (i + 1) ls (on_last (\<lambda>f. f\<lparr>new_mode := parse_octal (trim_both m)\<rparr>) files)
      | None \<Rightarrow>
     (case strip_prefix ''--- '' l of
        Some old_part \<Rightarrow>
          (case ls of
             l2 # ls2 \<Rightarrow>
               (case strip_prefix ''+++ '' l2 of
                  Some new_part \<Rightarrow> parse_lines (i + 2) ls2 (name_lines i l old_part new_part files)
                | None \<Rightarrow> parse_lines (i + 1) ls files)
           | [] \<Rightarrow> parse_lines (i + 1) ls files)
      | None \<Rightarrow>
     (if \<not> prefix ''@@ '' l \<or> files = [] then parse_lines (i + 1) ls files
      else
        (case hunk_ranges l of
           None \<Rightarrow> parse_lines (i + 1) ls files
         | Some (start, old_count, new_count) \<Rightarrow>
             (case hunk_body (i + 1) old_count new_count ls \<lparr>old_start = start, old_lines = [], new_lines = []\<rparr> of
                Inl e \<Rightarrow> Inl e
              | Inr (h, j, rest) \<Rightarrow> parse_lines j rest (on_last (\<lambda>f. f\<lparr>hunks := hunks f @ [h]\<rparr>) files)))))))))"
  by pat_completeness auto
termination
  by (relation "measure (\<lambda>(i, ls, files). length ls)") (auto dest: hunk_body_rest simp: less_Suc_eq_le)

definition parse :: "string \<Rightarrow> (string, file_patch list) result" where
  "parse patch = parse_lines 0 (str_lines patch) []"

section \<open>Applying hunks\<close>

definition lines_of :: "string \<Rightarrow> string list" where
  "lines_of t = map without_cr (split_on newline t)"

definition fits :: "string list \<Rightarrow> hunk \<Rightarrow> nat \<Rightarrow> bool" where
  "fits ls h at \<longleftrightarrow> at + length (old_lines h) \<le> length ls \<and> take (length (old_lines h)) (drop at ls) = old_lines h"

text \<open>The places tried: the expected one first, then further and further down and up.\<close>

definition places :: "nat \<Rightarrow> nat \<Rightarrow> nat list" where
  "places expected n = concat (map (\<lambda>d. (expected + d) # (if d \<le> expected then [expected - d] else [])) [0..<n + 1])"

definition as_isize :: "nat \<Rightarrow> int" where
  "as_isize x = (if int x < 2 ^ 63 then int x else int x - 2 ^ 64)"

definition expected_place :: "hunk \<Rightarrow> int \<Rightarrow> nat" where
  "expected_place h drift = nat (as_isize (old_start h - 1) + drift)"

definition no_match :: "hunk \<Rightarrow> string" where
  "no_match h = ''Cannot apply the hunk at line '' @ nat_display (old_start h) @ '': its context does not match the file''"

fun apply_hunks_from :: "int \<Rightarrow> string list \<Rightarrow> hunk list \<Rightarrow> (string, string list) result" where
  "apply_hunks_from drift ls [] = Inr ls"
| "apply_hunks_from drift ls (h # hs) =
     (case List.find (fits ls h) (places (expected_place h drift) (length ls)) of
        None \<Rightarrow> Inl (no_match h)
      | Some found \<Rightarrow>
          apply_hunks_from
            (drift + (int found - int (expected_place h drift)) + int (length (new_lines h)) - int (length (old_lines h)))
            (take found ls @ new_lines h @ drop (found + length (old_lines h)) ls) hs)"

definition apply_hunks :: "string list \<Rightarrow> hunk list \<Rightarrow> (string, string list) result" where
  "apply_hunks ls hs = apply_hunks_from 0 ls hs"

section \<open>What a patch means\<close>

text \<open>
  A difference between two texts, as the reference: the lines that stay between the hunks, the edits of each hunk, and
  the lines after the last one. \<open>before\<close> and \<open>after\<close> are the two texts, \<open>hunks_of\<close> the hunks that tell them apart, each with the
  number of its first old line.
\<close>

datatype edit = Keep string | Delete string | Insert string

primrec olds_of :: "edit \<Rightarrow> string list" where
  "olds_of (Keep l) = [l]"
| "olds_of (Delete l) = [l]"
| "olds_of (Insert l) = []"

primrec news_of :: "edit \<Rightarrow> string list" where
  "news_of (Keep l) = [l]"
| "news_of (Delete l) = []"
| "news_of (Insert l) = [l]"

definition olds :: "edit list \<Rightarrow> string list" where
  "olds es = concat (map olds_of es)"

definition news :: "edit list \<Rightarrow> string list" where
  "news es = concat (map news_of es)"

type_synonym diff = "(string list \<times> edit list) list"

definition before :: "diff \<Rightarrow> string list \<Rightarrow> string list" where
  "before d rest = concat (map (\<lambda>(gap, es). gap @ olds es) d) @ rest"

definition after :: "diff \<Rightarrow> string list \<Rightarrow> string list" where
  "after d rest = concat (map (\<lambda>(gap, es). gap @ news es) d) @ rest"

fun hunks_of :: "nat \<Rightarrow> diff \<Rightarrow> hunk list" where
  "hunks_of n [] = []"
| "hunks_of n ((gap, es) # d) =
     \<lparr>old_start = n + length gap + 1, old_lines = olds es, new_lines = news es\<rparr> # hunks_of (n + length gap + length (olds es)) d"

lemma before_simps [simp]: "before [] rest = rest" "before ((gap, es) # d) rest = gap @ olds es @ before d rest"
  by (simp_all add: before_def)

lemma after_simps [simp]: "after [] rest = rest" "after ((gap, es) # d) rest = gap @ news es @ after d rest"
  by (simp_all add: after_def)

text \<open>A hunk that fits where it is expected is put there.\<close>

lemma first_place: "List.find P (places e n) = (if P e then Some e else List.find P (tl (places e n)))"
proof -
  have "places e n = e # tl (places e n)" by (simp add: places_def upt_rec [of 0])
  then show ?thesis by (metis find.simps(2))
qed

lemma apply_hunks_diff:
  "n + length (before d rest) < 2 ^ 63 \<Longrightarrow>
    apply_hunks_from (int (length pre) - int n) (pre @ before d rest) (hunks_of n d) = Inr (pre @ after d rest)"
proof (induction d arbitrary: n pre)
  case (Cons g d)
  obtain gap es where g: "g = (gap, es)" by (cases g)
  let ?h = "\<lparr>old_start = n + length gap + 1, old_lines = olds es, new_lines = news es\<rparr>"
  let ?ls = "pre @ gap @ olds es @ before d rest" and ?at = "length pre + length gap"
  have bound: "n + length gap < 2 ^ 63" using Cons.prems g by simp
  have place: "expected_place ?h (int (length pre) - int n) = ?at"
    using bound by (simp add: expected_place_def as_isize_def)
  have "fits ?ls ?h ?at" by (simp add: fits_def)
  then have "List.find (fits ?ls ?h) (places ?at (length ?ls)) = Some ?at" by (simp add: first_place)
  moreover have "apply_hunks_from (int (length (pre @ gap @ news es)) - int (n + length gap + length (olds es)))
      ((pre @ gap @ news es) @ before d rest) (hunks_of (n + length gap + length (olds es)) d)
      = Inr ((pre @ gap @ news es) @ after d rest)"
    by (rule Cons.IH) (use Cons.prems g in simp)
  ultimately show ?case using g place by (simp add: algebra_simps)
qed simp

section \<open>Printing a patch and reading it back\<close>

primrec edit_line :: "edit \<Rightarrow> string" where
  "edit_line (Keep l) = CHR '' '' # l"
| "edit_line (Delete l) = CHR ''-'' # l"
| "edit_line (Insert l) = CHR ''+'' # l"

definition range_text :: "nat \<Rightarrow> nat \<Rightarrow> string" where
  "range_text s c = nat_display s @ '','' @ nat_display c"

definition hunk_header :: "nat \<Rightarrow> nat \<Rightarrow> edit list \<Rightarrow> string" where
  "hunk_header s t es = ''@@ -'' @ range_text s (length (olds es)) @ '' +'' @ range_text t (length (news es)) @ '' @@''"

fun hunk_texts :: "nat \<Rightarrow> nat \<Rightarrow> diff \<Rightarrow> string list" where
  "hunk_texts n m [] = []"
| "hunk_texts n m ((gap, es) # d) =
     hunk_header (n + length gap + 1) (m + length gap + 1) es # map edit_line es
     @ hunk_texts (n + length gap + length (olds es)) (m + length gap + length (news es)) d"

definition patch_lines :: "string \<Rightarrow> string \<Rightarrow> diff \<Rightarrow> string list" where
  "patch_lines a b d = (''--- '' @ a) # (''+++ '' @ b) # hunk_texts 0 0 d"

lemma olds_news_simps [simp]: "olds [] = []" "news [] = []" "olds (e # es) = olds_of e @ olds es" "news (e # es) = news_of e @ news es"
  by (simp_all add: olds_def news_def)

lemma hunk_body_reads:
  "hunk_body i (length (olds es)) (length (news es)) (map edit_line es @ rest) h =
    Inr (h\<lparr>old_lines := old_lines h @ olds es, new_lines := new_lines h @ news es\<rparr>, i + length es, rest)"
proof (induction es arbitrary: i h)
  case (Cons e es)
  then show ?case
  proof (cases e)
    case (Delete l)
    then show ?thesis using Cons by (cases "length (news es)") (simp_all add: hunk_line_def)
  next
    case (Insert l)
    then show ?thesis using Cons by (cases "length (olds es)") (simp_all add: hunk_line_def)
  qed (simp add: hunk_line_def)
qed simp

text \<open>The numbers of a header are read back.\<close>

lemma parse_range_text:
  assumes "s < 2 ^ 64" "c < 2 ^ 64" "sign = CHR ''-'' \<or> sign = CHR ''+''"
  shows "parse_range (sign # range_text s c) = Some (s, c)"
proof -
  obtain d r where d: "nat_display s = d # r" using nat_display_digits(1) [of s] by (cases "nat_display s") auto
  have "is_ascii_digit d" using nat_display_digits(2) [of s] d by simp
  then have "d \<noteq> CHR ''+''" "d \<noteq> CHR ''-''" by (auto simp: is_ascii_digit_def less_eq_char_def)
  then have drop: "dropWhile (\<lambda>c. c = CHR ''-'' \<or> c = CHR ''+'') (sign # range_text s c) = range_text s c"
    using assms(3) d by (auto simp: range_text_def)
  have "CHR '','' \<notin> set (nat_display s)" by (rule no_digit_in_display) (simp add: is_ascii_digit_def less_eq_char_def)
  then have "split_once (CHR '','') (range_text s c) = Some (nat_display s, nat_display c)"
    by (simp add: range_text_def split_once_Some)
  then show ?thesis using assms(1,2) parse_usize_display unfolding parse_range_def drop Let_def by simp
qed

lemma range_text_word: "list_all (\<lambda>c. \<not> is_whitespace c) (range_text s c)"
proof -
  have "\<not> is_whitespace (CHR '','')" by (simp add: is_whitespace_def)
  then show ?thesis using nat_display_digits(2) [of s] nat_display_digits(2) [of c]
    by (auto simp: range_text_def list_all_iff digit_not_space)
qed

lemma hunk_ranges_header:
  assumes "s < 2 ^ 64" "t < 2 ^ 64" "length (olds es) < 2 ^ 64" "length (news es) < 2 ^ 64"
  shows "hunk_ranges (hunk_header s t es) = Some (s, length (olds es), length (news es))"
proof -
  let ?r1 = "CHR ''-'' # range_text s (length (olds es))" and ?r2 = "CHR ''+'' # range_text t (length (news es))"
  have sp: "is_whitespace (CHR '' '')" "\<not> is_whitespace (CHR ''-'')" "\<not> is_whitespace (CHR ''+'')" "\<not> is_whitespace (CHR ''@'')"
    by (simp_all add: is_whitespace_def)
  have "hunk_header s t es = ''@@'' @ CHR '' '' # ?r1 @ CHR '' '' # ?r2 @ CHR '' '' # ''@@''"
    by (simp add: hunk_header_def)
  moreover have "split_ws (''@@'' @ CHR '' '' # ?r1 @ CHR '' '' # ?r2 @ CHR '' '' # ''@@'') = [''@@'', ?r1, ?r2, ''@@'']"
    using sp range_text_word split_ws_append [of ?r1 "CHR '' ''"] split_ws_append [of ?r2 "CHR '' ''"]
    by (simp add: split_ws_append split_ws_word)
  ultimately have "split_whitespace (hunk_header s t es) = [''@@'', ?r1, ?r2, ''@@'']"
    by (simp add: split_whitespace_def)
  then show ?thesis using parse_range_text assms by (simp add: hunk_ranges_def)
qed

lemma header_prefix:
  "strip_prefix ''diff --git '' (hunk_header s t es) = None" "strip_prefix ''rename from '' (hunk_header s t es) = None"
  "strip_prefix ''rename to '' (hunk_header s t es) = None" "strip_prefix ''new file mode '' (hunk_header s t es) = None"
  "strip_prefix ''new mode '' (hunk_header s t es) = None" "strip_prefix ''--- '' (hunk_header s t es) = None"
  "prefix ''@@ '' (hunk_header s t es)"
  by (simp_all add: strip_prefix_None hunk_header_def)

text \<open>The hunks of a text, one after the other, are added to the last file.\<close>

lemma parse_hunk_texts:
  assumes "n + length (before d rest) < 2 ^ 63" "m + length (after d rest) < 2 ^ 63" "files \<noteq> []"
  shows "parse_lines i (hunk_texts n m d) files = Inr (on_last (\<lambda>f. f\<lparr>hunks := hunks f @ hunks_of n d\<rparr>) files)"
  using assms
proof (induction d arbitrary: n m i files)
  case (Cons g d)
  obtain gap es where g: "g = (gap, es)" by (cases g)
  let ?h = "\<lparr>old_start = n + length gap + 1, old_lines = olds es, new_lines = news es\<rparr>"
  let ?files = "on_last (\<lambda>f. f\<lparr>hunks := hunks f @ [?h]\<rparr>) files"
  have "hunk_ranges (hunk_header (n + length gap + 1) (m + length gap + 1) es) = Some (n + length gap + 1, length (olds es), length (news es))"
    by (rule hunk_ranges_header) (use Cons.prems g in simp_all)
  moreover have "parse_lines (i + 1 + length es) (hunk_texts (n + length gap + length (olds es)) (m + length gap + length (news es)) d) ?files
      = Inr (on_last (\<lambda>f. f\<lparr>hunks := hunks f @ hunks_of (n + length gap + length (olds es)) d\<rparr>) ?files)"
    by (rule Cons.IH) (use Cons.prems g in \<open>simp_all add: on_last_def\<close>)
  moreover have "on_last (\<lambda>f. f\<lparr>hunks := hunks f @ hunks_of (n + length gap + length (olds es)) d\<rparr>) ?files =
      on_last (\<lambda>f. f\<lparr>hunks := hunks f @ hunks_of n (g # d)\<rparr>) files"
    using Cons.prems(3) by (simp add: on_last_def g)
  ultimately show ?case using g Cons.prems(3)
    by (simp add: header_prefix hunk_body_reads del: hunks_of.simps)
qed (simp add: on_last_def)

definition plain_name :: "string \<Rightarrow> bool" where
  "plain_name a \<longleftrightarrow> CHR 0x09 \<notin> set a \<and> newline \<notin> set a \<and> (a = [] \<or> \<not> is_whitespace (last a))"

lemma header_name_plain: "plain_name a \<Longrightarrow> header_name a = a"
proof -
  assume a: "plain_name a"
  then have "split_on (CHR 0x09) a = [a]" by (simp add: plain_name_def split_on_word)
  moreover have "trim_end a = a" using a by (cases a rule: rev_cases) (auto simp: plain_name_def trim_end_def)
  ultimately show ?thesis by (simp add: header_name_def)
qed

definition plain_edit :: "edit \<Rightarrow> bool" where
  "plain_edit e \<longleftrightarrow> plain_line (edit_line e)"

lemma hunk_texts_plain: "list_all (\<lambda>(gap, es). list_all plain_edit es) d \<Longrightarrow> list_all plain_line (hunk_texts n m d)"
proof (induction d arbitrary: n m)
  case (Cons g d)
  obtain gap es where g: "g = (gap, es)" by (cases g)
  have nl: "\<not> is_ascii_digit newline" by (simp add: newline_def is_ascii_digit_def less_eq_char_def)
  have "plain_line (hunk_header s t es)" for s t
    using no_digit_in_display [OF nl]
    by (auto simp: plain_line_def hunk_header_def range_text_def newline_def suffix_def)
  then show ?case using Cons g by (auto simp: list_all_iff plain_edit_def)
qed simp

definition one_file :: "string \<Rightarrow> string \<Rightarrow> diff \<Rightarrow> file_patch" where
  "one_file a b d = no_file\<lparr>header_line := 1, old_header := ''--- '' @ a, old_name := Some a, new_name := Some b, hunks := hunks_of 0 d\<rparr>"

lemma parse_printed:
  assumes "plain_name a" "plain_name b" "list_all (\<lambda>(gap, es). list_all plain_edit es) d"
    and "length (before d rest) < 2 ^ 63" "length (after d rest) < 2 ^ 63"
  shows "parse (unlines (patch_lines a b d)) = Inr [one_file a b d]"
proof -
  have cr: "\<not> suffix [CHR 0x0D] (x @ c)" if "plain_name c" "x \<noteq> []" "last x = CHR '' ''" for x c
    using that by (cases c rule: rev_cases) (auto simp: plain_name_def suffix_def is_whitespace_def snoc_eq_iff_butlast)
  have "list_all plain_line (patch_lines a b d)"
    using hunk_texts_plain [OF assms(3)] cr [OF assms(1), of "''--- ''"] cr [OF assms(2), of "''+++ ''"] assms(1,2)
    by (simp add: patch_lines_def plain_line_def plain_name_def newline_def)
  then have "parse (unlines (patch_lines a b d)) = parse_lines 0 (patch_lines a b d) []"
    by (simp add: parse_def lines_unlines)
  also have "\<dots> = parse_lines 2 (hunk_texts 0 0 d) (name_lines 0 (''--- '' @ a) a b [])"
  proof -
    have "strip_prefix ''diff --git '' (''--- '' @ a) = None" "strip_prefix ''rename from '' (''--- '' @ a) = None"
      "strip_prefix ''rename to '' (''--- '' @ a) = None" "strip_prefix ''new file mode '' (''--- '' @ a) = None"
      "strip_prefix ''new mode '' (''--- '' @ a) = None"
      by (simp_all add: strip_prefix_None)
    moreover have "strip_prefix ''--- '' (''--- '' @ a) = Some a" "strip_prefix ''+++ '' (''+++ '' @ b) = Some b"
      by (simp_all add: strip_prefix_Some)
    ultimately show ?thesis by (simp only: patch_lines_def parse_lines.simps option.case list.case) (simp add: numeral_2_eq_2)
  qed
  also have "\<dots> = Inr [one_file a b d]"
    using parse_hunk_texts [of 0 d rest 0 "name_lines 0 (''--- '' @ a) a b []" 2] assms header_name_plain
    by (simp add: name_lines_def in_git_def on_last_def one_file_def no_file_def)
  finally show ?thesis .
qed

text \<open>
  A patch that says how to get from one text to another, printed as a unified diff, is read back and turns the lines of the first
  text into those of the second, for any number of hunks.
\<close>

theorem patch_turns_old_into_new:
  assumes "plain_name a" "plain_name b" "list_all (\<lambda>(gap, es). list_all plain_edit es) d"
    and "length (before d rest) < 2 ^ 63" "length (after d rest) < 2 ^ 63"
  shows "\<exists>f. parse (unlines (patch_lines a b d)) = Inr [f] \<and> old_name f = Some a \<and> new_name f = Some b
    \<and> apply_hunks (before d rest) (hunks f) = Inr (after d rest)"
proof -
  have "apply_hunks (before d rest) (hunks (one_file a b d)) = Inr (after d rest)"
    using apply_hunks_diff [of 0 d rest "[]"] assms(4) by (simp add: apply_hunks_def one_file_def)
  then show ?thesis using parse_printed [OF assms] by (simp add: one_file_def)
qed

definition small_diff :: diff where
  "small_diff = [([''a''], [Delete ''b'', Insert ''B'']), ([''c''], [Keep ''d'', Insert ''e''])]"

theorem patch_turns_old_into_new_witness:
  "\<exists>f. parse (unlines (patch_lines ''x'' ''x'' small_diff)) = Inr [f]
     \<and> apply_hunks [''a'', ''b'', ''c'', ''d'', ''f''] (hunks f) = Inr [''a'', ''B'', ''c'', ''d'', ''e'', ''f'']"
proof -
  have "before small_diff [''f''] = [''a'', ''b'', ''c'', ''d'', ''f'']" "after small_diff [''f''] = [''a'', ''B'', ''c'', ''d'', ''e'', ''f'']"
    by (simp_all add: small_diff_def)
  moreover have "plain_name ''x''" "list_all (\<lambda>(gap, es). list_all plain_edit es) small_diff"
    by (simp_all add: small_diff_def plain_name_def plain_edit_def plain_line_def newline_def is_whitespace_def suffix_def)
  ultimately show ?thesis using patch_turns_old_into_new [of "''x''" "''x''" small_diff "[''f'']"] by auto
qed

text \<open>
  A hunk without context that only adds lines names the line it adds after. It is taken to name the line it starts at, so the
  lines go in one line too early.
\<close>

lemma added_before_the_line_named:
  "map_err (\<lambda>_. ()) (and_then (parse (unlines [''--- x'', ''+++ x'', ''@@ -2,0 +3,1 @@'', ''+new'']))
     (\<lambda>fs. apply_hunks [''a'', ''b'', ''c''] (hunks (hd fs)))) = Inr [''a'', ''new'', ''b'', ''c'']"
  by code_simp

end
