(* ===== verification/Rust_Path.thy ===== *)
theory Rust_Path
  imports Rust_Str
begin

text \<open>
  Paths as \<open>std::path\<close> has them: a path is its list of components, without empty ones and dots, as \<open>Path::components\<close> gives
  them. A dot at the very start, which Rust keeps, is left out too.
\<close>

section \<open>Paths\<close>

datatype component = RootDir | ParentDir | Normal string

type_synonym path = "component list"

definition component_of :: "string \<Rightarrow> component" where
  "component_of w = (if w = ''..'' then ParentDir else Normal w)"

definition components :: "string \<Rightarrow> path" where
  "components s = (if prefix ''/'' s then [RootDir] else [])
     @ map component_of (filter (\<lambda>w. w \<noteq> [] \<and> w \<noteq> ''.'') (split_on (CHR ''/'') s))"

definition path_join :: "path \<Rightarrow> string \<Rightarrow> path" where
  "path_join root s = (if prefix ''/'' s then components s else root @ components s)"

definition path_push :: "component \<Rightarrow> path \<Rightarrow> path" where
  "path_push c p = (if c = RootDir then [RootDir] else p @ [c])"

definition parent_of :: "path \<Rightarrow> path option" where
  "parent_of p = (if p = [] \<or> p = [RootDir] then None else Some (butlast p))"

fun component_text :: "component \<Rightarrow> string" where
  "component_text RootDir = []"
| "component_text ParentDir = ''..''"
| "component_text (Normal s) = s"

definition path_text :: "path \<Rightarrow> string" where
  "path_text p = (if p = [RootDir] then ''/'' else join ''/'' (map component_text p))"

lemma components_shape:
  "\<exists>cs. components s = (if prefix ''/'' s then [RootDir] else []) @ cs \<and> RootDir \<notin> set cs"
  by (auto simp: components_def component_of_def)

text \<open>Names that can be put together with slashes and taken apart again.\<close>

definition plain_segments :: "string list \<Rightarrow> bool" where
  "plain_segments ns \<longleftrightarrow> ns \<noteq> [] \<and> (\<forall>n \<in> set ns. n \<noteq> [] \<and> n \<noteq> ''.'' \<and> n \<noteq> ''..'' \<and> CHR ''/'' \<notin> set n)"

lemma components_join:
  assumes "plain_segments ns" shows "components (join ''/'' ns) = map Normal ns" "\<not> prefix ''/'' (join ''/'' ns)"
proof -
  have split: "split_on (CHR ''/'') (join ''/'' ns) = ns"
    using split_join [of ns "CHR ''/''"] assms by (auto simp: plain_segments_def)
  show np: "\<not> prefix ''/'' (join ''/'' ns)"
  proof
    assume "prefix ''/'' (join ''/'' ns)"
    then obtain r where "join ''/'' ns = CHR ''/'' # r" by (auto simp: prefix_def)
    with split have "ns = [] # split_on (CHR ''/'') r" by simp
    then show False using assms by (simp add: plain_segments_def)
  qed
  have "filter (\<lambda>w. w \<noteq> [] \<and> w \<noteq> ''.'') ns = ns" "map component_of ns = map Normal ns"
    using assms by (auto simp: plain_segments_def component_of_def filter_id_conv)
  then show "components (join ''/'' ns) = map Normal ns" using np split by (simp add: components_def)
qed

end
