(* ===== verification/Patch_Files.thy ===== *)
theory Patch_Files
  imports Patch Rust_Path
begin

text \<open>
  Applying a patch to the files below a directory (\<open>apply_patch\<close> of \<open>crates/fjfj-archive/src/patch.rs\<close>). The file system is a list of what is at each path: a
  directory, or a file with its text and whether it is executable. There are no symbolic links in it and every file is text. An operation that
  fails changes nothing, and its error, whose words are the system's, is \<open>Io\<close>.
\<close>

section \<open>Resolving dots\<close>

text \<open>\<open>PathBuf::pop\<close> does nothing to an empty path and to the root.\<close>

definition lexical_step :: "component \<Rightarrow> path \<Rightarrow> path" where
  "lexical_step c out =
     (case c of
        ParentDir \<Rightarrow> if out = [] \<or> out = [RootDir] then path_push ParentDir out else butlast out
      | _ \<Rightarrow> path_push c out)"

definition lexical :: "path \<Rightarrow> path" where
  "lexical p = fold lexical_step p []"

section \<open>The file system\<close>

datatype entry = Dir | File string bool

type_synonym disk = "(path \<times> entry) list"

datatype patch_error = Said string | Io

definition put :: "path \<Rightarrow> entry \<Rightarrow> disk \<Rightarrow> disk" where
  "put p e fs = (p, e) # filter (\<lambda>x. fst x \<noteq> p) fs"

definition create_dir_all :: "path \<Rightarrow> disk \<Rightarrow> (patch_error, disk) result" where
  "create_dir_all p fs =
     (if list_ex (\<lambda>q. case map_of fs q of Some (File _ _) \<Rightarrow> True | _ \<Rightarrow> False) (prefixes p) then Inl Io
      else Inr (fold (\<lambda>q fs. if q = [] \<or> map_of fs q \<noteq> None then fs else put q Dir fs) (prefixes p) fs))"

definition create_parent :: "path \<Rightarrow> disk \<Rightarrow> (patch_error, disk) result" where
  "create_parent p fs = (case parent_of p of Some q \<Rightarrow> create_dir_all q fs | None \<Rightarrow> Inr fs)"

definition has_dir :: "path \<Rightarrow> disk \<Rightarrow> bool" where
  "has_dir p fs \<longleftrightarrow> map_of fs p = Some Dir"

definition write_file :: "path \<Rightarrow> string \<Rightarrow> disk \<Rightarrow> (patch_error, disk) result" where
  "write_file p t fs =
     (case map_of fs p of
        Some Dir \<Rightarrow> Inl Io
      | Some (File _ x) \<Rightarrow> Inr (put p (File t x) fs)
      | None \<Rightarrow> if has_dir (butlast p) fs then Inr (put p (File t False) fs) else Inl Io)"

definition remove_file :: "path \<Rightarrow> disk \<Rightarrow> (patch_error, disk) result" where
  "remove_file p fs = (case map_of fs p of Some (File _ _) \<Rightarrow> Inr (filter (\<lambda>x. fst x \<noteq> p) fs) | _ \<Rightarrow> Inl Io)"

definition read_file :: "path \<Rightarrow> disk \<Rightarrow> (patch_error, string) result" where
  "read_file p fs = (case map_of fs p of Some (File t _) \<Rightarrow> Inr t | _ \<Rightarrow> Inl Io)"

definition set_mode :: "path \<Rightarrow> bool \<Rightarrow> disk \<Rightarrow> (patch_error, disk) result" where
  "set_mode p executable fs =
     (case map_of fs p of None \<Rightarrow> Inl Io | Some Dir \<Rightarrow> Inr fs | Some (File t _) \<Rightarrow> Inr (put p (File t executable) fs))"

text \<open>A directory moves with what is in it, to a path where there is nothing or an empty directory.\<close>

definition rename_path :: "path \<Rightarrow> path \<Rightarrow> disk \<Rightarrow> (patch_error, disk) result" where
  "rename_path p q fs =
     (case map_of fs p of
        None \<Rightarrow> Inl Io
      | Some (File t x) \<Rightarrow>
          (if has_dir q fs \<or> \<not> has_dir (butlast q) fs then Inl Io
           else Inr (if p = q then fs else put q (File t x) (filter (\<lambda>x. fst x \<noteq> p) fs)))
      | Some Dir \<Rightarrow>
          (if p = q then Inr fs
           else if strict_prefix p q \<or> \<not> has_dir (butlast q) fs \<or> list_ex (\<lambda>x. strict_prefix q (fst x)) fs
             \<or> (case map_of fs q of Some (File _ _) \<Rightarrow> True | _ \<Rightarrow> False) then Inl Io
           else Inr (map (\<lambda>(r, e). (if prefix p r then q @ drop (length p) r else r, e)) (filter (\<lambda>x. fst x \<noteq> q) fs))))"

text \<open>What the system finds at a path that may have dots in it: every directory on the way has to be there.\<close>

fun walk_path :: "disk \<Rightarrow> path \<Rightarrow> path \<Rightarrow> path option" where
  "walk_path fs cur [] = Some cur"
| "walk_path fs cur (RootDir # cs) = walk_path fs [RootDir] cs"
| "walk_path fs cur (Normal n # cs) = (if has_dir cur fs then walk_path fs (cur @ [Normal n]) cs else None)"
| "walk_path fs cur (ParentDir # cs) = (if has_dir cur fs then walk_path fs (if cur = [RootDir] then cur else butlast cur) cs else None)"

definition is_file :: "path \<Rightarrow> disk \<Rightarrow> bool" where
  "is_file p fs = (case walk_path fs [] p of Some q \<Rightarrow> (case map_of fs q of Some (File _ _) \<Rightarrow> True | _ \<Rightarrow> False) | None \<Rightarrow> False)"

section \<open>Applying a patch\<close>

definition stripped :: "string \<Rightarrow> nat \<Rightarrow> string option" where
  "stripped name strip =
     (if name = ''/dev/null'' then Some name
      else let cs = filter (\<lambda>c. c \<noteq> []) (split_on (CHR ''/'') name)
           in if strip < length cs then Some (join ''/'' (drop strip cs)) else None)"

definition name_of :: "nat \<Rightarrow> file_patch \<Rightarrow> string option \<Rightarrow> (patch_error, string option) result" where
  "name_of strip f name =
     (case name of
        None \<Rightarrow> Inr None
      | Some n \<Rightarrow>
          (case stripped n strip of
             Some m \<Rightarrow> Inr (Some m)
           | None \<Rightarrow> Inl (Said (''Cannot determine file name with strip = '' @ nat_display strip @ '' at line ''
               @ nat_display (header_line f) @ '':'' @ [newline] @ (if old_header f = [] then n else old_header f)))))"

definition inside :: "path \<Rightarrow> file_patch \<Rightarrow> string \<Rightarrow> (patch_error, path) result" where
  "inside root f relative =
     (let p = lexical (path_join root relative)
      in if prefix root p then Inr p
         else Inl (Said (''Cannot patch file outside of external repository ('' @ path_text root @ ''), file path = ''
           @ [CHR 0x22] @ relative @ [CHR 0x22] @ '' at line '' @ nat_display (header_line f))))"

definition or_empty :: "string option \<Rightarrow> string" where
  "or_empty s = (case s of Some t \<Rightarrow> t | None \<Rightarrow> [])"

text \<open>A step on the disk that keeps what was done before it when it fails.\<close>

definition try_disk :: "(patch_error, disk) result \<Rightarrow> disk \<Rightarrow> (disk \<Rightarrow> patch_error option \<times> disk) \<Rightarrow> patch_error option \<times> disk" where
  "try_disk r fs k = (case r of Inl e \<Rightarrow> (Some e, fs) | Inr fs' \<Rightarrow> k fs')"

definition try_path :: "(patch_error, path) result \<Rightarrow> disk \<Rightarrow> (path \<Rightarrow> patch_error option \<times> disk) \<Rightarrow> patch_error option \<times> disk" where
  "try_path r fs k = (case r of Inl e \<Rightarrow> (Some e, fs) | Inr p \<Rightarrow> k p)"

definition executable_mode :: "nat option \<Rightarrow> bool" where
  "executable_mode m = (case m of Some x \<Rightarrow> odd x \<or> odd (x div 8) \<or> odd (x div 64) | None \<Rightarrow> False)"

definition added_text :: "string list \<Rightarrow> string" where
  "added_text ls = join [newline] ls @ (if ls = [] then [] else [newline])"

definition create_file :: "path \<Rightarrow> file_patch \<Rightarrow> string option \<Rightarrow> disk \<Rightarrow> patch_error option \<times> disk" where
  "create_file root f new fs =
     try_path (inside root f (or_empty new)) fs (\<lambda>target.
       try_disk (create_parent target fs) fs (\<lambda>fs1.
         try_disk (write_file target (added_text (concat (map new_lines (hunks f)))) fs1) fs1 (\<lambda>fs2.
           try_disk (set_mode target (executable_mode (new_mode f)) fs2) fs2 (\<lambda>fs3. (None, fs3)))))"

definition delete_file :: "path \<Rightarrow> file_patch \<Rightarrow> string option \<Rightarrow> disk \<Rightarrow> patch_error option \<times> disk" where
  "delete_file root f old fs =
     try_path (inside root f (or_empty old)) fs (\<lambda>target.
       try_disk (remove_file target fs) fs (\<lambda>fs1. (None, fs1)))"

definition change_mode :: "path \<Rightarrow> file_patch \<Rightarrow> string option \<Rightarrow> disk \<Rightarrow> patch_error option \<times> disk" where
  "change_mode root f new fs =
     (case (new_mode f, new) of
        (Some mode, Some n) \<Rightarrow>
          try_path (inside root f n) fs (\<lambda>target.
            try_disk (set_mode target (executable_mode (Some mode)) fs) fs (\<lambda>fs1. (None, fs1)))
      | _ \<Rightarrow> (None, fs))"

definition rewrite_file :: "path \<Rightarrow> file_patch \<Rightarrow> disk \<Rightarrow> patch_error option \<times> disk" where
  "rewrite_file target f fs =
     (case read_file target fs of
        Inl e \<Rightarrow> (Some e, fs)
      | Inr t \<Rightarrow>
          (let ls = (if t \<noteq> [] \<and> last t = newline then butlast (lines_of t) else lines_of t)
           in case apply_hunks ls (hunks f) of
                Inl why \<Rightarrow> (Some (Said why), fs)
              | Inr out \<Rightarrow> try_disk (write_file target (added_text out) fs) fs (\<lambda>fs1. (None, fs1))))"

definition not_found :: "file_patch \<Rightarrow> string \<Rightarrow> string \<Rightarrow> string" where
  "not_found f old_n new_n =
     ''Cannot find file to patch (near line '' @ nat_display (header_line f) @ ''), old file name ('' @ old_n
     @ '') doesn't exist, new file name ('' @ new_n @ '') doesn't exist.''"

definition patch_file :: "path \<Rightarrow> file_patch \<Rightarrow> string option \<Rightarrow> string option \<Rightarrow> disk \<Rightarrow> patch_error option \<times> disk" where
  "patch_file root f old new fs =
     (let old_n = or_empty old; new_n = or_empty new
      in if rename_to f \<noteq> None \<or> is_file (path_join root new_n) fs then
           try_path (inside root f new_n) fs (\<lambda>target. rewrite_file target f fs)
         else if is_file (path_join root old_n) fs then
           try_path (inside root f old_n) fs (\<lambda>target. rewrite_file target f fs)
         else if list_all (\<lambda>h. old_lines h = []) (hunks f) then
           try_path (inside root f new_n) fs (\<lambda>target.
             try_disk (create_parent target fs) fs (\<lambda>fs1.
               try_disk (write_file target (unlines (concat (map new_lines (hunks f)))) fs1) fs1 (\<lambda>fs2. (None, fs2))))
         else try_path (inside root f new_n) fs (\<lambda>_. (Some (Said (not_found f old_n new_n)), fs)))"

definition apply_rest :: "path \<Rightarrow> file_patch \<Rightarrow> string option \<Rightarrow> string option \<Rightarrow> disk \<Rightarrow> patch_error option \<times> disk" where
  "apply_rest root f old new fs =
     (if old = Some ''/dev/null'' then create_file root f new fs
      else if new = Some ''/dev/null'' then delete_file root f old fs
      else if hunks f = [] then change_mode root f new fs
      else patch_file root f old new fs)"

definition apply_file :: "path \<Rightarrow> nat \<Rightarrow> file_patch \<Rightarrow> disk \<Rightarrow> patch_error option \<times> disk" where
  "apply_file root strip f fs =
     (case name_of strip f (old_name f) of
        Inl e \<Rightarrow> (Some e, fs)
      | Inr old \<Rightarrow>
     (case name_of strip f (new_name f) of
        Inl e \<Rightarrow> (Some e, fs)
      | Inr new \<Rightarrow>
     (case (rename_from f, rename_to f) of
        (Some from_name, Some to_name) \<Rightarrow>
          try_path (inside root f from_name) fs (\<lambda>p.
            try_path (inside root f to_name) fs (\<lambda>q.
              try_disk (create_parent q fs) fs (\<lambda>fs1.
                try_disk (rename_path p q fs1) fs1 (\<lambda>fs2.
                  if hunks f = [] then (None, fs2) else apply_rest root f old new fs2))))
      | _ \<Rightarrow> apply_rest root f old new fs)))"

fun apply_files :: "path \<Rightarrow> nat \<Rightarrow> file_patch list \<Rightarrow> disk \<Rightarrow> patch_error option \<times> disk" where
  "apply_files root strip [] fs = (None, fs)"
| "apply_files root strip (f # files) fs =
     (case apply_file root strip f fs of
        (Some e, fs1) \<Rightarrow> (Some e, fs1)
      | (None, fs1) \<Rightarrow> apply_files root strip files fs1)"

definition apply_patch :: "string \<Rightarrow> nat \<Rightarrow> path \<Rightarrow> disk \<Rightarrow> patch_error option \<times> disk" where
  "apply_patch patch strip root fs =
     (case parse patch of Inl e \<Rightarrow> (Some (Said e), fs) | Inr files \<Rightarrow> apply_files root strip files fs)"

section \<open>A patch stays inside\<close>

definition same_outside :: "path \<Rightarrow> disk \<Rightarrow> disk \<Rightarrow> bool" where
  "same_outside root fs fs' \<longleftrightarrow> (\<forall>q. \<not> prefix root q \<longrightarrow> map_of fs' q = map_of fs q)"

definition rooted :: "path \<Rightarrow> disk \<Rightarrow> bool" where
  "rooted root fs \<longleftrightarrow> (\<forall>q. strict_prefix q root \<longrightarrow> q = [] \<or> has_dir q fs)"

lemma same_outside_refl [simp]: "same_outside root fs fs"
  by (simp add: same_outside_def)

lemma same_outside_trans: "same_outside root a b \<Longrightarrow> same_outside root b c \<Longrightarrow> same_outside root a c"
  by (simp add: same_outside_def)

lemma rooted_same: "rooted root fs \<Longrightarrow> same_outside root fs fs' \<Longrightarrow> rooted root fs'"
  unfolding rooted_def same_outside_def has_dir_def by (metis prefix_order.less_le_not_le)

lemma map_of_put: "map_of (put p e fs) q = (if q = p then Some e else map_of fs q)"
  by (induction fs) (auto simp: put_def)

lemma map_of_removed: "map_of (filter (\<lambda>x. fst x \<noteq> p) fs) q = (if q = p then None else map_of fs q)"
  by (induction fs) auto

lemma put_inside: "prefix root p \<Longrightarrow> same_outside root fs (put p e fs)"
  by (auto simp: same_outside_def map_of_put)

lemma write_inside: "write_file p t fs = Inr fs' \<Longrightarrow> prefix root p \<Longrightarrow> same_outside root fs fs'"
  by (auto simp: write_file_def put_inside split: option.splits entry.splits if_splits)

lemma mode_inside: "set_mode p x fs = Inr fs' \<Longrightarrow> prefix root p \<Longrightarrow> same_outside root fs fs'"
  by (auto simp: set_mode_def put_inside split: option.splits entry.splits)

lemma remove_inside: "remove_file p fs = Inr fs' \<Longrightarrow> prefix root p \<Longrightarrow> same_outside root fs fs'"
  by (auto simp: remove_file_def same_outside_def map_of_removed split: option.splits entry.splits)

lemma dirs_inside:
  assumes "\<And>q. q \<in> set qs \<Longrightarrow> q = [] \<or> prefix root q \<or> has_dir q fs"
  shows "same_outside root fs (fold (\<lambda>q fs. if q = [] \<or> map_of fs q \<noteq> None then fs else put q Dir fs) qs fs)"
  using assms
proof (induction qs arbitrary: fs)
  case (Cons q qs)
  let ?fs = "if q = [] \<or> map_of fs q \<noteq> None then fs else put q Dir fs"
  have "q = [] \<or> prefix root q \<or> has_dir q fs" by (rule Cons.prems) simp
  then have step: "same_outside root fs ?fs" by (auto simp: put_inside has_dir_def)
  have "x = [] \<or> prefix root x \<or> has_dir x ?fs" if "x \<in> set qs" for x
    using Cons.prems [of x] that by (auto simp: has_dir_def map_of_put)
  from same_outside_trans [OF step Cons.IH [OF this]] show ?case by simp
qed simp

lemma create_parent_inside:
  assumes "create_parent p fs = Inr fs'" "prefix root p" "rooted root fs"
  shows "same_outside root fs fs'"
proof (cases "p = [] \<or> p = [RootDir]")
  case False
  then have "fs' = fold (\<lambda>q fs. if q = [] \<or> map_of fs q \<noteq> None then fs else put q Dir fs) (prefixes (butlast p)) fs"
    using assms(1) by (auto simp: create_parent_def parent_of_def create_dir_all_def split: if_splits)
  moreover have "q = [] \<or> prefix root q \<or> has_dir q fs" if "q \<in> set (prefixes (butlast p))" for q
  proof -
    have "prefix q p" using that by (meson in_set_prefixes prefix_order.trans prefixeq_butlast)
    then have "prefix root q \<or> strict_prefix q root"
      using assms(2) prefix_same_cases by (auto simp: strict_prefix_def)
    then show ?thesis using assms(3) by (auto simp: rooted_def)
  qed
  ultimately show ?thesis using dirs_inside by blast
qed (use assms in \<open>auto simp: create_parent_def parent_of_def\<close>)

lemma moved_outside:
  assumes "prefix root p" "prefix root q" "\<not> prefix root r"
  shows "map_of (map (\<lambda>(r, e). (if prefix p r then q @ drop (length p) r else r, e)) fs) r = map_of fs r"
proof (induction fs)
  case (Cons x fs)
  obtain s e where x: "x = (s, e)" by (cases x)
  have "q @ drop (length p) s \<noteq> r" using assms(2,3) by (metis prefix_append prefixI prefix_order.trans)
  moreover have "s \<noteq> r" if "prefix p s" using that assms(1,3) prefix_order.trans by blast
  ultimately show ?case using Cons x by auto
qed simp

lemma rename_inside:
  assumes "rename_path p q fs = Inr fs'" "prefix root p" "prefix root q"
  shows "same_outside root fs fs'"
proof -
  have "map_of (map (\<lambda>(r, e). (if prefix p r then q @ drop (length p) r else r, e)) (filter (\<lambda>x. fst x \<noteq> q) fs)) r = map_of fs r"
    if "\<not> prefix root r" for r
    using moved_outside [OF assms(2,3) that, of "filter (\<lambda>x. fst x \<noteq> q) fs"] that assms(3) by (auto simp: map_of_removed)
  then show ?thesis using assms
    by (auto simp: rename_path_def same_outside_def map_of_put map_of_removed split: option.splits entry.splits if_splits)
qed

lemma inside_prefix: "inside root f s = Inr p \<Longrightarrow> prefix root p"
  by (auto simp: inside_def Let_def split: if_splits)

text \<open>A computation on the disk that changes nothing outside.\<close>

lemma try_disk_inside:
  assumes "\<And>fs'. r = Inr fs' \<Longrightarrow> same_outside root fs fs'"
    and "\<And>fs'. r = Inr fs' \<Longrightarrow> rooted root fs' \<Longrightarrow> same_outside root fs' (snd (k fs'))"
    and "rooted root fs"
  shows "same_outside root fs (snd (try_disk r fs k))"
proof (cases r)
  case (Inr fs')
  then show ?thesis using assms rooted_same same_outside_trans by (fastforce simp: try_disk_def)
qed (simp add: try_disk_def)

lemma try_path_inside:
  assumes "\<And>p. prefix root p \<Longrightarrow> same_outside root fs (snd (k p))"
  shows "same_outside root fs (snd (try_path (inside root f s) fs k))"
  using assms inside_prefix by (auto simp: try_path_def split: sum.split)

lemmas disk_inside = write_inside mode_inside remove_inside create_parent_inside rename_inside

lemma rewrite_inside: "prefix root p \<Longrightarrow> rooted root fs \<Longrightarrow> same_outside root fs (snd (rewrite_file p f fs))"
  by (auto simp: rewrite_file_def Let_def split: sum.split intro!: try_disk_inside dest: disk_inside)

lemma create_file_inside: "rooted root fs \<Longrightarrow> same_outside root fs (snd (create_file root f new fs))"
  unfolding create_file_def by (intro try_path_inside try_disk_inside) (auto dest: disk_inside)

lemma delete_file_inside: "rooted root fs \<Longrightarrow> same_outside root fs (snd (delete_file root f old fs))"
  unfolding delete_file_def by (intro try_path_inside try_disk_inside) (auto dest: disk_inside)

lemma change_mode_inside: "rooted root fs \<Longrightarrow> same_outside root fs (snd (change_mode root f new fs))"
  by (auto simp: change_mode_def split: option.split intro!: try_path_inside try_disk_inside dest: disk_inside)

lemma added_file_inside:
  "rooted root fs \<Longrightarrow> same_outside root fs (snd (try_path (inside root f n) fs (\<lambda>target.
     try_disk (create_parent target fs) fs (\<lambda>fs1. try_disk (write_file target t fs1) fs1 (\<lambda>fs2. (None, fs2))))))"
  by (intro try_path_inside try_disk_inside) (auto dest: disk_inside)

lemma patch_file_inside: "rooted root fs \<Longrightarrow> same_outside root fs (snd (patch_file root f old new fs))"
  by (auto simp: patch_file_def Let_def intro!: try_path_inside rewrite_inside added_file_inside)

lemma apply_rest_inside: "rooted root fs \<Longrightarrow> same_outside root fs (snd (apply_rest root f old new fs))"
  by (simp add: apply_rest_def create_file_inside delete_file_inside change_mode_inside patch_file_inside)

lemma apply_file_inside:
  assumes "rooted root fs"
  shows "same_outside root fs (snd (apply_file root strip f fs))"
proof -
  have "same_outside root fs (snd (try_path (inside root f a) fs (\<lambda>p. try_path (inside root f b) fs (\<lambda>q.
      try_disk (create_parent q fs) fs (\<lambda>fs1. try_disk (rename_path p q fs1) fs1 (\<lambda>fs2.
        if hunks f = [] then (None, fs2) else apply_rest root f old new fs2))))))" for a b old new
    by (intro try_path_inside try_disk_inside) (use assms in \<open>auto dest: disk_inside simp: apply_rest_inside\<close>)
  then show ?thesis using assms by (simp add: apply_file_def apply_rest_inside split: sum.split option.split)
qed

lemma apply_files_inside: "rooted root fs \<Longrightarrow> same_outside root fs (snd (apply_files root strip files fs))"
proof (induction files arbitrary: fs)
  case (Cons f files)
  obtain e fs1 where one: "apply_file root strip f fs = (e, fs1)" by (cases "apply_file root strip f fs")
  have "same_outside root fs fs1" using apply_file_inside [OF Cons.prems, of strip f] one by simp
  then show ?case using Cons one rooted_same same_outside_trans by (cases e) fastforce+
qed simp

text \<open>Where a path leads when there are no links: \<open>..\<close> goes up, and stays at the root.\<close>

definition resolve_step :: "component \<Rightarrow> path \<Rightarrow> path" where
  "resolve_step c cur =
     (case c of RootDir \<Rightarrow> [RootDir] | ParentDir \<Rightarrow> if cur = [RootDir] then cur else butlast cur | Normal n \<Rightarrow> cur @ [Normal n])"

definition resolve :: "path \<Rightarrow> path" where
  "resolve p = fold resolve_step p []"

definition below_root :: "string list \<Rightarrow> path" where
  "below_root ns = RootDir # map Normal ns"

lemma lexical_resolve:
  assumes "RootDir \<notin> set cs" "out = below_root ns \<or> out = RootDir # ParentDir # map Normal ns"
  shows "\<exists>ms. fold resolve_step cs (below_root ns) = below_root ms
    \<and> (fold lexical_step cs out = below_root ms \<or> fold lexical_step cs out = RootDir # ParentDir # map Normal ms)"
  using assms
proof (induction cs arbitrary: out ns)
  case (Cons c cs)
  show ?case
  proof (cases c)
    case (Normal n)
    have "resolve_step c (below_root ns) = below_root (ns @ [n])" by (simp add: resolve_step_def below_root_def Normal)
    moreover have "lexical_step c out = below_root (ns @ [n]) \<or> lexical_step c out = RootDir # ParentDir # map Normal (ns @ [n])"
      using Cons.prems(2) by (auto simp: lexical_step_def path_push_def below_root_def Normal)
    ultimately show ?thesis using Cons.IH [of "lexical_step c out" "ns @ [n]"] Cons.prems(1) by simp
  next
    case ParentDir
    have "resolve_step c (below_root ns) = below_root (butlast ns)"
      by (cases ns rule: rev_cases) (simp_all add: resolve_step_def below_root_def ParentDir)
    moreover have "lexical_step c out = below_root (butlast ns) \<or> lexical_step c out = RootDir # ParentDir # map Normal (butlast ns)"
      using Cons.prems(2) by (cases ns rule: rev_cases) (auto simp: lexical_step_def path_push_def below_root_def ParentDir butlast_append)
    ultimately show ?thesis using Cons.IH [of "lexical_step c out" "butlast ns"] Cons.prems(1) by simp
  qed (use Cons.prems in simp)
qed auto

lemma prefix_map_Normal: "prefix (map Normal a) (map Normal b) \<longleftrightarrow> prefix a b"
proof (induction a arbitrary: b)
  case (Cons x a)
  then show ?case by (cases b) auto
qed simp

lemma inside_resolves:
  assumes root: "root = below_root names" "names \<noteq> []" and p: "inside root f s = Inr p"
  shows "p = resolve (path_join root s) \<and> (\<exists>ns. p = root @ map Normal ns)"
proof -
  have p: "p = lexical (path_join root s)" "prefix root p" using p by (auto simp: inside_def Let_def split: if_splits)
  obtain cs where cs: "path_join root s = RootDir # cs" "RootDir \<notin> set cs"
  proof -
    obtain ds where ds: "components s = (if prefix ''/'' s then [RootDir] else []) @ ds" "RootDir \<notin> set ds"
      using components_shape by blast
    show thesis
      by (rule that [of "if prefix ''/'' s then ds else map Normal names @ ds"])
        (use ds root in \<open>auto simp: path_join_def below_root_def\<close>)
  qed
  have "fold resolve_step (RootDir # cs) [] = fold resolve_step cs (below_root [])"
    "fold lexical_step (RootDir # cs) [] = fold lexical_step cs (below_root [])"
    by (simp_all add: resolve_step_def lexical_step_def path_push_def below_root_def)
  then obtain ms where ms: "resolve (path_join root s) = below_root ms" "p = below_root ms \<or> p = RootDir # ParentDir # map Normal ms"
    using lexical_resolve [OF cs(2), of "below_root []" "[]"] p(1) cs(1) by (auto simp: resolve_def lexical_def)
  moreover have "p \<noteq> RootDir # ParentDir # map Normal ms"
    using p(2) root by (cases names) (auto simp: below_root_def)
  ultimately have eq: "p = below_root ms" "p = resolve (path_join root s)" by auto
  then have "prefix names ms" using p(2) root by (simp add: below_root_def prefix_map_Normal)
  then show ?thesis using eq root by (auto simp: prefix_def below_root_def)
qed


section \<open>A patch that fits is applied\<close>

lemma lexical_normal: "lexical (below_root ns) = below_root ns"
proof -
  have "fold lexical_step (map Normal ns) out = out @ map Normal ns" for out
    by (induction ns arbitrary: out) (auto simp: lexical_step_def path_push_def)
  then show ?thesis by (simp add: lexical_def below_root_def lexical_step_def path_push_def)
qed

lemma stripped_join:
  assumes "plain_segments ns" "a \<noteq> []" "CHR ''/'' \<notin> set a"
  shows "stripped (a @ ''/'' @ join ''/'' ns) 1 = Some (join ''/'' ns)"
proof -
  have "split_on (CHR ''/'') (a @ ''/'' @ join ''/'' ns) = a # ns"
    using split_join [of ns "CHR ''/''"] assms by (auto simp: plain_segments_def split_on_append)
  moreover have "filter (\<lambda>c. c \<noteq> []) ns = ns" using assms by (auto simp: plain_segments_def filter_id_conv)
  moreover have "a @ ''/'' @ join ''/'' ns \<noteq> ''/dev/null''" using assms by (cases a) auto
  ultimately show ?thesis using assms by (simp add: stripped_def Let_def plain_segments_def)
qed

lemma walk_normal:
  "(\<And>q. strict_prefix q (cur @ map Normal ns) \<Longrightarrow> prefix cur q \<Longrightarrow> has_dir q fs) \<Longrightarrow>
    walk_path fs cur (map Normal ns) = Some (cur @ map Normal ns)"
proof (induction ns arbitrary: cur)
  case (Cons n ns)
  have "has_dir cur fs" by (rule Cons.prems) (auto simp: strict_prefix_def)
  moreover have "walk_path fs (cur @ [Normal n]) (map Normal ns) = Some ((cur @ [Normal n]) @ map Normal ns)"
    by (rule Cons.IH) (use Cons.prems append_prefixD in auto)
  ultimately show ?case by simp
qed simp

lemma added_unlines: "added_text ls = unlines ls"
proof (induction ls)
  case (Cons l ls)
  then show ?case by (cases "ls = []") (simp_all add: added_text_def unlines_def join_cons)
qed (simp add: added_text_def unlines_def)

lemma lines_of_unlines: "list_all plain_line ls \<Longrightarrow> butlast (lines_of (unlines ls)) = ls"
proof -
  assume plain: "list_all plain_line ls"
  then have "split_on newline (unlines ls) = ls @ [[]]" by (intro split_unlines) (auto simp: list_all_iff plain_line_def)
  moreover have "map without_cr ls = ls" using plain by (auto simp: list_all_iff plain_line_def without_cr_plain intro: map_idI)
  ultimately show ?thesis by (simp add: lines_of_def)
qed

lemma rewrite_applies:
  assumes "map_of fs p = Some (File (unlines ls) x)" "ls \<noteq> []" "list_all plain_line ls" "apply_hunks ls (hunks f) = Inr out"
  shows "rewrite_file p f fs = (None, put p (File (unlines out) x) fs)"
proof -
  obtain l ls' where "ls = ls' @ [l]" using assms(2) by (cases ls rule: rev_cases) auto
  then have "unlines ls \<noteq> []" "last (unlines ls) = newline" by (simp_all add: unlines_def)
  then show ?thesis using assms lines_of_unlines
    by (simp add: rewrite_file_def read_file_def Let_def try_disk_def write_file_def added_unlines)
qed


definition repo :: path where
  "repo = below_root [''r'']"

definition disk_with :: "string \<Rightarrow> disk" where
  "disk_with t = [([RootDir], Dir), (repo, Dir), (repo @ [Normal ''x''], File t False)]"

lemma repo_prefixes: "strict_prefix q (repo @ [Normal ''x'']) \<Longrightarrow> q = [] \<or> q = [RootDir] \<or> q = repo"
  by (auto simp: repo_def below_root_def strict_prefix_def prefix_Cons)

lemma repo_rooted: "rooted repo (disk_with t)"
proof -
  have "strict_prefix q repo \<Longrightarrow> q = [] \<or> q = [RootDir]" for q
    by (auto simp: repo_def below_root_def strict_prefix_def prefix_Cons)
  moreover have "has_dir [RootDir] (disk_with t)" by (simp add: has_dir_def disk_with_def)
  ultimately show ?thesis unfolding rooted_def by blast
qed



text \<open>
  A file that is there and empty has one empty line to the code, so that a patch that fills it leaves an empty line at its
  end. Without the file there is none.
\<close>

lemma empty_file_gets_a_line_too_many:
  "map_of (snd (apply_patch (unlines [''--- a/x'', ''+++ b/x'', ''@@ -0,0 +1,1 @@'', ''+new'']) 1 repo (disk_with [])))
     (repo @ [Normal ''x'']) = Some (File (unlines [''new'', '''']) False)
   \<and> map_of (snd (apply_patch (unlines [''--- a/y'', ''+++ b/y'', ''@@ -0,0 +1,1 @@'', ''+new'']) 1 repo (disk_with [])))
     (repo @ [Normal ''y'']) = Some (File (unlines [''new'']) False)"
  by code_simp

text \<open>
  With a directory given by a relative path that starts with \<open>..\<close>, the check of a name can be led outside: resolving a second
  \<open>..\<close> takes the first one away.
\<close>

lemma relative_root_escapes:
  "inside [ParentDir, Normal ''r''] no_file ''../../../r/x'' = Inr [ParentDir, Normal ''r'', Normal ''x'']"
  by code_simp

end
