(* ===== verification/Rust_Fuel.thy ===== *)
theory Rust_Fuel
  imports Rust_Base
begin

text \<open>
  Results of functions that recurse with fuel: \<open>None\<close> when the fuel is used up, otherwise the \<open>Result\<close>. Sequences of such
  calls, and of such a call for every element of a list.
\<close>

text \<open>A result that may not come, and the sequence of two: the rest of a function after a \<open>?\<close>.\<close>

fun rc_then :: "('e, 'a) result option \<Rightarrow> ('a \<Rightarrow> ('e, 'b) result option) \<Rightarrow> ('e, 'b) result option" where
  "rc_then None f = None"
| "rc_then (Some (Inl e)) f = Some (Inl e)"
| "rc_then (Some (Inr x)) f = f x"

fun rc_concat :: "('e, 'a list) result option list \<Rightarrow> ('e, 'a list) result option" where
  "rc_concat [] = Some (Inr [])"
| "rc_concat (r # rs) = rc_then r (\<lambda>xs. rc_then (rc_concat rs) (\<lambda>ys. Some (Inr (xs @ ys))))"

text \<open>A loop with a state, which stops at the first error.\<close>

fun rc_each :: "('x \<Rightarrow> 's \<Rightarrow> ('e, 's) result option) \<Rightarrow> 'x list \<Rightarrow> 's \<Rightarrow> ('e, 's) result option" where
  "rc_each f [] s = Some (Inr s)"
| "rc_each f (x # xs) s = rc_then (f x s) (rc_each f xs)"

lemma rc_cases:
  obtains (None) "r = None" | (Err) e where "r = Some (Inl e)" | (Ok) x where "r = Some (Inr x)"
  by (metis option.exhaust sum.exhaust)

lemma rc_then_assoc: "rc_then (rc_then r f) g = rc_then r (\<lambda>x. rc_then (f x) g)"
  by (cases r rule: rc_cases) simp_all

lemma rc_then_some: "rc_then r f = Some x \<longleftrightarrow> (\<exists>e. r = Some (Inl e) \<and> x = Inl e) \<or> (\<exists>y. r = Some (Inr y) \<and> f y = Some x)"
  by (cases r rule: rc_cases) auto

lemma rc_then_Inr_id: "rc_then r (\<lambda>x. Some (Inr x)) = r"
  by (cases r rule: rc_cases) auto

lemma rc_concat_append: "rc_concat (rs @ ss) = rc_then (rc_concat rs) (\<lambda>xs. rc_then (rc_concat ss) (\<lambda>ys. Some (Inr (xs @ ys))))"
  by (induction rs) (simp_all add: rc_then_assoc rc_then_Inr_id)

lemma rc_concat_None: "rc_concat rs = None \<Longrightarrow> None \<in> set rs"
proof (induction rs)
  case (Cons r rs)
  then show ?case by (cases r rule: rc_cases; cases "rc_concat rs" rule: rc_cases) auto
qed simp

lemma rc_concat_total: "(\<And>r. r \<in> set rs \<Longrightarrow> r \<noteq> None) \<Longrightarrow> rc_concat rs \<noteq> None"
  using rc_concat_None by blast

lemma rc_each_total: "(\<And>x s. x \<in> set xs \<Longrightarrow> f x s \<noteq> None) \<Longrightarrow> rc_each f xs s \<noteq> None"
proof (induction xs arbitrary: s)
  case (Cons x xs)
  obtain r where "f x s = Some r" using Cons.prems by fastforce
  then show ?case using Cons by (cases r) simp_all
qed simp

lemma rc_then_mono: "rc_then r f = Some y \<Longrightarrow> (\<And>x. r = Some (Inr x) \<Longrightarrow> f x = Some y \<Longrightarrow> g x = Some y) \<Longrightarrow> rc_then r g = Some y"
  by (cases r rule: rc_cases) simp_all

lemma rc_each_mono:
  "rc_each f xs s = Some y \<Longrightarrow> (\<And>x s z. x \<in> set xs \<Longrightarrow> f x s = Some z \<Longrightarrow> g x s = Some z) \<Longrightarrow> rc_each g xs s = Some y"
proof (induction xs arbitrary: s)
  case (Cons x xs)
  then obtain r where r: "f x s = Some r" by (cases "f x s") auto
  then have g: "g x s = Some r" using Cons.prems(2) by simp
  show ?case
  proof (cases r)
    case (Inl e)
    then have "y = Inl e" using Cons.prems(1) r by simp
    then show ?thesis using Inl g by simp
  next
    case (Inr t)
    then have "rc_each f xs t = Some y" using Cons.prems(1) r by simp
    then have "rc_each g xs t = Some y" using Cons.IH Cons.prems(2) by simp
    then show ?thesis using Inr g by simp
  qed
qed simp

text \<open>An invariant of such a loop: what holds of the elements met so far.\<close>

lemma rc_each_invariant:
  assumes "rc_each f xs s = Some (Inr t)" "Q {} s"
    and "\<And>seen x u v. x \<in> set xs \<Longrightarrow> Q seen u \<Longrightarrow> f x u = Some (Inr v) \<Longrightarrow> Q (insert x seen) v"
  shows "Q (set xs) t"
proof -
  have "Q (seen \<union> set ys) t" if "rc_each f ys s = Some (Inr t)" "Q seen s" "set ys \<subseteq> set xs" for ys seen s
    using that
  proof (induction ys arbitrary: seen s)
    case (Cons y ys)
    then obtain u where "f y s = Some (Inr u)" "rc_each f ys u = Some (Inr t)" by (auto simp: rc_then_some)
    then show ?case using Cons assms(3) [of y seen s u] Cons.IH [of u "insert y seen"] by simp
  qed simp
  from this [OF assms(1,2)] show ?thesis by simp
qed

end
