(* ===== verification/Bazelrc.thy ===== *)
theory Bazelrc
  imports Rust_Text Rust_Path Rust_Fuel
begin

text \<open>
  The \<open>.bazelrc\<close> files (\<open>crates/fjfj-bazel-compat/src/bazelrc\<close>): splitting a file into lines (\<open>parse.rs\<close>), finding and reading the files with their
  imports, expanding \<open>--config\<close> and telling where options came from (\<open>resolve.rs\<close>). The words of a line are read by a parser made with the
  crate \<open>chumsky\<close>, which is an argument: it gives the words or errors with the places they span. So are the files: whether a path
  exists, its canonical form and its text. Lengths are in bytes, for texts of one byte a character.
\<close>

section \<open>Lines\<close>

datatype directive =
    Import string
  | TryImport string
  | CommandFlags string "string option" "string list"

record rc_line =
  directive_of :: directive
  rc_line_no :: nat
  rc_span :: "nat \<times> nat"

record parse_error =
  error_line :: nat
  error_span :: "nat \<times> nat"
  error_message :: string

type_synonym word_parser = "string \<Rightarrow> ((nat \<times> nat \<times> string) list, string list) result"

record logical_line =
  logical_text :: string
  logical_no :: nat
  logical_span :: "nat \<times> nat"

definition split_inclusive :: "string \<Rightarrow> string list" where
  "split_inclusive s =
     (let parts = split_on newline s
      in map (\<lambda>l. l @ [newline]) (butlast parts) @ (if last parts = [] then [] else [last parts]))"

definition strip_or_self :: "string \<Rightarrow> string \<Rightarrow> string" where
  "strip_or_self e s = (case strip_suffix e s of Some r \<Rightarrow> r | None \<Rightarrow> s)"

record splicing =
  phys_no :: nat
  offset :: nat
  cur_text :: string
  cur_start_line :: nat
  cur_start_offset :: nat
  in_continuation :: bool
  spliced :: "logical_line list"

definition splice_start :: splicing where
  "splice_start = \<lparr>phys_no = 0, offset = 0, cur_text = [], cur_start_line = 1, cur_start_offset = 0,
     in_continuation = False, spliced = []\<rparr>"

definition finish_line :: "splicing \<Rightarrow> splicing" where
  "finish_line s = s\<lparr>spliced := spliced s @ [\<lparr>logical_text = cur_text s, logical_no = cur_start_line s,
     logical_span = (cur_start_offset s, offset s)\<rparr>], cur_text := [], in_continuation := False\<rparr>"

definition splice_line :: "splicing \<Rightarrow> string \<Rightarrow> splicing" where
  "splice_line s raw =
     (let line_start = offset s;
          s1 = s\<lparr>phys_no := phys_no s + 1, offset := offset s + length raw\<rparr>;
          plain = strip_or_self [CHR 0x0D] (strip_or_self [newline] raw);
          s2 = (if in_continuation s then s1\<lparr>cur_text := cur_text s @ '' ''\<rparr>
                else s1\<lparr>cur_start_line := phys_no s1, cur_start_offset := line_start, cur_text := []\<rparr>)
      in case strip_suffix [CHR 0x5C] plain of
           Some body \<Rightarrow> s2\<lparr>cur_text := cur_text s2 @ body, in_continuation := True\<rparr>
         | None \<Rightarrow> finish_line (s2\<lparr>cur_text := cur_text s2 @ plain\<rparr>))"

definition splice_continuations :: "string \<Rightarrow> logical_line list" where
  "splice_continuations src =
     (let s = foldl splice_line splice_start (split_inclusive src)
      in spliced (if in_continuation s then finish_line s else s))"

definition interpret_words :: "string list \<Rightarrow> (string, directive) result" where
  "interpret_words words =
     (let head = hd words; args = tl words
      in if (head = ''import'' \<or> head = ''try-import'') \<and> length args \<noteq> 1
           then Inl (CHR 0x27 # head @ CHR 0x27 # '' takes exactly one path argument, got '' @ nat_display (length args))
         else if head = ''import'' then Inr (Import (hd args))
         else if head = ''try-import'' then Inr (TryImport (hd args))
         else (case split_once (CHR '':'') head of
                 Some (c, cfg) \<Rightarrow> Inr (CommandFlags c (Some cfg) args)
               | None \<Rightarrow> Inr (CommandFlags head None args)))"

definition parse_logical :: "word_parser \<Rightarrow> logical_line \<Rightarrow> rc_line list \<times> parse_error list" where
  "parse_logical wp l =
     (let trimmed = trim_both (logical_text l)
      in if trimmed = [] \<or> prefix ''#'' trimmed then ([], [])
         else case wp (logical_text l) of
                Inr [] \<Rightarrow> ([], [])
              | Inr words \<Rightarrow>
                  (case interpret_words words of
                     Inr d \<Rightarrow> ([\<lparr>directive_of = d, rc_line_no = logical_no l, rc_span = logical_span l\<rparr>], [])
                   | Inl m \<Rightarrow> ([], [\<lparr>error_line = logical_no l, error_span = logical_span l, error_message = m\<rparr>]))
              | Inl errs \<Rightarrow>
                  ([], map (\<lambda>(a, b, m). \<lparr>error_line = logical_no l,
                     error_span = (fst (logical_span l) + a, fst (logical_span l) + b), error_message = m\<rparr>) errs))"

definition parse_rc_file :: "word_parser \<Rightarrow> string \<Rightarrow> rc_line list \<times> parse_error list" where
  "parse_rc_file wp src =
     (let rs = map (parse_logical wp) (splice_continuations src) in (concat (map fst rs), concat (map snd rs)))"

section \<open>Finding and reading the files\<close>

record discovery_options =
  workspace_root :: "path option"
  home :: "path option"
  system_rc_path :: path
  no_system_rc :: bool
  no_workspace_rc :: bool
  no_home_rc :: bool
  ignore_all_rc_files :: bool
  explicit_bazelrc :: "path list"

record resolved_line =
  source :: path
  line_no :: nat
  command_of :: string
  config :: "string option"
  flags :: "string list"

datatype resolve_error =
    RcIo path
  | RcParse path "parse_error list"
  | ImportCycle "path list"
  | UnreadableBazelrc path
  | ConfigCycle "string list" string
  | UndefinedConfig string

text \<open>A text that cannot be read is \<open>Inl\<close>, with whether it is that the file is not there.\<close>

record rc_disk =
  rc_exists :: "path \<Rightarrow> bool"
  rc_canonical :: "path \<Rightarrow> path option"
  rc_read :: "path \<Rightarrow> (bool, string) result"

definition resolve_import_path :: "path \<Rightarrow> string \<Rightarrow> path option \<Rightarrow> path" where
  "resolve_import_path importer raw ws =
     (case (strip_prefix ''%workspace%/'' raw, ws) of
        (Some rest, Some w) \<Rightarrow> path_join w rest
      | _ \<Rightarrow>
          (if prefix ''/'' raw then components raw
           else case parent_of importer of Some dir \<Rightarrow> path_join dir raw | None \<Rightarrow> components raw))"

text \<open>The lines of a file, with its imports in their places. The fuel bounds how deep imports go.\<close>

fun load_file ::
  "nat \<Rightarrow> word_parser \<Rightarrow> rc_disk \<Rightarrow> path option \<Rightarrow> path \<Rightarrow> bool \<Rightarrow> path list \<Rightarrow> (resolve_error, resolved_line list) result option" where
  "load_file 0 wp disk ws p is_try chain = None"
| "load_file (Suc n) wp disk ws p is_try chain =
     (let canonical = (case rc_canonical disk p of Some c \<Rightarrow> c | None \<Rightarrow> p)
      in if canonical \<in> set chain then Some (Inl (ImportCycle (chain @ [canonical])))
         else case rc_read disk p of
                Inl missing \<Rightarrow> if is_try \<and> missing then Some (Inr []) else Some (Inl (RcIo p))
              | Inr t \<Rightarrow>
                  (case parse_rc_file wp t of
                     (ls, errs) \<Rightarrow>
                       if errs \<noteq> [] then Some (Inl (RcParse p errs))
                       else rc_concat (map (\<lambda>l. case directive_of l of
                              Import q \<Rightarrow> load_file n wp disk ws (resolve_import_path p q ws) False (chain @ [canonical])
                            | TryImport q \<Rightarrow> load_file n wp disk ws (resolve_import_path p q ws) True (chain @ [canonical])
                            | CommandFlags c cfg fs \<Rightarrow>
                                Some (Inr [\<lparr>source = p, line_no = rc_line_no l, command_of = c, config = cfg, flags = fs\<rparr>])) ls)))"

fun explicit_roots :: "rc_disk \<Rightarrow> path list \<Rightarrow> (resolve_error, path list) result" where
  "explicit_roots disk [] = Inr []"
| "explicit_roots disk (p # ps) =
     (if p = [] then Inr []
      else if \<not> rc_exists disk p then Inl (UnreadableBazelrc p)
      else and_then (explicit_roots disk ps) (\<lambda>qs. Inr (p # qs)))"

definition default_roots :: "discovery_options \<Rightarrow> path list" where
  "default_roots opts =
     (if no_system_rc opts then [] else [system_rc_path opts])
     @ (case workspace_root opts of Some w \<Rightarrow> if no_workspace_rc opts then [] else [path_join w ''.bazelrc''] | None \<Rightarrow> [])
     @ (case home opts of Some h \<Rightarrow> if no_home_rc opts then [] else [path_join h ''.bazelrc''] | None \<Rightarrow> [])"

definition discover_and_parse ::
  "nat \<Rightarrow> word_parser \<Rightarrow> rc_disk \<Rightarrow> discovery_options \<Rightarrow> (resolve_error, resolved_line list) result option" where
  "discover_and_parse n wp disk opts =
     (if ignore_all_rc_files opts then Some (Inr [])
      else case explicit_roots disk (explicit_bazelrc opts) of
             Inl e \<Rightarrow> Some (Inl e)
           | Inr extra \<Rightarrow>
               rc_concat (map (\<lambda>r. load_file n wp disk (workspace_root opts) r False [])
                 (filter (rc_exists disk) (default_roots opts @ extra))))"

section \<open>Expanding configurations\<close>

definition inherits :: "string \<Rightarrow> string list" where
  "inherits c =
     (if c \<in> {''test'', ''run'', ''cquery'', ''aquery'', ''mobile-install'', ''print_action'', ''info''} then [''build'']
      else if c = ''coverage'' then [''build'', ''test''] else [])"

definition command_chain :: "string \<Rightarrow> string list" where
  "command_chain c = ''common'' # inherits c @ (if c \<noteq> ''common'' then [c] else [])"

text \<open>The lines of one configuration, or of none, section by section.\<close>

definition lines_for :: "resolved_line list \<Rightarrow> string \<Rightarrow> string option \<Rightarrow> resolved_line list" where
  "lines_for ls c cfg = concat (map (\<lambda>a. filter (\<lambda>l. config l = cfg \<and> command_of l = a) ls) (command_chain c))"

fun append_expanding ::
  "(string \<Rightarrow> (resolve_error, string list) result option) \<Rightarrow> string list \<Rightarrow> (resolve_error, string list) result option" where
  "append_expanding expand [] = Some (Inr [])"
| "append_expanding expand (f # fs) =
     (case strip_prefix ''--config='' f of
        Some name \<Rightarrow> rc_then (expand name) (\<lambda>xs. rc_then (append_expanding expand fs) (\<lambda>ys. Some (Inr (xs @ ys))))
      | None \<Rightarrow>
          (if f = ''--config'' then
             (case fs of
                name # rest \<Rightarrow> rc_then (expand name) (\<lambda>xs. rc_then (append_expanding expand rest) (\<lambda>ys. Some (Inr (xs @ ys))))
              | [] \<Rightarrow> Some (Inr [f]))
           else rc_then (append_expanding expand fs) (\<lambda>ys. Some (Inr (f # ys)))))"

text \<open>The fuel bounds how deep configurations name each other.\<close>

fun expand_config ::
  "nat \<Rightarrow> resolved_line list \<Rightarrow> string \<Rightarrow> bool \<Rightarrow> string list \<Rightarrow> string \<Rightarrow> (resolve_error, string list) result option" where
  "expand_config 0 ls c required chain name = None"
| "expand_config (Suc n) ls c required chain name =
     (if name \<in> set chain then Some (Inl (ConfigCycle chain name))
      else rc_then (rc_concat (map (\<lambda>l. append_expanding (expand_config n ls c True (chain @ [name])) (flags l))
                     (lines_for ls c (Some name))))
             (\<lambda>out. if required \<and> lines_for ls c (Some name) = [] then Some (Inl (UndefinedConfig name)) else Some (Inr out)))"

definition platform_on :: "string set" where
  "platform_on = {''--enable_platform_specific_config'', ''--enable_platform_specific_config=true''}"

definition platform_off :: "string set" where
  "platform_off = {''--noenable_platform_specific_config'', ''--enable_platform_specific_config=false''}"

definition platform_enabled :: "string list \<Rightarrow> bool" where
  "platform_enabled out = foldl (\<lambda>on f. if f \<in> platform_on then True else if f \<in> platform_off then False else on) False out"

definition resolve_command ::
  "nat \<Rightarrow> string \<Rightarrow> resolved_line list \<Rightarrow> string \<Rightarrow> (resolve_error, string list) result option" where
  "resolve_command n os ls c =
     rc_then (rc_concat (map (\<lambda>l. append_expanding (expand_config n ls c True []) (flags l)) (lines_for ls c None)))
       (\<lambda>out. let kept = filter (\<lambda>f. f \<notin> platform_on \<union> platform_off) out
              in if platform_enabled out
                 then rc_then (expand_config n ls c False [] os) (\<lambda>extra. Some (Inr (kept @ extra)))
                 else Some (Inr kept))"

definition before_marker :: "string list \<Rightarrow> string list" where
  "before_marker args = takeWhile (\<lambda>a. a \<noteq> ''--'') args"

definition expand_command_line ::
  "nat \<Rightarrow> resolved_line list \<Rightarrow> string \<Rightarrow> string list \<Rightarrow> (resolve_error, string list) result option" where
  "expand_command_line n ls c args =
     rc_then (append_expanding (expand_config n ls c True []) (before_marker args))
       (\<lambda>out. Some (Inr (out @ dropWhile (\<lambda>a. a \<noteq> ''--'') args)))"

section \<open>Announcing options\<close>

fun config_names :: "string list \<Rightarrow> string list" where
  "config_names [] = []"
| "config_names (f # fs) =
     (case strip_prefix ''--config='' f of
        Some name \<Rightarrow> name # config_names fs
      | None \<Rightarrow> (if f = ''--config'' then (case fs of name # rest \<Rightarrow> name # config_names rest | [] \<Rightarrow> []) else config_names fs))"

fun stretches_from :: "nat \<Rightarrow> path option \<Rightarrow> resolved_line list \<Rightarrow> nat list" where
  "stretches_from k before [] = []"
| "stretches_from k before (l # ls) =
     (let k' = (case before of Some p \<Rightarrow> if p \<noteq> source l then k + 1 else k | None \<Rightarrow> k)
      in k' # stretches_from k' (Some (source l)) ls)"

definition stretches :: "resolved_line list \<Rightarrow> nat list" where
  "stretches ls = stretches_from 0 None ls"

definition in_order_once :: "nat list \<Rightarrow> nat list" where
  "in_order_once xs = foldl (\<lambda>seen s. if s \<in> set seen then seen else seen @ [s]) [] xs"

definition in_stretch :: "resolved_line list \<Rightarrow> nat \<Rightarrow> string option \<Rightarrow> string \<Rightarrow> resolved_line list" where
  "in_stretch ls k cfg section = map fst (filter (\<lambda>(l, s). s = k \<and> config l = cfg \<and> command_of l = section) (zip ls (stretches ls)))"

definition flags_of :: "resolved_line list \<Rightarrow> string list" where
  "flags_of ls = concat (map flags ls)"

text \<open>The stretches that have lines of a configuration or of none, with those lines, in the order of the sections.\<close>

definition groups :: "resolved_line list \<Rightarrow> string \<Rightarrow> string option \<Rightarrow> (string \<times> resolved_line list) list" where
  "groups ls c cfg =
     filter (\<lambda>(section, g). g \<noteq> [])
       (concat (map (\<lambda>section. map (\<lambda>k. (section, in_stretch ls k cfg section)) (in_order_once (stretches ls))) (command_chain c)))"

fun concat_options :: "'a list option list \<Rightarrow> 'a list option" where
  "concat_options [] = Some []"
| "concat_options (r # rs) = (case r of None \<Rightarrow> None | Some xs \<Rightarrow> map_option (\<lambda>ys. xs @ ys) (concat_options rs))"

fun announce_group :: "(string \<Rightarrow> string list option) \<Rightarrow> string \<Rightarrow> string \<times> resolved_line list \<Rightarrow> string list option" where
  "announce_group nested name (section, g) =
     map_option (\<lambda>below. (''Found applicable config definition '' @ section @ '':'' @ name @ '' in file ''
         @ path_text (source (hd g)) @ '': '' @ join '' '' (flags_of g)) # below)
       (concat_options (map nested (config_names (flags_of g))))"

text \<open>There is no check for a configuration that names itself; the fuel bounds how deep configurations name each other, and is
  used up when they do so without end.\<close>

fun announce_config :: "nat \<Rightarrow> resolved_line list \<Rightarrow> string \<Rightarrow> string \<Rightarrow> string list option" where
  "announce_config 0 ls c name = None"
| "announce_config (Suc n) ls c name =
     concat_options (map (announce_group (announce_config n ls c) name) (groups ls c (Some name)))"

definition startup_messages :: "resolved_line list \<Rightarrow> string list" where
  "startup_messages ls =
     (let st = filter (\<lambda>l. command_of l = ''startup'') ls;
          files = foldl (\<lambda>fs l. if source l \<in> set fs then fs else fs @ [source l]) [] st
      in map (\<lambda>p. ''Reading 'startup' options from '' @ path_text p @ '': '' @ join '' '' (flags_of (filter (\<lambda>l. source l = p) st))) files)"

definition announce :: "nat \<Rightarrow> resolved_line list \<Rightarrow> string \<Rightarrow> string list \<Rightarrow> string \<Rightarrow> string list option" where
  "announce n ls c args client_options =
     (let gs = groups ls c None;
          label = (\<lambda>section. if section = c then CHR 0x27 # section @ [CHR 0x27] else ''Inherited '' @ CHR 0x27 # section @ [CHR 0x27]);
          said = map (\<lambda>(section, g). ''Reading rc options for '' @ CHR 0x27 # c @ CHR 0x27 # '' from '' @ path_text (source (hd g))
                   @ '':'' @ newline # ''  '' @ label section @ '' options: '' @ join '' '' (flags_of g)) gs;
          seeds = concat (map (\<lambda>(section, g). config_names (flags_of g)) gs) @ config_names (before_marker args)
      in map_option (\<lambda>extra. startup_messages ls
             @ [''Options provided by the client:'' @ newline # ''  Inherited 'common' options: '' @ client_options] @ said @ extra)
           (concat_options (map (announce_config n ls c) seeds)))"

section \<open>What the flags of a line mean\<close>

text \<open>A line as a list of plain flags and names of configurations.\<close>

datatype item = Plain string | Named string

fun items_of :: "string list \<Rightarrow> item list" where
  "items_of [] = []"
| "items_of (f # fs) =
     (case strip_prefix ''--config='' f of
        Some name \<Rightarrow> Named name # items_of fs
      | None \<Rightarrow>
          (if f = ''--config'' then (case fs of name # rest \<Rightarrow> Named name # items_of rest | [] \<Rightarrow> [Plain f])
           else Plain f # items_of fs))"

definition config_items :: "resolved_line list \<Rightarrow> string \<Rightarrow> string option \<Rightarrow> item list" where
  "config_items ls c cfg = concat (map (\<lambda>l. items_of (flags l)) (lines_for ls c cfg))"

definition is_defined :: "resolved_line list \<Rightarrow> string \<Rightarrow> string \<Rightarrow> bool" where
  "is_defined ls c name \<longleftrightarrow> lines_for ls c (Some name) \<noteq> []"

text \<open>The flags that items stand for: a name stands for those of its configuration, which has to be defined.\<close>

inductive expansion :: "resolved_line list \<Rightarrow> string \<Rightarrow> item list \<Rightarrow> string list \<Rightarrow> bool" for ls c where
  expansion_nil: "expansion ls c [] []"
| expansion_plain: "expansion ls c is out \<Longrightarrow> expansion ls c (Plain f # is) (f # out)"
| expansion_named: "is_defined ls c name \<Longrightarrow> expansion ls c (config_items ls c (Some name)) xs \<Longrightarrow> expansion ls c is out
    \<Longrightarrow> expansion ls c (Named name # is) (xs @ out)"

inductive_cases expansion_nilE: "expansion ls c [] out"
inductive_cases expansion_plainE: "expansion ls c (Plain f # is) out"
inductive_cases expansion_namedE: "expansion ls c (Named name # is) out"

definition mentions :: "resolved_line list \<Rightarrow> string \<Rightarrow> (string \<times> string) set" where
  "mentions ls c = {(m, n). Named m \<in> set (config_items ls c (Some n))}"

definition item_result ::
  "(string \<Rightarrow> (resolve_error, string list) result option) \<Rightarrow> item \<Rightarrow> (resolve_error, string list) result option" where
  "item_result ex i = (case i of Plain f \<Rightarrow> Some (Inr [f]) | Named n \<Rightarrow> ex n)"

lemma item_result_simps [simp]: "item_result ex (Plain f) = Some (Inr [f])" "item_result ex (Named m) = ex m"
  by (simp_all add: item_result_def)

lemma append_expanding_items: "append_expanding ex fs = rc_concat (map (item_result ex) (items_of fs))"
  by (induction ex fs rule: append_expanding.induct)
    (auto simp: rc_then_assoc split: option.splits list.splits)

lemma concat_lines_items:
  "rc_concat (map (\<lambda>l. append_expanding ex (flags l)) ls) = rc_concat (map (item_result ex) (concat (map (\<lambda>l. items_of (flags l)) ls)))"
  by (induction ls) (simp_all add: rc_concat_append append_expanding_items)

lemma expand_config_Suc:
  "name \<notin> set chain \<Longrightarrow> expand_config (Suc n) ls c required chain name =
     rc_then (rc_concat (map (item_result (expand_config n ls c True (chain @ [name]))) (config_items ls c (Some name))))
       (\<lambda>out. if required \<and> \<not> is_defined ls c name then Some (Inl (UndefinedConfig name)) else Some (Inr out))"
  by (simp add: concat_lines_items config_items_def is_defined_def)

declare expand_config.simps(2) [simp del]

lemma expand_config_cycle: "name \<in> set chain \<Longrightarrow> expand_config (Suc n) ls c required chain name = Some (Inl (ConfigCycle chain name))"
  by (simp add: expand_config.simps(2))

lemma not_defined_items: "\<not> is_defined ls c name \<Longrightarrow> config_items ls c (Some name) = []"
  by (simp add: is_defined_def config_items_def)

section \<open>Expansion is exact\<close>

lemma expansion_unique: "expansion ls c is out \<Longrightarrow> expansion ls c is out' \<Longrightarrow> out = out'"
proof (induction arbitrary: out' rule: expansion.induct)
  case (expansion_plain "is" out f)
  from expansion_plain.prems show ?case by (rule expansion_plainE) (use expansion_plain.IH in auto)
next
  case (expansion_named name xs "is" out)
  from expansion_named.prems show ?case by (rule expansion_namedE) (use expansion_named.IH in auto)
qed (auto elim: expansion_nilE)

text \<open>A name that has an expansion leads into no cycle.\<close>

lemma expansion_acc: "expansion ls c is out \<Longrightarrow> Named m \<in> set is \<Longrightarrow> is_defined ls c m \<and> m \<in> Wellfounded.acc (mentions ls c)"
proof (induction arbitrary: m rule: expansion.induct)
  case (expansion_named name xs "is" out)
  have "name \<in> Wellfounded.acc (mentions ls c)"
    by (rule accI) (use expansion_named.IH(1) in \<open>auto simp: mentions_def\<close>)
  then show ?case using expansion_named by auto
qed auto

lemma expansion_named_in:
  "expansion ls c is out \<Longrightarrow> Named m \<in> set is \<Longrightarrow> \<exists>xs. expansion ls c (config_items ls c (Some m)) xs"
  by (induction rule: expansion.induct) auto

lemma reached_defined:
  assumes "expansion ls c is out" "Named name \<in> set is" "(m, name) \<in> (mentions ls c)\<^sup>*"
  shows "is_defined ls c m"
proof -
  have "(\<exists>xs. expansion ls c (config_items ls c (Some m)) xs) \<and> is_defined ls c m" using assms(3)
  proof (induction rule: converse_rtrancl_induct)
    case base
    then show ?case using assms(1,2) expansion_named_in expansion_acc by blast
  next
    case (step y z)
    then show ?case using expansion_named_in expansion_acc unfolding mentions_def by blast
  qed
  then show ?thesis by blast
qed

lemma acc_no_cycle: "x \<in> Wellfounded.acc r \<Longrightarrow> (x, x) \<notin> r\<^sup>+"
proof (induction rule: acc.induct)
  case (accI x)
  show ?case
  proof
    assume "(x, x) \<in> r\<^sup>+"
    then obtain y where "(y, x) \<in> r" "(x, y) \<in> r\<^sup>*" by (meson tranclD2)
    then have "(y, y) \<in> r\<^sup>+" by (meson rtrancl_into_trancl2)
    then show False using accI \<open>(y, x) \<in> r\<close> by blast
  qed
qed

lemma acc_below: "x \<in> Wellfounded.acc r \<Longrightarrow> (y, x) \<in> r\<^sup>* \<Longrightarrow> y \<in> Wellfounded.acc r"
  by (rule acc_downwards)

text \<open>What comes out of a list of items whose names come out right.\<close>

lemma concat_items_Inr:
  assumes "rc_concat (map (item_result ex) is) = Some (Inr out)"
    and "\<And>m xs. Named m \<in> set is \<Longrightarrow> ex m = Some (Inr xs) \<Longrightarrow> is_defined ls c m \<and> expansion ls c (config_items ls c (Some m)) xs"
  shows "expansion ls c is out"
  using assms
proof (induction "is" arbitrary: out)
  case (Cons i "is")
  show ?case
  proof (cases i)
    case (Plain f)
    then obtain ys where "rc_concat (map (item_result ex) is) = Some (Inr ys)" "out = f # ys"
      using Cons.prems(1) by (auto simp: rc_then_some)
    then show ?thesis using Cons Plain by (auto intro: expansion_plain)
  next
    case (Named n)
    then obtain xs ys where "ex n = Some (Inr xs)" "rc_concat (map (item_result ex) is) = Some (Inr ys)" "out = xs @ ys"
      using Cons.prems(1) by (auto simp: rc_then_some)
    then show ?thesis using Cons Named by (auto intro!: expansion_named)
  qed
qed (auto intro: expansion_nil)

lemma concat_items_Inl:
  assumes "rc_concat (map (item_result ex) is) = Some (Inl e)"
  shows "\<exists>m. Named m \<in> set is \<and> ex m = Some (Inl e)"
  using assms
proof (induction "is")
  case (Cons i "is")
  then show ?case by (cases i) (auto simp: rc_then_some)
qed simp

lemma concat_items_None:
  assumes "rc_concat (map (item_result ex) is) = None"
  shows "\<exists>m. Named m \<in> set is \<and> ex m = None"
  using assms
proof (induction "is")
  case (Cons i "is")
  have none: "rc_then r (\<lambda>xs. rc_then r' (\<lambda>ys. Some (Inr (xs @ ys)))) = None \<Longrightarrow> r = None \<or> r' = None"
    for r r' :: "(resolve_error, string list) result option"
    by (cases r rule: rc_cases; cases r' rule: rc_cases) auto
  have "item_result ex i = None \<or> rc_concat (map (item_result ex) is) = None"
    by (rule none) (use Cons.prems in simp)
  then show ?case using Cons.IH by (cases i) auto
qed simp

lemma expand_config_Inr:
  "expand_config n ls c True chain name = Some (Inr out) \<Longrightarrow>
    is_defined ls c name \<and> expansion ls c (config_items ls c (Some name)) out"
proof (induction n arbitrary: chain name out)
  case (Suc n)
  have fresh: "name \<notin> set chain" using Suc.prems by (auto simp: expand_config_cycle)
  obtain ys where "rc_concat (map (item_result (expand_config n ls c True (chain @ [name]))) (config_items ls c (Some name))) = Some (Inr ys)"
    "is_defined ls c name" "out = ys"
    using Suc.prems by (auto simp: expand_config_Suc [OF fresh] rc_then_some split: if_splits)
  then show ?case using concat_items_Inr Suc.IH by blast
qed simp

text \<open>A chain of names, each in the lines of the one before it.\<close>

fun linked :: "(string \<times> string) set \<Rightarrow> string list \<Rightarrow> bool" where
  "linked r (a # b # xs) \<longleftrightarrow> (b, a) \<in> r \<and> linked r (b # xs)"
| "linked r _ \<longleftrightarrow> True"

lemma linked_snoc: "linked r (xs @ [a, b]) \<longleftrightarrow> linked r (xs @ [a]) \<and> (b, a) \<in> r"
proof (induction xs)
  case (Cons x xs)
  then show ?case by (cases xs) auto
qed simp

lemma linked_reach: "linked r (a # xs) \<Longrightarrow> x \<in> set (a # xs) \<Longrightarrow> (x, a) \<in> r\<^sup>*"
proof (induction xs arbitrary: a)
  case (Cons b xs)
  then show ?case by (auto intro: rtrancl_into_rtrancl)
qed simp

lemma linked_cycle: "linked r (xs @ [a]) \<Longrightarrow> a \<in> set xs \<Longrightarrow> (a, a) \<in> r\<^sup>+"
proof (induction xs)
  case (Cons x xs)
  show ?case
  proof (cases "a \<in> set xs")
    case True
    moreover have "linked r (xs @ [a])" using Cons.prems by (cases xs) auto
    ultimately show ?thesis using Cons.IH by blast
  next
    case False
    then have x: "x = a" using Cons.prems by auto
    obtain b ys where b: "xs @ [a] = b # ys" by (cases "xs @ [a]") auto
    then have "(b, a) \<in> r" "linked r (b # ys)" using Cons.prems x by auto
    moreover have "a \<in> set (b # ys)" using b by (metis in_set_conv_decomp)
    ultimately show ?thesis using linked_reach by (meson rtrancl_into_trancl1)
  qed
qed simp

lemma expand_config_Inl:
  assumes "expand_config n ls c True chain name = Some (Inl e)" "linked (mentions ls c) (chain @ [name])"
  shows "(\<exists>m. e = UndefinedConfig m \<and> \<not> is_defined ls c m \<and> (m, name) \<in> (mentions ls c)\<^sup>*)
    \<or> (\<exists>ds m. e = ConfigCycle ds m \<and> m \<in> set ds \<and> linked (mentions ls c) (ds @ [m]) \<and> prefix chain ds \<and> (m, name) \<in> (mentions ls c)\<^sup>*)"
  using assms
proof (induction n arbitrary: chain name)
  case (Suc n)
  show ?case
  proof (cases "name \<in> set chain")
    case True
    then show ?thesis using Suc.prems by (auto simp: expand_config_cycle)
  next
    case fresh: False
    consider "\<not> is_defined ls c name" "e = UndefinedConfig name"
      | m where "Named m \<in> set (config_items ls c (Some name))" "expand_config n ls c True (chain @ [name]) m = Some (Inl e)"
      using Suc.prems(1) by (auto simp: expand_config_Suc [OF fresh] rc_then_some split: if_splits dest: concat_items_Inl)
    then show ?thesis
    proof cases
      case (2 m)
      then have m: "(m, name) \<in> mentions ls c" by (simp add: mentions_def)
      then have "linked (mentions ls c) ((chain @ [name]) @ [m])" using Suc.prems(2) by (simp add: linked_snoc)
      from Suc.IH [OF 2(2) this] show ?thesis
      proof (elim disjE exE conjE)
        fix k assume "e = UndefinedConfig k" "\<not> is_defined ls c k" "(k, m) \<in> (mentions ls c)\<^sup>*"
        then show ?thesis using m by (blast intro: rtrancl_into_rtrancl)
      next
        fix ds k assume "e = ConfigCycle ds k" "k \<in> set ds" "linked (mentions ls c) (ds @ [k])"
          "prefix (chain @ [name]) ds" "(k, m) \<in> (mentions ls c)\<^sup>*"
        then show ?thesis using m append_prefixD by (blast intro: rtrancl_into_rtrancl)
      qed
    qed auto
  qed
qed simp

lemma expand_config_returns:
  assumes "distinct chain" "set chain \<subseteq> {m. is_defined ls c m}" "length ls < n + length chain"
  shows "expand_config n ls c required chain name \<noteq> None"
  using assms
proof (induction n arbitrary: chain name required)
  case 0
  have "{m. is_defined ls c m} \<subseteq> (the \<circ> config) ` set ls"
    by (force simp: is_defined_def lines_for_def filter_empty_conv)
  then have "set chain \<subseteq> (the \<circ> config) ` set ls" using 0 by blast
  then have "card (set chain) \<le> card (set ls)" by (meson List.finite_set card_image_le card_mono finite_imageI le_trans)
  then have "length chain \<le> length ls" using 0 card_length [of ls] by (simp add: distinct_card)
  then show ?case using 0 by simp
next
  case (Suc n)
  show ?case
  proof (cases "name \<in> set chain \<or> \<not> is_defined ls c name")
    case True
    then show ?thesis
      by (cases "name \<in> set chain") (auto simp: expand_config_cycle expand_config_Suc not_defined_items)
  next
    case False
    then have fresh: "name \<notin> set chain" by simp
    have "expand_config n ls c True (chain @ [name]) m \<noteq> None" for m
      by (rule Suc.IH) (use Suc.prems False in auto)
    then obtain r where "rc_concat (map (item_result (expand_config n ls c True (chain @ [name]))) (config_items ls c (Some name))) = Some r"
      using concat_items_None by blast
    then show ?thesis by (cases r) (auto simp: expand_config_Suc [OF fresh])
  qed
qed

text \<open>
  C30. Expanding the configurations that a list of flags names always ends, even when configurations name each other in a
  circle. It gives flags exactly when these are the ones the list stands for; an error is true: either a name that the list leads
  to is not defined, or one leads to itself, and the chain that is reported shows how.
\<close>

theorem config_expansion_exact:
  assumes "length ls < n"
  shows "\<exists>r. append_expanding (expand_config n ls c True []) fs = Some r
    \<and> (\<forall>out. r = Inr out \<longleftrightarrow> expansion ls c (items_of fs) out)
    \<and> (\<forall>e. r = Inl e \<longrightarrow> (\<exists>m name. Named name \<in> set (items_of fs) \<and> (m, name) \<in> (mentions ls c)\<^sup>*
         \<and> (e = UndefinedConfig m \<and> \<not> is_defined ls c m
            \<or> (\<exists>ds. e = ConfigCycle ds m \<and> m \<in> set ds \<and> linked (mentions ls c) (ds @ [m])))))"
proof -
  let ?ex = "expand_config n ls c True []"
  have "?ex m \<noteq> None" for m by (rule expand_config_returns) (use assms in auto)
  then obtain r where r: "append_expanding ?ex fs = Some r"
    using concat_items_None unfolding append_expanding_items by blast
  have ok: "expansion ls c (items_of fs) out" if "r = Inr out" for out
    using r that concat_items_Inr expand_config_Inr unfolding append_expanding_items by blast
  have err: "\<exists>m name. Named name \<in> set (items_of fs) \<and> (m, name) \<in> (mentions ls c)\<^sup>*
      \<and> (e = UndefinedConfig m \<and> \<not> is_defined ls c m
         \<or> (\<exists>ds. e = ConfigCycle ds m \<and> m \<in> set ds \<and> linked (mentions ls c) (ds @ [m])))" if "r = Inl e" for e
  proof -
    obtain name where "Named name \<in> set (items_of fs)" "?ex name = Some (Inl e)"
      using r \<open>r = Inl e\<close> concat_items_Inl [of ?ex "items_of fs" e] unfolding append_expanding_items by blast
    then show ?thesis using expand_config_Inl [of n ls c "[]" name e] by fastforce
  qed
  have "r = Inr out" if out: "expansion ls c (items_of fs) out" for out
  proof (cases r)
    case (Inl e)
    from err [OF this] obtain m name where m: "Named name \<in> set (items_of fs)" "(m, name) \<in> (mentions ls c)\<^sup>*"
      and bad: "\<not> is_defined ls c m \<or> (\<exists>ds. m \<in> set ds \<and> linked (mentions ls c) (ds @ [m]))" by blast
    have name: "is_defined ls c name" "name \<in> Wellfounded.acc (mentions ls c)" using expansion_acc [OF out m(1)] by auto
    then have acc: "m \<in> Wellfounded.acc (mentions ls c)" using acc_below [OF name(2) m(2)] by simp
    have "is_defined ls c m" by (rule reached_defined [OF out m])
    with bad obtain ds where "m \<in> set ds" "linked (mentions ls c) (ds @ [m])" by blast
    then have "(m, m) \<in> (mentions ls c)\<^sup>+" by (intro linked_cycle)
    then show ?thesis using acc_no_cycle [OF acc] by simp
  next
    case (Inr o')
    then show ?thesis using ok expansion_unique [OF out] by blast
  qed
  then show ?thesis using r ok err by blast
qed

definition rc :: "string \<Rightarrow> string option \<Rightarrow> string list \<Rightarrow> resolved_line" where
  "rc c cfg fs = \<lparr>source = [Normal ''rc''], line_no = 1, command_of = c, config = cfg, flags = fs\<rparr>"

definition two_configs :: "resolved_line list" where
  "two_configs = [rc ''common'' None [''--color=yes''], rc ''build'' None [''--config=a''], rc ''build'' (Some ''a'') [''--x'', ''--config'', ''b''],
     rc ''build'' (Some ''b'') [''--y'']]"

theorem config_expansion_exact_witness:
  "append_expanding (expand_config 5 two_configs ''test'' True []) [''--config=a''] = Some (Inr [''--x'', ''--y''])
   \<and> expansion two_configs ''test'' (items_of [''--config=a'']) [''--x'', ''--y'']"
proof -
  have "length two_configs < 5" by (simp add: two_configs_def)
  from config_expansion_exact [OF this, of "''test''" "[''--config=a'']"] obtain r
    where r: "append_expanding (expand_config 5 two_configs ''test'' True []) [''--config=a''] = Some r"
      "\<forall>out. r = Inr out \<longleftrightarrow> expansion two_configs ''test'' (items_of [''--config=a'']) out" by blast
  moreover have "append_expanding (expand_config 5 two_configs ''test'' True []) [''--config=a''] = Some (Inr [''--x'', ''--y''])"
    by code_simp
  ultimately show ?thesis by auto
qed

end
