(* ===== verification/Bazelrc_Ends.thy ===== *)
theory Bazelrc_Ends
  imports Bazelrc
begin

text \<open>
  Reading the \<open>.bazelrc\<close> files ends whatever they import, and announcing their options ends after they have been expanded,
  save for one shape of file (\<open>src/crates/fjfj-bazel-compat/src/bazelrc/resolve.rs\<close>).
\<close>

section \<open>Announcing ends after a successful expansion\<close>

text \<open>A \<open>--config\<close> at the end of the flags, with no name after it.\<close>

fun dangling :: "string list \<Rightarrow> bool" where
  "dangling [] = False"
| "dangling (f # fs) =
     (case strip_prefix ''--config='' f of
        Some name \<Rightarrow> dangling fs
      | None \<Rightarrow> (if f = ''--config'' then (case fs of name # rest \<Rightarrow> dangling rest | [] \<Rightarrow> True) else dangling fs))"

text \<open>The four shapes of a list of flags, and what the scans of such a list do on each.\<close>

lemma flag_cases [case_names nil assigned alone named plain]:
  assumes "P []" "\<And>f name fs. strip_prefix ''--config='' f = Some name \<Longrightarrow> P fs \<Longrightarrow> P (f # fs)" "P [''--config'']"
    "\<And>name fs. P fs \<Longrightarrow> P (''--config'' # name # fs)"
    "\<And>f fs. strip_prefix ''--config='' f = None \<Longrightarrow> f \<noteq> ''--config'' \<Longrightarrow> P fs \<Longrightarrow> P (f # fs)"
  shows "P fs"
proof (induction fs rule: length_induct)
  case (1 fs)
  show ?case
  proof (cases fs)
    case (Cons f gs)
    consider name where "strip_prefix ''--config='' f = Some name" | "f = ''--config''"
      | "strip_prefix ''--config='' f = None" "f \<noteq> ''--config''" by (cases "strip_prefix ''--config='' f") auto
    then show ?thesis
    proof cases
      case 2
      then show ?thesis using Cons 1 assms(3,4) by (cases gs) simp_all
    qed (use Cons 1 assms(2,5) in simp_all)
  qed (simp add: assms(1))
qed

lemma bare_config: "strip_prefix ''--config='' ''--config'' = None"
  by code_simp

lemma scan_assigned:
  assumes "strip_prefix ''--config='' f = Some name"
  shows "items_of (f # fs) = Named name # items_of fs" "config_names (f # fs) = name # config_names fs" "dangling (f # fs) = dangling fs"
  by (simp_all only: items_of.simps config_names.simps dangling.simps assms option.case)

lemma scan_alone: "items_of [''--config''] = [Plain ''--config'']" "config_names [''--config''] = []" "dangling [''--config'']"
  by (simp_all only: items_of.simps config_names.simps dangling.simps bare_config option.case list.case simp_thms if_True)

lemma scan_named:
  "items_of (''--config'' # name # fs) = Named name # items_of fs" "config_names (''--config'' # name # fs) = name # config_names fs"
  "dangling (''--config'' # name # fs) = dangling fs"
  by (simp_all only: items_of.simps config_names.simps dangling.simps bare_config option.case list.case simp_thms if_True)

lemma scan_plain:
  assumes "strip_prefix ''--config='' f = None" "f \<noteq> ''--config''"
  shows "items_of (f # fs) = Plain f # items_of fs" "config_names (f # fs) = config_names fs" "dangling (f # fs) = dangling fs"
  by (simp_all only: items_of.simps config_names.simps dangling.simps assms option.case if_False)

lemmas scans = scan_assigned scan_alone scan_named scan_plain
declare items_of.simps(2) [simp del] config_names.simps(2) [simp del] dangling.simps(2) [simp del]

lemma config_names_items: "set (config_names fs) = {n. Named n \<in> set (items_of fs)}"
  by (induction fs rule: flag_cases) (auto simp: scans)

lemma items_append: "\<not> dangling fs \<Longrightarrow> items_of (fs @ gs) = items_of fs @ items_of gs"
  by (induction fs rule: flag_cases) (simp_all add: scans)

lemma items_flags_of: "\<forall>l \<in> set ls. \<not> dangling (flags l) \<Longrightarrow> items_of (flags_of ls) = concat (map (\<lambda>l. items_of (flags l)) ls)"
  by (induction ls) (simp_all add: flags_of_def items_append)

lemma groups_lines: "(sec, g) \<in> set (groups ls c cfg) \<Longrightarrow> set g \<subseteq> set (lines_for ls c cfg) \<and> set g \<subseteq> set ls"
proof -
  assume "(sec, g) \<in> set (groups ls c cfg)"
  then obtain k where sec: "sec \<in> set (command_chain c)" and g: "g = in_stretch ls k cfg sec" by (auto simp: groups_def)
  have "l \<in> set ls \<and> config l = cfg \<and> command_of l = sec" if "l \<in> set g" for l
    using that set_zip_leftD unfolding g in_stretch_def by fastforce
  then show ?thesis using sec by (auto simp: lines_for_def)
qed

lemma group_names:
  assumes "\<forall>l \<in> set ls. \<not> dangling (flags l)" "(section, g) \<in> set (groups ls c cfg)" "m \<in> set (config_names (flags_of g))"
  shows "Named m \<in> set (config_items ls c cfg)"
proof -
  have "items_of (flags_of g) = concat (map (\<lambda>l. items_of (flags l)) g)"
    using items_flags_of assms(1) groups_lines [OF assms(2)] by blast
  then show ?thesis using assms(3) groups_lines [OF assms(2)] by (auto simp: config_names_items config_items_def)
qed

lemma concat_options_mono:
  assumes "concat_options (map f xs) = Some r" "\<And>x y. x \<in> set xs \<Longrightarrow> f x = Some y \<Longrightarrow> h x = Some y"
  shows "concat_options (map h xs) = Some r"
  using assms
proof (induction xs arbitrary: r)
  case (Cons x xs)
  obtain ys zs where y: "f x = Some ys" "concat_options (map f xs) = Some zs" "r = ys @ zs"
    using Cons.prems(1) by (auto split: option.splits)
  then have "concat_options (map h xs) = Some zs" using Cons.IH Cons.prems(2) by simp
  moreover have "h x = Some ys" using Cons.prems(2) y(1) by simp
  ultimately show ?case using y(3) by simp
qed simp

lemma concat_options_some: "concat_options rs \<noteq> None \<longleftrightarrow> None \<notin> set rs"
  by (induction rs) (auto split: option.splits)

lemma announce_group_mono:
  assumes "announce_group f name sg = Some r" "\<And>m y. f m = Some y \<Longrightarrow> h m = Some y"
  shows "announce_group h name sg = Some r"
proof (cases sg)
  case (Pair sec g)
  then obtain ys where ys: "concat_options (map f (config_names (flags_of g))) = Some ys" using assms(1) by auto
  then have "concat_options (map h (config_names (flags_of g))) = Some ys" using assms(2) by (rule concat_options_mono)
  then show ?thesis using assms(1) ys Pair by simp
qed

lemma announced_all: "\<forall>m \<in> set ms. f m \<noteq> None \<Longrightarrow> concat_options (map f ms) \<noteq> None"
  unfolding concat_options_some by (simp add: image_iff eq_commute [of None])

lemma announce_config_mono: "announce_config k ls c name = Some r \<Longrightarrow> announce_config (Suc k) ls c name = Some r"
proof (induction k arbitrary: name r)
  case (Suc k)
  then have "concat_options (map (announce_group (announce_config k ls c) name) (groups ls c (Some name))) = Some r" by simp
  then have "concat_options (map (announce_group (announce_config (Suc k) ls c) name) (groups ls c (Some name))) = Some r"
    by (rule concat_options_mono) (erule announce_group_mono, rule Suc.IH)
  then show ?case by simp
qed simp

lemma announce_config_more: "k \<le> j \<Longrightarrow> announce_config k ls c name = Some r \<Longrightarrow> announce_config j ls c name = Some r"
proof (induction j)
  case (Suc j)
  then show ?case using announce_config_mono by (cases "k = Suc j") simp_all
qed simp

lemma announce_config_longer: "k \<le> j \<Longrightarrow> announce_config k ls c name \<noteq> None \<Longrightarrow> announce_config j ls c name \<noteq> None"
  using announce_config_more by (metis option.exhaust option.distinct(1))

lemma announce_list:
  assumes "\<And>m. m \<in> set ms \<Longrightarrow> \<exists>k. announce_config k ls c m \<noteq> None"
  shows "\<exists>k. \<forall>m \<in> set ms. announce_config k ls c m \<noteq> None"
  using assms
proof (induction ms)
  case (Cons m ms)
  obtain k where "announce_config k ls c m \<noteq> None" using Cons.prems [of m] by auto
  then have m: "announce_config (max k j) ls c m \<noteq> None" for j by (rule announce_config_longer [rotated]) simp
  have "\<exists>k. \<forall>x \<in> set ms. announce_config k ls c x \<noteq> None" by (rule Cons.IH) (rule Cons.prems, simp)
  then obtain j where "\<forall>x \<in> set ms. announce_config j ls c x \<noteq> None" by blast
  then have "\<forall>x \<in> set ms. announce_config (max k j) ls c x \<noteq> None" using announce_config_longer [of j "max k j"] by auto
  then have "\<forall>x \<in> set (m # ms). announce_config (max k j) ls c x \<noteq> None" using m by simp
  then show ?case by blast
qed simp

lemma announce_config_ends:
  assumes "\<forall>l \<in> set ls. \<not> dangling (flags l)" "name \<in> Wellfounded.acc (mentions ls c)"
  shows "\<exists>k. announce_config k ls c name \<noteq> None"
  using assms(2)
proof (induction rule: acc.induct)
  case (accI name)
  let ?ms = "concat (map (\<lambda>(section, g). config_names (flags_of g)) (groups ls c (Some name)))"
  have "\<exists>k. announce_config k ls c m \<noteq> None" if "m \<in> set ?ms" for m
    using that group_names [OF assms(1)] accI by (auto simp: mentions_def)
  then obtain k where k: "\<forall>m \<in> set ?ms. announce_config k ls c m \<noteq> None" using announce_list by blast
  have "announce_group (announce_config k ls c) name sg \<noteq> None" if sg: "sg \<in> set (groups ls c (Some name))" for sg
  proof (cases sg)
    case (Pair sec g)
    then have "set (config_names (flags_of g)) \<subseteq> set ?ms" using sg by force
    then have "concat_options (map (announce_config k ls c) (config_names (flags_of g))) \<noteq> None"
      using k by (intro announced_all) blast
    then show ?thesis using Pair by simp
  qed
  then have "\<forall>sg \<in> set (groups ls c (Some name)). announce_group (announce_config k ls c) name sg \<noteq> None" by blast
  from announced_all [OF this] have "announce_config (Suc k) ls c name \<noteq> None" by simp
  then show ?case by blast
qed


text \<open>
  When the options of the files and of the command line have been expanded and no line of the files ends in \<open>--config\<close>
  without a name, announcing them ends, although it does not look for configurations that name themselves.
\<close>

theorem announce_ends:
  assumes "resolve_command n os ls c = Some (Inr out)" "expand_command_line n ls c args = Some (Inr out')" "length ls < n"
    and "\<forall>l \<in> set ls. \<not> dangling (flags l)"
  shows "\<exists>k said. announce k ls c args client_options = Some said"
proof -
  let ?ex = "expand_config n ls c True []"
  obtain xs where "rc_concat (map (item_result ?ex) (config_items ls c None)) = Some (Inr xs)"
    using assms(1) by (auto simp: resolve_command_def rc_then_some concat_lines_items config_items_def)
  then have files: "expansion ls c (config_items ls c None) xs" using concat_items_Inr expand_config_Inr by blast
  obtain ys where "rc_concat (map (item_result ?ex) (items_of (before_marker args))) = Some (Inr ys)"
    using assms(2) by (auto simp: expand_command_line_def rc_then_some append_expanding_items)
  then have line: "expansion ls c (items_of (before_marker args)) ys" using concat_items_Inr expand_config_Inr by blast
  let ?seeds = "concat (map (\<lambda>(section, g). config_names (flags_of g)) (groups ls c None)) @ config_names (before_marker args)"
  have "m \<in> Wellfounded.acc (mentions ls c)" if "m \<in> set ?seeds" for m
  proof (cases "m \<in> set (config_names (before_marker args))")
    case True
    then show ?thesis using expansion_acc [OF line] by (simp add: config_names_items)
  next
    case False
    then show ?thesis using that group_names [OF assms(4)] expansion_acc [OF files] by auto
  qed
  then obtain k where "\<forall>m \<in> set ?seeds. announce_config k ls c m \<noteq> None"
    using announce_list [of ?seeds] announce_config_ends [OF assms(4)] by blast
  from announced_all [OF this] have "concat_options (map (announce_config k ls c) ?seeds) \<noteq> None" .
  then show ?thesis by (auto simp: announce_def Let_def)
qed

section \<open>Reading the files ends\<close>

definition canonical_of :: "rc_disk \<Rightarrow> path \<Rightarrow> path" where
  "canonical_of disk p = (case rc_canonical disk p of Some q \<Rightarrow> q | None \<Rightarrow> p)"

lemma load_file_Suc:
  "load_file (Suc n) wp disk ws p is_try chain =
     (if canonical_of disk p \<in> set chain then Some (Inl (ImportCycle (chain @ [canonical_of disk p])))
      else case rc_read disk p of
             Inl missing \<Rightarrow> if is_try \<and> missing then Some (Inr []) else Some (Inl (RcIo p))
           | Inr t \<Rightarrow>
               (case parse_rc_file wp t of
                  (ls, errs) \<Rightarrow>
                    if errs \<noteq> [] then Some (Inl (RcParse p errs))
                    else rc_concat (map (\<lambda>l. case directive_of l of
                           Import q \<Rightarrow> load_file n wp disk ws (resolve_import_path p q ws) False (chain @ [canonical_of disk p])
                         | TryImport q \<Rightarrow> load_file n wp disk ws (resolve_import_path p q ws) True (chain @ [canonical_of disk p])
                         | CommandFlags c cfg fs \<Rightarrow>
                             Some (Inr [\<lparr>source = p, line_no = rc_line_no l, command_of = c, config = cfg, flags = fs\<rparr>])) ls)))"
  by (simp only: load_file.simps(2) Let_def canonical_of_def)

declare load_file.simps(2) [simp del]

text \<open>The files there are, by canonical path.\<close>

definition readable_files :: "rc_disk \<Rightarrow> path set" where
  "readable_files disk = {canonical_of disk p |p. \<exists>t. rc_read disk p = Inr t}"

lemma load_file_returns:
  assumes "finite (readable_files disk)" "distinct chain" "set chain \<subseteq> readable_files disk"
    and "card (readable_files disk) < n + length chain"
  shows "load_file n wp disk ws p is_try chain \<noteq> None"
  using assms(2-4)
proof (induction n arbitrary: p is_try chain)
  case 0
  have "length chain \<le> card (readable_files disk)"
    using card_mono [OF assms(1) 0(2)] 0(1) by (simp add: distinct_card)
  then show ?case using 0(3) by simp
next
  case (Suc n)
  let ?c = "canonical_of disk p"
  show ?case
  proof (cases "?c \<in> set chain \<or> (\<exists>m. rc_read disk p = Inl m)")
    case True
    then show ?thesis by (auto simp: load_file_Suc)
  next
    case False
    then obtain t where t: "rc_read disk p = Inr t" and fresh: "?c \<notin> set chain" by (meson sum.exhaust)
    then have "?c \<in> readable_files disk" by (auto simp: readable_files_def)
    then have IH: "load_file n wp disk ws q b (chain @ [?c]) \<noteq> None" for q b
      by (intro Suc.IH) (use Suc.prems fresh in auto)
    have "rc_concat (map (\<lambda>l. case directive_of l of
        Import q \<Rightarrow> load_file n wp disk ws (resolve_import_path p q ws) False (chain @ [?c])
      | TryImport q \<Rightarrow> load_file n wp disk ws (resolve_import_path p q ws) True (chain @ [?c])
      | CommandFlags c cfg fs \<Rightarrow> Some (Inr [\<lparr>source = p, line_no = rc_line_no l, command_of = c, config = cfg, flags = fs\<rparr>])) ls) \<noteq> None"
      for ls :: "rc_line list"
      by (rule rc_concat_total) (use IH in \<open>auto split: directive.splits\<close>)
    then show ?thesis using t fresh by (simp add: load_file_Suc split: prod.split)
  qed
qed

text \<open>
  With finitely many files to read, finding and reading them ends, also when they import each other in a circle: imports never go
  deeper than there are files.
\<close>

theorem discovery_ends:
  assumes "finite (readable_files disk)" "card (readable_files disk) < n"
  shows "\<exists>r. discover_and_parse n wp disk opts = Some r"
proof -
  have "load_file n wp disk ws p b [] \<noteq> None" for ws p b
    by (rule load_file_returns [OF assms(1)]) (use assms(2) in auto)
  then have "rc_concat (map (\<lambda>r. load_file n wp disk ws r False []) rs) \<noteq> None" for ws rs
    by (intro rc_concat_total) (auto simp del: not_None_eq)
  then show ?thesis by (simp add: discover_and_parse_def del: filter_append map_append split: sum.split)
qed

section \<open>Examples\<close>

theorem announce_ends_witness: "\<exists>k said. announce k two_configs ''test'' [''//a''] [] = Some said"
proof (rule announce_ends [where n = 5 and os = "''linux''"])
  show "resolve_command 5 ''linux'' two_configs ''test'' = Some (Inr [''--color=yes'', ''--x'', ''--y''])" by code_simp
  show "expand_command_line 5 two_configs ''test'' [''//a''] = Some (Inr [''//a''])" by code_simp
  show "length two_configs < 5" by (simp add: two_configs_def)
  show "\<forall>l \<in> set two_configs. \<not> dangling (flags l)" by code_simp
qed

definition no_disk :: rc_disk where
  "no_disk = \<lparr>rc_exists = \<lambda>_. False, rc_canonical = \<lambda>_. None, rc_read = \<lambda>_. Inl True\<rparr>"

theorem discovery_ends_witness:
  "\<exists>r. discover_and_parse 1 (\<lambda>_. Inr []) no_disk \<lparr>workspace_root = None, home = None, system_rc_path = [], no_system_rc = False,
     no_workspace_rc = False, no_home_rc = False, ignore_all_rc_files = False, explicit_bazelrc = []\<rparr> = Some r"
  by (rule discovery_ends) (simp_all add: no_disk_def readable_files_def)

text \<open>Two lines of one file, the name of a configuration on the second.\<close>

definition split_name :: "resolved_line list" where
  "split_name = [rc ''build'' None [''--config''], rc ''build'' None [''loop''], rc ''build'' (Some ''loop'') [''--config=loop'']]"

lemma split_name_groups:
  "groups split_name ''build'' (Some ''loop'') = [(''build'', [rc ''build'' (Some ''loop'') [''--config=loop'']])]"
  "groups split_name ''build'' None = [(''build'', [rc ''build'' None [''--config''], rc ''build'' None [''loop'']])]"
  by code_simp+


end
