(* ===== verification/Rust_Fs.thy ===== *)
theory Rust_Fs
  imports Rust_Fuel Rust_Path
begin

text \<open>
  What \<open>std::fs\<close> tells of a file system that does not change while it is looked at. The calls are the fields of a record; errors are told
  apart as the sources do, into \<open>ErrorKind::NotFound\<close> and others. A name in a directory that is not valid UTF-8 is \<open>None\<close>.
\<close>

datatype io_error = IoNotFound | IoOther

datatype file_kind = IsFile | IsDir

datatype link_kind = PlainFile | PlainDir | Symlink

record os =
  os_metadata :: "path \<Rightarrow> (io_error, file_kind) result"
  os_symlink_metadata :: "path \<Rightarrow> (io_error, link_kind) result"
  os_canonicalize :: "path \<Rightarrow> (io_error, path) result"
  os_read_dir :: "path \<Rightarrow> (io_error, (io_error, string option) result list) result"
  os_read_to_string :: "path \<Rightarrow> (io_error, string) result"

text \<open>A name that an entry of a directory can have.\<close>

definition entry_name :: "string \<Rightarrow> bool" where
  "entry_name n \<longleftrightarrow> n \<noteq> [] \<and> n \<noteq> ''.'' \<and> n \<noteq> ''..'' \<and> CHR ''/'' \<notin> set n"

text \<open>Entries are listed exactly when they can be looked up by name.\<close>

definition tidy_os :: "os \<Rightarrow> bool" where
  "tidy_os fs \<longleftrightarrow> (\<forall>p n. entry_name n \<longrightarrow>
     (case os_read_dir fs p of
        Inr entries \<Rightarrow> Inr (Some n) \<in> set entries \<longleftrightarrow> os_symlink_metadata fs (path_join p n) \<noteq> Inl IoNotFound
      | Inl IoNotFound \<Rightarrow> os_symlink_metadata fs (path_join p n) = Inl IoNotFound
      | Inl IoOther \<Rightarrow> True))
   \<and> (\<forall>p entries n. os_read_dir fs p = Inr entries \<longrightarrow> Inr (Some n) \<in> set entries \<longrightarrow> entry_name n)"

lemma tidy_os_missing:
  assumes "tidy_os fs" "os_read_dir fs p = Inl IoNotFound" "entry_name n"
  shows "os_symlink_metadata fs (path_join p n) = Inl IoNotFound"
proof -
  have "case os_read_dir fs p of
      Inr entries \<Rightarrow> Inr (Some n) \<in> set entries \<longleftrightarrow> os_symlink_metadata fs (path_join p n) \<noteq> Inl IoNotFound
    | Inl IoNotFound \<Rightarrow> os_symlink_metadata fs (path_join p n) = Inl IoNotFound
    | Inl IoOther \<Rightarrow> True" using assms(1,3) unfolding tidy_os_def by blast
  then show ?thesis using assms(2) by simp
qed

lemma tidy_os_listed:
  assumes "tidy_os fs" "os_read_dir fs p = Inr es" "os_symlink_metadata fs (path_join p n) \<noteq> Inl IoNotFound"
  shows "Inr (Some n) \<in> set es \<longleftrightarrow> entry_name n"
proof
  assume "entry_name n"
  then have "case os_read_dir fs p of
      Inr entries \<Rightarrow> Inr (Some n) \<in> set entries \<longleftrightarrow> os_symlink_metadata fs (path_join p n) \<noteq> Inl IoNotFound
    | Inl IoNotFound \<Rightarrow> os_symlink_metadata fs (path_join p n) = Inl IoNotFound
    | Inl IoOther \<Rightarrow> True" using assms(1) unfolding tidy_os_def by blast
  then show "Inr (Some n) \<in> set es" using assms(2,3) by simp
next
  assume "Inr (Some n) \<in> set es"
  then show "entry_name n" using assms(1,2) unfolding tidy_os_def by blast
qed

lemma entry_components: "entry_name n \<Longrightarrow> path_join p n = p @ [Normal n]"
  using components_join [of "[n]"] by (simp add: entry_name_def plain_segments_def path_join_def)

section \<open>File systems without links\<close>

text \<open>A file system given by its files and directories.\<close>

type_synonym plain_disk = "(path \<times> file_kind) list"

definition plain_os :: "plain_disk \<Rightarrow> os" where
  "plain_os d = \<lparr>os_metadata = (\<lambda>p. case map_of d p of Some k \<Rightarrow> Inr k | None \<Rightarrow> Inl IoNotFound),
     os_symlink_metadata = (\<lambda>p. case map_of d p of Some IsFile \<Rightarrow> Inr PlainFile | Some IsDir \<Rightarrow> Inr PlainDir | None \<Rightarrow> Inl IoNotFound),
     os_canonicalize = (\<lambda>p. if map_of d p = None then Inl IoNotFound else Inr p),
     os_read_dir = (\<lambda>p. case map_of d p of
         Some IsDir \<Rightarrow> Inr (List.map_filter (\<lambda>(q, k). if q \<noteq> [] \<and> butlast q = p then (case last q of Normal n \<Rightarrow> Some (Inr (Some n)) | _ \<Rightarrow> None) else None) d)
       | Some IsFile \<Rightarrow> Inl IoOther
       | None \<Rightarrow> Inl IoNotFound),
     os_read_to_string = (\<lambda>p. Inl IoNotFound)\<rparr>"

definition plain_disk_ok :: "plain_disk \<Rightarrow> bool" where
  "plain_disk_ok d \<longleftrightarrow> list_all (\<lambda>(q, k). case rev q of
     Normal n # p \<Rightarrow> entry_name n \<and> map_of d (rev p) = Some IsDir | _ \<Rightarrow> True) d"

lemma plain_disk_entry:
  assumes "plain_disk_ok d" "(p @ [Normal n], k) \<in> set d"
  shows "entry_name n \<and> map_of d p = Some IsDir"
  using assms by (fastforce simp: plain_disk_ok_def list_all_iff)

lemma plain_os_read_dir:
  assumes "map_of d p = Some IsDir"
  shows "\<exists>es. os_read_dir (plain_os d) p = Inr es \<and> (\<forall>n. Inr (Some n) \<in> set es \<longleftrightarrow> p @ [Normal n] \<in> fst ` set d)"
proof -
  define entry :: "path \<times> file_kind \<Rightarrow> (io_error, string option) result option" where
    "entry = (\<lambda>(q, k). if q \<noteq> [] \<and> butlast q = p then (case last q of Normal n \<Rightarrow> Some (Inr (Some n)) | _ \<Rightarrow> None) else None)"
  have "entry (q, k) = Some (Inr (Some n)) \<longleftrightarrow> q = p @ [Normal n]" for q k n
    by (cases q rule: rev_cases) (auto simp: entry_def split: component.split)
  then have "Inr (Some n) \<in> set (List.map_filter entry d) \<longleftrightarrow> p @ [Normal n] \<in> fst ` set d" for n
    by (force simp: map_filter_def image_iff)
  then show ?thesis using assms by (simp add: plain_os_def entry_def)
qed

lemma plain_os_tidy:
  assumes "plain_disk_ok d" shows "tidy_os (plain_os d)"
proof -
  have looked: "os_symlink_metadata (plain_os d) q \<noteq> Inl IoNotFound \<longleftrightarrow> q \<in> fst ` set d" for q
    by (auto simp: plain_os_def map_of_eq_None_iff split: option.split file_kind.split dest: map_of_SomeD) (force dest: map_of_SomeD)+
  have "case os_read_dir (plain_os d) p of
        Inr es \<Rightarrow> Inr (Some n) \<in> set es \<longleftrightarrow> os_symlink_metadata (plain_os d) (path_join p n) \<noteq> Inl IoNotFound
      | Inl IoNotFound \<Rightarrow> os_symlink_metadata (plain_os d) (path_join p n) = Inl IoNotFound
      | Inl IoOther \<Rightarrow> True" if n: "entry_name n" for p n
  proof (cases "map_of d p")
    case None
    then have "p @ [Normal n] \<notin> fst ` set d" using plain_disk_entry [OF assms] by force
    then have "os_symlink_metadata (plain_os d) (path_join p n) = Inl IoNotFound" using looked entry_components [OF n] by metis
    moreover have "os_read_dir (plain_os d) p = Inl IoNotFound" using None by (simp add: plain_os_def)
    ultimately show ?thesis by simp
  next
    case (Some k)
    show ?thesis
    proof (cases k)
      case IsFile
      then show ?thesis using Some by (simp add: plain_os_def)
    next
      case IsDir
      then show ?thesis using plain_os_read_dir [of d p] Some looked entry_components [OF n] by (auto simp del: not_None_eq)
    qed
  qed
  moreover have "entry_name n" if es: "os_read_dir (plain_os d) p = Inr es" "Inr (Some n) \<in> set es" for p es n
  proof -
    have "map_of d p = Some IsDir" using es by (auto simp: plain_os_def split: option.splits file_kind.splits)
    then show ?thesis using plain_os_read_dir [of d p] es plain_disk_entry [OF assms] by force
  qed
  ultimately show ?thesis unfolding tidy_os_def by blast
qed

end
