(* ===== verification/Glob_Match.thy ===== *)
theory Glob_Match
  imports Rust_Text Rust_Fs
begin

text \<open>
  The patterns of \<open>glob()\<close> (\<open>crates/fjfj-loading/src/glob.rs\<close>): how they are checked, and how a name and a path match one. A
  character is a code point below 256.
\<close>

section \<open>Patterns\<close>

datatype glob_error =
    InvalidPattern string string
  | InvalidExclude string string
  | NoMatch string
  | AllExcluded
  | NoSubpackageMatch string
  | AllSubpackagesExcluded
  | SymlinkCycle path path
  | GlobIo string string path io_error

datatype segment = Recursive | Name string

definition check_segment :: "string \<Rightarrow> (string, segment) result" where
  "check_segment s =
     (if s = [] then Inl ''empty segment not permitted''
      else if s = ''.'' then Inl ''segment '.' not permitted''
      else if s = ''..'' then Inl ''segment '..' not permitted''
      else if s = ''**'' then Inr Recursive
      else if sublist ''**'' s then Inl ''recursive wildcard must be its own segment''
      else Inr (Name s))"

definition check_pattern :: "string \<Rightarrow> bool \<Rightarrow> (string, segment list) result" where
  "check_pattern pattern forbid_question =
     (if pattern = [] then Inl ''pattern cannot be empty''
      else if prefix ''/'' pattern then Inl ''pattern cannot be absolute''
      else if forbid_question \<and> CHR ''?'' \<in> set pattern then Inl ''wildcard ? forbidden''
      else collect_results (map check_segment (split_on (CHR ''/'') pattern)))"

section \<open>Matching a name\<close>

text \<open>The loop of the matcher: where it is in the pattern and in the name, and where the last star was with how much of the name
  was behind it when it last gave up. The index into the pattern never passes its end.\<close>

definition loop_astray :: "nat \<Rightarrow> nat \<Rightarrow> (nat \<times> nat) option \<Rightarrow> bool" where
  "loop_astray pi ni star = (case star of None \<Rightarrow> False | Some (sp, sn) \<Rightarrow> \<not> (sp < pi \<and> sn \<le> ni))"

function wildcard_loop :: "bool \<Rightarrow> string \<Rightarrow> string \<Rightarrow> nat \<Rightarrow> nat \<Rightarrow> (nat \<times> nat) option \<Rightarrow> bool" where
  "wildcard_loop question p n pi ni star =
     (if ni < length n then
        (if pi < length p \<and> p ! pi = CHR ''*'' then wildcard_loop question p n (pi + 1) ni (Some (pi, ni))
         else if pi < length p \<and> (p ! pi = n ! ni \<or> question \<and> p ! pi = CHR ''?'')
           then wildcard_loop question p n (pi + 1) (ni + 1) star
         else case star of
                Some (sp, sn) \<Rightarrow> wildcard_loop question p n (sp + 1) (sn + 1) (Some (sp, sn + 1))
              | None \<Rightarrow> False)
      else list_all (\<lambda>c. c = CHR ''*'') (drop pi p))"
  by pat_completeness auto
termination
  by (relation "measures [\<lambda>(question, p, n, pi, ni, star). if loop_astray pi ni star then 1 else 0,
      \<lambda>(question, p, n, pi, ni, star). case star of None \<Rightarrow> length p + 1 | Some (sp, sn) \<Rightarrow> length p - sp,
      \<lambda>(question, p, n, pi, ni, star). case star of None \<Rightarrow> 0 | Some (sp, sn) \<Rightarrow> length n - sn,
      \<lambda>(question, p, n, pi, ni, star). length n - ni]")
    (auto simp: loop_astray_def split: option.splits)

declare wildcard_loop.simps [simp del]

definition wildcard_match_with :: "string \<Rightarrow> string \<Rightarrow> bool \<Rightarrow> bool" where
  "wildcard_match_with pattern name question =
     (if prefix ''.'' name \<and> prefix ''*'' pattern \<and> pattern \<noteq> ''*'' then False
      else wildcard_loop question pattern name 0 0 None)"

definition wildcard_match :: "string \<Rightarrow> string \<Rightarrow> bool" where
  "wildcard_match pattern name = wildcard_match_with pattern name False"

definition has_wildcard :: "string \<Rightarrow> bool" where
  "has_wildcard pattern \<longleftrightarrow> CHR ''*'' \<in> set pattern"

section \<open>Matching a path\<close>

fun segments_match_with :: "segment list \<Rightarrow> string list \<Rightarrow> bool \<Rightarrow> bool" where
  "segments_match_with [] parts question = (parts = [])"
| "segments_match_with (Recursive # rest) parts question =
     list_ex (\<lambda>skip. segments_match_with rest (drop skip parts) question) [0..<length parts + 1]"
| "segments_match_with (Name pattern # rest) parts question =
     (case parts of
        [] \<Rightarrow> False
      | part # parts' \<Rightarrow> wildcard_match_with pattern part question \<and> segments_match_with rest parts' question)"

definition segments_match :: "segment list \<Rightarrow> string list \<Rightarrow> bool" where
  "segments_match segments parts = segments_match_with segments parts True"

datatype exclude = Literal string | Pattern "segment list"

definition exclude_parse :: "string \<Rightarrow> (glob_error, exclude) result" where
  "exclude_parse pattern =
     (if CHR ''*'' \<notin> set pattern \<and> CHR ''?'' \<notin> set pattern then Inr (Literal pattern)
      else case check_pattern pattern False of
             Inl reason \<Rightarrow> Inl (InvalidExclude pattern reason)
           | Inr segments \<Rightarrow> Inr (Pattern segments))"

fun exclude_matches :: "exclude \<Rightarrow> string \<Rightarrow> bool" where
  "exclude_matches (Literal literal) path = (literal = path)"
| "exclude_matches (Pattern segments) path = segments_match segments (split_on (CHR ''/'') path)"

type_synonym ignore_pattern = "segment list"

definition ignore_segment :: "string \<Rightarrow> segment option" where
  "ignore_segment s =
     (if s = [] \<or> s = ''.'' \<or> s = ''..'' then None else if s = ''**'' then Some Recursive else Some (Name s))"

definition ignore_parse :: "string \<Rightarrow> ignore_pattern option" where
  "ignore_parse pattern = those (map ignore_segment (split_on (CHR ''/'') pattern))"

definition ignore_matches :: "ignore_pattern \<Rightarrow> string \<Rightarrow> bool" where
  "ignore_matches ip path = segments_match_with ip (if path = [] then [] else split_on (CHR ''/'') path) True"

section \<open>What a pattern stands for\<close>

text \<open>A star stands for any run of characters, and a question mark, where it is allowed, for any one.\<close>

fun star_match :: "bool \<Rightarrow> string \<Rightarrow> string \<Rightarrow> bool" where
  "star_match question [] n = (n = [])"
| "star_match question (c # p) n =
     (if c = CHR ''*'' then \<exists>k \<le> length n. star_match question p (drop k n)
      else case n of [] \<Rightarrow> False | d # m \<Rightarrow> (c = d \<or> question \<and> c = CHR ''?'') \<and> star_match question p m)"

lemma star_match_literal:
  assumes "CHR ''*'' \<notin> set q" "star_match question (q @ r) n"
  shows "length q \<le> length n \<and> star_match question r (drop (length q) n)"
  using assms
proof (induction q arbitrary: n)
  case (Cons c q)
  then show ?case by (cases n) auto
qed simp

lemma star_match_all: "star_match question p [] \<longleftrightarrow> list_all (\<lambda>c. c = CHR ''*'') p"
  by (induction p) auto

text \<open>What the loop decides: the rest of the pattern stands for the rest of the name, or does so with more of the name behind the last star.\<close>

definition later_star :: "bool \<Rightarrow> string \<Rightarrow> string \<Rightarrow> (nat \<times> nat) option \<Rightarrow> bool" where
  "later_star question p n star =
     (case star of
        None \<Rightarrow> False
      | Some (sp, sn) \<Rightarrow> \<exists>k. sn < k \<and> k \<le> length n \<and> star_match question (drop (sp + 1) p) (drop k n))"

definition loop_inv :: "string \<Rightarrow> string \<Rightarrow> nat \<Rightarrow> nat \<Rightarrow> (nat \<times> nat) option \<Rightarrow> bool" where
  "loop_inv p n pi ni star \<longleftrightarrow> pi \<le> length p \<and> ni \<le> length n \<and>
     (case star of
        None \<Rightarrow> True
      | Some (sp, sn) \<Rightarrow> sp < pi \<and> sn \<le> ni \<and> ni - sn = pi - (sp + 1) \<and> CHR ''*'' \<notin> set (take (pi - (sp + 1)) (drop (sp + 1) p)))"

text \<open>The stretch of pattern since the last star: if it stands for a later stretch of the name, so much more is behind it.\<close>

lemma later_star_passes:
  assumes "loop_inv p n pi ni (Some (sp, sn))" "sn < k" "k \<le> length n" "star_match question (drop (sp + 1) p) (drop k n)"
  shows "\<exists>j > ni. j \<le> length n \<and> star_match question (drop pi p) (drop j n)"
proof -
  let ?len = "pi - (sp + 1)"
  have inv: "sp < pi" "sn \<le> ni" "ni - sn = ?len" "CHR ''*'' \<notin> set (take ?len (drop (sp + 1) p))" "pi \<le> length p"
    using assms(1) by (auto simp: loop_inv_def)
  have len: "length (take ?len (drop (sp + 1) p)) = ?len" using inv by simp
  have drops: "drop ?len (drop (sp + 1) p) = drop pi p" using inv by simp
  have "star_match question (take ?len (drop (sp + 1) p) @ drop pi p) (drop k n)"
    using assms(4) append_take_drop_id [of ?len "drop (sp + 1) p"] unfolding drops by simp
  then have "?len \<le> length (drop k n)" "star_match question (drop pi p) (drop ?len (drop k n))"
    using star_match_literal [OF inv(4)] unfolding len by blast+
  then have "?len + k \<le> length n" "star_match question (drop pi p) (drop (?len + k) n)" using assms(3) by simp_all
  moreover have "ni < ?len + k" using inv assms(2) by linarith
  ultimately show ?thesis by blast
qed

lemma star_match_star:
  "star_match question (CHR ''*'' # p) (drop ni n) \<longleftrightarrow> (\<exists>k \<ge> ni. k \<le> max ni (length n) \<and> star_match question p (drop k n))"
proof -
  have "(\<exists>k \<le> length n - ni. star_match question p (drop (k + ni) n)) \<longleftrightarrow> (\<exists>k \<ge> ni. k \<le> max ni (length n) \<and> star_match question p (drop k n))"
  proof
    assume "\<exists>k \<le> length n - ni. star_match question p (drop (k + ni) n)"
    then obtain k where "k \<le> length n - ni" "star_match question p (drop (k + ni) n)" by blast
    then show "\<exists>k \<ge> ni. k \<le> max ni (length n) \<and> star_match question p (drop k n)" by (intro exI [of _ "k + ni"]) auto
  next
    assume "\<exists>k \<ge> ni. k \<le> max ni (length n) \<and> star_match question p (drop k n)"
    then obtain k where "ni \<le> k" "k \<le> max ni (length n)" "star_match question p (drop k n)" by blast
    then show "\<exists>k \<le> length n - ni. star_match question p (drop (k + ni) n)" by (intro exI [of _ "k - ni"]) auto
  qed
  then show ?thesis by simp
qed

lemma later_star_next:
  assumes "sn < length n"
  shows "star_match question (drop (sp + 1) p) (drop (sn + 1) n) \<or> later_star question p n (Some (sp, sn + 1)) \<longleftrightarrow>
    later_star question p n (Some (sp, sn))"
proof -
  have split: "(\<exists>k. sn < k \<and> P k) \<longleftrightarrow> P (sn + 1) \<or> (\<exists>k. sn + 1 < k \<and> P k)" for P
    by (metis Suc_eq_plus1 Suc_lessI lessI less_trans)
  show ?thesis unfolding later_star_def option.case prod.case
    using split [of "\<lambda>k. k \<le> length n \<and> star_match question (drop (sp + 1) p) (drop k n)"] assms by simp
qed

lemma same_stretch:
  "sp < pi \<Longrightarrow> pi < length p \<Longrightarrow> take (pi - sp) (drop (Suc sp) p) = take (pi - Suc sp) (drop (Suc sp) p) @ [p ! pi]"
  using take_Suc_conv_app_nth [of "pi - Suc sp" "drop (Suc sp) p"] by (simp add: Suc_diff_Suc)

lemma wildcard_loop_exact:
  assumes "loop_inv p n pi ni star"
  shows "wildcard_loop question p n pi ni star \<longleftrightarrow> star_match question (drop pi p) (drop ni n) \<or> later_star question p n star"
  using assms
proof (induction question p n pi ni star rule: wildcard_loop.induct)
  case (1 question p n pi ni star)
  have inv: "pi \<le> length p" "ni \<le> length n" using "1.prems" by (auto simp: loop_inv_def)
  show ?case
  proof (cases "ni < length n")
    case False
    then have "\<not> later_star question p n star"
      using later_star_passes "1.prems" by (fastforce simp: later_star_def split: option.splits)
    then show ?thesis using False inv by (simp add: wildcard_loop.simps [of question p n pi] star_match_all)
  next
    case more: True
    then have n: "drop ni n = n ! ni # drop (ni + 1) n" by (simp add: Cons_nth_drop_Suc)
    consider (star) "pi < length p" "p ! pi = CHR ''*''"
      | (same) "pi < length p" "p ! pi \<noteq> CHR ''*''" "p ! pi = n ! ni \<or> question \<and> p ! pi = CHR ''?''"
      | (differs) "\<not> (pi < length p \<and> p ! pi = CHR ''*'')" "\<not> (pi < length p \<and> (p ! pi = n ! ni \<or> question \<and> p ! pi = CHR ''?''))"
      by blast
    then show ?thesis
    proof cases
      case star
      then have p: "drop pi p = CHR ''*'' # drop (pi + 1) p" by (metis Cons_nth_drop_Suc Suc_eq_plus1)
      have "wildcard_loop question p n (pi + 1) ni (Some (pi, ni)) \<longleftrightarrow>
          star_match question (drop (pi + 1) p) (drop ni n) \<or> later_star question p n (Some (pi, ni))"
        by (rule "1.IH"(1)) (use star more in \<open>auto simp: loop_inv_def\<close>)
      also have "\<dots> \<longleftrightarrow> star_match question (drop pi p) (drop ni n)"
        unfolding p star_match_star using inv by (auto simp: later_star_def order_le_less)
      also have "\<dots> \<longleftrightarrow> star_match question (drop pi p) (drop ni n) \<or> later_star question p n star"
      proof -
        have "star_match question (drop pi p) (drop ni n)" if later: "later_star question p n star"
        proof -
          obtain sp sn k where old: "star = Some (sp, sn)" "sn < k" "k \<le> length n" "star_match question (drop (sp + 1) p) (drop k n)"
            using later by (auto simp: later_star_def split: option.splits)
          obtain j where "ni < j" "j \<le> length n" "star_match question (CHR ''*'' # drop (pi + 1) p) (drop j n)"
            using later_star_passes "1.prems" old unfolding p [symmetric] by blast
          then show ?thesis unfolding p star_match_star by (meson le_max_iff_disj less_imp_le order_trans)
        qed
        then show ?thesis by blast
      qed
      finally show ?thesis using star more by (simp add: wildcard_loop.simps [of question p n pi])
    next
      case same
      then have p: "drop pi p = p ! pi # drop (pi + 1) p" by (simp add: Cons_nth_drop_Suc)
      have "wildcard_loop question p n (pi + 1) (ni + 1) star \<longleftrightarrow>
          star_match question (drop (pi + 1) p) (drop (ni + 1) n) \<or> later_star question p n star"
        by (rule "1.IH"(2)) (use same more "1.prems" in \<open>auto simp: loop_inv_def same_stretch split: option.splits\<close>)
      then show ?thesis using same more p n by (auto simp: wildcard_loop.simps [of question p n pi])
    next
      case differs
      show ?thesis
      proof -
        have no: "\<not> star_match question (drop pi p) (drop ni n)"
        proof (cases "pi < length p")
          case True
          then have "drop pi p = p ! pi # drop (pi + 1) p" by (simp add: Cons_nth_drop_Suc)
          then show ?thesis using differs True n by auto
        next
          case False
          then show ?thesis using n by simp
        qed
        show ?thesis
        proof (cases star)
          case None
          then show ?thesis using differs more no by (auto simp: wildcard_loop.simps [of question p n pi] later_star_def)
        next
          case (Some s)
          obtain sp sn where s: "s = (sp, sn)" by (cases s)
          have ok: "sp < pi" "sn \<le> ni" using "1.prems" Some s by (auto simp: loop_inv_def)
          have "wildcard_loop question p n (sp + 1) (sn + 1) (Some (sp, sn + 1)) \<longleftrightarrow>
              star_match question (drop (sp + 1) p) (drop (sn + 1) n) \<or> later_star question p n (Some (sp, sn + 1))"
            by (rule "1.IH"(3) [OF more _ _ Some s [symmetric]]) (use differs ok inv more in \<open>auto simp: loop_inv_def\<close>)
          also have "\<dots> \<longleftrightarrow> later_star question p n star"
            using later_star_next [of sn n question sp p] ok more Some s by simp
          finally show ?thesis using differs more no Some s by (auto simp: wildcard_loop.simps [of question p n pi])
        qed
      qed
    qed
  qed
qed

lemma wildcard_loop_start: "wildcard_loop question p n 0 0 None \<longleftrightarrow> star_match question p n"
  using wildcard_loop_exact [of p n 0 0 None question] by (simp add: loop_inv_def later_star_def)

text \<open>
  C34. A name matches a pattern of a segment exactly when the pattern stands for it, and the name does not start with a dot that would
  be left to a wildcard; the matcher with its one star to come back to misses nothing and always ends.
\<close>

theorem wildcard_match_exact:
  "wildcard_match_with pattern name question \<longleftrightarrow>
     star_match question pattern name \<and> \<not> (prefix ''.'' name \<and> prefix ''*'' pattern \<and> pattern \<noteq> ''*'')"
  by (auto simp: wildcard_match_with_def wildcard_loop_start)

lemma star_match_plain: "CHR ''*'' \<notin> set p \<Longrightarrow> star_match False p n \<longleftrightarrow> n = p"
  by (induction p arbitrary: n) (auto split: list.splits)

lemma wildcard_match_plain:
  assumes "\<not> has_wildcard pattern" shows "wildcard_match pattern name \<longleftrightarrow> name = pattern"
  using assms star_match_plain [of pattern name]
  by (auto simp: wildcard_match_def wildcard_match_with_def has_wildcard_def wildcard_loop_start prefix_def)

lemma check_pattern_names:
  assumes "check_pattern pattern q = Inr segments" "Name s \<in> set segments"
  shows "s \<noteq> []" "s \<noteq> ''.''" "s \<noteq> ''..''" "CHR ''/'' \<notin> set s"
proof -
  have all: "map check_segment (split_on (CHR ''/'') pattern) = map Inr segments"
    using assms(1) by (auto simp: check_pattern_def collect_results_Inr split: if_splits)
  then obtain w where w: "w \<in> set (split_on (CHR ''/'') pattern)" "check_segment w = Inr (Name s)"
    using assms(2) by (metis (no_types, lifting) image_iff list.set_map)
  then have "w = s" "s \<noteq> []" "s \<noteq> ''.''" "s \<noteq> ''..''" by (auto simp: check_segment_def split: if_splits)
  then show "s \<noteq> []" "s \<noteq> ''.''" "s \<noteq> ''..''" "CHR ''/'' \<notin> set s" using split_on_words w(1) by blast+
qed

end
