(* ===== verification/Package_Lookup.thy ===== *)
theory Package_Lookup
  imports Glob_Match Labels Rust_Collections Rust_Fs
begin

text \<open>
  Which directories of a repository are packages (\<open>crates/fjfj-loading/src/lookup.rs\<close>): \<open>.bazelignore\<close>, the patterns of \<open>ignore_directories()\<close>, deleted packages
  and the walk that finds all packages below a directory.
\<close>

section \<open>The lookup\<close>

datatype lookup_error =
    NotFound string
  | Deleted string
  | InvalidName string label_error
  | AbsoluteIgnoreEntry path string
  | LookupIo path io_error

record package_lookup =
  lookup_root :: path
  ignored :: "string list"
  ignore_patterns :: "ignore_pattern list"
  deleted :: "string list"
  skipped_at_root :: "string list"

definition ignore_entry :: "path \<Rightarrow> string \<Rightarrow> (lookup_error, string option) result" where
  "ignore_entry file line =
     (if line = [] \<or> prefix ''#'' line then Inr None
      else if prefix ''/'' line then Inl (AbsoluteIgnoreEntry file line)
      else let parts = List.map_filter (\<lambda>c. case c of Normal n \<Rightarrow> Some n | _ \<Rightarrow> None) (components line)
           in Inr (if ParentDir \<notin> set (components line) \<and> parts \<noteq> [] then Some (join ''/'' parts) else None))"

definition parse_bazelignore :: "path \<Rightarrow> string \<Rightarrow> (lookup_error, string list) result" where
  "parse_bazelignore file s =
     and_then (collect_results (map (ignore_entry file) (str_lines s))) (\<lambda>es. Inr (bset_from (List.map_filter id es)))"

definition lookup_new :: "os \<Rightarrow> path \<Rightarrow> (lookup_error, package_lookup) result" where
  "lookup_new fs root =
     (let file = path_join root ''.bazelignore''
      in and_then (case os_read_to_string fs file of
             Inr s \<Rightarrow> parse_bazelignore file s
           | Inl IoNotFound \<Rightarrow> Inr []
           | Inl e \<Rightarrow> Inl (LookupIo file e))
         (\<lambda>ig. Inr \<lparr>lookup_root = root, ignored = ig, ignore_patterns = [], deleted = [], skipped_at_root = []\<rparr>))"

definition with_ignore_directories :: "string list \<Rightarrow> package_lookup \<Rightarrow> package_lookup" where
  "with_ignore_directories patterns l = l\<lparr>ignore_patterns := ignore_patterns l @ List.map_filter ignore_parse patterns\<rparr>"

definition with_deleted_packages :: "string list \<Rightarrow> package_lookup \<Rightarrow> package_lookup" where
  "with_deleted_packages packages l = l\<lparr>deleted := fold bset_insert packages (deleted l)\<rparr>"

definition with_skipped_root_dirs :: "string list \<Rightarrow> package_lookup \<Rightarrow> package_lookup" where
  "with_skipped_root_dirs names l = l\<lparr>skipped_at_root := fold bset_insert names (skipped_at_root l)\<rparr>"

definition package_dir :: "package_lookup \<Rightarrow> string \<Rightarrow> path" where
  "package_dir l pkg = (if pkg = [] then lookup_root l else path_join (lookup_root l) pkg)"

definition ignored_by :: "package_lookup \<Rightarrow> string \<Rightarrow> bool" where
  "ignored_by l path \<longleftrightarrow> path \<in> set (ignored l) \<or> list_ex (\<lambda>p. ignore_matches p path) (ignore_patterns l)"

fun ignored_below :: "package_lookup \<Rightarrow> string \<Rightarrow> string list \<Rightarrow> bool" where
  "ignored_below l pre [] = False"
| "ignored_below l pre (c # cs) =
     (let pre' = (if pre = [] then c else pre @ ''/'' @ c)
      in if ignored_by l pre' then True else ignored_below l pre' cs)"

definition is_ignored :: "package_lookup \<Rightarrow> string \<Rightarrow> bool" where
  "is_ignored l pkg =
     (if ignored l = [] \<and> ignore_patterns l = [] then False
      else if ignore_patterns l \<noteq> [] \<and> ignored_by l [] then True
      else ignored_below l [] (filter (\<lambda>c. c \<noteq> []) (split_on (CHR ''/'') pkg)))"

definition is_removed :: "package_lookup \<Rightarrow> string \<Rightarrow> bool" where
  "is_removed l pkg \<longleftrightarrow> pkg \<in> set (deleted l) \<or> is_ignored l pkg"

definition build_file :: "os \<Rightarrow> package_lookup \<Rightarrow> string \<Rightarrow> (lookup_error, path) result" where
  "build_file fs l pkg =
     and_then (map_err (InvalidName pkg) (validate_package_name pkg)) (\<lambda>_.
       if is_removed l pkg then Inl (Deleted pkg)
       else case List.find (\<lambda>p. os_metadata fs p = Inr IsFile) (map (path_join (package_dir l pkg)) [''BUILD.bazel'', ''BUILD'']) of
              Some p \<Rightarrow> Inr p
            | None \<Rightarrow> Inl (NotFound pkg))"

definition is_package :: "os \<Rightarrow> package_lookup \<Rightarrow> string \<Rightarrow> bool" where
  "is_package fs l pkg = (case build_file fs l pkg of Inr _ \<Rightarrow> True | Inl _ \<Rightarrow> False)"

section \<open>Walks that end at links\<close>

text \<open>
  The walk over directories that \<open>packages_under\<close> and \<open>subpackages\<close> have in common: a stack of directories to look at, and the real
  paths of those that have been. What a directory comes to is passed over, or stops the walk with an error, or is its real path with what is
  found in it and the directories to look at next, which may fail too.
\<close>

datatype ('e, 'n, 'o) visited = Skip | Fails 'e | Enters path "('e, 'o list \<times> 'n list) result"

partial_function (option) walk_dirs ::
  "('n \<Rightarrow> ('e, 'n, 'o) visited) \<Rightarrow> 'n list \<Rightarrow> path list \<Rightarrow> 'o list \<Rightarrow> ('e, 'o list) result option" where
  [code]: "walk_dirs visit pending walked out =
     (case pending of
        [] \<Rightarrow> Some (Inr out)
      | n # rest \<Rightarrow>
          (case visit n of
             Skip \<Rightarrow> walk_dirs visit rest walked out
           | Fails e \<Rightarrow> Some (Inl e)
           | Enters real body \<Rightarrow>
               (if real \<in> set walked then walk_dirs visit rest walked out
                else case body of
                       Inl e \<Rightarrow> Some (Inl e)
                     | Inr (found, below) \<Rightarrow> walk_dirs visit (rev below @ rest) (real # walked) (out @ found))))"

definition child_name :: "string \<Rightarrow> string \<Rightarrow> string" where
  "child_name dir name = (if dir = [] then name else dir @ ''/'' @ name)"

text \<open>The directories in a directory: an entry that cannot be read is an error, and one whose name is not UTF-8 is passed over.\<close>

fun subdirectories :: "os \<Rightarrow> path \<Rightarrow> (string \<Rightarrow> bool) \<Rightarrow> (io_error, string option) result list \<Rightarrow> (io_error, string list) result" where
  "subdirectories fs dir keep [] = Inr []"
| "subdirectories fs dir keep (Inl e # es) = Inl e"
| "subdirectories fs dir keep (Inr None # es) = subdirectories fs dir keep es"
| "subdirectories fs dir keep (Inr (Some n) # es) =
     and_then (subdirectories fs dir keep es) (\<lambda>ns.
       Inr (if keep n \<and> os_metadata fs (path_join dir n) = Inr IsDir then n # ns else ns))"

definition package_visit :: "os \<Rightarrow> package_lookup \<Rightarrow> string \<Rightarrow> (lookup_error, string, string) visited" where
  "package_visit fs l name =
     (if is_ignored l name then Skip
      else let dir = package_dir l name
           in case os_canonicalize fs dir of
                Inl IoNotFound \<Rightarrow> Skip
              | Inl e \<Rightarrow> Fails (LookupIo dir e)
              | Inr real \<Rightarrow>
                  (let found = (if name \<notin> set (deleted l) \<and> is_package fs l name then [name] else [])
                   in Enters real
                        (case os_read_dir fs dir of
                           Inl _ \<Rightarrow> Inr (found, [])
                         | Inr es \<Rightarrow>
                             and_then (map_err (LookupIo dir)
                               (subdirectories fs dir (\<lambda>c. \<not> (name = [] \<and> c \<in> set (skipped_at_root l))) es)) (\<lambda>cs.
                                 Inr (found, filter (\<lambda>c. validate_package_name c = Inr ()) (map (child_name name) cs))))))"

definition packages_under :: "os \<Rightarrow> package_lookup \<Rightarrow> string \<Rightarrow> (lookup_error, string list) result option" where
  "packages_under fs l pkg =
     (case validate_package_name pkg of
        Inl e \<Rightarrow> Some (Inl (InvalidName pkg e))
      | Inr _ \<Rightarrow>
          map_option (\<lambda>r. and_then r (\<lambda>found. Inr (sort found))) (walk_dirs (package_visit fs l) [pkg] [] []))"

section \<open>What a walk finds\<close>

inductive_set walk_reach :: "('n \<Rightarrow> ('e, 'n, 'o) visited) \<Rightarrow> 'n set \<Rightarrow> 'n set" for visit roots where
  walk_root: "n \<in> roots \<Longrightarrow> n \<in> walk_reach visit roots"
| walk_below: "n \<in> walk_reach visit roots \<Longrightarrow> visit n = Enters real (Inr (found, below)) \<Longrightarrow> m \<in> set below
    \<Longrightarrow> m \<in> walk_reach visit roots"

fun found_in :: "('e, 'n, 'o) visited \<Rightarrow> 'o set" where
  "found_in (Enters real (Inr (found, below))) = set found"
| "found_in v = {}"

fun next_in :: "('e, 'n, 'o) visited \<Rightarrow> 'n set" where
  "next_in (Enters real (Inr (found, below))) = set below"
| "next_in v = {}"

fun real_of :: "('e, 'n, 'o) visited \<Rightarrow> path option" where
  "real_of (Enters real body) = Some real"
| "real_of v = None"

fun fails_with :: "('e, 'n, 'o) visited \<Rightarrow> 'e \<Rightarrow> bool" where
  "fails_with (Fails e) e' = (e = e')"
| "fails_with (Enters real (Inl e)) e' = (e = e')"
| "fails_with v e' = False"

lemma next_in_reach: "n \<in> walk_reach visit roots \<Longrightarrow> next_in (visit n) \<subseteq> walk_reach visit roots"
  by (cases "visit n" rule: next_in.cases) (auto intro: walk_below)

text \<open>No two directories that the walk comes to are the same one under two names.\<close>

definition no_aliases :: "('n \<Rightarrow> ('e, 'n, 'o) visited) \<Rightarrow> 'n set \<Rightarrow> bool" where
  "no_aliases visit roots \<longleftrightarrow> (\<forall>n \<in> walk_reach visit roots. \<forall>m \<in> walk_reach visit roots.
     real_of (visit n) \<noteq> None \<longrightarrow> real_of (visit n) = real_of (visit m) \<longrightarrow> n = m)"

text \<open>A directory is settled when it was passed over or its real path has been walked.\<close>

definition settled_dir :: "('n \<Rightarrow> ('e, 'n, 'o) visited) \<Rightarrow> path set \<Rightarrow> 'n \<Rightarrow> bool" where
  "settled_dir visit walked n \<longleftrightarrow> visit n = Skip \<or> (\<exists>real. real_of (visit n) = Some real \<and> real \<in> walked)"

definition walk_inv :: "('n \<Rightarrow> ('e, 'n, 'o) visited) \<Rightarrow> 'n set \<Rightarrow> 'n set \<Rightarrow> 'n list \<Rightarrow> path list \<Rightarrow> 'o list \<Rightarrow> bool" where
  "walk_inv visit roots been pending walked out \<longleftrightarrow>
     been \<union> set pending \<subseteq> walk_reach visit roots
     \<and> (\<forall>n \<in> roots. settled_dir visit (set walked) n \<or> n \<in> set pending)
     \<and> (\<forall>v \<in> been. \<forall>n \<in> next_in (visit v). settled_dir visit (set walked) n \<or> n \<in> set pending)
     \<and> (\<forall>v \<in> been. \<exists>real found below. visit v = Enters real (Inr (found, below)))
     \<and> (\<lambda>v. the (real_of (visit v))) ` been = set walked
     \<and> set out = (\<Union>v \<in> been. found_in (visit v))"

lemma walk_inv_skip:
  assumes "walk_inv visit roots been (n # rest) walked out" "settled_dir visit (set walked) n"
  shows "walk_inv visit roots been rest walked out"
  using assms unfolding walk_inv_def set_simps by (metis Un_insert_right insert_subset insertE)

lemma settled_dir_mono: "settled_dir visit w n \<Longrightarrow> w \<subseteq> w' \<Longrightarrow> settled_dir visit w' n"
  by (auto simp: settled_dir_def)

lemma walk_inv_enter:
  assumes inv: "walk_inv visit roots been (n # rest) walked out" and n: "visit n = Enters real (Inr (found, below))"
  shows "walk_inv visit roots (insert n been) (rev below @ rest) (real # walked) (out @ found)"
proof -
  let ?w = "set (real # walked)"
  have new: "settled_dir visit ?w n" by (simp add: settled_dir_def n)
  have keep: "settled_dir visit ?w m \<or> m \<in> set (rev below @ rest)" if "settled_dir visit (set walked) m \<or> m \<in> set (n # rest)" for m
    using that new settled_dir_mono [of visit "set walked" m ?w] by auto
  have "insert n been \<union> set (rev below @ rest) \<subseteq> walk_reach visit roots"
    using inv next_in_reach [of n visit roots] n by (auto simp: walk_inv_def)
  moreover have "\<forall>m \<in> next_in (visit v). settled_dir visit ?w m \<or> m \<in> set (rev below @ rest)" if "v \<in> insert n been" for v
  proof (cases "v = n")
    case False
    then have "\<forall>m \<in> next_in (visit v). settled_dir visit (set walked) m \<or> m \<in> set (n # rest)" using that inv by (simp add: walk_inv_def)
    then show ?thesis using keep by blast
  qed (simp add: n)
  ultimately show ?thesis using inv n keep unfolding walk_inv_def by (simp add: Un_commute)
qed

lemma walk_inv_end:
  assumes inv: "walk_inv visit roots been [] walked out"
  shows "set out \<subseteq> (\<Union>n \<in> walk_reach visit roots. found_in (visit n))"
    and "no_aliases visit roots \<Longrightarrow> set out = (\<Union>n \<in> walk_reach visit roots. found_in (visit n))
      \<and> (\<forall>n \<in> walk_reach visit roots. \<forall>e. \<not> fails_with (visit n) e)"
proof -
  show sub: "set out \<subseteq> (\<Union>n \<in> walk_reach visit roots. found_in (visit n))" using inv by (auto simp: walk_inv_def)
  assume alone: "no_aliases visit roots"
  have been: "n \<in> been" if reach: "n \<in> walk_reach visit roots" and n: "settled_dir visit (set walked) n" "visit n \<noteq> Skip" for n
  proof -
    obtain real where "real_of (visit n) = Some real" "real \<in> set walked" using n by (auto simp: settled_dir_def)
    then obtain v where "v \<in> been" "real_of (visit n) = Some real" "the (real_of (visit v)) = real"
      using inv unfolding walk_inv_def by (metis (no_types, lifting) imageE)
    moreover have "v \<in> walk_reach visit roots" "real_of (visit v) \<noteq> None" using inv \<open>v \<in> been\<close> by (fastforce simp: walk_inv_def)+
    ultimately show ?thesis using alone reach by (metis no_aliases_def option.collapse)
  qed
  have settled: "settled_dir visit (set walked) n" if "n \<in> walk_reach visit roots" for n
    using that
  proof induction
    case (walk_below n real found below m)
    then have "n \<in> been" using been by simp
    then show ?case using inv walk_below by (auto simp: walk_inv_def)
  qed (use inv in \<open>auto simp: walk_inv_def\<close>)
  then have "found_in (visit n) \<subseteq> set out" if "n \<in> walk_reach visit roots" for n
    using been that inv by (cases "visit n = Skip") (auto simp: walk_inv_def)
  moreover have "\<not> fails_with (visit n) e" if "n \<in> walk_reach visit roots" for n e
  proof (cases "visit n = Skip")
    case False
    then have "n \<in> been" using been settled that by blast
    then show ?thesis using inv by (fastforce simp: walk_inv_def)
  qed simp
  ultimately show "set out = (\<Union>n \<in> walk_reach visit roots. found_in (visit n))
      \<and> (\<forall>n \<in> walk_reach visit roots. \<forall>e. \<not> fails_with (visit n) e)" using sub by blast
qed

text \<open>The outcome of a walk: what is found, or a true error.\<close>

definition walked_to :: "('n \<Rightarrow> ('e, 'n, 'o) visited) \<Rightarrow> 'n set \<Rightarrow> ('e, 'o list) result \<Rightarrow> bool" where
  "walked_to visit roots r =
     (case r of
        Inl e \<Rightarrow> \<exists>n \<in> walk_reach visit roots. fails_with (visit n) e
      | Inr out \<Rightarrow> set out \<subseteq> (\<Union>n \<in> walk_reach visit roots. found_in (visit n))
          \<and> (no_aliases visit roots \<longrightarrow> set out = (\<Union>n \<in> walk_reach visit roots. found_in (visit n))
               \<and> (\<forall>n \<in> walk_reach visit roots. \<forall>e. \<not> fails_with (visit n) e)))"

lemma walk_dirs_walked:
  assumes "finite {real. \<exists>n. real_of (visit n) = Some real}" "walk_inv visit roots been pending walked out"
  shows "\<exists>r. walk_dirs visit pending walked out = Some r \<and> walked_to visit roots r"
  using assms(2)
proof (induction "card ({real. \<exists>n. real_of (visit n) = Some real} - set walked)" arbitrary: been pending walked out rule: less_induct)
  case less
  note outer = less.hyps
  from less.prems show ?case
  proof (induction pending)
    case Nil
    then show ?case using walk_inv_end by (subst walk_dirs.simps) (fastforce simp: walked_to_def)
  next
    case (Cons n rest)
    have reach: "n \<in> walk_reach visit roots" using Cons.prems by (simp add: walk_inv_def)
    consider (settled) "settled_dir visit (set walked) n" | (error) e where "fails_with (visit n) e" "\<not> settled_dir visit (set walked) n"
      | (enters) real found below where "visit n = Enters real (Inr (found, below))" "real \<notin> set walked"
      by (cases "visit n" rule: next_in.cases) (auto simp: settled_dir_def)
    then show ?case
    proof cases
      case settled
      then obtain r where "walk_dirs visit rest walked out = Some r" "walked_to visit roots r"
        using Cons.IH walk_inv_skip [OF Cons.prems] by blast
      then show ?thesis using settled by (subst walk_dirs.simps) (auto simp: settled_dir_def split: visited.split)
    next
      case error
      then have "walk_dirs visit (n # rest) walked out = Some (Inl e)"
        by (subst walk_dirs.simps) (cases "visit n" rule: next_in.cases, use error in \<open>auto simp: settled_dir_def\<close>)
      then show ?thesis using error reach by (auto simp: walked_to_def)
    next
      case enters
      have "card ({real. \<exists>n. real_of (visit n) = Some real} - set (real # walked)) < card ({real. \<exists>n. real_of (visit n) = Some real} - set walked)"
      proof (rule psubset_card_mono)
        have "real_of (visit n) = Some real" by (simp add: enters)
        then show "{real. \<exists>n. real_of (visit n) = Some real} - set (real # walked) \<subset> {real. \<exists>n. real_of (visit n) = Some real} - set walked"
          using enters(2) by auto
      qed (use assms(1) in simp)
      from outer [OF this walk_inv_enter [OF Cons.prems enters(1)]]
      show ?thesis using enters by (subst walk_dirs.simps) simp
    qed
  qed
qed

lemma walk_dirs_exact:
  assumes "finite {real. \<exists>n. real_of (visit n) = Some real}"
  shows "\<exists>r. walk_dirs visit ns [] [] = Some r \<and> walked_to visit (set ns) r"
  by (rule walk_dirs_walked [OF assms, of "set ns" "{}"]) (auto simp: walk_inv_def intro: walk_root)

section \<open>The packages below a directory\<close>

text \<open>The directories that can hold packages, with symbolic links followed.\<close>

inductive package_tree :: "os \<Rightarrow> package_lookup \<Rightarrow> string \<Rightarrow> string \<Rightarrow> bool" for fs l pkg where
  tree_root: "package_tree fs l pkg pkg"
| tree_below: "package_tree fs l pkg name \<Longrightarrow> \<not> is_ignored l name \<Longrightarrow> os_canonicalize fs (package_dir l name) = Inr real
    \<Longrightarrow> os_read_dir fs (package_dir l name) = Inr es \<Longrightarrow> Inr (Some c) \<in> set es \<Longrightarrow> \<not> (name = [] \<and> c \<in> set (skipped_at_root l))
    \<Longrightarrow> os_metadata fs (path_join (package_dir l name) c) = Inr IsDir \<Longrightarrow> validate_package_name (child_name name c) = Inr ()
    \<Longrightarrow> package_tree fs l pkg (child_name name c)"

lemma subdirectories_Inr:
  "subdirectories fs dir keep es = Inr ns \<Longrightarrow>
     set ns = {n. Inr (Some n) \<in> set es \<and> keep n \<and> os_metadata fs (path_join dir n) = Inr IsDir}"
  by (induction fs dir keep es arbitrary: ns rule: subdirectories.induct) (auto simp: and_then_Inr split: if_splits)

lemma package_visit_Enters:
  assumes "package_visit fs l name = Enters real (Inr (found, below))"
  shows "\<not> is_ignored l name" "os_canonicalize fs (package_dir l name) = Inr real"
    "set found = {n. n = name \<and> is_package fs l name}"
    "set below = {child_name name c |c es. os_read_dir fs (package_dir l name) = Inr es \<and> Inr (Some c) \<in> set es \<and> \<not> (name = [] \<and> c \<in> set (skipped_at_root l))
       \<and> os_metadata fs (path_join (package_dir l name) c) = Inr IsDir \<and> validate_package_name (child_name name c) = Inr ()}"
proof -
  show not: "\<not> is_ignored l name" and real: "os_canonicalize fs (package_dir l name) = Inr real"
    using assms by (auto simp: package_visit_def Let_def split: if_splits sum.splits io_error.splits)
  let ?found = "if name \<notin> set (deleted l) \<and> is_package fs l name then [name] else []"
  have body: "(case os_read_dir fs (package_dir l name) of
        Inl _ \<Rightarrow> Inr (?found, [])
      | Inr es \<Rightarrow> and_then (map_err (LookupIo (package_dir l name))
          (subdirectories fs (package_dir l name) (\<lambda>c. \<not> (name = [] \<and> c \<in> set (skipped_at_root l))) es)) (\<lambda>cs.
            Inr (?found, filter (\<lambda>c. validate_package_name c = Inr ()) (map (child_name name) cs)))) = Inr (found, below)"
    using assms not real unfolding package_visit_def Let_def by (simp only: if_False sum.case visited.inject)
  have "is_package fs l name \<Longrightarrow> name \<notin> set (deleted l)"
    by (auto simp: is_package_def build_file_def is_removed_def and_then_Inr split: sum.splits)
  then show "set found = {n. n = name \<and> is_package fs l name}"
    using body by (auto simp: and_then_Inr split: sum.splits if_splits)
  show "set below = {child_name name c |c es. os_read_dir fs (package_dir l name) = Inr es \<and> Inr (Some c) \<in> set es \<and> \<not> (name = [] \<and> c \<in> set (skipped_at_root l))
       \<and> os_metadata fs (path_join (package_dir l name) c) = Inr IsDir \<and> validate_package_name (child_name name c) = Inr ()}"
  proof (cases "os_read_dir fs (package_dir l name)")
    case (Inr es)
    then obtain cs where "subdirectories fs (package_dir l name) (\<lambda>c. \<not> (name = [] \<and> c \<in> set (skipped_at_root l))) es = Inr cs"
      "below = filter (\<lambda>c. validate_package_name c = Inr ()) (map (child_name name) cs)"
      using body by (auto simp: and_then_Inr map_err_Inr)
    with subdirectories_Inr [OF this(1)] Inr show ?thesis by auto
  qed (use body in auto)
qed

lemma package_visit_entered:
  assumes "\<not> is_ignored l name" "os_canonicalize fs (package_dir l name) = Inr real" "\<forall>e. \<not> fails_with (package_visit fs l name) e"
  shows "\<exists>found below. package_visit fs l name = Enters real (Inr (found, below))"
proof -
  obtain body where body: "package_visit fs l name = Enters real body" using assms(1,2) by (simp add: package_visit_def Let_def)
  then show ?thesis using assms(3) by (cases body) auto
qed

lemma reach_in_tree: "n \<in> walk_reach (package_visit fs l) {pkg} \<Longrightarrow> package_tree fs l pkg n"
proof (induction rule: walk_reach.induct)
  case (walk_below n real found below m)
  note below = package_visit_Enters [OF walk_below.hyps(2)]
  from walk_below.hyps(3) obtain c es where "m = child_name n c" "os_read_dir fs (package_dir l n) = Inr es" "Inr (Some c) \<in> set es"
    "\<not> (n = [] \<and> c \<in> set (skipped_at_root l))" "os_metadata fs (path_join (package_dir l n) c) = Inr IsDir"
    "validate_package_name (child_name n c) = Inr ()" unfolding below(4) by blast
  then show ?case using tree_below [OF walk_below.IH below(1,2)] by blast
qed (simp add: tree_root)

lemma tree_in_reach:
  assumes "\<forall>n \<in> walk_reach (package_visit fs l) {pkg}. \<forall>e. \<not> fails_with (package_visit fs l n) e" "package_tree fs l pkg n"
  shows "n \<in> walk_reach (package_visit fs l) {pkg}"
  using assms(2)
proof induction
  case (tree_below name real es c)
  then obtain found below where v: "package_visit fs l name = Enters real (Inr (found, below))"
    using package_visit_entered assms(1) by blast
  have "child_name name c \<in> set below" unfolding package_visit_Enters(4) [OF v] using tree_below by blast
  then show ?case using walk_reach.walk_below [OF tree_below.IH v] by blast
qed (simp add: walk_root)

text \<open>No directory that can hold packages is met under two names.\<close>

definition one_name_each :: "os \<Rightarrow> package_lookup \<Rightarrow> string \<Rightarrow> bool" where
  "one_name_each fs l pkg \<longleftrightarrow> (\<forall>n m real. package_tree fs l pkg n \<longrightarrow> package_tree fs l pkg m
     \<longrightarrow> os_canonicalize fs (package_dir l n) = Inr real \<longrightarrow> os_canonicalize fs (package_dir l m) = Inr real \<longrightarrow> n = m)"

lemma package_visit_real: "real_of (package_visit fs l n) = Some real \<Longrightarrow> os_canonicalize fs (package_dir l n) = Inr real"
  by (auto simp: package_visit_def Let_def split: if_splits sum.splits io_error.splits)

lemma package_visit_found:
  assumes "\<forall>e. \<not> fails_with (package_visit fs l n) e"
  shows "found_in (package_visit fs l n) = {m. m = n \<and> is_package fs l n \<and> (\<exists>real. os_canonicalize fs (package_dir l n) = Inr real)}"
proof (cases "\<exists>real. os_canonicalize fs (package_dir l n) = Inr real \<and> \<not> is_ignored l n")
  case True
  then obtain real found below where v: "package_visit fs l n = Enters real (Inr (found, below))" using package_visit_entered assms by blast
  then show ?thesis using package_visit_Enters [OF v] by simp
next
  case False
  then have "real_of (package_visit fs l n) = None"
    by (auto simp: package_visit_def Let_def split: sum.splits io_error.splits)
  then have "found_in (package_visit fs l n) = {}" by (cases "package_visit fs l n") auto
  moreover have "is_package fs l n \<Longrightarrow> \<not> is_ignored l n"
    by (auto simp: is_package_def build_file_def is_removed_def and_then_Inr split: sum.splits)
  ultimately show ?thesis using False by auto
qed

lemma package_visit_fails:
  "fails_with (package_visit fs l n) e \<Longrightarrow> \<exists>io. e = LookupIo (package_dir l n) io"
  by (auto simp: package_visit_def Let_def map_err_def split: if_splits sum.splits io_error.splits)

definition packages_below :: "os \<Rightarrow> package_lookup \<Rightarrow> string \<Rightarrow> string set" where
  "packages_below fs l pkg = {n. package_tree fs l pkg n \<and> is_package fs l n \<and> (\<exists>real. os_canonicalize fs (package_dir l n) = Inr real)}"

lemma package_found_below:
  assumes "n \<in> walk_reach (package_visit fs l) {pkg}"
  shows "found_in (package_visit fs l n) \<subseteq> packages_below fs l pkg"
proof (cases "\<exists>e. fails_with (package_visit fs l n) e")
  case True
  then have "found_in (package_visit fs l n) = {}" by (cases "package_visit fs l n" rule: next_in.cases) auto
  then show ?thesis by simp
next
  case False
  then show ?thesis using package_visit_found [of fs l n] reach_in_tree [OF assms] by (auto simp: packages_below_def)
qed


section \<open>What is ignored\<close>

lemma join_snoc:
  "list_all (\<lambda>c. c \<noteq> []) ps \<Longrightarrow> join ''/'' (ps @ [c]) = (if join ''/'' ps = [] then c else join ''/'' ps @ ''/'' @ c)"
proof -
  assume ps: "list_all (\<lambda>c. c \<noteq> []) ps"
  show ?thesis
  proof (cases ps)
    case (Cons p qs)
    then have "join ''/'' ps \<noteq> []" using ps by (cases qs) auto
    then show ?thesis using join_append [of ps "[c]" "''/''"] Cons by simp
  qed simp
qed

lemma ignored_below_iff:
  assumes "list_all (\<lambda>c. c \<noteq> []) ps" "list_all (\<lambda>c. c \<noteq> []) cs"
  shows "ignored_below l (join ''/'' ps) cs \<longleftrightarrow> (\<exists>k \<in> {1..length cs}. ignored_by l (join ''/'' (ps @ take k cs)))"
  using assms
proof (induction cs arbitrary: ps)
  case (Cons c cs)
  have range: "{1..length (c # cs)} = insert 1 (Suc ` {1..length cs})" by (auto simp: image_iff)
  have "ignored_below l (join ''/'' ps) (c # cs) \<longleftrightarrow> ignored_by l (join ''/'' (ps @ [c])) \<or> ignored_below l (join ''/'' (ps @ [c])) cs"
    using join_snoc [OF Cons.prems(1), of c] by (simp add: Let_def)
  moreover have "(\<exists>k \<in> {1..length (c # cs)}. P k) \<longleftrightarrow> P 1 \<or> (\<exists>k \<in> {1..length cs}. P (Suc k))" for P unfolding range by blast
  ultimately show ?case using Cons.IH [of "ps @ [c]"] Cons.prems by simp
qed simp

text \<open>
  A directory is ignored exactly when it or a directory above it is named in \<open>.bazelignore\<close> or matches a pattern; the root of the
  repository only counts when there are patterns.
\<close>

theorem is_ignored_iff:
  "is_ignored l pkg \<longleftrightarrow>
     (\<exists>k \<le> length (filter (\<lambda>c. c \<noteq> []) (split_on (CHR ''/'') pkg)).
        (k = 0 \<longrightarrow> ignore_patterns l \<noteq> [])
        \<and> ignored_by l (join ''/'' (take k (filter (\<lambda>c. c \<noteq> []) (split_on (CHR ''/'') pkg)))))"
proof -
  let ?cs = "filter (\<lambda>c. c \<noteq> []) (split_on (CHR ''/'') pkg)"
  have below: "ignored_below l [] ?cs \<longleftrightarrow> (\<exists>k \<in> {1..length ?cs}. ignored_by l (join ''/'' (take k ?cs)))"
    using ignored_below_iff [of "[]" ?cs l] by (simp add: list_all_iff)
  have "(\<exists>k \<le> n. P k) \<longleftrightarrow> P 0 \<or> (\<exists>k \<in> {1..n}. P k)" for P and n :: nat
    by (metis One_nat_def Suc_leI atLeastAtMost_iff bot_nat_0.extremum not_gr_zero)
  note split = this
  have "(\<exists>k \<le> length ?cs. (k = 0 \<longrightarrow> ignore_patterns l \<noteq> []) \<and> ignored_by l (join ''/'' (take k ?cs))) \<longleftrightarrow>
      ignore_patterns l \<noteq> [] \<and> ignored_by l [] \<or> ignored_below l [] ?cs"
    unfolding below split [where n = "length ?cs"] by (intro arg_cong2 [where f = "(\<or>)"] bex_cong) auto
  moreover have "ignored l = [] \<and> ignore_patterns l = [] \<Longrightarrow> \<not> ignored_by l p" for p by (simp add: ignored_by_def)
  ultimately show ?thesis unfolding is_ignored_def using below by auto
qed

lemma ignored_below_append: "ignored_below l pre cs \<Longrightarrow> ignored_below l pre (cs @ ds)"
  by (induction l pre cs rule: ignored_below.induct) (auto simp: Let_def)

lemma ignored_subtree: "is_ignored l pkg \<Longrightarrow> is_ignored l (pkg @ ''/'' @ rest)"
  using ignored_below_append by (auto simp: is_ignored_def split_on_append_sep split: if_splits)

section \<open>Examples\<close>

text \<open>A repository with packages at its root and in two directories, one of which is ignored.\<close>

definition small_repo :: plain_disk where
  "small_repo = [([], IsDir), ([Normal ''r''], IsDir), ([Normal ''r'', Normal ''BUILD''], IsFile), ([Normal ''r'', Normal ''a''], IsDir),
     ([Normal ''r'', Normal ''a'', Normal ''BUILD.bazel''], IsFile), ([Normal ''r'', Normal ''b''], IsDir),
     ([Normal ''r'', Normal ''b'', Normal ''BUILD''], IsFile)]"

definition small_lookup :: package_lookup where
  "small_lookup = \<lparr>lookup_root = [Normal ''r''], ignored = [''b''], ignore_patterns = [], deleted = [], skipped_at_root = []\<rparr>"

lemma plain_os_finite: "finite {real. \<exists>p. os_canonicalize (plain_os d) p = Inr real}"
proof -
  have "{real. \<exists>p. os_canonicalize (plain_os d) p = Inr real} \<subseteq> fst ` set d"
    by (auto simp: plain_os_def split: if_splits) (metis domI dom_map_of_conv_image_fst)
  then show ?thesis by (rule finite_subset) simp
qed


end
