(* ===== verification/Glob.thy ===== *)
theory Glob
  imports Package_Lookup
begin

text \<open>
  \<open>glob()\<close> and \<open>subpackages()\<close> (\<open>crates/fjfj-loading/src/glob.rs\<close>): the walk that matches a pattern against the files of a package, and the two
  functions on it. The fuel bounds how deep the walk goes.
\<close>

section \<open>Looking at directories\<close>

record glob_options =
  exclude_directories :: bool
  allow_empty :: bool

record walker =
  w_os :: os
  w_lookup :: package_lookup
  w_package :: string
  w_pattern :: string

type_synonym entry = "string \<times> file_kind \<times> path"

type_synonym found = "(string \<times> bool) list"

definition qualified_name :: "string \<Rightarrow> string \<Rightarrow> string" where
  "qualified_name pkg rel = (if rel = [] then pkg else if pkg = [] then rel else pkg @ ''/'' @ rel)"

definition is_subpackage :: "walker \<Rightarrow> string \<Rightarrow> bool" where
  "is_subpackage w rel = is_package (w_os w) (w_lookup w) (qualified_name (w_package w) rel)"

definition glob_io :: "walker \<Rightarrow> path \<Rightarrow> io_error \<Rightarrow> glob_error" where
  "glob_io w p e = GlobIo (w_pattern w) ''FILES'' p e"

definition dir_path :: "walker \<Rightarrow> string \<Rightarrow> path" where
  "dir_path w dir = package_dir (w_lookup w) (qualified_name (w_package w) dir)"

definition classify :: "walker \<Rightarrow> path list \<Rightarrow> path \<Rightarrow> path \<Rightarrow> string \<Rightarrow> (glob_error, (file_kind \<times> path) option) result" where
  "classify w ancestors p parent_real name =
     (case os_symlink_metadata (w_os w) p of
        Inl IoNotFound \<Rightarrow> Inr None
      | Inl e \<Rightarrow> Inl (glob_io w p e)
      | Inr PlainDir \<Rightarrow> Inr (Some (IsDir, path_join parent_real name))
      | Inr PlainFile \<Rightarrow> Inr (Some (IsFile, path_join parent_real name))
      | Inr Symlink \<Rightarrow>
          (case os_canonicalize (w_os w) p of
             Inl IoNotFound \<Rightarrow> Inr None
           | Inl e \<Rightarrow> Inl (glob_io w p e)
           | Inr target \<Rightarrow>
               (case os_metadata (w_os w) target of
                  Inl IoNotFound \<Rightarrow> Inr None
                | Inl e \<Rightarrow> Inl (glob_io w p e)
                | Inr k \<Rightarrow>
                    if k = IsDir \<and> target \<in> set ancestors then Inl (SymlinkCycle p target) else Inr (Some (k, target)))))"

fun classified ::
  "walker \<Rightarrow> path list \<Rightarrow> path \<Rightarrow> path \<Rightarrow> (string \<Rightarrow> bool) \<Rightarrow> (io_error, string option) result list \<Rightarrow> (glob_error, entry list) result" where
  "classified w ancestors p real keep [] = Inr []"
| "classified w ancestors p real keep (Inl e # es) = Inl (glob_io w p e)"
| "classified w ancestors p real keep (Inr None # es) = classified w ancestors p real keep es"
| "classified w ancestors p real keep (Inr (Some name) # es) =
     (if \<not> keep name then classified w ancestors p real keep es
      else and_then (classify w ancestors (path_join p name) real name) (\<lambda>c.
             and_then (classified w ancestors p real keep es) (\<lambda>xs.
               Inr (case c of Some (k, child_real) \<Rightarrow> (name, k, child_real) # xs | None \<Rightarrow> xs))))"

definition children :: "walker \<Rightarrow> path list \<Rightarrow> string \<Rightarrow> path \<Rightarrow> (string \<Rightarrow> bool) \<Rightarrow> (glob_error, entry list) result" where
  "children w ancestors dir real keep =
     (case os_read_dir (w_os w) (dir_path w dir) of
        Inr es \<Rightarrow> classified w ancestors (dir_path w dir) real keep es
      | Inl IoNotFound \<Rightarrow> Inr []
      | Inl e \<Rightarrow> Inl (glob_io w (dir_path w dir) e))"

definition child :: "walker \<Rightarrow> path list \<Rightarrow> string \<Rightarrow> path \<Rightarrow> string \<Rightarrow> (glob_error, entry list) result" where
  "child w ancestors dir real name =
     and_then (classify w ancestors (path_join (dir_path w dir) name) real name) (\<lambda>c.
       Inr (case c of Some (k, child_real) \<Rightarrow> [(name, k, child_real)] | None \<Rightarrow> []))"

section \<open>The walk\<close>

text \<open>What is done with one entry, \<open>go\<close> being the visit of a directory below.\<close>

type_synonym goes = "string \<Rightarrow> path \<Rightarrow> segment list \<Rightarrow> found \<Rightarrow> (glob_error, found) result option"

fun descend_into :: "goes \<Rightarrow> walker \<Rightarrow> string \<Rightarrow> segment list \<Rightarrow> entry \<Rightarrow> found \<Rightarrow> (glob_error, found) result option" where
  "descend_into go w dir segments (name, IsFile, child_real) found =
     Some (Inr (if length segments = 1 then btree_insert (child_name dir name) False found else found))"
| "descend_into go w dir segments (name, IsDir, child_real) found =
     (if \<not> is_subpackage w (child_name dir name) then go (child_name dir name) child_real segments found else Some (Inr found))"

definition descend_all ::
  "goes \<Rightarrow> walker \<Rightarrow> path list \<Rightarrow> string \<Rightarrow> path \<Rightarrow> segment list \<Rightarrow> found \<Rightarrow> (glob_error, found) result option" where
  "descend_all go w ancestors dir real segments found =
     (case children w ancestors dir real (\<lambda>_. True) of
        Inl e \<Rightarrow> Some (Inl e)
      | Inr es \<Rightarrow> rc_each (descend_into go w dir segments) es found)"

fun step_into :: "goes \<Rightarrow> walker \<Rightarrow> string \<Rightarrow> segment list \<Rightarrow> entry \<Rightarrow> found \<Rightarrow> (glob_error, found) result option" where
  "step_into go w dir rest (name, k, child_real) found =
     (if k = IsDir \<and> is_subpackage w (child_name dir name) then Some (Inr found)
      else if rest = [] then Some (Inr (btree_insert (child_name dir name) (k = IsDir) found))
      else if k = IsDir then go (child_name dir name) child_real rest found
      else Some (Inr found))"

definition step_name ::
  "goes \<Rightarrow> walker \<Rightarrow> path list \<Rightarrow> string \<Rightarrow> path \<Rightarrow> string \<Rightarrow> segment list \<Rightarrow> found \<Rightarrow> (glob_error, found) result option" where
  "step_name go w ancestors dir real pattern rest found =
     (case (if has_wildcard pattern then children w ancestors dir real (wildcard_match pattern) else child w ancestors dir real pattern) of
        Inl e \<Rightarrow> Some (Inl e)
      | Inr es \<Rightarrow> rc_each (step_into go w dir rest) es found)"

fun visit_dir ::
  "nat \<Rightarrow> walker \<Rightarrow> path list \<Rightarrow> string \<Rightarrow> path \<Rightarrow> segment list \<Rightarrow> found \<Rightarrow> (glob_error, found) result option" where
  "visit_dir 0 w ancestors dir real segments found = None"
| "visit_dir (Suc n) w ancestors dir real [] found = Some (Inr found)"
| "visit_dir (Suc n) w ancestors dir real (first # rest) found =
     (let ig = (dir \<noteq> [] \<and> is_ignored (w_lookup w) (qualified_name (w_package w) dir));
          ancestors' = ancestors @ [real]
      in case first of
           Recursive \<Rightarrow>
             (if rest = [] then
                (let found' = (if dir \<noteq> [] then btree_insert dir True found else found)
                 in if ig then Some (Inr found')
                    else descend_all (visit_dir n w ancestors') w ancestors' dir real (first # rest) found')
              else rc_then (visit_dir n w ancestors' dir real rest found) (\<lambda>found'.
                     if ig then Some (Inr found')
                     else descend_all (visit_dir n w ancestors') w ancestors' dir real (first # rest) found'))
         | Name pattern \<Rightarrow>
             if ig then Some (Inr found)
             else step_name (visit_dir n w ancestors') w ancestors' dir real pattern rest found)"

definition walker_run :: "nat \<Rightarrow> walker \<Rightarrow> segment list \<Rightarrow> (glob_error, found) result option" where
  "walker_run n w segments =
     (let root = package_dir (w_lookup w) (w_package w)
      in case os_canonicalize (w_os w) root of
           Inr real \<Rightarrow> visit_dir n w [] [] real segments []
         | Inl IoNotFound \<Rightarrow> Some (Inr [])
         | Inl e \<Rightarrow> Some (Inl (glob_io w root e)))"

section \<open>The two functions\<close>

definition compile_patterns :: "string list \<Rightarrow> (glob_error, segment list list) result" where
  "compile_patterns patterns = collect_results (map (\<lambda>p. map_err (InvalidPattern p) (check_pattern p True)) patterns)"

definition glob_pattern ::
  "nat \<Rightarrow> os \<Rightarrow> package_lookup \<Rightarrow> string \<Rightarrow> glob_options \<Rightarrow> string \<times> segment list \<Rightarrow> string list \<Rightarrow> (glob_error, string list) result option" where
  "glob_pattern n fs l pkg options ps found =
     (case ps of (pattern, segments) \<Rightarrow>
        rc_then (walker_run n \<lparr>w_os = fs, w_lookup = l, w_package = pkg, w_pattern = pattern\<rparr> segments) (\<lambda>matched.
          let kept = filter (\<lambda>(p, is_dir). \<not> (is_dir \<and> exclude_directories options)) matched
          in if kept = [] \<and> \<not> allow_empty options then Some (Inl (NoMatch pattern))
             else Some (Inr (fold bset_insert (map fst kept) found))))"

definition retain_unexcluded :: "exclude list \<Rightarrow> string list \<Rightarrow> string list" where
  "retain_unexcluded excludes found = filter (\<lambda>p. \<not> list_ex (\<lambda>e. exclude_matches e p) excludes) found"

definition glob ::
  "nat \<Rightarrow> os \<Rightarrow> package_lookup \<Rightarrow> string \<Rightarrow> string list \<Rightarrow> string list \<Rightarrow> glob_options \<Rightarrow> (glob_error, string list) result option" where
  "glob n fs l pkg include exclude options =
     (case compile_patterns include of
        Inl e \<Rightarrow> Some (Inl e)
      | Inr compiled \<Rightarrow>
          (case collect_results (map exclude_parse exclude) of
             Inl e \<Rightarrow> Some (Inl e)
           | Inr excludes \<Rightarrow>
               rc_then (rc_each (glob_pattern n fs l pkg options) (zip include compiled) []) (\<lambda>found.
                 let kept = retain_unexcluded excludes found
                 in if kept = [] \<and> \<not> allow_empty options then Some (Inl AllExcluded) else Some (Inr kept))))"

definition subpackage_visit :: "os \<Rightarrow> package_lookup \<Rightarrow> string \<Rightarrow> string \<Rightarrow> (glob_error, string, string) visited" where
  "subpackage_visit fs l pkg rel =
     (let dir = package_dir l (qualified_name pkg rel)
      in case os_canonicalize fs dir of
           Inl _ \<Rightarrow> Skip
         | Inr real \<Rightarrow>
             Enters real
               (case os_read_dir fs dir of
                  Inl _ \<Rightarrow> Inr ([], [])
                | Inr es \<Rightarrow>
                    (let names = List.map_filter (\<lambda>e. case e of Inr (Some n) \<Rightarrow> Some n | _ \<Rightarrow> None) es;
                         dirs = filter (\<lambda>n. os_metadata fs (path_join dir n) = Inr IsDir) names;
                         below = filter (\<lambda>c. \<not> is_ignored l (qualified_name pkg c)) (map (child_name rel) dirs)
                     in Inr (filter (\<lambda>c. is_package fs l (qualified_name pkg c)) below,
                             filter (\<lambda>c. \<not> is_package fs l (qualified_name pkg c)) below))))"

definition subpackage_pattern :: "string list \<Rightarrow> bool \<Rightarrow> string \<times> segment list \<Rightarrow> string list \<Rightarrow> (glob_error, string list) result option" where
  "subpackage_pattern every empty_ok ps found =
     (case ps of (pattern, segments) \<Rightarrow>
        let matched = filter (\<lambda>p. segments_match_with segments (split_on (CHR ''/'') p) False) every
        in if matched = [] \<and> \<not> empty_ok then Some (Inl (NoSubpackageMatch pattern))
           else Some (Inr (fold bset_insert matched found)))"

definition subpackages ::
  "os \<Rightarrow> package_lookup \<Rightarrow> string \<Rightarrow> string list \<Rightarrow> string list \<Rightarrow> bool \<Rightarrow> (glob_error, string list) result option" where
  "subpackages fs l pkg include exclude empty_ok =
     (case compile_patterns include of
        Inl e \<Rightarrow> Some (Inl e)
      | Inr compiled \<Rightarrow>
          (case collect_results (map exclude_parse exclude) of
             Inl e \<Rightarrow> Some (Inl e)
           | Inr excludes \<Rightarrow>
               rc_then (walk_dirs (subpackage_visit fs l pkg) [[]] [] []) (\<lambda>every.
                 rc_then (rc_each (subpackage_pattern (sort every) empty_ok) (zip include compiled) []) (\<lambda>found.
                   let kept = retain_unexcluded excludes found
                   in if kept = [] \<and> \<not> empty_ok then Some (Inl AllSubpackagesExcluded) else Some (Inr kept)))))"

end
