(* ===== verification/Glob_Correct.thy ===== *)
theory Glob_Correct
  imports Glob
begin

text \<open>
  What \<open>glob()\<close> lists: the visible tree of a package, which paths in it a pattern picks, and proofs that the walk finds exactly
  these and that it ends.
\<close>

section \<open>What can be seen of a package\<close>

text \<open>An entry of a directory with links followed, as if nothing were wrong with it.\<close>

definition looks :: "walker \<Rightarrow> string \<Rightarrow> path \<Rightarrow> string \<Rightarrow> (file_kind \<times> path) option" where
  "looks w dir real name =
     (case os_symlink_metadata (w_os w) (path_join (dir_path w dir) name) of
        Inr PlainDir \<Rightarrow> Some (IsDir, path_join real name)
      | Inr PlainFile \<Rightarrow> Some (IsFile, path_join real name)
      | Inr Symlink \<Rightarrow>
          (case os_canonicalize (w_os w) (path_join (dir_path w dir) name) of
             Inr target \<Rightarrow> (case os_metadata (w_os w) target of Inr k \<Rightarrow> Some (k, target) | Inl _ \<Rightarrow> None)
           | Inl _ \<Rightarrow> None)
      | Inl _ \<Rightarrow> None)"

definition hides :: "walker \<Rightarrow> string list \<Rightarrow> bool" where
  "hides w ps \<longleftrightarrow> ps \<noteq> [] \<and> is_ignored (w_lookup w) (qualified_name (w_package w) (join ''/'' ps))"

text \<open>What is at a path below the directory \<open>ps\<close>: nothing is seen inside of packages and of ignored directories.\<close>

fun seen_below :: "walker \<Rightarrow> string list \<Rightarrow> path \<Rightarrow> string list \<Rightarrow> file_kind option" where
  "seen_below w ps real [] = Some IsDir"
| "seen_below w ps real (n # qs) =
     (if \<not> entry_name n \<or> hides w ps then None
      else case looks w (join ''/'' ps) real n of
             None \<Rightarrow> None
           | Some (IsFile, c) \<Rightarrow> if qs = [] then Some IsFile else None
           | Some (IsDir, c) \<Rightarrow> if is_subpackage w (join ''/'' (ps @ [n])) then None else seen_below w (ps @ [n]) c qs)"

text \<open>A file is picked like a directory, but for a \<open>**\<close> at the end of the pattern, which has to stand for a name at least.\<close>

fun file_match :: "segment list \<Rightarrow> string list \<Rightarrow> bool" where
  "file_match [] parts = (parts = [])"
| "file_match (Recursive # rest) parts =
     (if rest = [] then parts \<noteq> [] else list_ex (\<lambda>skip. file_match rest (drop skip parts)) [0..<length parts + 1])"
| "file_match (Name pattern # rest) parts =
     (case parts of [] \<Rightarrow> False | part # parts' \<Rightarrow> wildcard_match pattern part \<and> file_match rest parts')"

definition picks :: "segment list \<Rightarrow> file_kind \<Rightarrow> string list \<Rightarrow> bool" where
  "picks segments k parts = (case k of IsDir \<Rightarrow> segments_match_with segments parts False | IsFile \<Rightarrow> file_match segments parts)"

definition hits_by :: "walker \<Rightarrow> string list \<Rightarrow> path \<Rightarrow> (file_kind \<Rightarrow> string list \<Rightarrow> bool) \<Rightarrow> (string \<times> bool) set" where
  "hits_by w ps real P =
     {(join ''/'' (ps @ qs), k = IsDir) |qs k. seen_below w ps real qs = Some k \<and> ps @ qs \<noteq> [] \<and> P k qs}"

section \<open>Picking step by step\<close>

lemma ex_skip:
  "list_ex (\<lambda>skip. P (drop skip parts)) [0..<length parts + 1] \<longleftrightarrow>
     P parts \<or> (case parts of [] \<Rightarrow> False | _ # parts' \<Rightarrow> list_ex (\<lambda>skip. P (drop skip parts')) [0..<length parts' + 1])"
proof (cases parts)
  case (Cons x parts')
  have shifted: "list_ex Q (0 # map Suc xs) \<longleftrightarrow> Q 0 \<or> list_ex (\<lambda>i. Q (Suc i)) xs" for Q xs by (induction xs) auto
  have "[0..<length parts + 1] = 0 # map Suc [0..<length parts' + 1]" using Cons by (simp add: map_Suc_upt upt_conv_Cons del: upt_Suc)
  then have "list_ex (\<lambda>skip. P (drop skip parts)) [0..<length parts + 1] \<longleftrightarrow>
      P (drop 0 parts) \<or> list_ex (\<lambda>skip. P (drop (Suc skip) parts)) [0..<length parts' + 1]"
    using shifted [of "\<lambda>skip. P (drop skip parts)"] by metis
  then show ?thesis using Cons by simp
qed simp

lemma picks_name: "picks (Name p # rest) k (n # qs) \<longleftrightarrow> wildcard_match p n \<and> picks rest k qs"
  by (cases k) (auto simp: picks_def wildcard_match_def)

lemma picks_name_nil: "\<not> picks (Name p # rest) k []"
  by (cases k) (auto simp: picks_def)

lemma file_match_nil: "rest \<noteq> [] \<Longrightarrow> \<not> file_match rest []"
  by (induction rest "[] :: string list" rule: file_match.induct) auto

lemma picks_all: "picks [Recursive] IsDir qs" "picks [Recursive] IsFile qs \<longleftrightarrow> qs \<noteq> []"
proof -
  show "picks [Recursive] IsDir qs" by (auto simp: picks_def list_ex_iff intro!: bexI [of _ "length qs"])
qed (simp add: picks_def)

lemma picks_recursive:
  assumes "rest \<noteq> []"
  shows "picks (Recursive # rest) k qs \<longleftrightarrow>
    picks rest k qs \<or> (case qs of [] \<Rightarrow> False | _ # qs' \<Rightarrow> picks (Recursive # rest) k qs')"
  using ex_skip [of "\<lambda>parts. segments_match_with rest parts False" qs] ex_skip [of "file_match rest" qs] assms
  by (cases k) (simp_all add: picks_def split: list.splits)

section \<open>What a walk adds\<close>

definition entries_of :: "walker \<Rightarrow> string list \<Rightarrow> path \<Rightarrow> entry set" where
  "entries_of w ps real = {(n, k, c). entry_name n \<and> looks w (join ''/'' ps) real n = Some (k, c)}"

fun below_entry :: "walker \<Rightarrow> string list \<Rightarrow> (file_kind \<Rightarrow> string list \<Rightarrow> bool) \<Rightarrow> entry \<Rightarrow> (string \<times> bool) set" where
  "below_entry w ps P (n, IsFile, c) = (if P IsFile [n] then {(join ''/'' (ps @ [n]), False)} else {})"
| "below_entry w ps P (n, IsDir, c) =
     (if is_subpackage w (join ''/'' (ps @ [n])) then {} else hits_by w (ps @ [n]) c (\<lambda>k qs. P k (n # qs)))"

lemma seen_below_file: "seen_below w ps real qs = Some IsFile \<Longrightarrow> qs \<noteq> []"
  by auto

lemma hits_by_cong:
  assumes "\<And>k qs. (k = IsFile \<longrightarrow> qs \<noteq> []) \<Longrightarrow> P k qs \<longleftrightarrow> Q k qs"
  shows "hits_by w ps real P = hits_by w ps real Q"
proof -
  have "seen_below w ps real qs = Some k \<and> ps @ qs \<noteq> [] \<and> P k qs \<longleftrightarrow> seen_below w ps real qs = Some k \<and> ps @ qs \<noteq> [] \<and> Q k qs" for k qs
    using assms [of k qs] seen_below_file [of w ps real qs] by blast
  then show ?thesis by (simp only: hits_by_def)
qed

lemma hits_by_disj: "hits_by w ps real (\<lambda>k qs. P k qs \<or> Q k qs) = hits_by w ps real P \<union> hits_by w ps real Q"
  by (auto simp: hits_by_def)

lemma hits_by_unfold:
  "hits_by w ps real P = (if ps \<noteq> [] \<and> P IsDir [] then {(join ''/'' ps, True)} else {})
     \<union> (if hides w ps then {} else \<Union> (below_entry w ps P ` entries_of w ps real))"
  (is "?l = ?here \<union> ?below")
proof (rule set_eqI)
  fix x
  show "x \<in> ?l \<longleftrightarrow> x \<in> ?here \<union> ?below"
  proof
    assume "x \<in> ?l"
    then obtain qs k where x: "x = (join ''/'' (ps @ qs), k = IsDir)" "seen_below w ps real qs = Some k" "ps @ qs \<noteq> []" "P k qs"
      by (auto simp: hits_by_def)
    show "x \<in> ?here \<union> ?below"
    proof (cases qs)
      case Nil
      then show ?thesis using x by auto
    next
      case (Cons n qs')
      then obtain k' c where l: "looks w (join ''/'' ps) real n = Some (k', c)" "entry_name n" "\<not> hides w ps"
        using x(2) by (auto split: if_splits option.splits)
      then have "(n, k', c) \<in> entries_of w ps real" by (simp add: entries_of_def)
      moreover have "x \<in> below_entry w ps P (n, k', c)"
        using x l Cons by (cases k') (auto simp: hits_by_def split: if_splits intro!: exI [of _ qs'])
      ultimately show ?thesis using l(3) by auto
    qed
  next
    assume "x \<in> ?here \<union> ?below"
    then show "x \<in> ?l"
    proof
      assume "x \<in> ?here"
      then show ?thesis by (auto simp: hits_by_def split: if_splits intro!: exI [of _ "[]"])
    next
      assume "x \<in> ?below"
      then obtain n k c where e: "\<not> hides w ps" "entry_name n" "looks w (join ''/'' ps) real n = Some (k, c)" "x \<in> below_entry w ps P (n, k, c)"
        by (auto simp: entries_of_def split: if_splits)
      show ?thesis
      proof (cases k)
        case IsFile
        then have "x = (join ''/'' (ps @ [n]), False)" "P IsFile [n]" using e(4) by (auto split: if_splits)
        then show ?thesis using e IsFile by (auto simp: hits_by_def intro!: exI [of _ "[n]"] exI [of _ IsFile])
      next
        case IsDir
        then obtain qs k' where "x = (join ''/'' ((ps @ [n]) @ qs), k' = IsDir)" "seen_below w (ps @ [n]) c qs = Some k'" "P k' (n # qs)"
          "\<not> is_subpackage w (join ''/'' (ps @ [n]))"
          using e(4) by (auto simp: hits_by_def split: if_splits)
        then show ?thesis using e IsDir by (auto simp: hits_by_def intro!: exI [of _ "n # qs"] exI [of _ k'])
      qed
    qed
  qed
qed

text \<open>The paths in \<open>hits\<close> are added to those found, and what is new is told right.\<close>

definition grows :: "found \<Rightarrow> (string \<times> bool) set \<Rightarrow> found \<Rightarrow> bool" where
  "grows f hits g \<longleftrightarrow> fst ` set g = fst ` set f \<union> fst ` hits \<and> set g \<subseteq> set f \<union> hits"

lemma grows_refl: "grows f {} f"
  by (simp add: grows_def)

lemma grows_trans: "grows f A g \<Longrightarrow> grows g B h \<Longrightarrow> grows f (A \<union> B) h"
  by (auto simp: grows_def image_Un)

lemma grows_insert: "grows f {(k, v)} (btree_insert k v f)"
  using btree_insert_keys [of k v f] btree_insert_subset [of k v f] by (auto simp: grows_def)

lemma rc_each_grows:
  assumes "rc_each f xs s = Some (Inr t)" "\<And>x u v. x \<in> set xs \<Longrightarrow> f x u = Some (Inr v) \<Longrightarrow> grows u (H x) v"
  shows "grows s (\<Union> (H ` set xs)) t"
proof (rule rc_each_invariant [OF assms(1)])
  show "grows s (\<Union> (H ` {})) s" by (simp add: grows_refl)
  show "grows s (\<Union> (H ` insert x seen)) v" if "x \<in> set xs" "grows s (\<Union> (H ` seen)) u" "f x u = Some (Inr v)" for seen x u v
    using grows_trans [OF that(2) assms(2) [OF that(1,3)]] by (simp add: Un_commute)
qed

section \<open>Entries\<close>

lemma classify_looks:
  "classify w anc (path_join (dir_path w dir) name) real name = Inr c \<Longrightarrow> c = looks w dir real name"
  by (auto simp: classify_def looks_def split: sum.splits io_error.splits link_kind.splits if_splits)

lemma classified_looks:
  "classified w anc (dir_path w dir) real keep es = Inr xs \<Longrightarrow>
     set xs = {(n, k, c). Inr (Some n) \<in> set es \<and> keep n \<and> looks w dir real n = Some (k, c)}"
proof (induction es arbitrary: xs)
  case (Cons e es)
  show ?case
  proof (cases e)
    case (Inr name)
    show ?thesis
    proof (cases name)
      case None
      then show ?thesis using Cons Inr by simp
    next
      case (Some n)
      show ?thesis
      proof (cases "keep n")
        case True
        then obtain c ys where "classify w anc (path_join (dir_path w dir) n) real n = Inr c" "classified w anc (dir_path w dir) real keep es = Inr ys"
          "xs = (case c of Some (k, child_real) \<Rightarrow> (n, k, child_real) # ys | None \<Rightarrow> ys)"
          using Cons.prems Inr Some by (auto simp: and_then_Inr)
        with classify_looks Cons.IH True Inr Some show ?thesis by (auto split: option.splits)
      next
        case False
        then show ?thesis using Cons Inr Some by auto
      qed
    qed
  qed (use Cons in simp)
qed simp

lemma children_looks:
  assumes "tidy_os (w_os w)" "children w anc (join ''/'' ps) real keep = Inr xs"
  shows "set xs = {(n, k, c). (n, k, c) \<in> entries_of w ps real \<and> keep n}"
proof (cases "os_read_dir (w_os w) (dir_path w (join ''/'' ps))")
  case (Inl e)
  then have e: "e = IoNotFound" "xs = []" using assms(2) by (auto simp: children_def split: io_error.splits)
  have "looks w (join ''/'' ps) real n = None" if "entry_name n" for n
  proof -
    have "os_symlink_metadata (w_os w) (path_join (dir_path w (join ''/'' ps)) n) = Inl IoNotFound"
      using tidy_os_missing [OF assms(1)] that Inl e by simp
    then show ?thesis by (simp add: looks_def)
  qed
  then show ?thesis using e by (auto simp: entries_of_def)
next
  case (Inr es)
  then have xs: "set xs = {(n, k, c). Inr (Some n) \<in> set es \<and> keep n \<and> looks w (join ''/'' ps) real n = Some (k, c)}"
    using classified_looks assms(2) by (simp add: children_def)
  have "Inr (Some n) \<in> set es \<longleftrightarrow> entry_name n" if "looks w (join ''/'' ps) real n = Some (k, c)" for n k c
  proof -
    have "os_symlink_metadata (w_os w) (path_join (dir_path w (join ''/'' ps)) n) \<noteq> Inl IoNotFound"
      using that by (auto simp: looks_def)
    then show ?thesis using tidy_os_listed [OF assms(1) Inr] by simp
  qed
  then show ?thesis unfolding xs by (auto simp: entries_of_def)
qed

lemma child_looks:
  assumes "entry_name name" "child w anc (join ''/'' ps) real name = Inr xs"
  shows "set xs = {(n, k, c). (n, k, c) \<in> entries_of w ps real \<and> n = name}"
  using assms classify_looks by (fastforce simp: child_def and_then_Inr entries_of_def split: option.splits)

section \<open>The walk finds what can be seen\<close>

definition names_ok :: "segment list \<Rightarrow> bool" where
  "names_ok segments \<longleftrightarrow> (\<forall>s. Name s \<in> set segments \<longrightarrow> entry_name s)"

lemma join_entry: "list_all entry_name ps \<Longrightarrow> child_name (join ''/'' ps) n = join ''/'' (ps @ [n])"
  using join_snoc [of ps n] by (auto simp: child_name_def list_all_iff entry_name_def)

lemma join_entry_nil: "list_all entry_name ps \<Longrightarrow> join ''/'' ps = [] \<longleftrightarrow> ps = []"
  by (cases ps rule: remdups_adj.cases) (auto simp: entry_name_def)

lemma step_entries:
  assumes "tidy_os (w_os w)" "has_wildcard pattern \<or> entry_name pattern"
    "(if has_wildcard pattern then children w anc (join ''/'' ps) real (wildcard_match pattern) else child w anc (join ''/'' ps) real pattern) = Inr es"
  shows "set es = {(n, k, c). (n, k, c) \<in> entries_of w ps real \<and> wildcard_match pattern n}"
proof (cases "has_wildcard pattern")
  case True
  then show ?thesis using children_looks [OF assms(1)] assms(3) by simp
next
  case False
  then show ?thesis using child_looks [of pattern w anc ps real es] assms(2,3) wildcard_match_plain [OF False] by auto
qed

text \<open>What \<open>go\<close> is to do in the directories below.\<close>

definition goes_right :: "walker \<Rightarrow> goes \<Rightarrow> bool" where
  "goes_right w go \<longleftrightarrow> (\<forall>ps real segments found found'. list_all entry_name ps \<longrightarrow> segments \<noteq> [] \<longrightarrow> names_ok segments
     \<longrightarrow> go (join ''/'' ps) real segments found = Some (Inr found') \<longrightarrow> grows found (hits_by w ps real (picks segments)) found')"

lemma goes_rightD:
  "goes_right w go \<Longrightarrow> list_all entry_name ps \<Longrightarrow> segments \<noteq> [] \<Longrightarrow> names_ok segments
    \<Longrightarrow> go (join ''/'' ps) real segments found = Some (Inr found') \<Longrightarrow> grows found (hits_by w ps real (picks segments)) found'"
  unfolding goes_right_def by blast

lemma names_ok_Cons: "names_ok (s # rest) \<longleftrightarrow> names_ok rest \<and> (\<forall>p. s = Name p \<longrightarrow> entry_name p)"
  by (auto simp: names_ok_def)

lemma hits_by_none: "hits_by w ps real (\<lambda>k qs. False) = {}"
  by (simp add: hits_by_def)

lemma step_into_grows:
  assumes go: "goes_right w go" and ps: "list_all entry_name ps" and rest: "names_ok rest"
    and x: "x \<in> entries_of w ps real" "wildcard_match pattern (fst x)"
    and ok: "step_into go w (join ''/'' ps) rest x found = Some (Inr found')"
  shows "grows found (below_entry w ps (picks (Name pattern # rest)) x) found'"
proof -
  obtain n k c where xs: "x = (n, k, c)" by (cases x)
  have n: "entry_name n" "wildcard_match pattern n" using x xs by (auto simp: entries_of_def)
  then have psn: "list_all entry_name (ps @ [n])" using ps by simp
  have picked: "picks (Name pattern # rest) k' (n # qs) \<longleftrightarrow> picks rest k' qs" for k' qs using n by (simp add: picks_name)
  show ?thesis
  proof (cases k)
    case IsFile
    have "picks rest IsFile [] \<longleftrightarrow> rest = []" using file_match_nil by (auto simp: picks_def)
    then show ?thesis using ok xs IsFile picked join_entry [OF ps] grows_insert grows_refl by (auto split: if_splits)
  next
    case IsDir
    have here: "hits_by w (ps @ [n]) c (picks []) = {(join ''/'' (ps @ [n]), True)}"
    proof -
      have "picks [] k' qs \<longleftrightarrow> qs = []" for k' qs by (cases k') (simp_all add: picks_def)
      then show ?thesis by (auto simp: hits_by_def)
    qed
    show ?thesis
      using ok xs IsDir picked join_entry [OF ps] grows_insert grows_refl here goes_rightD [OF go psn _ rest] by (auto split: if_splits)
  qed
qed

lemma step_name_grows:
  assumes go: "goes_right w go" and ps: "list_all entry_name ps" and ok: "names_ok (Name pattern # rest)" and tidy: "tidy_os (w_os w)"
    and res: "step_name go w anc (join ''/'' ps) real pattern rest found = Some (Inr found')" "\<not> hides w ps"
  shows "grows found (hits_by w ps real (picks (Name pattern # rest))) found'"
proof -
  let ?P = "picks (Name pattern # rest)"
  have rest: "names_ok rest" "entry_name pattern" using ok by (auto simp: names_ok_Cons)
  obtain es where es: "(if has_wildcard pattern then children w anc (join ''/'' ps) real (wildcard_match pattern) else child w anc (join ''/'' ps) real pattern) = Inr es"
    "rc_each (step_into go w (join ''/'' ps) rest) es found = Some (Inr found')"
    using res(1) by (auto simp: step_name_def split: sum.splits)
  have set: "set es = {(n, k, c). (n, k, c) \<in> entries_of w ps real \<and> wildcard_match pattern n}"
    by (rule step_entries [OF tidy _ es(1)]) (simp add: rest)
  have "grows found (\<Union> (below_entry w ps ?P ` set es)) found'"
    by (rule rc_each_grows [OF es(2)]) (rule step_into_grows [OF go ps rest(1)], auto simp: set)
  moreover have none: "below_entry w ps ?P x = {}" if "x \<in> entries_of w ps real" "x \<notin> set es" for x
  proof -
    obtain n k c where x: "x = (n, k, c)" by (cases x)
    then have "\<not> ?P k' (n # qs)" for k' qs using that set by (simp add: picks_name)
    then show ?thesis using x by (cases k) (auto simp: hits_by_none)
  qed
  then have "\<Union> (below_entry w ps ?P ` set es) = \<Union> (below_entry w ps ?P ` entries_of w ps real)"
  proof -
    have "set es \<subseteq> entries_of w ps real" using set by auto
    moreover have "below_entry w ps ?P x \<subseteq> \<Union> (below_entry w ps ?P ` set es)" if "x \<in> entries_of w ps real" for x
      using none [OF that] by (cases "x \<in> set es") auto
    ultimately show ?thesis by (simp add: subset_antisym UN_least UN_mono)
  qed
  ultimately show ?thesis using res(2) by (simp add: hits_by_unfold [of w ps real ?P] picks_name_nil)
qed

text \<open>The part of what \<open>**\<close> picks that is below the directory.\<close>

definition deeper :: "segment list \<Rightarrow> file_kind \<Rightarrow> string list \<Rightarrow> bool" where
  "deeper segments k qs = (case qs of [] \<Rightarrow> False | _ # qs' \<Rightarrow> if segments = [Recursive] then k = IsFile \<and> qs' = [] \<or> picks segments k qs' else picks segments k qs')"

lemma descend_into_grows:
  assumes go: "goes_right w go" and ps: "list_all entry_name ps" and ok: "names_ok (Recursive # rest)"
    and x: "x \<in> entries_of w ps real"
    and res: "descend_into go w (join ''/'' ps) (Recursive # rest) x found = Some (Inr found')"
  shows "grows found (below_entry w ps (deeper (Recursive # rest)) x) found'"
proof -
  obtain n k c where xs: "x = (n, k, c)" by (cases x)
  have psn: "list_all entry_name (ps @ [n])" using ps x xs by (auto simp: entries_of_def)
  show ?thesis
  proof (cases k)
    case IsFile
    have "deeper (Recursive # rest) IsFile [n] \<longleftrightarrow> rest = []"
      using file_match_nil [of "Recursive # rest"] by (auto simp: deeper_def picks_def)
    then show ?thesis using res xs IsFile join_entry [OF ps] grows_insert grows_refl by (auto split: if_splits)
  next
    case IsDir
    have "hits_by w (ps @ [n]) c (\<lambda>k qs. deeper (Recursive # rest) k (n # qs)) = hits_by w (ps @ [n]) c (picks (Recursive # rest))"
      by (rule hits_by_cong) (auto simp: deeper_def)
    then show ?thesis
      using res xs IsDir join_entry [OF ps] grows_refl goes_rightD [OF go psn _ ok] by (auto split: if_splits)
  qed
qed

lemma descend_all_grows:
  assumes go: "goes_right w go" and ps: "list_all entry_name ps" and ok: "names_ok (Recursive # rest)" and tidy: "tidy_os (w_os w)"
    and res: "descend_all go w anc (join ''/'' ps) real (Recursive # rest) found = Some (Inr found')"
  shows "grows found (\<Union> (below_entry w ps (deeper (Recursive # rest)) ` entries_of w ps real)) found'"
proof -
  obtain es where es: "children w anc (join ''/'' ps) real (\<lambda>_. True) = Inr es"
    "rc_each (descend_into go w (join ''/'' ps) (Recursive # rest)) es found = Some (Inr found')"
    using res by (auto simp: descend_all_def split: sum.splits)
  have set: "set es = entries_of w ps real" using children_looks [OF tidy es(1)] by auto
  show ?thesis
    unfolding set [symmetric] by (rule rc_each_grows [OF es(2)]) (rule descend_into_grows [OF go ps ok], auto simp: set)
qed

lemma hits_by_deeper:
  "hits_by w ps real (deeper segments) = (if hides w ps then {} else \<Union> (below_entry w ps (deeper segments) ` entries_of w ps real))"
  by (simp add: hits_by_unfold [of w ps real "deeper segments"] deeper_def)

lemma picks_deeper:
  "rest \<noteq> [] \<Longrightarrow> picks (Recursive # rest) = (\<lambda>k qs. picks rest k qs \<or> deeper (Recursive # rest) k qs)"
  unfolding fun_eq_iff using picks_recursive [of rest] by (simp add: deeper_def split: list.splits)

lemma picks_all_deeper: "picks [Recursive] = (\<lambda>k qs. k = IsDir \<and> qs = [] \<or> deeper [Recursive] k qs)"
proof (intro ext)
  show "picks [Recursive] k qs = (k = IsDir \<and> qs = [] \<or> deeper [Recursive] k qs)" for k qs
    using picks_all by (cases k; cases qs) (auto simp: deeper_def)
qed

lemma visit_dir_Suc:
  assumes "list_all entry_name ps"
  shows "visit_dir (Suc n) w anc (join ''/'' ps) real (first # rest) found =
     (let go = visit_dir n w (anc @ [real]); later = (\<lambda>f. if hides w ps then Some (Inr f) else descend_all go w (anc @ [real]) (join ''/'' ps) real (first # rest) f)
      in case first of
           Recursive \<Rightarrow>
             (if rest = [] then later (if ps \<noteq> [] then btree_insert (join ''/'' ps) True found else found)
              else rc_then (go (join ''/'' ps) real rest found) later)
         | Name pattern \<Rightarrow>
             if hides w ps then Some (Inr found) else step_name go w (anc @ [real]) (join ''/'' ps) real pattern rest found)"
  unfolding visit_dir.simps Let_def hides_def join_entry_nil [OF assms] by (rule refl)

declare visit_dir.simps(3) [simp del]

lemma visit_dir_grows:
  assumes "tidy_os (w_os w)"
  shows "goes_right w (visit_dir n w anc)"
proof (induction n arbitrary: anc)
  case 0
  show ?case by (simp add: goes_right_def)
next
  case (Suc n)
  show ?case unfolding goes_right_def
  proof (intro allI impI)
    fix ps real segments found found'
    assume ps: "list_all entry_name ps" and "segments \<noteq> []" and ok: "names_ok segments"
      and res: "visit_dir (Suc n) w anc (join ''/'' ps) real segments found = Some (Inr found')"
    then obtain first rest where segs: "segments = first # rest" by (cases segments) auto
    let ?go = "visit_dir n w (anc @ [real])"
    have go: "goes_right w ?go" by (rule Suc.IH)
    note res = res [unfolded segs visit_dir_Suc [OF ps] Let_def]
    show "grows found (hits_by w ps real (picks segments)) found'"
    proof (cases first)
      case (Name pattern)
      then show ?thesis
      proof (cases "hides w ps")
        case True
        have "hits_by w ps real (picks segments) = {}"
          unfolding hits_by_unfold [of w ps real "picks segments"] using True segs Name by (simp add: picks_name_nil)
        then show ?thesis using True res Name by (simp add: grows_refl)
      next
        case False
        then have "step_name ?go w (anc @ [real]) (join ''/'' ps) real pattern rest found = Some (Inr found')"
          using res Name by simp
        from step_name_grows [OF go ps _ assms this False] show ?thesis using ok segs Name by simp
      qed
    next
      case rec: Recursive
      have later: "grows f (hits_by w ps real (deeper segments)) found'"
        if "(if hides w ps then Some (Inr f) else descend_all ?go w (anc @ [real]) (join ''/'' ps) real segments f) = Some (Inr found')" for f
        using that descend_all_grows [OF go ps _ assms] ok segs rec grows_refl unfolding hits_by_deeper by (auto split: if_splits)
      show ?thesis
      proof (cases "rest = []")
        case True
        let ?f = "if ps \<noteq> [] then btree_insert (join ''/'' ps) True found else found"
        have "grows found (if ps \<noteq> [] then {(join ''/'' ps, True)} else {}) ?f" by (simp add: grows_insert grows_refl)
        moreover have "grows ?f (hits_by w ps real (deeper segments)) found'"
          by (rule later) (use res in \<open>simp only: segs rec True segment.case simp_thms if_True\<close>)
        moreover have "hits_by w ps real (picks segments) = (if ps \<noteq> [] then {(join ''/'' ps, True)} else {}) \<union> hits_by w ps real (deeper segments)"
        proof -
          have "hits_by w ps real (\<lambda>k qs. k = IsDir \<and> qs = []) = (if ps \<noteq> [] then {(join ''/'' ps, True)} else {})"
            by (auto simp: hits_by_def)
          then show ?thesis unfolding segs rec True by (subst picks_all_deeper) (simp only: hits_by_disj)
        qed
        ultimately show ?thesis using grows_trans by simp
      next
        case False
        then obtain f where f: "?go (join ''/'' ps) real rest found = Some (Inr f)"
          "(if hides w ps then Some (Inr f) else descend_all ?go w (anc @ [real]) (join ''/'' ps) real segments f) = Some (Inr found')"
          using res segs rec by (auto simp: rc_then_some)
        have "grows found (hits_by w ps real (picks rest)) f"
          by (rule goes_rightD [OF go ps False _ f(1)]) (use ok segs in \<open>simp add: names_ok_Cons\<close>)
        from grows_trans [OF this later [OF f(2)]] show ?thesis
          unfolding segs rec picks_deeper [OF False] hits_by_disj .
      qed
    qed
  qed
qed

section \<open>What \<open>glob\<close> lists\<close>

lemma seen_below_names: "seen_below w ps real qs = Some k \<Longrightarrow> list_all entry_name qs"
  by (induction w ps real qs rule: seen_below.induct) (auto split: if_splits option.splits file_kind.splits)

lemma looks_pattern: "looks (w\<lparr>w_pattern := x\<rparr>) = looks w" "hides (w\<lparr>w_pattern := x\<rparr>) = hides w" "is_subpackage (w\<lparr>w_pattern := x\<rparr>) = is_subpackage w"
proof -
  have same: "dir_path (w\<lparr>w_pattern := x\<rparr>) = dir_path w" "w_os (w\<lparr>w_pattern := x\<rparr>) = w_os w" by (simp_all add: fun_eq_iff dir_path_def)
  show "looks (w\<lparr>w_pattern := x\<rparr>) = looks w" unfolding fun_eq_iff looks_def same by simp
qed (simp_all add: fun_eq_iff hides_def is_subpackage_def)

lemma seen_below_pattern: "seen_below (w\<lparr>w_pattern := x\<rparr>) ps real qs = seen_below w ps real qs"
  by (induction w ps real qs rule: seen_below.induct) (simp_all add: looks_pattern split: option.split file_kind.split)

definition pattern_walker :: "os \<Rightarrow> package_lookup \<Rightarrow> string \<Rightarrow> string \<Rightarrow> walker" where
  "pattern_walker fs l pkg pattern = \<lparr>w_os = fs, w_lookup = l, w_package = pkg, w_pattern = pattern\<rparr>"

text \<open>What is at a path of a package, if it can be seen.\<close>

definition visible :: "os \<Rightarrow> package_lookup \<Rightarrow> string \<Rightarrow> string list \<Rightarrow> file_kind option" where
  "visible fs l pkg qs =
     (case os_canonicalize fs (package_dir l pkg) of
        Inr real \<Rightarrow> seen_below (pattern_walker fs l pkg []) [] real qs
      | Inl _ \<Rightarrow> None)"

lemma visible_names: "visible fs l pkg qs = Some k \<Longrightarrow> list_all entry_name qs"
  using seen_below_names by (auto simp: visible_def split: sum.splits)

lemma join_entries_inj:
  assumes "list_all entry_name qs" "list_all entry_name qs'" "qs \<noteq> []" "qs' \<noteq> []" "join ''/'' qs = join ''/'' qs'"
  shows "qs = qs'"
proof -
  have "split_on (CHR ''/'') (join ''/'' rs) = rs" if "list_all entry_name rs" "rs \<noteq> []" for rs
    using split_join [of rs "CHR ''/''"] that by (simp add: list_all_iff entry_name_def)
  then show ?thesis using assms by metis
qed

lemma walker_run_exact:
  assumes tidy: "tidy_os fs" and segs: "segments \<noteq> []" "names_ok segments"
    and run: "walker_run n (pattern_walker fs l pkg pattern) segments = Some (Inr found)"
  shows "set found = {(join ''/'' qs, k = IsDir) |qs k. visible fs l pkg qs = Some k \<and> qs \<noteq> [] \<and> picks segments k qs}"
proof (cases "os_canonicalize fs (package_dir l pkg)")
  case (Inl e)
  then show ?thesis using run by (auto simp: walker_run_def visible_def pattern_walker_def Let_def split: io_error.splits)
next
  case (Inr real)
  let ?w = "pattern_walker fs l pkg pattern"
  have other: "?w = (pattern_walker fs l pkg [])\<lparr>w_pattern := pattern\<rparr>" by (simp add: pattern_walker_def)
  have hits: "hits_by ?w [] real (picks segments) = {(join ''/'' qs, k = IsDir) |qs k. visible fs l pkg qs = Some k \<and> qs \<noteq> [] \<and> picks segments k qs}"
    unfolding hits_by_def other seen_below_pattern by (simp add: visible_def Inr)
  have "visit_dir n ?w [] (join ''/'' []) real segments [] = Some (Inr found)"
    using run Inr by (simp add: walker_run_def pattern_walker_def Let_def)
  then have "grows [] (hits_by ?w [] real (picks segments)) found"
    using goes_rightD [OF visit_dir_grows, of ?w "[]" segments] segs tidy by (simp add: pattern_walker_def)
  then have keys: "fst ` set found = fst ` hits_by ?w [] real (picks segments)" and sub: "set found \<subseteq> hits_by ?w [] real (picks segments)"
    by (auto simp: grows_def)
  have "(p, b) \<in> set found" if hit: "(p, b) \<in> hits_by ?w [] real (picks segments)" for p b
  proof -
    obtain b' where b': "(p, b') \<in> set found" 
    proof -
      have "p \<in> fst ` set found" unfolding keys using hit by force
      then show thesis using that by auto
    qed
    then have "(p, b') \<in> hits_by ?w [] real (picks segments)" using sub by blast
    then obtain qs' k' where q': "p = join ''/'' qs'" "b' = (k' = IsDir)" "visible fs l pkg qs' = Some k'" "qs' \<noteq> []" unfolding hits by blast
    obtain qs k where q: "p = join ''/'' qs" "b = (k = IsDir)" "visible fs l pkg qs = Some k" "qs \<noteq> []" using hit unfolding hits by blast
    have "qs' = qs" by (rule join_entries_inj) (use q q' visible_names in auto)
    then show ?thesis using b' q q' by simp
  qed
  then show ?thesis using sub unfolding hits by (auto simp: subset_antisym)
qed

lemma check_pattern_ok: "check_pattern pattern q = Inr segments \<Longrightarrow> segments \<noteq> [] \<and> names_ok segments"
proof -
  assume ok: "check_pattern pattern q = Inr segments"
  then have "length segments = length (split_on (CHR ''/'') pattern)"
    by (auto simp: check_pattern_def dest!: collect_results_length split: if_splits)
  then show ?thesis using check_pattern_names [OF ok] by (auto simp: names_ok_def entry_name_def)
qed

lemma set_fold_bset_insert: "set (fold bset_insert xs s) = set xs \<union> set s"
  by (induction xs arbitrary: s) auto

lemma sorted_fold_bset_insert: "sorted_wrt (<) s \<Longrightarrow> sorted_wrt (<) (fold bset_insert xs s)"
  by (induction xs arbitrary: s) (auto intro: sorted_bset_insert)

definition listed_for :: "os \<Rightarrow> package_lookup \<Rightarrow> string \<Rightarrow> glob_options \<Rightarrow> segment list \<Rightarrow> string set" where
  "listed_for fs l pkg options segments =
     {join ''/'' qs |qs k. visible fs l pkg qs = Some k \<and> qs \<noteq> [] \<and> picks segments k qs \<and> \<not> (k = IsDir \<and> exclude_directories options)}"

lemma glob_pattern_exact:
  assumes "tidy_os fs" "segments \<noteq> []" "names_ok segments"
    and "glob_pattern n fs l pkg options (pattern, segments) found = Some (Inr found')"
  shows "set found' = set found \<union> listed_for fs l pkg options segments" "sorted_wrt (<) found \<Longrightarrow> sorted_wrt (<) found'"
proof -
  obtain matched where run: "walker_run n (pattern_walker fs l pkg pattern) segments = Some (Inr matched)"
    and f: "found' = fold bset_insert (map fst (filter (\<lambda>(p, is_dir). \<not> (is_dir \<and> exclude_directories options)) matched)) found"
    using assms(4) by (auto simp: glob_pattern_def rc_then_some pattern_walker_def Let_def split: if_splits)
  show "set found' = set found \<union> listed_for fs l pkg options segments"
    unfolding f set_fold_bset_insert listed_for_def using walker_run_exact [OF assms(1-3) run] by (force simp: image_iff)
  show "sorted_wrt (<) found \<Longrightarrow> sorted_wrt (<) found'" unfolding f by (rule sorted_fold_bset_insert)
qed

lemma glob_patterns_exact:
  assumes "tidy_os fs" "\<forall>(pattern, segments) \<in> set ps. segments \<noteq> [] \<and> names_ok segments"
    and "rc_each (glob_pattern n fs l pkg options) ps [] = Some (Inr found)"
  shows "set found = (\<Union>(pattern, segments) \<in> set ps. listed_for fs l pkg options segments) \<and> sorted_wrt (<) found"
proof (rule rc_each_invariant [OF assms(3)])
  show "set [] = (\<Union>(pattern, segments) \<in> {}. listed_for fs l pkg options segments) \<and> sorted_wrt (<) []" by simp
  fix seen :: "(string \<times> segment list) set" and x u v
  assume x: "x \<in> set ps" "set u = (\<Union>(pattern, segments) \<in> seen. listed_for fs l pkg options segments) \<and> sorted_wrt (<) u"
    "glob_pattern n fs l pkg options x u = Some (Inr v)"
  obtain pattern segments where xs: "x = (pattern, segments)" by (cases x)
  then show "set v = (\<Union>(pattern, segments) \<in> insert x seen. listed_for fs l pkg options segments) \<and> sorted_wrt (<) v"
    using glob_pattern_exact [OF assms(1), of segments n l pkg options pattern u v] x assms(2) by auto
qed

lemma compile_patterns_zip:
  assumes "compile_patterns patterns = Inr compiled"
  shows "set (zip patterns compiled) = {(p, segments). p \<in> set patterns \<and> check_pattern p True = Inr segments}"
proof -
  have "map (\<lambda>p. map_err (InvalidPattern p) (check_pattern p True)) patterns = map Inr compiled"
    using assms by (simp add: compile_patterns_def collect_results_Inr)
  then have "list_all2 (\<lambda>p c. check_pattern p True = Inr c) patterns compiled"
    by (induction patterns arbitrary: compiled) (auto simp: map_err_Inr Cons_eq_map_conv)
  then show ?thesis
    by (induction rule: list_all2_induct) auto
qed

lemma excluded_iff:
  assumes "collect_results (map exclude_parse exclude) = Inr excludes"
  shows "p \<in> set (retain_unexcluded excludes found) \<longleftrightarrow>
    p \<in> set found \<and> \<not> (\<exists>x e. x \<in> set exclude \<and> exclude_parse x = Inr e \<and> exclude_matches e p)"
proof -
  have "map exclude_parse exclude = map Inr excludes" using assms by (simp add: collect_results_Inr)
  then have "exclude_parse ` set exclude = Inr ` set excludes" by (metis list.set_map)
  then have "e \<in> set excludes \<longleftrightarrow> (\<exists>x \<in> set exclude. exclude_parse x = Inr e)" for e by (force simp: set_eq_iff image_iff)
  then show ?thesis by (simp add: retain_unexcluded_def list_ex_iff) blast
qed

text \<open>
  C33. What \<open>glob\<close> lists is in order, and is exactly what can be seen of the package, is picked by a pattern, is no directory if these are left
  out, and matches no pattern to exclude.
\<close>

theorem glob_exact:
  assumes "tidy_os fs" and "glob n fs l pkg patterns exclude options = Some (Inr files)"
  shows "sorted_wrt (<) files \<and> set files =
    {join ''/'' qs |qs k pattern segments. visible fs l pkg qs = Some k \<and> qs \<noteq> []
       \<and> pattern \<in> set patterns \<and> check_pattern pattern True = Inr segments \<and> picks segments k qs
       \<and> \<not> (k = IsDir \<and> exclude_directories options)
       \<and> \<not> (\<exists>x e. x \<in> set exclude \<and> exclude_parse x = Inr e \<and> exclude_matches e (join ''/'' qs))}"
proof -
  obtain compiled excludes found where c: "compile_patterns patterns = Inr compiled" and x: "collect_results (map exclude_parse exclude) = Inr excludes"
    and f: "rc_each (glob_pattern n fs l pkg options) (zip patterns compiled) [] = Some (Inr found)" and files: "files = retain_unexcluded excludes found"
    using assms(2) by (auto simp: glob_def rc_then_some Let_def split: sum.splits if_splits)
  have "\<forall>(pattern, segments) \<in> set (zip patterns compiled). segments \<noteq> [] \<and> names_ok segments"
    unfolding compile_patterns_zip [OF c] using check_pattern_ok by blast
  from glob_patterns_exact [OF assms(1) this f]
  have found: "set found = (\<Union>(pattern, segments) \<in> {(p, segments). p \<in> set patterns \<and> check_pattern p True = Inr segments}. listed_for fs l pkg options segments)"
    and sorted: "sorted_wrt (<) found" unfolding compile_patterns_zip [OF c] by auto
  show ?thesis
  proof
    show "sorted_wrt (<) files" unfolding files retain_unexcluded_def by (rule sorted_wrt_filter [OF sorted])
    show "set files =
      {join ''/'' qs |qs k pattern segments. visible fs l pkg qs = Some k \<and> qs \<noteq> []
         \<and> pattern \<in> set patterns \<and> check_pattern pattern True = Inr segments \<and> picks segments k qs
         \<and> \<not> (k = IsDir \<and> exclude_directories options)
         \<and> \<not> (\<exists>x e. x \<in> set exclude \<and> exclude_parse x = Inr e \<and> exclude_matches e (join ''/'' qs))}"
      (is "_ = ?right")
    proof (rule set_eqI)
      fix p
      define kept where "kept q \<longleftrightarrow> \<not> (\<exists>x e. x \<in> set exclude \<and> exclude_parse x = Inr e \<and> exclude_matches e q)" for q
      have "p \<in> set files \<longleftrightarrow> p \<in> set found \<and> kept p" unfolding files kept_def by (rule excluded_iff [OF x])
      also have "\<dots> \<longleftrightarrow> (\<exists>pattern segments. pattern \<in> set patterns \<and> check_pattern pattern True = Inr segments
          \<and> p \<in> listed_for fs l pkg options segments) \<and> kept p" unfolding found by simp
      also have "\<dots> \<longleftrightarrow> p \<in> ?right" unfolding listed_for_def mem_Collect_eq kept_def [symmetric] by blast
      finally show "p \<in> set files \<longleftrightarrow> p \<in> ?right" .
    qed
  qed
qed

section \<open>An example\<close>

text \<open>A package with a file, a directory with two more and a directory that is a package of its own.\<close>

definition small_package :: plain_disk where
  "small_package = [([], IsDir), ([Normal ''r''], IsDir), ([Normal ''r'', Normal ''a.txt''], IsFile), ([Normal ''r'', Normal ''sub''], IsDir),
     ([Normal ''r'', Normal ''sub'', Normal ''b.txt''], IsFile), ([Normal ''r'', Normal ''sub'', Normal ''c.rs''], IsFile),
     ([Normal ''r'', Normal ''pkg''], IsDir), ([Normal ''r'', Normal ''pkg'', Normal ''BUILD''], IsFile),
     ([Normal ''r'', Normal ''pkg'', Normal ''d.txt''], IsFile)]"

definition bare_lookup :: package_lookup where
  "bare_lookup = \<lparr>lookup_root = [Normal ''r''], ignored = [], ignore_patterns = [], deleted = [], skipped_at_root = []\<rparr>"

theorem glob_exact_witness:
  "glob 9 (plain_os small_package) bare_lookup [] [''**/*.txt'', ''sub/*''] [''sub/c*''] \<lparr>exclude_directories = True, allow_empty = False\<rparr>
     = Some (Inr [''a.txt'', ''sub/b.txt''])
   \<and> sorted_wrt (<) [''a.txt'', ''sub/b.txt'']
   \<and> (\<exists>qs k pattern. ''a.txt'' = join ''/'' qs \<and> visible (plain_os small_package) bare_lookup [] qs = Some k \<and> pattern \<in> set [''**/*.txt'', ''sub/*''])"
proof -
  have tidy: "tidy_os (plain_os small_package)" by (rule plain_os_tidy) code_simp
  have run: "glob 9 (plain_os small_package) bare_lookup [] [''**/*.txt'', ''sub/*''] [''sub/c*''] \<lparr>exclude_directories = True, allow_empty = False\<rparr>
     = Some (Inr [''a.txt'', ''sub/b.txt''])" by code_simp
  note exact = glob_exact [OF tidy run]
  have "''a.txt'' \<in> set [''a.txt'', ''sub/b.txt'']" by simp
  then have "\<exists>qs k pattern. ''a.txt'' = join ''/'' qs \<and> visible (plain_os small_package) bare_lookup [] qs = Some k
      \<and> pattern \<in> set [''**/*.txt'', ''sub/*'']"
    using exact by blast
  then show ?thesis using run exact by blast
qed

end
