(* ===== verification/Glob_Ends.thy ===== *)
theory Glob_Ends
  imports Glob_Correct
begin

text \<open>
  The walk of \<open>glob()\<close> ends (\<open>crates/fjfj-loading/src/glob.rs\<close>): a link is only followed to a directory that is not being walked, and between two links the
  paths get longer. The same for \<open>subpackages()\<close>, with what it lists.
\<close>

section \<open>More fuel\<close>

definition extends :: "goes \<Rightarrow> goes \<Rightarrow> bool" where
  "extends go go' \<longleftrightarrow> (\<forall>dir real segments found y. go dir real segments found = Some y \<longrightarrow> go' dir real segments found = Some y)"

lemma descend_into_extends:
  "extends go go' \<Longrightarrow> descend_into go w dir segments x found = Some y \<Longrightarrow> descend_into go' w dir segments x found = Some y"
  by (cases "(go, w, dir, segments, x, found)" rule: descend_into.cases) (auto simp: extends_def split: if_splits)

lemma descend_all_extends:
  "extends go go' \<Longrightarrow> descend_all go w anc dir real segments found = Some y \<Longrightarrow> descend_all go' w anc dir real segments found = Some y"
  using descend_into_extends by (fastforce simp: descend_all_def split: sum.splits elim!: rc_each_mono)

lemma step_into_extends: "extends go go' \<Longrightarrow> step_into go w dir rest x found = Some y \<Longrightarrow> step_into go' w dir rest x found = Some y"
  by (cases x) (auto simp: extends_def split: if_splits)

lemma step_name_extends:
  "extends go go' \<Longrightarrow> step_name go w anc dir real pattern rest found = Some y \<Longrightarrow> step_name go' w anc dir real pattern rest found = Some y"
  using step_into_extends by (fastforce simp: step_name_def split: sum.splits elim!: rc_each_mono)

lemma visit_dir_more: "extends (visit_dir n w anc) (visit_dir (Suc n) w anc)"
proof (induction n arbitrary: anc)
  case 0
  show ?case by (simp add: extends_def)
next
  case (Suc n)
  have go: "extends (visit_dir n w (anc @ [real])) (visit_dir (Suc n) w (anc @ [real]))" for real by (rule Suc.IH)
  show ?case unfolding extends_def
  proof (intro allI impI)
    fix dir real segments found y
    assume res: "visit_dir (Suc n) w anc dir real segments found = Some y"
    show "visit_dir (Suc (Suc n)) w anc dir real segments found = Some y"
    proof (cases segments)
      case (Cons first rest)
      note desc = descend_all_extends [OF go [of real]] and step = step_name_extends [OF go [of real]]
      show ?thesis
      proof (cases first)
        case (Name pattern)
        then show ?thesis using res Cons step by (auto simp: visit_dir.simps(3) Let_def simp del: visit_dir.simps(2))
      next
        case Recursive
        have zero: "visit_dir n w (anc @ [real]) dir real rest found = Some z \<Longrightarrow> visit_dir (Suc n) w (anc @ [real]) dir real rest found = Some z" for z
          using go unfolding extends_def by blast
        show ?thesis
        proof (cases "rest = []")
          case True
          then show ?thesis using res Cons Recursive desc by (auto simp: visit_dir.simps(3) Let_def split: if_splits)
        next
          case False
          then obtain z where z: "visit_dir n w (anc @ [real]) dir real rest found = Some z"
            using res Cons Recursive by (cases "visit_dir n w (anc @ [real]) dir real rest found") (auto simp: visit_dir.simps(3) Let_def)
          then show ?thesis using res Cons Recursive False desc zero [OF z]
            by (cases z) (auto simp: visit_dir.simps(3) [of "Suc n"] visit_dir.simps(3) [of n] Let_def split: if_splits)
        qed
      qed
    qed (use res in simp)
  qed
qed

lemma extends_trans: "extends a b \<Longrightarrow> extends b c \<Longrightarrow> extends a c"
  unfolding extends_def by blast

lemma visit_dir_le: "n \<le> m \<Longrightarrow> extends (visit_dir n w anc) (visit_dir m w anc)"
proof (induction m)
  case 0
  then show ?case by (simp add: extends_def)
next
  case (Suc m)
  then show ?case using visit_dir_more extends_trans by (cases "n = Suc m") (auto simp: extends_def)
qed

section \<open>The walk ends\<close>

text \<open>The directories a walk can come to from the real path of the package, by name and real path.\<close>

inductive leads :: "walker \<Rightarrow> path \<Rightarrow> string \<Rightarrow> path \<Rightarrow> bool" for w root where
  leads_root: "leads w root [] root"
| leads_child: "leads w root dir real \<Longrightarrow> entry_name n \<Longrightarrow> looks w dir real n = Some (IsDir, c) \<Longrightarrow> leads w root (child_name dir n) c"

definition real_dirs :: "walker \<Rightarrow> path \<Rightarrow> path set" where
  "real_dirs w root = {real. \<exists>dir. leads w root dir real}"

lemma classify_dir:
  assumes "classify w anc p real name = Inr (Some (IsDir, c))" "entry_name name"
  shows "c = real @ [Normal name] \<or> c \<notin> set anc"
  using assms by (auto simp: classify_def entry_components split: sum.splits io_error.splits link_kind.splits if_splits)

lemma classified_dir:
  assumes "classified w anc p real keep es = Inr xs" "(n, IsDir, c) \<in> set xs"
  shows "\<exists>q. classify w anc q real n = Inr (Some (IsDir, c))"
  using assms
proof (induction w anc p real keep es arbitrary: xs rule: classified.induct)
  case (4 w anc p real keep name es)
  then show ?case by (force simp: and_then_Inr split: if_splits option.splits)
qed auto

text \<open>The directories among the entries that a walk looks at.\<close>

lemma entries_dirs:
  assumes "tidy_os (w_os w)" "leads w root dir real"
    and "children w anc dir real keep = Inr xs \<or> child w anc dir real name = Inr xs \<and> entry_name name" "(n, IsDir, c) \<in> set xs"
  shows "leads w root (child_name dir n) c" "c = real @ [Normal n] \<or> c \<notin> set anc"
proof -
  have "entry_name n \<and> looks w dir real n = Some (IsDir, c) \<and> (\<exists>q. classify w anc q real n = Inr (Some (IsDir, c)))"
    using assms(3)
  proof
    assume ch: "children w anc dir real keep = Inr xs"
    then have "(n, IsDir, c) \<in> entries_of w [dir] real" using children_looks [OF assms(1), of anc "[dir]"] assms(4) by auto
    moreover obtain es where "classified w anc (dir_path w dir) real keep es = Inr xs"
      using ch assms(4) by (auto simp: children_def split: sum.splits io_error.splits)
    ultimately show ?thesis using classified_dir assms(4) by (auto simp: entries_of_def)
  next
    assume ch: "child w anc dir real name = Inr xs \<and> entry_name name"
    then have "(n, IsDir, c) \<in> entries_of w [dir] real" using child_looks [of name w anc "[dir]"] assms(4) by auto
    moreover have "\<exists>q. classify w anc q real n = Inr (Some (IsDir, c))"
      using ch assms(4) by (force simp: child_def and_then_Inr split: option.splits)
    ultimately show ?thesis by (simp add: entries_of_def)
  qed
  then show "leads w root (child_name dir n) c" "c = real @ [Normal n] \<or> c \<notin> set anc"
    using leads_child [OF assms(2)] classify_dir by blast+
qed

definition room :: "path set \<Rightarrow> path list \<Rightarrow> path \<Rightarrow> nat" where
  "room D anc real = card (D - insert real (set anc))"

text \<open>What is left to walk gets less: fewer directories, or longer paths, or a shorter pattern.\<close>

definition walk_order :: "path set \<Rightarrow> ((path list \<times> path \<times> segment list) \<times> (path list \<times> path \<times> segment list)) set" where
  "walk_order D = measures [\<lambda>(anc, real, segments). room D anc real, \<lambda>(anc, real, segments). Max (length ` D) - length real,
     \<lambda>(anc, real, segments). length segments]"

lemma wf_walk_order: "wf (walk_order D)"
  by (simp add: walk_order_def)

lemma walk_order_shorter: "length rest < length segments \<Longrightarrow> ((anc @ [real], real, rest), (anc, real, segments)) \<in> walk_order D"
  by (simp add: walk_order_def room_def)

lemma walk_order_below:
  assumes "finite D" "c \<in> D" "c = real @ [Normal n] \<or> c \<notin> set (anc @ [real])"
  shows "((anc @ [real], c, segments'), (anc, real, segments)) \<in> walk_order D"
proof (cases "c \<in> set (anc @ [real])")
  case True
  then have c: "c = real @ [Normal n]" using assms(3) by simp
  have "length c \<le> Max (length ` D)" using assms(1,2) by simp
  then have "Max (length ` D) - length c < Max (length ` D) - length real" using c by simp
  moreover have "D - insert c (set (anc @ [real])) = D - insert real (set anc)" using True by auto
  ultimately show ?thesis by (simp add: walk_order_def room_def)
next
  case False
  then have "D - insert c (set (anc @ [real])) \<subset> D - insert real (set anc)" using assms(2) by auto
  then have "room D (anc @ [real]) c < room D anc real" unfolding room_def using assms(1) by (intro psubset_card_mono) auto
  then show ?thesis by (simp add: walk_order_def)
qed

definition returns :: "goes \<Rightarrow> string \<Rightarrow> path \<Rightarrow> segment list \<Rightarrow> bool" where
  "returns go dir real segments \<longleftrightarrow> (\<forall>found. go dir real segments found \<noteq> None)"

lemma returns_extends: "extends go go' \<Longrightarrow> returns go dir real segments \<Longrightarrow> returns go' dir real segments"
  unfolding extends_def returns_def by (metis option.exhaust option.distinct(1))

text \<open>Enough fuel for every directory in a list is enough for all.\<close>

lemma fuel_for_all:
  assumes "\<And>x. x \<in> set xs \<Longrightarrow> \<exists>n. returns (visit_dir n w anc) (dir x) (re x) segments"
  shows "\<exists>n. \<forall>x \<in> set xs. returns (visit_dir n w anc) (dir x) (re x) segments"
  using assms
proof (induction xs)
  case (Cons x xs)
  obtain n where n: "returns (visit_dir n w anc) (dir x) (re x) segments" using Cons.prems [of x] by auto
  obtain m where m: "\<forall>y \<in> set xs. returns (visit_dir m w anc) (dir y) (re y) segments" using Cons by auto
  have "returns (visit_dir (max n m) w anc) (dir x) (re x) segments" by (rule returns_extends [OF visit_dir_le n]) simp
  moreover have "returns (visit_dir (max n m) w anc) (dir y) (re y) segments" if "y \<in> set xs" for y
    by (rule returns_extends [OF visit_dir_le [of m]]) (use m that in auto)
  ultimately show ?case by (intro exI [of _ "max n m"]) auto
qed simp

lemma fuel_for_dirs:
  fixes xs :: "entry list"
  assumes "\<And>n c. (n, IsDir, c) \<in> set xs \<Longrightarrow> \<exists>k. returns (visit_dir k w anc) (child_name dir n) c segments"
  shows "\<exists>k. \<forall>n c. (n, IsDir, c) \<in> set xs \<longrightarrow> returns (visit_dir k w anc) (child_name dir n) c segments"
proof -
  let ?dirs = "filter (\<lambda>x. fst (snd x) = IsDir) xs"
  have "\<exists>k. \<forall>x \<in> set ?dirs. returns (visit_dir k w anc) (child_name dir (fst x)) (snd (snd x)) segments"
    by (rule fuel_for_all) (use assms in auto)
  then show ?thesis by fastforce
qed

lemma descend_all_returns:
  assumes "\<And>xs n c. children w anc dir real (\<lambda>_. True) = Inr xs \<Longrightarrow> (n, IsDir, c) \<in> set xs \<Longrightarrow> returns go (child_name dir n) c segments"
  shows "descend_all go w anc dir real segments found \<noteq> None"
proof (cases "children w anc dir real (\<lambda>_. True)")
  case (Inr xs)
  have "descend_into go w dir segments x f \<noteq> None" if "x \<in> set xs" for x f
    using that assms [OF Inr] by (cases "(go, w, dir, segments, x, f)" rule: descend_into.cases) (auto simp: returns_def)
  then show ?thesis using rc_each_total [of xs "descend_into go w dir segments"] Inr by (simp add: descend_all_def)
qed (simp add: descend_all_def)

definition step_list :: "walker \<Rightarrow> path list \<Rightarrow> string \<Rightarrow> path \<Rightarrow> string \<Rightarrow> (glob_error, entry list) result" where
  "step_list w anc dir real pattern =
     (if has_wildcard pattern then children w anc dir real (wildcard_match pattern) else child w anc dir real pattern)"

lemma step_name_returns:
  assumes "\<And>xs n c. step_list w anc dir real pattern = Inr xs \<Longrightarrow> (n, IsDir, c) \<in> set xs \<Longrightarrow> rest \<noteq> [] \<Longrightarrow> returns go (child_name dir n) c rest"
  shows "step_name go w anc dir real pattern rest found \<noteq> None"
proof (cases "step_list w anc dir real pattern")
  case (Inr xs)
  have "step_into go w dir rest x f \<noteq> None" if "x \<in> set xs" for x f
  proof -
    obtain n k c where x: "x = (n, k, c)" by (cases x)
    show ?thesis using that assms [OF Inr, of n c] by (cases k) (auto simp: returns_def x)
  qed
  then show ?thesis using rc_each_total [of xs "step_into go w dir rest"] Inr by (simp add: step_name_def step_list_def)
qed (simp add: step_name_def step_list_def)

lemma visit_dir_returns:
  assumes tidy: "tidy_os (w_os w)" and fin: "finite (real_dirs w root)"
  shows "leads w root dir real \<Longrightarrow> names_ok segments \<Longrightarrow> \<exists>n. returns (visit_dir n w anc) dir real segments"
proof (induction "(anc, real, segments)" arbitrary: anc real segments dir rule: wf_induct_rule [OF wf_walk_order [of "real_dirs w root"]])
  case (1 anc real segments dir)
  let ?anc = "anc @ [real]"
  show ?case
  proof (cases segments)
    case Nil
    then have "returns (visit_dir (Suc 0) w anc) dir real segments" by (simp add: returns_def)
    then show ?thesis by blast
  next
    case (Cons first rest)
    have below: "\<exists>n. returns (visit_dir n w ?anc) (child_name dir m) c segs"
      if "children w ?anc dir real keep = Inr xs \<or> child w ?anc dir real name = Inr xs \<and> entry_name name" "(m, IsDir, c) \<in> set xs" "names_ok segs"
      for keep name xs m c segs
    proof -
      note c = entries_dirs [OF tidy \<open>leads w root dir real\<close> that(1,2)]
      then have "c \<in> real_dirs w root" by (auto simp: real_dirs_def)
      from walk_order_below [OF fin this c(2)] show ?thesis by (rule 1(1) [OF _ c(1) that(3)])
    qed
    show ?thesis
    proof (cases first)
      case (Name pattern)
      then have ok: "names_ok rest" "entry_name pattern" using 1(3) Cons by (auto simp: names_ok_Cons)
      have "\<exists>k. \<forall>n c. (n, IsDir, c) \<in> set xs \<longrightarrow> returns (visit_dir k w ?anc) (child_name dir n) c rest"
        if "step_list w ?anc dir real pattern = Inr xs" for xs
        by (rule fuel_for_dirs, rule below [of "wildcard_match pattern" xs pattern]) (use that ok in \<open>auto simp: step_list_def split: if_splits\<close>)
      then obtain k where "\<And>xs n c. step_list w ?anc dir real pattern = Inr xs \<Longrightarrow> (n, IsDir, c) \<in> set xs \<Longrightarrow> returns (visit_dir k w ?anc) (child_name dir n) c rest"
        by (cases "step_list w ?anc dir real pattern") auto
      then have "returns (visit_dir (Suc k) w anc) dir real segments"
        using step_name_returns [of w ?anc dir real pattern rest "visit_dir k w ?anc"] Cons Name
        by (auto simp: returns_def visit_dir.simps(3) Let_def simp del: not_None_eq)
      then show ?thesis by blast
    next
      case Recursive
      obtain k where k: "\<And>xs n c. children w ?anc dir real (\<lambda>_. True) = Inr xs \<Longrightarrow> (n, IsDir, c) \<in> set xs \<Longrightarrow> returns (visit_dir k w ?anc) (child_name dir n) c segments"
      proof (cases "children w ?anc dir real (\<lambda>_. True)")
        case (Inr xs)
        have "\<exists>k. \<forall>n c. (n, IsDir, c) \<in> set xs \<longrightarrow> returns (visit_dir k w ?anc) (child_name dir n) c segments"
          by (rule fuel_for_dirs, rule below [of "\<lambda>_. True" xs]) (use Inr 1(3) in auto)
        then show ?thesis using that Inr by auto
      qed (use that in simp)
      obtain j where j: "returns (visit_dir j w ?anc) dir real rest"
        using 1(1) [OF walk_order_shorter \<open>leads w root dir real\<close>, of rest] Cons 1(3) by (auto simp: names_ok_Cons)
      let ?m = "max j k"
      have "returns (visit_dir ?m w ?anc) (child_name dir n) c segments"
        if "children w ?anc dir real (\<lambda>_. True) = Inr xs" "(n, IsDir, c) \<in> set xs" for xs n c
        by (rule returns_extends [OF visit_dir_le k [OF that]]) simp
      then have all: "descend_all (visit_dir ?m w ?anc) w ?anc dir real segments f \<noteq> None" for f by (rule descend_all_returns)
      have zero: "visit_dir ?m w ?anc dir real rest f \<noteq> None" for f
        using returns_extends [OF visit_dir_le j, of ?m] by (simp add: returns_def)
      have "visit_dir (Suc ?m) w anc dir real segments f \<noteq> None" for f
        using all zero [of f] Cons Recursive
        by (cases "visit_dir ?m w ?anc dir real rest f" rule: rc_cases) (auto simp: visit_dir.simps(3) Let_def simp del: not_None_eq)
      then show ?thesis unfolding returns_def by blast
    qed
  qed
qed

section \<open>\<open>glob\<close> returns\<close>

lemma leads_pattern: "leads (w\<lparr>w_pattern := x\<rparr>) root dir real \<Longrightarrow> leads w root dir real"
  by (induction rule: leads.induct) (auto simp: looks_pattern intro: leads.intros)

lemma real_dirs_pattern: "real_dirs (w\<lparr>w_pattern := x\<rparr>) root = real_dirs w root"
proof -
  have "(w\<lparr>w_pattern := x\<rparr>)\<lparr>w_pattern := w_pattern w\<rparr> = w" by simp
  then have "leads w root dir real \<longleftrightarrow> leads (w\<lparr>w_pattern := x\<rparr>) root dir real" for dir real
    using leads_pattern [where w = w and x = x] leads_pattern [where w = "w\<lparr>w_pattern := x\<rparr>" and x = "w_pattern w"] by metis
  then show ?thesis by (simp add: real_dirs_def)
qed

lemma walker_run_le:
  assumes "walker_run n w segments = Some r" "n \<le> m" shows "walker_run m w segments = Some r"
  using assms visit_dir_le [of n m w "[]"] unfolding walker_run_def extends_def Let_def by (auto split: sum.splits io_error.splits)

lemma walker_run_returns:
  assumes "tidy_os fs" "names_ok segments"
    "\<And>real. os_canonicalize fs (package_dir l pkg) = Inr real \<Longrightarrow> finite (real_dirs (pattern_walker fs l pkg pattern) real)"
  shows "\<exists>n. walker_run n (pattern_walker fs l pkg pattern) segments \<noteq> None"
proof (cases "os_canonicalize fs (package_dir l pkg)")
  case (Inl e)
  then have "walker_run 0 (pattern_walker fs l pkg pattern) segments \<noteq> None"
    by (simp add: walker_run_def pattern_walker_def Let_def split: io_error.split)
  then show ?thesis by blast
next
  case (Inr real)
  then have "\<exists>n. returns (visit_dir n (pattern_walker fs l pkg pattern) []) [] real segments"
    using visit_dir_returns [OF _ assms(3) [OF Inr] leads_root assms(2)] assms(1) by (simp add: pattern_walker_def)
  then obtain n where "visit_dir n (pattern_walker fs l pkg pattern) [] [] real segments [] \<noteq> None" unfolding returns_def by blast
  then have "walker_run n (pattern_walker fs l pkg pattern) segments \<noteq> None"
    using Inr by (simp add: walker_run_def pattern_walker_def Let_def)
  then show ?thesis by blast
qed

lemma glob_pattern_le:
  assumes "glob_pattern n fs l pkg options x found = Some r" "n \<le> m" shows "glob_pattern m fs l pkg options x found = Some r"
proof -
  obtain pattern segments where x: "x = (pattern, segments)" by (cases x)
  let ?w = "\<lparr>w_os = fs, w_lookup = l, w_package = pkg, w_pattern = pattern\<rparr>"
  obtain y where "walker_run n ?w segments = Some y"
    using assms(1) x by (cases "walker_run n ?w segments") (auto simp: glob_pattern_def)
  then show ?thesis using walker_run_le [of n ?w segments y m] assms x by (simp add: glob_pattern_def)
qed

lemma glob_patterns_return:
  assumes "\<And>pattern segments. (pattern, segments) \<in> set ps \<Longrightarrow> \<exists>n. walker_run n (pattern_walker fs l pkg pattern) segments \<noteq> None"
  shows "\<exists>n. \<forall>m \<ge> n. \<forall>x \<in> set ps. \<forall>found. glob_pattern m fs l pkg options x found \<noteq> None"
  using assms
proof (induction ps)
  case (Cons x ps)
  obtain pattern segments where x: "x = (pattern, segments)" by (cases x)
  obtain n where "walker_run n (pattern_walker fs l pkg pattern) segments \<noteq> None" using Cons.prems [of pattern segments] x by auto
  then obtain r where r: "walker_run n (pattern_walker fs l pkg pattern) segments = Some r" by blast
  have "glob_pattern m fs l pkg options x found \<noteq> None" if "n \<le> m" for m found
    using walker_run_le [OF r that] x by (cases r) (auto simp: glob_pattern_def pattern_walker_def Let_def)
  moreover obtain k where "\<forall>m \<ge> k. \<forall>y \<in> set ps. \<forall>found. glob_pattern m fs l pkg options y found \<noteq> None" using Cons by auto
  ultimately show ?case by (intro exI [of _ "max n k"]) (simp del: not_None_eq)
qed simp

text \<open>
  C35. \<open>glob\<close> always returns, however links lead round in circles, when the directories that can be reached are finitely many: from some
  fuel on there is a result.
\<close>

theorem glob_returns:
  assumes "tidy_os fs"
    and "\<And>real. os_canonicalize fs (package_dir l pkg) = Inr real \<Longrightarrow> finite (real_dirs (pattern_walker fs l pkg []) real)"
  shows "\<exists>n. \<forall>m \<ge> n. \<exists>r. glob m fs l pkg patterns exclude options = Some r"
proof (cases "\<exists>compiled. compile_patterns patterns = Inr compiled")
  case True
  then obtain compiled where c: "compile_patterns patterns = Inr compiled" by blast
  have same: "pattern_walker fs l pkg pattern = (pattern_walker fs l pkg [])\<lparr>w_pattern := pattern\<rparr>" for pattern by (simp add: pattern_walker_def)
  have "real_dirs (pattern_walker fs l pkg pattern) real = real_dirs (pattern_walker fs l pkg []) real" for pattern real
    unfolding same [of pattern] by (rule real_dirs_pattern)
  then have D: "finite (real_dirs (pattern_walker fs l pkg pattern) real)" if "os_canonicalize fs (package_dir l pkg) = Inr real" for pattern real
    using assms(2) [OF that] by metis
  have "\<exists>n. walker_run n (pattern_walker fs l pkg pattern) segments \<noteq> None" if "(pattern, segments) \<in> set (zip patterns compiled)" for pattern segments
    by (rule walker_run_returns [OF assms(1) _ D])
      (use that check_pattern_ok in \<open>auto simp: compile_patterns_zip [OF c]\<close>)
  from glob_patterns_return [OF this, of "zip patterns compiled" options]
  obtain n where n: "\<forall>m \<ge> n. \<forall>x \<in> set (zip patterns compiled). \<forall>found. glob_pattern m fs l pkg options x found \<noteq> None" by blast
  have "\<exists>r. glob m fs l pkg patterns exclude options = Some r" if "n \<le> m" for m
  proof -
    have "rc_each (glob_pattern m fs l pkg options) (zip patterns compiled) [] \<noteq> None"
      by (rule rc_each_total) (use n \<open>n \<le> m\<close> in blast)
    then obtain r where "rc_each (glob_pattern m fs l pkg options) (zip patterns compiled) [] = Some r" by blast
    then show ?thesis using c by (cases r) (auto simp: glob_def Let_def split: sum.split)
  qed
  then show ?thesis by blast
next
  case False
  then show ?thesis by (auto simp: glob_def split: sum.split)
qed

text \<open>Without links, and for the package at the root, the directories are those there are.\<close>

lemma plain_leads:
  assumes "leads (pattern_walker (plain_os d) l [] []) (lookup_root l) dir real"
  shows "\<exists>ps. dir = join ''/'' ps \<and> list_all entry_name ps \<and> real = lookup_root l @ map Normal ps \<and> (ps = [] \<or> real \<in> fst ` set d)"
  using assms
proof induction
  case (leads_child dir real n c)
  then obtain ps where ps: "dir = join ''/'' ps" "list_all entry_name ps" "real = lookup_root l @ map Normal ps" by blast
  have "dir_path (pattern_walker (plain_os d) l [] []) dir = real"
  proof (cases "ps = []")
    case False
    then have "plain_segments ps" using ps(2) by (auto simp: plain_segments_def entry_name_def list_all_iff)
    from components_join [OF this] show ?thesis
      using False ps join_entry_nil [OF ps(2)] by (simp add: dir_path_def pattern_walker_def package_dir_def qualified_name_def path_join_def)
  qed (use ps in \<open>simp add: dir_path_def pattern_walker_def package_dir_def qualified_name_def\<close>)
  then have "map_of d (real @ [Normal n]) = Some IsDir \<and> c = real @ [Normal n]"
    using leads_child.hyps by (auto simp: looks_def pattern_walker_def plain_os_def entry_components split: option.splits file_kind.splits)
  then show ?case using ps leads_child.hyps join_entry [OF ps(2)]
    by (intro exI [of _ "ps @ [n]"]) (force dest: map_of_SomeD)
qed (auto intro!: exI [of _ "[]"])

lemma plain_real_dirs: "finite (real_dirs (pattern_walker (plain_os d) l [] []) (lookup_root l))"
proof (rule finite_subset)
  show "real_dirs (pattern_walker (plain_os d) l [] []) (lookup_root l) \<subseteq> insert (lookup_root l) (fst ` set d)"
    using plain_leads by (fastforce simp: real_dirs_def)
qed simp

theorem glob_returns_witness:
  "\<exists>n. \<exists>r. glob n (plain_os small_package) bare_lookup [] [''**''] [] \<lparr>exclude_directories = True, allow_empty = False\<rparr> = Some r"
proof -
  have "tidy_os (plain_os small_package)" by (rule plain_os_tidy) code_simp
  moreover have "finite (real_dirs (pattern_walker (plain_os small_package) bare_lookup [] []) real)"
    if "os_canonicalize (plain_os small_package) (package_dir bare_lookup []) = Inr real" for real
    using that plain_real_dirs [of small_package bare_lookup] by (auto simp: package_dir_def plain_os_def split: if_splits)
  ultimately show ?thesis using glob_returns [of "plain_os small_package" bare_lookup "[]"] by blast
qed

section \<open>Subpackages\<close>

text \<open>The directories right below one that are not ignored.\<close>

definition open_below :: "os \<Rightarrow> package_lookup \<Rightarrow> string \<Rightarrow> string \<Rightarrow> string set" where
  "open_below fs l pkg rel =
     {child_name rel n |n real es. os_canonicalize fs (package_dir l (qualified_name pkg rel)) = Inr real
        \<and> os_read_dir fs (package_dir l (qualified_name pkg rel)) = Inr es \<and> Inr (Some n) \<in> set es
        \<and> os_metadata fs (path_join (package_dir l (qualified_name pkg rel)) n) = Inr IsDir
        \<and> \<not> is_ignored l (qualified_name pkg (child_name rel n))}"

text \<open>The directories of a package, which are not packages themselves.\<close>

inductive own_dir :: "os \<Rightarrow> package_lookup \<Rightarrow> string \<Rightarrow> string \<Rightarrow> bool" for fs l pkg where
  own_root: "own_dir fs l pkg []"
| own_below: "own_dir fs l pkg rel \<Longrightarrow> c \<in> open_below fs l pkg rel \<Longrightarrow> \<not> is_package fs l (qualified_name pkg c) \<Longrightarrow> own_dir fs l pkg c"

definition nearest_packages :: "os \<Rightarrow> package_lookup \<Rightarrow> string \<Rightarrow> string set" where
  "nearest_packages fs l pkg = {c. \<exists>rel. own_dir fs l pkg rel \<and> c \<in> open_below fs l pkg rel \<and> is_package fs l (qualified_name pkg c)}"

lemma map_filter_names: "set (List.map_filter (\<lambda>e. case e of Inr (Some n) \<Rightarrow> Some n | _ \<Rightarrow> None) es) = {n. Inr (Some n) \<in> set es}"
  by (force simp: map_filter_def image_iff split: sum.splits option.splits)

lemma subpackage_visit_sets:
  "found_in (subpackage_visit fs l pkg rel) = {c \<in> open_below fs l pkg rel. is_package fs l (qualified_name pkg c)}"
  "next_in (subpackage_visit fs l pkg rel) = {c \<in> open_below fs l pkg rel. \<not> is_package fs l (qualified_name pkg c)}"
  by (auto simp: subpackage_visit_def open_below_def Let_def map_filter_names split: sum.split)

lemma subpackage_visit_real:
  "real_of (subpackage_visit fs l pkg rel) = Some real \<longleftrightarrow> os_canonicalize fs (package_dir l (qualified_name pkg rel)) = Inr real"
  "\<not> fails_with (subpackage_visit fs l pkg rel) e"
  by (auto simp: subpackage_visit_def Let_def split: sum.split)

lemma walk_reach_next: "n \<in> walk_reach visit roots \<Longrightarrow> m \<in> next_in (visit n) \<Longrightarrow> m \<in> walk_reach visit roots"
  by (rule subsetD [OF next_in_reach])

lemma own_dir_reach: "walk_reach (subpackage_visit fs l pkg) {[]} = {rel. own_dir fs l pkg rel}"
proof (intro set_eqI iffI CollectI)
  show "own_dir fs l pkg n" if "n \<in> walk_reach (subpackage_visit fs l pkg) {[]}" for n
    using that
  proof induction
    case (walk_below n real found below m)
    then have "m \<in> next_in (subpackage_visit fs l pkg n)" by simp
    then show ?case using walk_below.IH by (auto simp: subpackage_visit_sets intro: own_below)
  qed (simp add: own_root)
  show "n \<in> walk_reach (subpackage_visit fs l pkg) {[]}" if "n \<in> {rel. own_dir fs l pkg rel}" for n
  proof -
    from that have "own_dir fs l pkg n" by simp
    then show ?thesis
    proof induction
      case (own_below rel c)
      show ?case by (rule walk_reach_next [OF own_below.IH]) (use own_below in \<open>simp add: subpackage_visit_sets\<close>)
    qed (simp add: walk_root)
  qed
qed

definition own_names :: "os \<Rightarrow> package_lookup \<Rightarrow> string \<Rightarrow> bool" where
  "own_names fs l pkg \<longleftrightarrow> (\<forall>n m real. own_dir fs l pkg n \<longrightarrow> own_dir fs l pkg m
     \<longrightarrow> os_canonicalize fs (package_dir l (qualified_name pkg n)) = Inr real
     \<longrightarrow> os_canonicalize fs (package_dir l (qualified_name pkg m)) = Inr real \<longrightarrow> n = m)"

lemma subpackage_walk:
  assumes "finite {real. \<exists>p. os_canonicalize fs p = Inr real}"
  shows "\<exists>every. walk_dirs (subpackage_visit fs l pkg) [[]] [] [] = Some (Inr every) \<and> set every \<subseteq> nearest_packages fs l pkg
    \<and> (own_names fs l pkg \<longrightarrow> set every = nearest_packages fs l pkg)"
proof -
  let ?v = "subpackage_visit fs l pkg"
  have "{real. \<exists>n. real_of (?v n) = Some real} \<subseteq> {real. \<exists>p. os_canonicalize fs p = Inr real}" using subpackage_visit_real(1) by blast
  then obtain r where r: "walk_dirs ?v [[]] [] [] = Some r" "walked_to ?v {[]} r"
    using walk_dirs_exact [of ?v "[[]]"] assms finite_subset by fastforce
  have near: "(\<Union>n \<in> walk_reach ?v {[]}. found_in (?v n)) = nearest_packages fs l pkg"
    unfolding own_dir_reach subpackage_visit_sets nearest_packages_def by blast
  have "no_aliases ?v {[]}" if "own_names fs l pkg"
    unfolding no_aliases_def own_dir_reach
  proof (intro ballI impI)
    fix n m assume nm: "n \<in> {rel. own_dir fs l pkg rel}" "m \<in> {rel. own_dir fs l pkg rel}" "real_of (?v n) \<noteq> None" "real_of (?v n) = real_of (?v m)"
    then obtain real where "real_of (?v n) = Some real" "real_of (?v m) = Some real" by auto
    then show "n = m" using that nm(1,2) unfolding subpackage_visit_real(1) own_names_def by blast
  qed
  then show ?thesis using r near subpackage_visit_real(2) by (cases r) (auto simp: walked_to_def)
qed

text \<open>What \<open>subpackages\<close> may list.\<close>

definition picked_packages :: "os \<Rightarrow> package_lookup \<Rightarrow> string \<Rightarrow> string list \<Rightarrow> string list \<Rightarrow> string set" where
  "picked_packages fs l pkg patterns exclude =
     {p \<in> nearest_packages fs l pkg.
        (\<exists>pattern segments. pattern \<in> set patterns \<and> check_pattern pattern True = Inr segments
           \<and> segments_match_with segments (split_on (CHR ''/'') p) False)
        \<and> \<not> (\<exists>x e. x \<in> set exclude \<and> exclude_parse x = Inr e \<and> exclude_matches e p)}"

lemma subpackage_patterns:
  assumes "rc_each (subpackage_pattern every empty_ok) ps [] = Some (Inr found)"
  shows "set found = {p \<in> set every. \<exists>x \<in> set ps. segments_match_with (snd x) (split_on (CHR ''/'') p) False} \<and> sorted_wrt (<) found"
proof (rule rc_each_invariant [OF assms])
  fix seen :: "(string \<times> segment list) set" and x u v
  assume u: "set u = {p \<in> set every. \<exists>x \<in> seen. segments_match_with (snd x) (split_on (CHR ''/'') p) False} \<and> sorted_wrt (<) u"
    and v: "subpackage_pattern every empty_ok x u = Some (Inr v)"
  have "v = fold bset_insert (filter (\<lambda>p. segments_match_with (snd x) (split_on (CHR ''/'') p) False) every) u"
    using v by (cases x) (auto simp: subpackage_pattern_def Let_def split: if_splits)
  then show "set v = {p \<in> set every. \<exists>y \<in> insert x seen. segments_match_with (snd y) (split_on (CHR ''/'') p) False} \<and> sorted_wrt (<) v"
    using u by (auto simp: set_fold_bset_insert intro: sorted_fold_bset_insert)
qed simp

lemma subpackage_pattern_returns: "subpackage_pattern every empty_ok x found \<noteq> None"
  by (cases x) (simp add: subpackage_pattern_def Let_def)

text \<open>
  \<open>subpackages\<close> always returns when there are finitely many directories. It lists, in order, packages that are nearest to the package, match a
  pattern and none to exclude, and all of them when no directory is met under two names.
\<close>

theorem subpackages_exact:
  assumes "finite {real. \<exists>p. os_canonicalize fs p = Inr real}"
  shows "\<exists>r. subpackages fs l pkg patterns exclude empty_ok = Some r
    \<and> (\<forall>ps. r = Inr ps \<longrightarrow> sorted_wrt (<) ps \<and> set ps \<subseteq> picked_packages fs l pkg patterns exclude
         \<and> (own_names fs l pkg \<longrightarrow> set ps = picked_packages fs l pkg patterns exclude))"
proof (cases "\<exists>compiled excludes. compile_patterns patterns = Inr compiled \<and> collect_results (map exclude_parse exclude) = Inr excludes")
  case False
  then show ?thesis by (auto simp: subpackages_def split: sum.split)
next
  case True
  then obtain compiled excludes where c: "compile_patterns patterns = Inr compiled" and x: "collect_results (map exclude_parse exclude) = Inr excludes" by blast
  obtain every where every: "walk_dirs (subpackage_visit fs l pkg) [[]] [] [] = Some (Inr every)" "set every \<subseteq> nearest_packages fs l pkg"
    "own_names fs l pkg \<longrightarrow> set every = nearest_packages fs l pkg" using subpackage_walk [OF assms] by blast
  obtain r where r: "rc_each (subpackage_pattern (sort every) empty_ok) (zip patterns compiled) [] = Some r"
    using rc_each_total [of "zip patterns compiled" "subpackage_pattern (sort every) empty_ok" "[]"] subpackage_pattern_returns by blast
  show ?thesis
  proof (cases r)
    case (Inl e)
    then show ?thesis using c x every(1) r by (simp add: subpackages_def)
  next
    case (Inr found)
    then have found: "set found = {p \<in> set every. \<exists>pattern segments. pattern \<in> set patterns \<and> check_pattern pattern True = Inr segments
          \<and> segments_match_with segments (split_on (CHR ''/'') p) False}" "sorted_wrt (<) found"
      using subpackage_patterns [of "sort every" empty_ok "zip patterns compiled" found] r compile_patterns_zip [OF c] by auto
    have "sorted_wrt (<) (retain_unexcluded excludes found)" unfolding retain_unexcluded_def by (rule sorted_wrt_filter [OF found(2)])
    moreover have "set (retain_unexcluded excludes found) = {p \<in> set every. p \<in> picked_packages fs l pkg patterns exclude}"
      unfolding set_eq_iff excluded_iff [OF x] found(1) picked_packages_def mem_Collect_eq using every(2) by blast
    moreover have "picked_packages fs l pkg patterns exclude \<subseteq> nearest_packages fs l pkg" by (auto simp: picked_packages_def)
    ultimately show ?thesis using c x every r Inr by (auto simp: subpackages_def Let_def)
  qed
qed

theorem subpackages_exact_witness:
  "subpackages (plain_os small_package) bare_lookup [] [''*''] [] False = Some (Inr [''pkg''])
   \<and> set [''pkg''] \<subseteq> picked_packages (plain_os small_package) bare_lookup [] [''*''] []"
proof -
  have "subpackages (plain_os small_package) bare_lookup [] [''*''] [] False = Some (Inr [''pkg''])" by code_simp
  then show ?thesis using subpackages_exact [OF plain_os_finite, of small_package bare_lookup "[]" "[''*'']" "[]" False] by simp
qed

end
