(* ===== verification/Flag_Registry.thy ===== *)
theory Flag_Registry
  imports Rust_Text
begin

text \<open>
  Bazel's flags (\<open>crates/fjfj-bazel-compat/src\<close>): the registry over the table of flags and the reading of one flag word
  (\<open>flag_registry.rs\<close>), the canonical form of a list of flags (\<open>canonicalize_flags.rs\<close>) and the aliases of build settings
  (\<open>flag_alias.rs\<close>). The generated table of flags is an argument, a list of \<open>flag_info\<close>.
\<close>

section \<open>The registry\<close>

record flag_info =
  fl_name :: string
  has_negative_flag :: bool
  documentation :: string
  fl_commands :: "string list"
  fl_abbreviation :: "string option"
  allows_multiple :: bool
  effect_tags :: "string list"
  metadata_tags :: "string list"
  documentation_category :: string
  requires_value :: bool
  default_value :: "string option"
  old_name :: "string option"
  deprecation_warning :: "string option"
  option_expansions :: "string list"
  type_converter :: "string option"
  enum_values :: "string list"

record flag_registry =
  by_name :: "string \<rightharpoonup> flag_info"
  negatable :: "string \<rightharpoonup> flag_info"
  by_abbreviation :: "string \<rightharpoonup> flag_info"

definition put_old_name :: "flag_info \<Rightarrow> (string \<rightharpoonup> flag_info) \<Rightarrow> (string \<rightharpoonup> flag_info)" where
  "put_old_name f m = (case old_name f of None \<Rightarrow> m | Some old \<Rightarrow> if m old = None then m(old \<mapsto> f) else m)"

definition register_flag :: "flag_registry \<Rightarrow> flag_info \<Rightarrow> flag_registry" where
  "register_flag r f = \<lparr> by_name = put_old_name f ((by_name r)(fl_name f \<mapsto> f)),
     negatable = (if has_negative_flag f then (negatable r)(fl_name f \<mapsto> f) else negatable r),
     by_abbreviation = (case fl_abbreviation f of Some a \<Rightarrow> (by_abbreviation r)(a \<mapsto> f) | None \<Rightarrow> by_abbreviation r) \<rparr>"

definition build_registry :: "flag_info list \<Rightarrow> flag_registry" where
  "build_registry flags = foldl register_flag \<lparr> by_name = Map.empty, negatable = Map.empty, by_abbreviation = Map.empty \<rparr> flags"

definition flag_named :: "flag_registry \<Rightarrow> string \<Rightarrow> flag_info option" where
  "flag_named r name = by_name r name"

section \<open>One flag word\<close>

record flag_match =
  m_flag :: flag_info
  m_negated :: bool
  m_value :: "string option"

record unknown_flag_error =
  unk_token :: string
  unk_command :: string
  known_for :: "string list option"

datatype unknown_flag_policy = Warn | Strict

text \<open>A function that may panic: \<open>None\<close> is the panic, of a slice that would cut a character of several bytes.\<close>

type_synonym ('e, 'a) may_panic = "('e, 'a) result option"

definition split_value :: "string \<Rightarrow> string \<times> string option" where
  "split_value rest = (case split_once (CHR ''='') rest of Some (name, v) \<Rightarrow> (name, Some v) | None \<Rightarrow> (rest, None))"

definition is_continuation :: "char \<Rightarrow> bool" where
  "is_continuation c \<longleftrightarrow> 0x80 \<le> (of_char c :: nat) \<and> (of_char c :: nat) < 0xC0"

text \<open>\<open>&rest[..1]\<close> and \<open>&rest[1..]\<close> of a word that is not empty.\<close>

definition first_byte :: "string \<Rightarrow> (string \<times> string) option" where
  "first_byte rest = (case drop 1 rest of [] \<Rightarrow> Some (rest, []) | c # _ \<Rightarrow> if is_continuation c then None else Some (take 1 rest, drop 1 rest))"

definition unknown :: "string \<Rightarrow> string \<Rightarrow> unknown_flag_error" where
  "unknown token command = \<lparr> unk_token = token, unk_command = command, known_for = None \<rparr>"

definition resolve_long :: "flag_registry \<Rightarrow> string \<Rightarrow> (flag_info \<times> bool \<times> string option) option" where
  "resolve_long r rest =
     (case split_value rest of (name, v) \<Rightarrow>
       case by_name r name of
         Some f \<Rightarrow> Some (f, False, v)
       | None \<Rightarrow>
           (case Option.bind (strip_prefix ''no'' name) (negatable r) of
              Some f \<Rightarrow> if v = None then Some (f, True, None) else None
            | None \<Rightarrow> None))"

definition resolve_short :: "flag_registry \<Rightarrow> string \<Rightarrow> (flag_info \<times> bool \<times> string option) option option" where
  "resolve_short r rest =
     (if rest = [] then Some None
      else map_option (\<lambda>(abbr, v). map_option (\<lambda>f. (f, False, if v = [] then None else Some v)) (by_abbreviation r abbr)) (first_byte rest))"

definition resolve_flag :: "flag_registry \<Rightarrow> string \<Rightarrow> string \<Rightarrow> (unknown_flag_error, flag_match) may_panic" where
  "resolve_flag r token command =
     map_option (\<lambda>found.
       case found of
         None \<Rightarrow> Inl (unknown token command)
       | Some (f, neg, v) \<Rightarrow>
           if command \<in> set (fl_commands f) then Inr \<lparr> m_flag = f, m_negated = neg, m_value = v \<rparr>
           else Inl \<lparr> unk_token = token, unk_command = command, known_for = Some (fl_commands f) \<rparr>)
     (case strip_prefix ''--'' token of
        Some rest \<Rightarrow> Some (resolve_long r rest)
      | None \<Rightarrow> (case strip_prefix ''-'' token of Some rest \<Rightarrow> resolve_short r rest | None \<Rightarrow> Some None))"

definition unknown_display :: "unknown_flag_error \<Rightarrow> string" where
  "unknown_display e =
     (case known_for e of
        Some cs \<Rightarrow> ''unrecognized option '' @ [CHR 0x27] @ unk_token e @ [CHR 0x27] @ '' for command '' @ [CHR 0x27] @ unk_command e @ [CHR 0x27]
          @ '' (known for: '' @ join '', '' cs @ '')''
      | None \<Rightarrow> ''unrecognized option '' @ [CHR 0x27] @ unk_token e @ [CHR 0x27])"

definition apply_policy :: "unknown_flag_error \<Rightarrow> unknown_flag_policy \<Rightarrow> (unknown_flag_error, string) result" where
  "apply_policy e policy = (case policy of Warn \<Rightarrow> Inr (''WARNING: '' @ unknown_display e) | Strict \<Rightarrow> Inl e)"

section \<open>The canonical form\<close>

fun canonicalize :: "flag_registry \<Rightarrow> string \<Rightarrow> string list \<Rightarrow> (unknown_flag_error, string list) may_panic" where
  "canonicalize r command [] = Some (Inr [])"
| "canonicalize r command (arg # iter) =
     (case resolve_flag r arg command of
        None \<Rightarrow> None
      | Some (Inl e) \<Rightarrow> Some (Inl e)
      | Some (Inr m) \<Rightarrow>
          let push = (\<lambda>w. map_option (\<lambda>out. and_then out (\<lambda>ws. Inr (w # ws))))
          in if type_converter (m_flag m) = Some ''Boolean''
             then push (if m_negated m then ''--no'' @ fl_name (m_flag m) else ''--'' @ fl_name (m_flag m)) (canonicalize r command iter)
             else (case m_value m of
                     Some v \<Rightarrow> push (''--'' @ fl_name (m_flag m) @ ''='' @ v) (canonicalize r command iter)
                   | None \<Rightarrow>
                       (case iter of
                          v # iter' \<Rightarrow> push (''--'' @ fl_name (m_flag m) @ ''='' @ v) (canonicalize r command iter')
                        | [] \<Rightarrow> push (''--'' @ fl_name (m_flag m)) (canonicalize r command iter))))"

section \<open>Aliases\<close>

datatype flag_alias_error = MalformedAlias string

type_synonym flag_alias_table = "string \<rightharpoonup> string"

text \<open>The loop of \<open>extract\<close>: the table so far and the words kept, in their order.\<close>

fun extract_loop ::
  "flag_registry \<Rightarrow> flag_alias_table \<Rightarrow> string list \<Rightarrow> string list \<Rightarrow> (flag_alias_error, flag_alias_table \<times> string list) may_panic" where
  "extract_loop r aliases rest [] = Some (Inr (aliases, rest))"
| "extract_loop r aliases rest (arg # iter) =
     (if \<not> prefix ''-'' arg then extract_loop r aliases (rest @ [arg]) iter
      else case resolve_flag r arg ''build'' of
        None \<Rightarrow> None
      | Some (Inl e) \<Rightarrow> extract_loop r aliases (rest @ [arg]) iter
      | Some (Inr m) \<Rightarrow>
          if fl_name (m_flag m) \<noteq> ''flag_alias'' then extract_loop r aliases (rest @ [arg]) iter
          else (case m_value m of
                  Some v \<Rightarrow>
                    (case split_once (CHR ''='') v of
                       Some (name, label) \<Rightarrow> extract_loop r (aliases(name \<mapsto> label)) rest iter
                     | None \<Rightarrow> Some (Inl (MalformedAlias v)))
                | None \<Rightarrow>
                    (case iter of
                       [] \<Rightarrow> Some (Inl (MalformedAlias arg))
                     | v # iter' \<Rightarrow>
                         (case split_once (CHR ''='') v of
                            Some (name, label) \<Rightarrow> extract_loop r (aliases(name \<mapsto> label)) rest iter'
                          | None \<Rightarrow> Some (Inl (MalformedAlias v))))))"

definition extract_aliases :: "flag_registry \<Rightarrow> string list \<Rightarrow> (flag_alias_error, flag_alias_table \<times> string list) may_panic" where
  "extract_aliases r args = extract_loop r Map.empty [] args"

definition apply_alias :: "flag_alias_table \<Rightarrow> string \<Rightarrow> string" where
  "apply_alias aliases arg =
     (case strip_prefix ''--'' arg of
        None \<Rightarrow> arg
      | Some rest \<Rightarrow>
          (case split_value rest of (name, v) \<Rightarrow>
             case aliases name of
               Some label \<Rightarrow> (case v of Some x \<Rightarrow> ''--'' @ label @ ''='' @ x | None \<Rightarrow> ''--'' @ label)
             | None \<Rightarrow> arg))"

definition apply_aliases :: "flag_alias_table \<Rightarrow> string list \<Rightarrow> string list" where
  "apply_aliases aliases args = map (apply_alias aliases) args"

section \<open>What the registry finds\<close>

text \<open>What the sources rely on of the table: names are different and not empty, and have no \<open>=\<close>.\<close>

definition table_ok :: "flag_info list \<Rightarrow> bool" where
  "table_ok flags \<longleftrightarrow> distinct (map fl_name flags)
     \<and> list_all (\<lambda>f. list_all (\<lambda>n. n \<noteq> [] \<and> CHR ''='' \<notin> set n) (fl_name f # (case old_name f of Some n \<Rightarrow> [n] | None \<Rightarrow> []))) flags"

lemma put_old_name_apply:
  "put_old_name f m n = (case m n of Some g \<Rightarrow> Some g | None \<Rightarrow> if old_name f = Some n then Some f else None)"
  by (auto simp: put_old_name_def split: option.split)

lemma build_append: "build_registry (flags @ [f]) = register_flag (build_registry flags) f"
  by (simp add: build_registry_def)

lemma find_append: "find P (xs @ ys) = (case find P xs of Some x \<Rightarrow> Some x | None \<Rightarrow> find P ys)"
  by (induction xs) simp_all

lemma by_name_exact:
  assumes "distinct (map fl_name flags)"
  shows "by_name (build_registry flags) n =
    (case find (\<lambda>f. fl_name f = n) flags of Some f \<Rightarrow> Some f | None \<Rightarrow> find (\<lambda>f. old_name f = Some n) flags)"
  using assms
proof (induction flags rule: rev_induct)
  case Nil
  then show ?case by (simp add: build_registry_def)
next
  case (snoc f flags)
  then have ih: "by_name (build_registry flags) n =
    (case find (\<lambda>f. fl_name f = n) flags of Some f \<Rightarrow> Some f | None \<Rightarrow> find (\<lambda>f. old_name f = Some n) flags)" by simp
  show ?case
  proof (cases "fl_name f = n")
    case True
    then have "find (\<lambda>f. fl_name f = n) flags = None" using snoc.prems by (auto simp: find_None_iff image_iff)
    then show ?thesis using True by (simp add: build_append register_flag_def put_old_name_apply find_append)
  next
    case False
    then show ?thesis by (simp add: build_append register_flag_def put_old_name_apply find_append ih split: option.split)
  qed
qed

lemma negatable_exact:
  assumes "distinct (map fl_name flags)"
  shows "negatable (build_registry flags) n = find (\<lambda>f. fl_name f = n \<and> has_negative_flag f) flags"
  using assms
proof (induction flags rule: rev_induct)
  case Nil
  then show ?case by (simp add: build_registry_def)
next
  case (snoc f flags)
  moreover have "fl_name f = n \<Longrightarrow> find (\<lambda>f. fl_name f = n \<and> has_negative_flag f) flags = None"
    using snoc.prems by (auto simp: find_None_iff image_iff)
  ultimately show ?case by (auto simp: build_append register_flag_def find_append split: option.split)
qed

lemma by_abbreviation_exact: "by_abbreviation (build_registry flags) a = find (\<lambda>f. fl_abbreviation f = Some a) (rev flags)"
  by (induction flags rule: rev_induct) (auto simp: build_registry_def register_flag_def split: option.split)

lemma find_own_name: "distinct (map fl_name flags) \<Longrightarrow> f \<in> set flags \<Longrightarrow> find (\<lambda>g. fl_name g = fl_name f) flags = Some f"
  by (induction flags) (auto simp: image_iff)

lemma own_name_wins:
  assumes "distinct (map fl_name flags)" "f \<in> set flags"
  shows "by_name (build_registry flags) (fl_name f) = Some f"
  using assms by (simp add: by_name_exact find_own_name)

lemma find_in: "find P xs = Some x \<Longrightarrow> x \<in> set xs \<and> P x"
  by (auto simp: find_Some_iff)

lemma registered_flag:
  assumes "distinct (map fl_name flags)"
  shows "by_name (build_registry flags) n = Some f \<Longrightarrow> f \<in> set flags \<and> (fl_name f = n \<or> old_name f = Some n)"
    and "negatable (build_registry flags) n = Some f \<Longrightarrow> f \<in> set flags \<and> fl_name f = n \<and> has_negative_flag f"
    and "by_abbreviation (build_registry flags) n = Some f \<Longrightarrow> f \<in> set flags"
  using assms by (auto simp: by_name_exact negatable_exact by_abbreviation_exact split: option.splits dest: find_in)

section \<open>What a flag word means\<close>

lemma split_value_plain: "CHR ''='' \<notin> set n \<Longrightarrow> split_value n = (n, None)"
  by (simp add: split_value_def split_once_def)

lemma split_value_attached: "CHR ''='' \<notin> set n \<Longrightarrow> split_value (n @ CHR ''='' # v) = (n, Some v)"
  using split_once_Some [of "CHR ''=''" "n @ CHR ''='' # v" n v] by (simp add: split_value_def)

lemma split_value_cases:
  "split_value s = (n, v) \<Longrightarrow> CHR ''='' \<notin> set n \<and> s = n @ (case v of Some x \<Rightarrow> ''='' @ x | None \<Rightarrow> [])"
  by (auto simp: split_value_def split_once_Some split_once_None split: option.splits)

lemma strip_prefix_append [simp]: "strip_prefix p (p @ s) = Some s"
  by (simp add: strip_prefix_Some)

lemma strip_dashes [simp]: "strip_prefix ''--'' (CHR ''-'' # CHR ''-'' # s) = Some s"
  using strip_prefix_append [of "''--''" s] by simp

lemma resolve_own_name:
  assumes "table_ok flags" "f \<in> set flags" "command \<in> set (fl_commands f)"
  shows "resolve_flag (build_registry flags) (''--'' @ fl_name f) command = Some (Inr \<lparr> m_flag = f, m_negated = False, m_value = None \<rparr>)"
    and "resolve_flag (build_registry flags) (''--'' @ fl_name f @ ''='' @ v) command =
      Some (Inr \<lparr> m_flag = f, m_negated = False, m_value = Some v \<rparr>)"
proof -
  have "CHR ''='' \<notin> set (fl_name f)" and "by_name (build_registry flags) (fl_name f) = Some f"
    using assms own_name_wins by (auto simp: table_ok_def list_all_iff)
  then have "resolve_long (build_registry flags) (fl_name f) = Some (f, False, None)"
    and "resolve_long (build_registry flags) (fl_name f @ CHR ''='' # v) = Some (f, False, Some v)"
    by (simp_all add: resolve_long_def split_value_plain split_value_attached)
  then show "resolve_flag (build_registry flags) (''--'' @ fl_name f) command = Some (Inr \<lparr> m_flag = f, m_negated = False, m_value = None \<rparr>)"
    and "resolve_flag (build_registry flags) (''--'' @ fl_name f @ ''='' @ v) command =
      Some (Inr \<lparr> m_flag = f, m_negated = False, m_value = Some v \<rparr>)"
    using assms by (simp_all add: resolve_flag_def)
qed

lemma resolve_long_found:
  assumes "table_ok flags" "resolve_long (build_registry flags) rest = Some (f, neg, v)"
  shows "f \<in> set flags \<and> (neg \<longrightarrow> v = None \<and> rest = ''no'' @ fl_name f)"
proof -
  have d: "distinct (map fl_name flags)" using assms(1) by (simp add: table_ok_def)
  obtain name w where s: "split_value rest = (name, w)" by (cases "split_value rest")
  have n: "rest = name @ (case w of Some x \<Rightarrow> ''='' @ x | None \<Rightarrow> [])" using split_value_cases [OF s] by simp
  consider "by_name (build_registry flags) name = Some f" "\<not> neg"
    | n' where "strip_prefix ''no'' name = Some n'" "negatable (build_registry flags) n' = Some f" "w = None" "v = None"
    using assms(2) by (auto simp: resolve_long_def s split: option.splits if_splits Option.bind_splits)
  then show ?thesis
  proof cases
    case 1
    then show ?thesis using registered_flag(1) [OF d] by blast
  next
    case 2
    then show ?thesis using registered_flag(2) [OF d 2(2)] n by (simp add: strip_prefix_Some)
  qed
qed

lemma resolve_found:
  assumes "table_ok flags" "resolve_flag (build_registry flags) token command = Some (Inr m)"
  shows "m_flag m \<in> set flags" "command \<in> set (fl_commands (m_flag m))"
    and "m_negated m \<Longrightarrow> token = ''--no'' @ fl_name (m_flag m) \<and> m_value m = None"
proof -
  have d: "distinct (map fl_name flags)" using assms(1) by (simp add: table_ok_def)
  obtain found where z: "(case strip_prefix ''--'' token of
        Some rest \<Rightarrow> Some (resolve_long (build_registry flags) rest)
      | None \<Rightarrow> (case strip_prefix ''-'' token of Some rest \<Rightarrow> resolve_short (build_registry flags) rest | None \<Rightarrow> Some None)) = Some found"
    and g: "(case found of
         None \<Rightarrow> Inl (unknown token command)
       | Some (f, neg, v) \<Rightarrow>
           if command \<in> set (fl_commands f) then Inr \<lparr> m_flag = f, m_negated = neg, m_value = v \<rparr>
           else Inl \<lparr> unk_token = token, unk_command = command, known_for = Some (fl_commands f) \<rparr>) = Inr m"
    using assms(2) unfolding resolve_flag_def map_option_eq_Some by blast
  obtain f neg v where found: "found = Some (f, neg, v)" and c: "command \<in> set (fl_commands f)"
    and m: "m = \<lparr> m_flag = f, m_negated = neg, m_value = v \<rparr>"
    using g by (auto split: option.splits if_splits)
  have t: "(\<exists>rest. strip_prefix ''--'' token = Some rest \<and> resolve_long (build_registry flags) rest = Some (f, neg, v))
      \<or> (\<exists>rest. resolve_short (build_registry flags) rest = Some (Some (f, neg, v)))"
    using z found by (auto split: option.splits)
  have "f \<in> set flags \<and> (neg \<longrightarrow> token = ''--no'' @ fl_name f \<and> v = None)"
    using t
  proof
    assume "\<exists>rest. strip_prefix ''--'' token = Some rest \<and> resolve_long (build_registry flags) rest = Some (f, neg, v)"
    then show ?thesis using resolve_long_found [OF assms(1)] by (auto simp: strip_prefix_Some)
  next
    assume "\<exists>rest. resolve_short (build_registry flags) rest = Some (Some (f, neg, v))"
    then show ?thesis using registered_flag(3) [OF d] by (auto simp: resolve_short_def split: if_splits)
  qed
  then show "m_flag m \<in> set flags" "command \<in> set (fl_commands (m_flag m))"
    and "m_negated m \<Longrightarrow> token = ''--no'' @ fl_name (m_flag m) \<and> m_value m = None"
    using m c by simp_all
qed

text \<open>Reading a flag panics exactly where the one letter after a single dash has more than one byte.\<close>

lemma resolve_panics_iff:
  "resolve_flag r token command = None \<longleftrightarrow>
     (\<exists>c d s. token = CHR ''-'' # c # d # s \<and> c \<noteq> CHR ''-'' \<and> is_continuation d)"
proof (cases "strip_prefix ''--'' token")
  case (Some rest)
  then show ?thesis by (auto simp: resolve_flag_def strip_prefix_Some)
next
  case None
  then have nd: "\<not> prefix ''--'' token" by (simp add: strip_prefix_None)
  show ?thesis
  proof (cases "strip_prefix ''-'' token")
    case None
    then have "\<not> prefix ''-'' token" by (simp add: strip_prefix_None)
    then have "\<nexists>s. token = CHR ''-'' # s" by (auto simp: prefix_def)
    then show ?thesis using None \<open>strip_prefix ''--'' token = None\<close> by (auto simp: resolve_flag_def)
  next
    case (Some rest)
    then have t: "token = CHR ''-'' # rest" by (simp add: strip_prefix_Some)
    have "resolve_flag r token command = None \<longleftrightarrow> rest \<noteq> [] \<and> first_byte rest = None"
      using None Some by (simp add: resolve_flag_def resolve_short_def)
    also have "\<dots> \<longleftrightarrow> (\<exists>c d s. rest = c # d # s \<and> is_continuation d)"
      by (cases rest; cases "List.tl rest") (auto simp: first_byte_def)
    finally show ?thesis using t nd by (auto simp: prefix_def)
  qed
qed

section \<open>The canonical form is canonical\<close>

lemma canonicalize_word:
  assumes "resolve_flag r arg command = Some (Inr m)" "type_converter (m_flag m) = Some ''Boolean'' \<or> m_value m \<noteq> None"
  shows "canonicalize r command (arg # iter) =
    map_option (\<lambda>out. and_then out (\<lambda>ws. Inr ((if type_converter (m_flag m) = Some ''Boolean''
      then if m_negated m then ''--no'' @ fl_name (m_flag m) else ''--'' @ fl_name (m_flag m)
      else ''--'' @ fl_name (m_flag m) @ ''='' @ the (m_value m)) # ws))) (canonicalize r command iter)"
  using assms by (auto simp: Let_def)

lemma canonical_next:
  assumes "\<And>iter. canonicalize r command (w # iter) = map_option (\<lambda>out. and_then out (\<lambda>ws. Inr (w # ws))) (canonicalize r command iter)"
    and "map_option (\<lambda>out. and_then out (\<lambda>ws. Inr (w # ws))) c = Some (Inr out)"
    and "\<And>ws. c = Some (Inr ws) \<Longrightarrow> canonicalize r command ws = Some (Inr ws)"
  shows "canonicalize r command out = Some (Inr out)"
  using assms by (auto simp: and_then_Inr)

lemma canonicalize_stable:
  assumes "table_ok flags"
  shows "canonicalize (build_registry flags) command args = Some (Inr out) \<Longrightarrow>
    canonicalize (build_registry flags) command out = Some (Inr out)"
proof (induction "build_registry flags" command args arbitrary: out rule: canonicalize.induct)
  case (1 command)
  then show ?case by simp
next
  case (2 command arg iter)
  let ?r = "build_registry flags"
  obtain m where m: "resolve_flag ?r arg command = Some (Inr m)" using "2.prems" by (auto split: option.splits sum.splits)
  note f = resolve_found [OF assms m]
  let ?f = "m_flag m"
  show ?case
  proof (cases "type_converter ?f = Some ''Boolean''")
    case True
    let ?w = "if m_negated m then ''--no'' @ fl_name ?f else ''--'' @ fl_name ?f"
    have w: "canonicalize ?r command (?w # rest) = map_option (\<lambda>out. and_then out (\<lambda>ws. Inr (?w # ws))) (canonicalize ?r command rest)" for rest
      using canonicalize_word [OF m] canonicalize_word [OF resolve_own_name(1) [OF assms f(1,2)]] f(3) True by (cases "m_negated m") simp_all
    show ?thesis
      by (rule canonical_next [OF w, where c = "canonicalize ?r command iter"])
        (use "2.prems" "2.hyps"(1) [OF m refl refl] m True in \<open>auto simp: Let_def\<close>)
  next
    case False
    have w: "canonicalize ?r command ((''--'' @ fl_name ?f @ ''='' @ v) # rest) =
      map_option (\<lambda>out. and_then out (\<lambda>ws. Inr ((''--'' @ fl_name ?f @ ''='' @ v) # ws))) (canonicalize ?r command rest)" for v rest
      using canonicalize_word [OF resolve_own_name(2) [OF assms f(1,2)]] False by simp
    show ?thesis
    proof (cases "m_value m")
      case (Some v)
      show ?thesis
        by (rule canonical_next [OF w [of v], where c = "canonicalize ?r command iter"])
          (use "2.prems" "2.hyps"(4) [OF m refl refl False Some] m False Some in \<open>auto simp: Let_def\<close>)
    next
      case None
      show ?thesis
      proof (cases iter)
        case Nil
        then have "out = [''--'' @ fl_name ?f]" using "2.prems" m False None by (simp add: Let_def)
        then show ?thesis using resolve_own_name(1) [OF assms f(1,2)] False by (simp add: Let_def)
      next
        case (Cons v iter')
        show ?thesis
          by (rule canonical_next [OF w [of v], where c = "canonicalize ?r command iter'"])
            (use "2.prems" "2.hyps"(3) [OF m refl refl] m False None Cons in \<open>auto simp: Let_def\<close>)
      qed
    qed
  qed
qed

text \<open>
  Two forms are not kept apart: a boolean loses the value it is written with, so \<open>--flag=false\<close> becomes \<open>--flag\<close>; and the negation
  of a flag whose converter is not the boolean one takes the next word as its value.
\<close>

lemma canonicalize_drops_value:
  assumes "table_ok flags" "f \<in> set flags" "command \<in> set (fl_commands f)" "type_converter f = Some ''Boolean''"
  shows "canonicalize (build_registry flags) command [''--'' @ fl_name f @ ''='' @ v] = Some (Inr [''--'' @ fl_name f])"
  using resolve_own_name(2) [OF assms(1-3)] assms(4) by (simp add: Let_def)

lemma canonicalize_negation_takes_word:
  assumes "table_ok flags" "f \<in> set flags" "command \<in> set (fl_commands f)" "type_converter f \<noteq> Some ''Boolean''"
    and "has_negative_flag f" "by_name (build_registry flags) (''no'' @ fl_name f) = None"
  shows "canonicalize (build_registry flags) command [''--no'' @ fl_name f, w] = Some (Inr [''--'' @ fl_name f @ ''='' @ w])"
proof -
  have d: "distinct (map fl_name flags)" and e: "CHR ''='' \<notin> set (''no'' @ fl_name f)"
    using assms(1,2) by (auto simp: table_ok_def list_all_iff)
  have "find (\<lambda>g. fl_name g = fl_name f \<and> has_negative_flag g) flags = Some f"
    using find_own_name [OF d assms(2)] assms(5) d by (auto simp: find_Some_iff)
  then have "resolve_long (build_registry flags) (''no'' @ fl_name f) = Some (f, True, None)"
    using assms(6) split_value_plain [OF e] strip_prefix_append [of "''no''" "fl_name f"]
    by (simp add: resolve_long_def negatable_exact [OF d] del: strip_prefix_append)
  then show ?thesis using assms(3,4) by (simp add: resolve_flag_def Let_def)
qed

section \<open>What the alias passes keep\<close>

definition not_alias :: "flag_registry \<Rightarrow> string \<Rightarrow> bool" where
  "not_alias r arg \<longleftrightarrow> \<not> prefix ''-'' arg
     \<or> (case resolve_flag r arg ''build'' of None \<Rightarrow> False | Some (Inl e) \<Rightarrow> True | Some (Inr m) \<Rightarrow> fl_name (m_flag m) \<noteq> ''flag_alias'')"

lemma extract_keeps: "list_all (not_alias r) ws \<Longrightarrow> extract_loop r aliases rest ws = Some (Inr (aliases, rest @ ws))"
  by (induction ws arbitrary: rest) (auto simp: not_alias_def split: option.splits sum.splits)

lemma extract_loop_splits:
  "extract_loop r aliases kept args = Some (Inr (table, rest)) \<Longrightarrow>
     \<exists>ws. rest = kept @ ws \<and> list_all (not_alias r) ws \<and> subseq ws args"
proof (induction r aliases kept args arbitrary: table rest rule: extract_loop.induct)
  case (1 r aliases kept)
  then show ?case by simp
next
  case (2 r aliases kept arg iter)
  have keep: "\<exists>ws. rest = kept @ ws \<and> list_all (not_alias r) ws \<and> subseq ws (arg # iter)"
    if k: "not_alias r arg" "\<exists>ws. rest = (kept @ [arg]) @ ws \<and> list_all (not_alias r) ws \<and> subseq ws iter"
  proof -
    obtain ws where "rest = kept @ (arg # ws)" "list_all (not_alias r) (arg # ws)" "subseq (arg # ws) (arg # iter)" using k by auto
    then show ?thesis by blast
  qed
  have drop: "\<exists>ws. rest = kept @ ws \<and> list_all (not_alias r) ws \<and> subseq ws (arg # iter)"
    if "\<exists>ws. rest = kept @ ws \<and> list_all (not_alias r) ws \<and> subseq ws iter'" "subseq iter' iter" for iter'
    using that by (auto intro: list_emb_Cons subseq_order.trans)
  show ?case
  proof (cases "prefix ''-'' arg")
    case False
    then have "not_alias r arg" by (simp add: not_alias_def)
    then show ?thesis using keep "2.IH"(1) "2.prems" False by simp
  next
    case p: True
    obtain res where res: "resolve_flag r arg ''build'' = Some res" using p "2.prems" by (auto split: option.splits)
    show ?thesis
    proof (cases res)
      case (Inl e)
      then have "not_alias r arg" using p res by (simp add: not_alias_def)
      then show ?thesis using keep "2.IH"(2) "2.prems" p res Inl by simp
    next
      case (Inr m)
      show ?thesis
      proof (cases "fl_name (m_flag m) = ''flag_alias''")
        case False
        then have "not_alias r arg" using p res Inr by (simp add: not_alias_def)
        then show ?thesis using keep "2.IH"(3) "2.prems" p res Inr False by simp
      next
        case True
        note hs = p res Inr True
        show ?thesis
        proof (cases "m_value m")
          case (Some v)
          obtain n l where nl: "split_once (CHR ''='') v = Some (n, l)"
            and ex: "extract_loop r (aliases(n \<mapsto> l)) kept iter = Some (Inr (table, rest))"
            using Some "2.prems" hs by (auto split: option.splits)
          show ?thesis by (rule drop [of iter]) (use "2.IH"(5) [OF _ res Inr _ Some nl refl ex] hs in simp_all)
        next
          case None
          obtain v iter' where i: "iter = v # iter'" using None "2.prems" hs by (auto split: list.splits)
          obtain n l where nl: "split_once (CHR ''='') v = Some (n, l)"
            and ex: "extract_loop r (aliases(n \<mapsto> l)) kept iter' = Some (Inr (table, rest))"
            using None "2.prems" hs i by (auto split: option.splits)
          show ?thesis by (rule drop [of iter']) (use "2.IH"(4) [OF _ res Inr _ None i nl refl ex] hs i in \<open>simp_all add: list_emb_Cons\<close>)
        qed
      qed
    qed
  qed
qed

text \<open>The words left by the first pass are in their order and define no alias, so taking aliases out again takes none.\<close>

lemma extract_aliases_rest:
  assumes "extract_aliases r args = Some (Inr (table, rest))"
  shows "subseq rest args" and "extract_aliases r rest = Some (Inr (Map.empty, rest))"
  using extract_loop_splits [OF assms [unfolded extract_aliases_def]] extract_keeps by (auto simp: extract_aliases_def)

lemma apply_alias_rewrites:
  assumes "CHR ''='' \<notin> set n" "aliases n = Some label"
  shows "apply_alias aliases (''--'' @ n) = ''--'' @ label" "apply_alias aliases (''--'' @ n @ ''='' @ v) = ''--'' @ label @ ''='' @ v"
  using assms by (simp_all add: apply_alias_def split_value_plain split_value_attached)

lemma apply_aliases_none: "apply_aliases Map.empty args = args"
  by (induction args) (auto simp: apply_aliases_def apply_alias_def split: option.split prod.split)

end
