(* ===== verification/Option_Syntax.thy ===== *)
theory Option_Syntax
  imports Flag_Registry
begin

text \<open>
  The shape of options (\<open>crates/fjfj-bazel-compat/src/option_syntax.rs\<close>): booleans written with a value are rewritten, and values that are
  no number, percentage or assignment are refused.
\<close>

section \<open>Values\<close>

text \<open>\<open>str::to_ascii_lowercase\<close>, and which words \<open>str::parse\<close> reads as a signed integer of some bits and as a \<open>f64\<close>.\<close>

definition ascii_lower :: "char \<Rightarrow> char" where
  "ascii_lower c = (if is_ascii_uppercase c then char_of (of_char c + 32 :: nat) else c)"

definition to_ascii_lowercase :: "string \<Rightarrow> string" where
  "to_ascii_lowercase s = map ascii_lower s"

definition strip_sign :: "string \<Rightarrow> bool \<times> string" where
  "strip_sign s = (case strip_prefix ''-'' s of Some r \<Rightarrow> (True, r) | None \<Rightarrow> (case strip_prefix ''+'' s of Some r \<Rightarrow> (False, r) | None \<Rightarrow> (False, s)))"

definition parse_signed :: "nat \<Rightarrow> string \<Rightarrow> int option" where
  "parse_signed bits s =
     (case strip_sign s of (neg, d) \<Rightarrow>
        let n = (if neg then - int (decimal d) else int (decimal d))
        in if d \<noteq> [] \<and> list_all is_ascii_digit d \<and> - (2 ^ (bits - 1)) \<le> n \<and> n < 2 ^ (bits - 1) then Some n else None)"

definition digits1 :: "string \<Rightarrow> bool" where
  "digits1 s \<longleftrightarrow> s \<noteq> [] \<and> list_all is_ascii_digit s"

definition mantissa_ok :: "string \<Rightarrow> bool" where
  "mantissa_ok s \<longleftrightarrow>
     (case split_once (CHR ''.'') s of
        None \<Rightarrow> digits1 s
      | Some (a, b) \<Rightarrow> list_all is_ascii_digit a \<and> list_all is_ascii_digit b \<and> (a \<noteq> [] \<or> b \<noteq> []))"

definition float_ok :: "string \<Rightarrow> bool" where
  "float_ok s \<longleftrightarrow>
     (let t = to_ascii_lowercase (snd (strip_sign s))
      in t \<in> {''inf'', ''infinity'', ''nan''}
         \<or> (case split_once (CHR ''e'') t of None \<Rightarrow> mantissa_ok t | Some (m, x) \<Rightarrow> mantissa_ok m \<and> digits1 (snd (strip_sign x))))"

definition boolean :: "string \<Rightarrow> bool option" where
  "boolean v = (let l = to_ascii_lowercase v
     in if l \<in> {''true'', ''yes'', ''1''} then Some True else if l \<in> {''false'', ''no'', ''0''} then Some False else None)"

definition quoted :: "string \<Rightarrow> string" where
  "quoted v = [CHR 0x27] @ v @ [CHR 0x27]"

definition define_ok :: "string \<Rightarrow> bool" where
  "define_ok v = (case split_once (CHR ''='') v of None \<Rightarrow> False | Some (k, x) \<Rightarrow> k \<noteq> [] \<and> x \<noteq> [] \<and> CHR ''='' \<notin> set x)"

definition wrong_value :: "string \<Rightarrow> string \<Rightarrow> string \<Rightarrow> string option" where
  "wrong_value converter name v =
     (if converter = ''Integer'' then (if parse_signed 32 v = None then Some (quoted v @ '' is not an int'') else None)
      else if converter = ''Long'' then (if parse_signed 64 v = None then Some (quoted v @ '' is not a long'') else None)
      else if converter = ''Double'' then (if \<not> float_ok v then Some (quoted v @ '' is not a double'') else None)
      else if converter = ''Percentage'' then
        (case parse_signed 32 v of
           None \<Rightarrow> Some (quoted v @ '' is not an int'')
         | Some n \<Rightarrow> if n < 0 then Some (quoted v @ '' should be >= 0'') else if 100 < n then Some (quoted v @ '' should be <= 100'') else None)
      else if converter = ''Assignment'' \<and> name = ''define'' then
        (if \<not> define_ok v then Some (''Variable definitions must be in the form of a '' @ quoted ''name=value'' @ '' assignment'') else None)
      else if converter = ''EnvVars'' then
        (if v = [] \<or> v = ''='' then Some (''Variable definitions must be in the form of a '' @ quoted ''name=value'' @ '', '' @ quoted ''name''
           @ '', or '' @ quoted ''=name'' @ '' assignment'') else None)
      else None)"

section \<open>One word\<close>

text \<open>
  What one turn of the loop does with a word and the next one, if there is one: push words, push the word and the next, stop and keep
  the rest, or refuse.
\<close>

datatype turn = Push "string list" | PushNext | KeepRest | Refuse string

definition flag_known :: "flag_registry \<Rightarrow> string \<Rightarrow> string \<Rightarrow> flag_info option" where
  "flag_known r command n = (case flag_named r n of Some f \<Rightarrow> if command \<in> set (fl_commands f) then Some f else None | None \<Rightarrow> None)"

definition is_switch :: "flag_info \<Rightarrow> bool" where
  "is_switch f \<longleftrightarrow> type_converter f = Some ''Boolean'' \<or> type_converter f = Some ''TriState''"

definition while_parsing :: "string \<Rightarrow> string \<Rightarrow> turn" where
  "while_parsing shown why = Refuse (''While parsing option '' @ shown @ '': '' @ why)"

definition read_switch :: "string \<Rightarrow> string \<Rightarrow> string option \<Rightarrow> flag_info \<Rightarrow> turn" where
  "read_switch arg name v flag =
     (case v of
        None \<Rightarrow> Push [arg]
      | Some x \<Rightarrow>
          (case boolean x of
             Some on \<Rightarrow> if has_negative_flag flag then Push [if on then ''--'' @ name else ''--no'' @ name] else Push [arg]
           | None \<Rightarrow>
               if type_converter flag = Some ''TriState'' \<and> to_ascii_lowercase x = ''auto'' then Push []
               else while_parsing arg (quoted x @ '' is not a boolean'')))"

definition read_few :: "string \<Rightarrow> string \<Rightarrow> string option \<Rightarrow> turn" where
  "read_few arg name v =
     (case v of
        None \<Rightarrow> Push [arg]
      | Some x \<Rightarrow>
          if name \<noteq> ''subcommands'' then Push [arg]
          else if to_ascii_lowercase x = ''true'' then Push [''--subcommands'']
          else if to_ascii_lowercase x = ''false'' then Push [''--nosubcommands'']
          else if to_ascii_lowercase x = ''pretty_print'' then Push [''--subcommands=pretty_print'']
          else while_parsing arg (''Not a valid subcommand option: '' @ quoted x @ '' (should be true, pretty_print or false)''))"

definition read_valued :: "string \<Rightarrow> string \<Rightarrow> string option \<Rightarrow> flag_info \<Rightarrow> string option \<Rightarrow> turn" where
  "read_valued arg name v flag nxt =
     (let converter = (case type_converter flag of Some c \<Rightarrow> c | None \<Rightarrow> []);
          shown = (case v of Some x \<Rightarrow> arg | None \<Rightarrow> (case nxt of Some n \<Rightarrow> ''--'' @ name @ '' '' @ n | None \<Rightarrow> arg));
          given = (case v of Some x \<Rightarrow> Some x | None \<Rightarrow> nxt)
      in case Option.bind given (wrong_value converter name) of
           Some why \<Rightarrow> while_parsing shown why
         | None \<Rightarrow> if v = None \<and> nxt \<noteq> None then PushNext else Push [arg])"

definition read_unknown :: "flag_registry \<Rightarrow> string \<Rightarrow> string \<Rightarrow> string \<Rightarrow> string option \<Rightarrow> turn" where
  "read_unknown r command arg name v =
     (case Option.bind (strip_prefix ''no'' name) (flag_known r command) of
        None \<Rightarrow> Push [arg]
      | Some flag \<Rightarrow>
          if \<not> is_switch flag \<and> requires_value flag
          then Refuse (arg @ '' :: Illegal use of '' @ quoted ''no'' @ '' prefix on non-boolean option: '' @ arg)
          else if v \<noteq> None \<and> has_negative_flag flag then Refuse (arg @ '' :: Unexpected value after boolean option: '' @ arg)
          else Push [arg])"

definition read_word :: "flag_registry \<Rightarrow> string \<Rightarrow> string \<Rightarrow> string option \<Rightarrow> turn" where
  "read_word r command arg nxt =
     (if arg = ''--'' then KeepRest
      else case strip_prefix ''--'' arg of
        None \<Rightarrow> Push [arg]
      | Some body \<Rightarrow>
          if prefix ''/'' body then Push [arg]
          else case split_value body of (name, v) \<Rightarrow>
            (case flag_known r command name of
               None \<Rightarrow> read_unknown r command arg name v
             | Some flag \<Rightarrow>
                 if is_switch flag then read_switch arg name v flag
                 else if \<not> requires_value flag \<and> enum_values flag \<noteq> [] then read_few arg name v
                 else if requires_value flag then read_valued arg name v flag nxt
                 else Push [arg]))"

section \<open>The words\<close>

definition head :: "'a list \<Rightarrow> 'a option" where
  "head xs = (case xs of [] \<Rightarrow> None | x # _ \<Rightarrow> Some x)"

fun normalize :: "flag_registry \<Rightarrow> string \<Rightarrow> string list \<Rightarrow> (string, string list) result" where
  "normalize r command [] = Inr []"
| "normalize r command (arg # iter) =
     (case read_word r command arg (head iter) of
        KeepRest \<Rightarrow> Inr (arg # iter)
      | Refuse e \<Rightarrow> Inl e
      | Push ws \<Rightarrow> and_then (normalize r command iter) (\<lambda>out. Inr (ws @ out))
      | PushNext \<Rightarrow>
          (case iter of
             [] \<Rightarrow> Inr [arg]
           | n # iter' \<Rightarrow> and_then (normalize r command iter') (\<lambda>out. Inr (arg # n # out))))"

section \<open>Normal words stay as they are\<close>

text \<open>What the rewriting relies on of the registry: no flag has an empty name, and none is named like the negation of another.\<close>

definition no_forms_free :: "flag_registry \<Rightarrow> string \<Rightarrow> bool" where
  "no_forms_free r command \<longleftrightarrow> flag_known r command [] = None
     \<and> (\<forall>n f. flag_known r command n = Some f \<longrightarrow> has_negative_flag f \<or> n = ''subcommands'' \<longrightarrow> flag_known r command (''no'' @ n) = None)"

lemma read_word_long:
  assumes "rest \<noteq> []" "\<not> prefix ''/'' rest" "split_value rest = (name, v)"
  shows "read_word r command (''--'' @ rest) nxt =
    (case flag_known r command name of
       None \<Rightarrow> read_unknown r command (''--'' @ rest) name v
     | Some flag \<Rightarrow>
         if is_switch flag then read_switch (''--'' @ rest) name v flag
         else if \<not> requires_value flag \<and> enum_values flag \<noteq> [] then read_few (''--'' @ rest) name v
         else if requires_value flag then read_valued (''--'' @ rest) name v flag nxt
         else Push [''--'' @ rest])"
  using assms by (simp add: read_word_def split: option.split)

lemma plain_flag_kept:
  assumes "n \<noteq> []" "\<not> prefix ''/'' n" "CHR ''='' \<notin> set n" "flag_known r command n = Some f" "is_switch f \<or> \<not> requires_value f"
  shows "read_word r command (''--'' @ n) nxt = Push [''--'' @ n]"
  unfolding read_word_long [OF assms(1,2) split_value_plain [OF assms(3)]]
  using assms(4,5) by (auto simp: read_switch_def read_few_def)

lemma no_flag_kept:
  assumes "CHR ''='' \<notin> set n" "flag_known r command (''no'' @ n) = None" "flag_known r command n = Some f" "is_switch f \<or> \<not> requires_value f"
  shows "read_word r command (''--no'' @ n) nxt = Push [''--no'' @ n]"
proof -
  have s: "split_value (''no'' @ n) = (''no'' @ n, None)" using assms(1) by (intro split_value_plain) simp
  have p: "strip_prefix ''no'' (''no'' @ n) = Some n" by (simp only: strip_prefix_append)
  have "read_word r command (''--'' @ ''no'' @ n) nxt = Push [''--'' @ ''no'' @ n]"
    by (subst read_word_long [OF _ _ s]) (use assms(2-4) p in \<open>auto simp: read_unknown_def\<close>)
  then show ?thesis by simp
qed

lemma pretty_print_kept:
  assumes "flag_known r command ''subcommands'' = Some f" "\<not> is_switch f" "\<not> requires_value f" "enum_values f \<noteq> []"
  shows "read_word r command ''--subcommands=pretty_print'' nxt = Push [''--subcommands=pretty_print'']"
proof -
  have "split_value (''subcommands'' @ CHR ''='' # ''pretty_print'') = (''subcommands'', Some ''pretty_print'')"
    by (rule split_value_attached) simp
  then have s: "split_value ''subcommands=pretty_print'' = (''subcommands'', Some ''pretty_print'')" by simp
  have l: "to_ascii_lowercase ''pretty_print'' = ''pretty_print''" by code_simp
  have "read_word r command (''--'' @ ''subcommands=pretty_print'') nxt = Push [''--'' @ ''subcommands=pretty_print'']"
    by (subst read_word_long [OF _ _ s]) (simp_all add: assms read_few_def l)
  then show ?thesis by simp
qed

lemma switch_again:
  assumes "no_forms_free r command" "n \<noteq> []" "\<not> prefix ''/'' n" "CHR ''='' \<notin> set n" "flag_known r command n = Some f" "is_switch f"
    and "read_switch arg n v f = Push ws"
  shows "ws = [] \<or> ws = [arg] \<or> (\<exists>w. ws = [w] \<and> read_word r command w nxt' = Push [w])"
proof -
  have no: "has_negative_flag f \<Longrightarrow> flag_known r command (''no'' @ n) = None" using assms(1,5) by (simp add: no_forms_free_def)
  have "ws = [] \<or> ws = [arg] \<or> has_negative_flag f \<and> (ws = [''--'' @ n] \<or> ws = [''--no'' @ n])"
    using assms(7) by (auto simp: read_switch_def while_parsing_def split: option.splits if_splits)
  then show ?thesis using plain_flag_kept [OF assms(2-5)] no_flag_kept [OF assms(4) no assms(5)] assms(6) by auto
qed

lemma few_again:
  assumes "no_forms_free r command" "flag_known r command n = Some f" "\<not> is_switch f" "\<not> requires_value f" "enum_values f \<noteq> []"
    and "read_few arg n v = Push ws"
  shows "ws = [] \<or> ws = [arg] \<or> (\<exists>w. ws = [w] \<and> read_word r command w nxt' = Push [w])"
proof -
  have "ws = [arg] \<or> n = ''subcommands'' \<and> ws \<in> {[''--subcommands''], [''--nosubcommands''], [''--subcommands=pretty_print'']}"
    using assms(6) by (auto simp: read_few_def while_parsing_def split: option.splits if_splits)
  moreover have "read_word r command w nxt' = Push [w]"
    if "n = ''subcommands''" "w \<in> {''--subcommands'', ''--nosubcommands'', ''--subcommands=pretty_print''}" for w
  proof -
    have k: "flag_known r command ''subcommands'' = Some f" using assms(2) that(1) by simp
    have no: "flag_known r command (''no'' @ ''subcommands'') = None" using assms(1) k unfolding no_forms_free_def by blast
    show ?thesis
      using that(2) plain_flag_kept [of "''subcommands''", OF _ _ _ k] no_flag_kept [OF _ no k] pretty_print_kept [OF k assms(3-5)] assms(4)
      by auto
  qed
  ultimately show ?thesis by auto
qed

lemma read_valued_next: "read_valued arg n v f nxt = Push ws \<Longrightarrow> (nxt = None \<Longrightarrow> nxt' = None) \<Longrightarrow> read_valued arg n v f nxt' = Push ws"
  by (cases v; cases nxt) (auto simp: read_valued_def Let_def while_parsing_def split: option.splits if_splits)

lemma read_word_next:
  assumes "read_word r command arg nxt = Push ws" "nxt = None \<Longrightarrow> nxt' = None"
  shows "read_word r command arg nxt' = Push ws"
proof (cases "\<exists>body. arg = ''--'' @ body \<and> body \<noteq> [] \<and> \<not> prefix ''/'' body")
  case True
  then obtain body where b: "arg = ''--'' @ body" "body \<noteq> []" "\<not> prefix ''/'' body" by blast
  obtain n v where s: "split_value body = (n, v)" by (cases "split_value body")
  note rl = read_word_long [OF b(2,3) s, folded b(1)]
  show ?thesis
    using assms(1) read_valued_next [OF _ assms(2)] unfolding rl by (cases "flag_known r command n") (simp_all split: if_splits)
next
  case False
  then show ?thesis using assms(1) by (auto simp: read_word_def strip_prefix_Some split: if_splits option.splits)
qed

lemma long_word_again:
  assumes "no_forms_free r command" "arg = ''--'' @ body" "body \<noteq> []" "\<not> prefix ''/'' body" "read_word r command arg nxt = Push ws"
  shows "ws = [] \<or> ws = [arg] \<or> (\<exists>w. ws = [w] \<and> read_word r command w nxt' = Push [w])"
proof -
  obtain n v where s: "split_value body = (n, v)" by (cases "split_value body")
  note nb = split_value_cases [OF s]
  note rw = assms(5) [unfolded assms(2) read_word_long [OF assms(3,4) s], folded assms(2)]
  show ?thesis
  proof (cases "flag_known r command n")
    case None
    then have "read_unknown r command arg n v = Push ws" using rw by simp
    then show ?thesis by (auto simp: read_unknown_def split: option.splits if_splits)
  next
    case (Some f)
    then have "n \<noteq> []" using assms(1) by (auto simp: no_forms_free_def)
    then have sl: "\<not> prefix ''/'' n" using nb assms(4) by (cases n) auto
    consider "is_switch f" "read_switch arg n v f = Push ws"
      | "\<not> is_switch f" "\<not> requires_value f" "enum_values f \<noteq> []" "read_few arg n v = Push ws"
      | "read_valued arg n v f nxt = Push ws \<or> ws = [arg]"
      using rw Some by (auto split: if_splits)
    then show ?thesis
    proof cases
      case 1
      then show ?thesis using switch_again [OF assms(1) \<open>n \<noteq> []\<close> sl _ Some] nb by blast
    next
      case 2
      then show ?thesis using few_again [OF assms(1) Some] by blast
    next
      case 3
      then show ?thesis by (auto simp: read_valued_def Let_def while_parsing_def split: option.splits if_splits)
    qed
  qed
qed

lemma read_word_again:
  assumes "no_forms_free r command" "read_word r command arg nxt = Push ws" "nxt = None \<Longrightarrow> nxt' = None"
  shows "ws = [] \<or> (\<exists>w. ws = [w] \<and> read_word r command w nxt' = Push [w])"
proof -
  have "ws = [] \<or> ws = [arg] \<or> (\<exists>w. ws = [w] \<and> read_word r command w nxt' = Push [w])"
  proof (cases "\<exists>body. arg = ''--'' @ body \<and> body \<noteq> [] \<and> \<not> prefix ''/'' body")
    case True
    then show ?thesis using long_word_again [OF assms(1) _ _ _ assms(2)] by blast
  next
    case False
    then show ?thesis
      using assms(2) by (auto simp: read_word_def strip_prefix_Some split: if_splits option.splits)
  qed
  then show ?thesis using read_word_next [OF assms(2,3)] by auto
qed

lemma normalize_again:
  "no_forms_free r command \<Longrightarrow> normalize r command args = Inr out \<Longrightarrow> normalize r command out = Inr out"
proof (induction r command args arbitrary: out rule: normalize.induct)
  case (1 r command)
  then show ?case by simp
next
  case (2 r command arg iter)
  show ?case
  proof (cases "read_word r command arg (head iter)")
    case (Push ws)
    then obtain rest where rest: "normalize r command iter = Inr rest" and out: "out = ws @ rest" using "2.prems" by (auto simp: and_then_Inr)
    have ih: "normalize r command rest = Inr rest" by (rule "2.IH"(1) [OF Push "2.prems"(1) rest])
    have hr: "head iter = None \<Longrightarrow> head rest = None" using rest by (cases iter) (auto simp: head_def)
    consider "ws = []" | w where "ws = [w]" "read_word r command w (head rest) = Push [w]"
      using read_word_again [OF "2.prems"(1) Push hr] by auto
    then show ?thesis by cases (simp_all add: out ih)
  next
    case PushNext
    show ?thesis
    proof (cases iter)
      case Nil
      then show ?thesis using "2.prems" PushNext by auto
    next
      case (Cons n iter')
      then obtain rest where rest: "normalize r command iter' = Inr rest" and out: "out = arg # n # rest"
        using "2.prems" PushNext by (auto simp: and_then_Inr)
      have ih: "normalize r command rest = Inr rest" by (rule "2.IH"(2) [OF PushNext Cons "2.prems"(1) rest])
      show ?thesis using PushNext by (simp add: out ih head_def Cons)
    qed
  qed (use "2.prems" in auto)
qed

section \<open>The table of flags\<close>

text \<open>No flag that can be negated, and not \<open>subcommands\<close>, has a name or an old name whose \<open>no\<close> form is a name.\<close>

definition flag_names :: "flag_info \<Rightarrow> string list" where
  "flag_names f = fl_name f # (case old_name f of Some n \<Rightarrow> [n] | None \<Rightarrow> [])"

definition no_clash :: "flag_info list \<Rightarrow> bool" where
  "no_clash flags \<longleftrightarrow> (let names = concat (map flag_names flags)
     in ''nosubcommands'' \<notin> set names \<and> list_all (\<lambda>f. has_negative_flag f \<longrightarrow> list_all (\<lambda>n. ''no'' @ n \<notin> set names) (flag_names f)) flags)"

lemma flag_known_name:
  assumes "table_ok flags" "flag_known (build_registry flags) command n = Some f"
  shows "f \<in> set flags \<and> n \<in> set (flag_names f) \<and> command \<in> set (fl_commands f)"
proof -
  have d: "distinct (map fl_name flags)" using assms(1) by (simp add: table_ok_def)
  have b: "by_name (build_registry flags) n = Some f" and "command \<in> set (fl_commands f)"
    using assms(2) by (auto simp: flag_known_def flag_named_def split: option.splits if_splits)
  then show ?thesis using registered_flag(1) [OF d b] by (auto simp: flag_names_def)
qed

lemma no_clash_form:
  assumes "no_clash flags" "f \<in> set flags" "has_negative_flag f" "n \<in> set (flag_names f)" "g \<in> set flags"
  shows "''no'' @ n \<notin> set (flag_names g)"
  using assms by (auto simp: no_clash_def Let_def list_all_iff)

lemma table_no_forms_free:
  assumes "table_ok flags" "no_clash flags"
  shows "no_forms_free (build_registry flags) command"
proof -
  let ?names = "concat (map flag_names flags)"
  have unnamed: "n \<notin> set ?names \<Longrightarrow> flag_known (build_registry flags) command n = None" for n
    using flag_known_name [OF assms(1), of command n] by (cases "flag_known (build_registry flags) command n") auto
  have e: "[] \<notin> set ?names" using assms(1) by (auto simp: table_ok_def flag_names_def list_all_iff)
  have no: "''no'' @ n \<notin> set ?names"
    if k: "flag_known (build_registry flags) command n = Some f" "has_negative_flag f \<or> n = ''subcommands''" for n f
  proof (cases "n = ''subcommands''")
    case True
    then show ?thesis using assms(2) by (simp add: no_clash_def Let_def)
  next
    case False
    then have "has_negative_flag f" using k(2) by simp
    then have "\<forall>g \<in> set flags. ''no'' @ n \<notin> set (flag_names g)"
      using flag_known_name [OF assms(1) k(1)] no_clash_form [OF assms(2), of f n] by blast
    then show ?thesis by simp
  qed
  show ?thesis unfolding no_forms_free_def using unnamed [OF e] unnamed [OF no] by (intro conjI allI impI)
qed


definition a_flag :: "string \<Rightarrow> string \<Rightarrow> flag_info" where
  "a_flag name converter = \<lparr> fl_name = name, has_negative_flag = (converter \<in> {''Boolean'', ''TriState''}), documentation = [],
     fl_commands = [''build''], fl_abbreviation = None, allows_multiple = False, effect_tags = [], metadata_tags = [], documentation_category = [],
     requires_value = (converter \<notin> {''Boolean'', ''TriState''}), default_value = None, old_name = None, deprecation_warning = None,
     option_expansions = [], type_converter = Some converter, enum_values = [] \<rparr>"

definition some_flags :: "flag_info list" where
  "some_flags = [a_flag ''keep_going'' ''Boolean'', a_flag ''jobs'' ''Integer'', a_flag ''cache_test_results'' ''TriState'']"


section \<open>What the words mean\<close>

text \<open>A boolean written with a value becomes the word that the registry reads as the flag, negated when the value is a no.\<close>

lemma normalized_boolean_resolves:
  assumes t: "table_ok flags" "no_clash flags" and f: "f \<in> set flags" "command \<in> set (fl_commands f)" "is_switch f" "has_negative_flag f"
    and v: "boolean v = Some on" and n: "\<not> prefix ''/'' (fl_name f)"
  shows "\<exists>w. normalize (build_registry flags) command [''--'' @ fl_name f @ ''='' @ v] = Inr [w]
    \<and> resolve_flag (build_registry flags) w command = Some (Inr \<lparr> m_flag = f, m_negated = \<not> on, m_value = None \<rparr>)"
proof -
  let ?r = "build_registry flags" and ?n = "fl_name f"
  have d: "distinct (map fl_name flags)" and e: "CHR ''='' \<notin> set ?n" and ne: "?n \<noteq> []"
    using t(1) f(1) by (auto simp: table_ok_def list_all_iff)
  have k: "flag_known ?r command ?n = Some f" using own_name_wins [OF d f(1)] f(2) by (simp add: flag_known_def flag_named_def)
  have sl: "\<not> prefix ''/'' (?n @ CHR ''='' # v)" using n ne by (cases ?n) auto
  have "read_word ?r command (''--'' @ (?n @ CHR ''='' # v)) None = Push [if on then ''--'' @ ?n else ''--no'' @ ?n]"
    by (subst read_word_long [OF _ sl split_value_attached [OF e]]) (simp_all add: k f(3,4) read_switch_def v)
  then have w: "normalize ?r command [''--'' @ ?n @ ''='' @ v] = Inr [if on then ''--'' @ ?n else ''--no'' @ ?n]" by (simp add: head_def)
  have neg: "negatable ?r ?n = Some f"
    using find_own_name [OF d f(1)] f(4) by (auto simp: negatable_exact [OF d] find_Some_iff)
  have "by_name ?r (''no'' @ ?n) = None"
  proof (rule ccontr)
    assume "by_name ?r (''no'' @ ?n) \<noteq> None"
    then obtain g where "g \<in> set flags" "''no'' @ ?n \<in> set (flag_names g)"
      using registered_flag(1) [OF d] by (fastforce simp: flag_names_def)
    moreover have "?n \<in> set (flag_names f)" by (simp add: flag_names_def)
    ultimately show False using no_clash_form [OF t(2) f(1,4)] by blast
  qed
  then have "resolve_long ?r (''no'' @ ?n) = Some (f, True, None)"
    using neg e split_value_plain [of "''no'' @ ?n"] strip_prefix_append [of "''no''" ?n] by (simp add: resolve_long_def del: strip_prefix_append)
  then have "resolve_flag ?r (''--no'' @ ?n) command = Some (Inr \<lparr> m_flag = f, m_negated = True, m_value = None \<rparr>)"
    using f(2) by (simp add: resolve_flag_def)
  then show ?thesis using w resolve_own_name(1) [OF t(1) f(1,2)] by (cases on) simp_all
qed

lemma percentage_bounds: "wrong_value ''Percentage'' n v = None \<longleftrightarrow> (\<exists>k. parse_signed 32 v = Some k \<and> 0 \<le> k \<and> k \<le> 100)"
  by (auto simp: wrong_value_def split: option.splits if_splits)

end
