(* ===== verification/Spec2Isabelle.thy ===== *)
theory Spec2Isabelle
  imports Publish_Protocol Persistence_Protocol Dynamic_Protocol Disk_Cache_Protocol Daemon_Protocol
    Scheduler_Protocol Version_Selection Target_Pattern Visibility Test_Suite
    Conflicts Action_Run Engine Query_Correct Patch_Files Bazelrc_Ends Glob_Ends Option_Syntax
begin

text \<open>
  This library verifies parts of \<open>fjfj\<close>, a build tool in Rust that does what Bazel does. The sources are the
  crates under \<open>src/crates/\<close>; every theory names the files it follows.

  \<^bold>\<open>The program.\<close> \<open>fjfj\<close> resolves the modules of a workspace (\<open>fjfj-bzlmod\<close>), loads packages and analyses targets
  (\<open>fjfj-loading\<close>, \<open>fjfj-analysis\<close>, with the data types of \<open>fjfj-graph\<close>), runs the resulting actions and remembers what it
  ran (\<open>fjfj-exec\<close>), all on an incremental engine (\<open>fjfj-engine\<close>). The crate \<open>fjfj-models\<close> holds the designs
  of its concurrent protocols as transition systems for the Stateright model checker, which explores them
  up to small bounds; here they are proved for all bounds.

  \<^bold>\<open>The prelude.\<close> \<open>Rust_Base\<close> has the machine integers, \<open>Result\<close> as a sum with the error on the left, and the \<open>?\<close>
  operator; \<open>Rust_Ord\<close> has \<open>Ordering\<close> and the laws of \<open>Ord\<close> as the locale \<open>rust_ord\<close>; \<open>Rust_Collections\<close> has \<open>BTreeMap\<close>
  and \<open>BTreeSet\<close>, the locale \<open>ordered_map\<close> being what a client may rely on and the sorted association list providing
  it; \<open>Rust_Str\<close> and \<open>Rust_Text\<close> have the string functions, on bytes, and \<open>Rust_Path\<close> paths as lists of components; \<open>Longest_Chain\<close> has the
  heaviest chains of an acyclic graph; \<open>Stateright\<close> has what a Stateright model is, its reachable states and
  the meaning of \<open>always\<close> and \<open>sometimes\<close>, with the locale \<open>model_invariant\<close> for invariants and the locale \<open>ranked_model\<close>
  for runs that end.

  \<^bold>\<open>The protocols\<close> (\<open>fjfj-models/src\<close>). Each theory has the state, the actions, the transition function and the checked
  properties of one file: \<open>Publish_Protocol\<close> (\<open>publish.rs\<close>), \<open>Persistence_Protocol\<close> (\<open>compaction.rs\<close>), \<open>Dynamic_Protocol\<close>
  (\<open>dynamic.rs\<close>), \<open>Disk_Cache_Protocol\<close> (\<open>disk_cache.rs\<close>), \<open>Daemon_Protocol\<close> (\<open>daemon.rs\<close>) and \<open>Scheduler_Protocol\<close>
  (\<open>scheduler.rs\<close>). For each it is proved that the properties hold, for all bounds, exactly when the switch of
  the model that stands for the correct design is on, and that runs end or can recover. Counters are \<open>u8\<close> words
  and are proved not to overflow.

  \<^bold>\<open>Module resolution\<close> (\<open>fjfj-bzlmod/src\<close>). \<open>Module_Version\<close> (\<open>version.rs\<close>) has parsing, printing and the order of versions:
  the accepted grammar, the round trip, and that the comparison is a linear order. \<open>Bzlmod_Module\<close> (\<open>module.rs\<close>, \<open>overrides.rs\<close>,
  \<open>attrs.rs\<close>, \<open>error.rs\<close>) has modules and their keys, with canonical repository names telling modules apart.
  \<open>Version_Selection\<close> (\<open>selection.rs\<close>) has the whole of minimal version selection: which version is selected, the closure of the
  selected graph, when it fails, and what a multiple-version override does. The walk recurses on the keys it has not
  met yet, which bounds it.

  \<^bold>\<open>Labels and what they select\<close> (\<open>fjfj-graph/src\<close>). \<open>Labels\<close> (\<open>label.rs\<close>, \<open>parse.rs\<close>, \<open>lib.rs\<close>) has the name rules, the parser
  and the printer: a grammar of target names, that what parses is legal, and the round trip. \<open>Target_Pattern\<close> (\<open>pattern.rs\<close>) has
  the patterns of the command line, with relative patterns resolving as absolute ones. \<open>Visibility\<close> (\<open>visibility.rs\<close>) and
  \<open>Test_Suite\<close> (\<open>suite.rs\<close>) have two graph searches, as partial functions into \<open>option\<close>, with proofs that they return
  when there are finitely many groups or suites and that they compute what the groups and suites mean.

  \<^bold>\<open>Actions\<close> (\<open>fjfj-graph/src\<close>, \<open>fjfj-exec/src\<close>). \<open>Artifacts\<close> (\<open>artifact.rs\<close>) has nested sets with their addresses, and the
  listing that skips what it has visited equals a postorder. \<open>Command_Line\<close> (\<open>command_line.rs\<close>) has the words of a command,
  parameter files and the tokenizer that reads them back, on code points. \<open>Actions\<close> (\<open>action.rs\<close>) has actions and the bytes hashed
  for their keys, with a pair of commands whose keys collide. \<open>Conflicts\<close> (\<open>conflicts.rs\<close>) has the search for actions that cannot be
  together. \<open>Action_Cache\<close> (\<open>fjfj-exec/src/cache.rs\<close>) has the cache that decides whether an action runs. SHA-256, hexadecimal text
  and the text of \<open>derive(Debug)\<close> come from outside and are arguments; no law is assumed of them.

  \<^bold>\<open>Running actions\<close> (\<open>fjfj-exec/src\<close>). \<open>Slots\<close> (\<open>slots.rs\<close>) has the job slots, with calls that may be abandoned: none is lost but to a call
  abandoned between being handed a slot and taking it, and a slot goes to the waiting call of greatest rank. \<open>Action_Graph\<close> (\<open>run.rs\<close>) has the
  graph of actions: the number of actions a request needs, their ranks and the critical path are what the longest chains
  are. \<open>Action_Run\<close> (\<open>run.rs\<close>) has the scheduler as a transition system, one task per action whose steps interleave, with outcomes and cache hits
  free: what runs is ready, the jobs are kept to, nothing starts after a failure has stopped the build, and every build ends. The steps of a
  task are the stretches of \<open>run_now\<close> between its \<open>await\<close>s.

  \<^bold>\<open>Packages and globs\<close> (\<open>fjfj-loading/src\<close>). \<open>Rust_Fs\<close> has the calls of \<open>std::fs\<close> as a record of functions, with what the proofs rely on: a
  directory lists exactly the entries that can be looked up. \<open>Glob_Match\<close> (\<open>glob.rs\<close>) has the patterns and the matcher, which decides what a pattern stands
  for. \<open>Package_Lookup\<close> (\<open>lookup.rs\<close>) has \<open>.bazelignore\<close>, BUILD files and the walk for packages, on a loop shared with \<open>subpackages\<close> that
  remembers the real paths it has walked. \<open>Glob\<close> has the walk of a pattern, \<open>Glob_Correct\<close> proves that it finds exactly what is visible and
  picked, and \<open>Glob_Ends\<close> that it returns whatever the links and what \<open>subpackages\<close> lists. The fuel of \<open>visit_dir\<close> bounds the depth of the
  walk; from some number on there is a result, and it does not depend on the fuel. \<open>Rust_Fuel\<close> has results with fuel.

  \<^bold>\<open>Patches\<close> (\<open>fjfj-archive/src/patch.rs\<close>). \<open>Patch\<close> has reading a unified diff and applying its hunks to lines; a printed diff turns
  the old lines into the new ones. \<open>Patch_Files\<close> has \<open>apply_patch\<close> on a file system without symbolic links: what it changes
  stays below the directory, and a printed patch turns the old file into the new one.

  \<^bold>\<open>Bazelrc files\<close> (\<open>fjfj-bazel-compat/src/bazelrc\<close>). \<open>Bazelrc\<close> (\<open>ast.rs\<close>, \<open>parse.rs\<close>, \<open>resolve.rs\<close>) has joining and reading lines, imports, the expansion
  of \<open>--config\<close> and what \<open>--announce_rc\<close> says. The split of a line into words is an argument. Expansion is
  exact: an inductive relation says which flags a list of flags stands for. The fuel bounds how deep files import and configurations name each other; one
  more than the number of files or of lines is enough. \<open>Bazelrc_Ends\<close> shows that, and that announcing ends after expansion
  has succeeded, save for a file with a \<open>--config\<close> at the end of a line.

  \<^bold>\<open>Options\<close> (\<open>fjfj-bazel-compat/src\<close>). \<open>Flag_Registry\<close> (\<open>flag_registry.rs\<close>, \<open>canonicalize_flags.rs\<close>, \<open>flag_alias.rs\<close>) has the maps over the table of
  flags, which is an argument, and the reading of a flag word: a flag's own name wins over an old name, canonical words stay as they are, and a word
  with a letter of several bytes after one dash panics. \<open>Option_Syntax\<close> (\<open>option_syntax.rs\<close>) has the rewriting of options; its results are
  stable, and a boolean written with a value is read as the value says.

  \<^bold>\<open>Queries\<close> (\<open>fjfj-query/src\<close>). \<open>Query_Ast\<close> (\<open>ast.rs\<close>) has the expressions, the functions of each dialect and the printer, \<open>Query_Parse\<close>
  (\<open>parse.rs\<close>) the lexer and the parser, with a proof that parsing ends, never panics and gives well-formed calls; the fuel of \<open>expression\<close>
  bounds the nesting by the number of tokens. \<open>Query_Print\<close> has the round trip of printing and parsing. \<open>Attr_Value\<close>
  (\<open>fjfj-graph/src/rule.rs\<close>) and \<open>Query_Graph\<close> (\<open>graph.rs\<close>) have what the evaluator reads, the trait \<open>Graph\<close> being a record of functions,
  and \<open>Query_Eval\<close> (\<open>eval.rs\<close>) has the evaluator, whose fields behind a \<open>Mutex\<close> are passed along. \<open>Graph_Search\<close> has the theory of searches by levels, as
  the locale \<open>level_loop\<close>, and with a queue; \<open>Query_Logic\<close> has a logic of total correctness for the evaluator, interprets the locale on
  the loops of \<open>deps\<close> and \<open>rdeps\<close> and proves that \<open>somepath\<close> finds a shortest path; \<open>Query_Correct\<close> has the meaning of every function and the
  theorem that a query that parses evaluates to it.

  \<^bold>\<open>The engine\<close> (\<open>fjfj-engine/src/lib.rs\<close>). \<open>Wait_Graph\<close> has the waits between computations, which stay acyclic. \<open>Engine\<close> has
  evaluation with versions, early cutoff and dirty nodes for one request at a time, and a refinement proof: every request
  gives what evaluation from scratch gives. The fuel of \<open>evaluate\<close> bounds the chain of computations that wait on each other; as much as
  evaluation from scratch needs is enough, and so is more. A second theorem shows an error of a cycle that
  outlives the cycle.

  \<^bold>\<open>Not modelled.\<close> Module discovery, registries and the lock file,
  packages and configurations are pure enough to be modelled and are not yet. The phases that run Starlark, the vendored Starlark
  interpreter, downloads, archives, processes, sandboxes, the console and telemetry are input and output or third-party code. Of the options, the gate that runs the parser of the
  crate \<open>clap\<close> and the structures options are read into are left out. Of running actions, what a command does and the console are left out. Of
  queries, the output formats are left out, and evaluation with \<open>--keep_going\<close> or a universe is modelled but its results are not
  specified. Of the engine, the interleaving of concurrent requests is only in the scheduler protocol; of the action cache, loading and saving
  are left out.
\<close>

end
